(* ===== verification/KPrelude.thy ===== *)
theory KPrelude
  imports Main "HOL-Library.Word" "HOL-Library.Monad_Syntax"
begin

text \<open>
  Shared vocabulary of the development: the machine types of the 64-bit big-endian OCTEON
  configuration, error numbers, bounds-checked access to C arrays, block copies, and the generic
  lemmas on options, lists and words that the component theories use.

  Conventions. A value of type \<open>'a option\<close> returned by an operation says whether the C code
  runs to completion: \<open>None\<close> stands for an access outside an array, a \<open>BUG_ON\<close> that
  fires, a \<open>panic\<close>, or any other undefined behaviour, and \<open>Some\<close> carries the final state
  and the C return value. C return codes are integers; \<open>- EBUSY\<close> is written as in the code.
  A C identifier that starts with two underscores is spelled with the prefix \<open>raw_\<close>.
\<close>

unbundle bit_operations_syntax

type_synonym u8 = "8 word"
type_synonym u16 = "16 word"
type_synonym u32 = "32 word"
type_synonym u64 = "64 word"
type_synonym ulong = "64 word"
type_synonym bytes = "8 word list"

abbreviation BITS_PER_LONG :: nat where "BITS_PER_LONG \<equiv> 64"

section \<open>Error numbers\<close>

text \<open>The values of \<open>include/asm-generic/errno-base.h\<close> that the modelled code returns.\<close>

named_theorems errno_defs \<open>values of the error numbers\<close>

definition E2BIG :: int where [errno_defs]: "E2BIG = 7"
definition EAGAIN :: int where [errno_defs]: "EAGAIN = 11"
definition ENOMEM :: int where [errno_defs]: "ENOMEM = 12"
definition EFAULT :: int where [errno_defs]: "EFAULT = 14"
definition EBUSY :: int where [errno_defs]: "EBUSY = 16"
definition EINVAL :: int where [errno_defs]: "EINVAL = 22"
definition ERANGE :: int where [errno_defs]: "ERANGE = 34"

section \<open>Arrays\<close>

named_theorems array_simps \<open>rewriting of bounds-checked array operations\<close>

definition rd :: "'a list \<Rightarrow> nat \<Rightarrow> 'a option" where
  "rd xs i = (if i < length xs then Some (xs ! i) else None)"

definition wr :: "'a list \<Rightarrow> nat \<Rightarrow> 'a \<Rightarrow> 'a list option" where
  "wr xs i v = (if i < length xs then Some (xs[i := v]) else None)"

definition memcpy :: "'a list \<Rightarrow> nat \<Rightarrow> 'a list \<Rightarrow> nat \<Rightarrow> nat \<Rightarrow> 'a list option" where
  "memcpy dst d src s n =
     (if d + n \<le> length dst \<and> s + n \<le> length src
      then Some (take d dst @ take n (drop s src) @ drop (d + n) dst) else None)"

definition memset :: "'a list \<Rightarrow> nat \<Rightarrow> 'a \<Rightarrow> nat \<Rightarrow> 'a list option" where
  "memset dst d v n =
     (if d + n \<le> length dst then Some (take d dst @ replicate n v @ drop (d + n) dst) else None)"

lemma rd_in [simp, array_simps]: "i < length xs \<Longrightarrow> rd xs i = Some (xs ! i)"
  by (simp add: rd_def)

lemma rd_out [simp]: "length xs \<le> i \<Longrightarrow> rd xs i = None"
  by (simp add: rd_def)

lemma rd_eq_Some [simp]: "rd xs i = Some v \<longleftrightarrow> i < length xs \<and> v = xs ! i"
  by (auto simp: rd_def)

lemma wr_in [simp, array_simps]: "i < length xs \<Longrightarrow> wr xs i v = Some (xs[i := v])"
  by (simp add: wr_def)

lemma wr_out [simp]: "length xs \<le> i \<Longrightarrow> wr xs i v = None"
  by (simp add: wr_def)

lemma wr_eq_Some [simp]: "wr xs i v = Some ys \<longleftrightarrow> i < length xs \<and> ys = xs[i := v]"
  by (auto simp: wr_def)

lemma memcpy_eq_Some:
  "memcpy dst d src s n = Some ys \<longleftrightarrow>
     d + n \<le> length dst \<and> s + n \<le> length src \<and>
     ys = take d dst @ take n (drop s src) @ drop (d + n) dst"
  by (auto simp: memcpy_def)

lemma memcpy_total: "d + n \<le> length dst \<Longrightarrow> s + n \<le> length src \<Longrightarrow> \<exists>ys. memcpy dst d src s n = Some ys"
  by (simp add: memcpy_def)

lemma length_memcpy: "memcpy dst d src s n = Some ys \<Longrightarrow> length ys = length dst"
  by (auto simp: memcpy_eq_Some)

lemma nth_memcpy:
  assumes "memcpy dst d src s n = Some ys" and "i < length dst"
  shows "ys ! i = (if d \<le> i \<and> i < d + n then src ! (s + (i - d)) else dst ! i)"
proof -
  from assms(1) have len: "length (take n (drop s src)) = n" "length (take d dst) = d"
    and ys: "ys = take d dst @ take n (drop s src) @ drop (d + n) dst"
    by (auto simp: memcpy_eq_Some)
  show ?thesis using assms len by (auto simp: ys nth_append memcpy_eq_Some)
qed

lemma length_memset: "memset dst d v n = Some ys \<Longrightarrow> length ys = length dst"
  by (auto simp: memset_def split: if_splits)

lemma nth_memset:
  assumes "memset dst d v n = Some ys" and "i < length dst"
  shows "ys ! i = (if d \<le> i \<and> i < d + n then v else dst ! i)"
  using assms by (auto simp: memset_def nth_append split: if_splits)

section \<open>Options\<close>

lemma bind_split_Some [simp]:
  "(Option.bind m f = Some y) \<longleftrightarrow> (\<exists>x. m = Some x \<and> f x = Some y)"
  by (cases m) auto

section \<open>Counted loops\<close>

text \<open>
  \<open>for (k = 0; k < n; k++)\<close> with a body that updates a state is \<open>foldM\<close> over
  \<open>[0..<n]\<close>; a loop that returns early as soon as a test succeeds is \<open>anyM\<close>.
\<close>

fun foldM :: "('a \<Rightarrow> 's \<Rightarrow> 's option) \<Rightarrow> 'a list \<Rightarrow> 's \<Rightarrow> 's option" where
  "foldM f [] s = Some s"
| "foldM f (x # xs) s = do { s' \<leftarrow> f x s; foldM f xs s' }"

fun anyM :: "('a \<Rightarrow> bool option) \<Rightarrow> 'a list \<Rightarrow> bool option" where
  "anyM f [] = Some False"
| "anyM f (x # xs) = do { b \<leftarrow> f x; if b then Some True else anyM f xs }"

lemma foldM_append: "foldM f (xs @ ys) s = do { s' \<leftarrow> foldM f xs s; foldM f ys s' }"
  by (induction xs arbitrary: s) (auto split: Option.bind_splits)

lemma foldM_total:
  assumes "I 0 s" and "\<And>k s. k < length xs \<Longrightarrow> I k s \<Longrightarrow> \<exists>s'. f (xs ! k) s = Some s' \<and> I (Suc k) s'"
  shows "\<exists>s'. foldM f xs s = Some s' \<and> I (length xs) s'"
  using assms
proof (induction xs arbitrary: s I)
  case Nil
  then show ?case by simp
next
  case (Cons x xs)
  obtain s1 where s1: "f x s = Some s1" "I 1 s1" using Cons.prems(2) [of 0 s] Cons.prems(1) by auto
  have "\<exists>s'. foldM f xs s1 = Some s' \<and> I (Suc (length xs)) s'"
    by (rule Cons.IH [of "\<lambda>k. I (Suc k)"]) (use s1 Cons.prems(2) [of "Suc _"] in auto)
  then show ?case using s1 by simp
qed

lemma foldM_upt_total:
  assumes "I lo s" and "lo \<le> hi"
    and "\<And>k s. lo \<le> k \<Longrightarrow> k < hi \<Longrightarrow> I k s \<Longrightarrow> \<exists>s'. f k s = Some s' \<and> I (Suc k) s'"
  shows "\<exists>s'. foldM f [lo..<hi] s = Some s' \<and> I hi s'"
  using foldM_total [of "\<lambda>k. I (lo + k)" s "[lo..<hi]" f] assms by simp

lemma anyM_total:
  assumes "\<And>x. x \<in> set xs \<Longrightarrow> f x = Some (P x)"
  shows "anyM f xs = Some (\<exists>x \<in> set xs. P x)"
  using assms by (induction xs) auto

section \<open>Words\<close>

named_theorems unat_simps \<open>word arithmetic read through unat\<close>

lemma bit_unat [simp]: "bit (unat (w :: 'a::len word)) n \<longleftrightarrow> bit w n"
  by (auto simp: bit_unsigned_iff dest: bit_imp_le_length)

lemma unat_exp [unat_simps]: "h < LENGTH('a) \<Longrightarrow> unat (2 ^ h :: 'a::len word) = 2 ^ h"
  using unat_of_nat [of "2 ^ h", where 'a = 'a] by (simp add: take_bit_eq_mod)

lemma unat_add_less [unat_simps]:
  fixes a b :: "'a::len word"
  shows "unat a + unat b < 2 ^ LENGTH('a) \<Longrightarrow> unat (a + b) = unat a + unat b"
  by (simp add: unat_word_ariths)

lemma unat_diff [unat_simps]:
  fixes a b :: "'a::len word"
  shows "unat b \<le> unat a \<Longrightarrow> unat (a - b) = unat a - unat b"
  by (simp add: unat_sub word_le_nat_alt)

lemma unat_lt: "unat (w :: 'a::len word) < 2 ^ LENGTH('a)"
  by (rule unsigned_less)

lemma unat_pred: "(n :: 'a::len word) \<noteq> 0 \<Longrightarrow> unat (n - 1) = unat n - 1"
  by (simp add: unat_minus_one)

section \<open>Alignment\<close>

text \<open>
  \<open>(x + mask) & ~mask\<close> rounds \<open>x\<close> up to the next multiple of a power of two, \<open>round_up\<close> on naturals.
\<close>

lemma and_not_mask_eq: "(w :: 'a::len word) AND NOT (mask k) = push_bit k (drop_bit k w)"
  by (rule bit_word_eqI) (auto simp: bit_simps)

lemma unat_and_not_mask:
  "unat ((w :: 'a::len word) AND NOT (mask k)) = unat w div 2 ^ k * 2 ^ k"
proof -
  have "unat w div 2 ^ k * 2 ^ k < 2 ^ LENGTH('a)"
    by (rule le_less_trans [OF div_times_less_eq_dividend unsigned_less])
  then show ?thesis
    by (simp add: and_not_mask_eq unsigned_push_bit_eq unsigned_drop_bit_eq)
       (simp add: take_bit_nat_eq_self push_bit_eq_mult drop_bit_eq_div)
qed

lemma unat_and_mask: "unat ((w :: 'a::len word) AND mask k) = unat w mod 2 ^ k"
  by (simp add: unsigned_take_bit_eq flip: take_bit_eq_mask) (simp add: take_bit_eq_mod)

definition round_up :: "nat \<Rightarrow> nat \<Rightarrow> nat" where
  "round_up x a = (x + (a - 1)) div a * a"

lemma round_up:
  assumes "0 < a"
  shows "a dvd round_up x a" "x \<le> round_up x a" "round_up x a < x + a"
    "a dvd y \<Longrightarrow> x \<le> y \<Longrightarrow> round_up x a \<le> y"
proof -
  let ?q = "(x + (a - 1)) div a"
  have e: "?q * a + (x + (a - 1)) mod a = x + (a - 1)" by (rule div_mult_mod_eq)
  have m: "(x + (a - 1)) mod a < a" using assms by simp
  show "a dvd round_up x a" by (simp add: round_up_def)
  show "x \<le> round_up x a" "round_up x a < x + a" unfolding round_up_def using e m assms by linarith+
  show "round_up x a \<le> y" if y: "a dvd y" "x \<le> y"
  proof -
    obtain z where z: "y = a * z" using y(1) by (rule dvdE)
    have "?q \<le> z"
    proof (rule ccontr)
      assume "\<not> ?q \<le> z"
      then have "a * Suc z \<le> a * ?q" by (intro mult_le_mono2) simp
      moreover have "a * Suc z = a + a * z" "a * ?q = ?q * a" by simp_all
      ultimately show False using e y(2) z assms by linarith
    qed
    then show ?thesis unfolding round_up_def z mult.commute [of a] by (rule mult_le_mono1)
  qed
qed

lemma unat_round_up:
  fixes x :: "'a::len word"
  assumes "k < LENGTH('a)" and "unat x + (2 ^ k - 1) < 2 ^ LENGTH('a)"
  shows "unat ((x + mask k) AND NOT (mask k)) = round_up (unat x) (2 ^ k)"
proof -
  have "unat (mask k :: 'a word) = 2 ^ k - 1"
    using assms(1) by (simp add: mask_eq_exp_minus_1 unat_pred unat_exp)
  then show ?thesis
    using assms by (simp add: unat_and_not_mask unat_add_less round_up_def)
qed
section \<open>Searches\<close>

text \<open>What a forward search promises: the least solution from a starting point, or that there is none.\<close>

definition least_from :: "(nat \<Rightarrow> bool) \<Rightarrow> nat \<Rightarrow> nat \<Rightarrow> bool" where
  "least_from P lo q \<longleftrightarrow> lo \<le> q \<and> P q \<and> (\<forall>r. lo \<le> r \<and> r < q \<longrightarrow> \<not> P r)"

definition none_from :: "(nat \<Rightarrow> bool) \<Rightarrow> nat \<Rightarrow> bool" where
  "none_from P lo \<longleftrightarrow> (\<forall>r\<ge>lo. \<not> P r)"

lemma search_skip:
  assumes "lo \<le> lo'" "\<And>r. lo \<le> r \<Longrightarrow> P r \<Longrightarrow> lo' \<le> r"
  shows "least_from P lo' q \<Longrightarrow> least_from P lo q" "none_from P lo' \<Longrightarrow> none_from P lo"
  using assms by (auto simp: least_from_def none_from_def)

lemma search_here: "P lo' \<Longrightarrow> lo \<le> lo' \<Longrightarrow> (\<And>r. lo \<le> r \<Longrightarrow> P r \<Longrightarrow> lo' \<le> r) \<Longrightarrow> least_from P lo lo'"
  by (auto simp: least_from_def not_le [symmetric])

end
