(* ===== verification/Bitops.thy ===== *)
theory Bitops
  imports KPrelude
begin

text \<open>
  Single-word and bit-array primitives: the portable bodies of \<open>__fls\<close>, \<open>__ffs\<close>,
  \<open>fls\<close>, \<open>ffs\<close>, \<open>fls64\<close> and \<open>ffz\<close>, the power-of-two helpers of
  \<open>include/linux/log2.h\<close>, the non-atomic bit operations on arrays of longs and the
  Hamming weights of \<open>lib/hweight.c\<close>. Each search is shown to return the extremal set bit.
\<close>

section \<open>Searching a word\<close>

text \<open>
  \<open>arch/mips/include/asm/bitops.h\<close>, the portable branch of \<open>__fls\<close>: a binary search
  that shifts the highest set bit up to position 63 and counts the distance.
\<close>

definition raw_fls :: "ulong \<Rightarrow> int" where
  "raw_fls word =
    (let num = 63;
         (num, word) = (if word AND push_bit 32 (NOT 0) = 0
                        then (num - 32, push_bit 32 word) else (num, word));
         (num, word) = (if word AND push_bit (BITS_PER_LONG - 16) (NOT 0) = 0
                        then (num - 16, push_bit 16 word) else (num, word));
         (num, word) = (if word AND push_bit (BITS_PER_LONG - 8) (NOT 0) = 0
                        then (num - 8, push_bit 8 word) else (num, word));
         (num, word) = (if word AND push_bit (BITS_PER_LONG - 4) (NOT 0) = 0
                        then (num - 4, push_bit 4 word) else (num, word));
         (num, word) = (if word AND push_bit (BITS_PER_LONG - 2) (NOT 0) = 0
                        then (num - 2, push_bit 2 word) else (num, word));
         num = (if word AND push_bit (BITS_PER_LONG - 1) (NOT 0) = 0 then num - 1 else num)
     in num)"

definition raw_ffs :: "ulong \<Rightarrow> int" where
  "raw_ffs word = raw_fls (word AND - word)"

definition ffz :: "ulong \<Rightarrow> int" where
  "ffz x = raw_ffs (NOT x)"

definition fls64 :: "u64 \<Rightarrow> int" where
  "fls64 x = (if x = 0 then 0 else raw_fls x + 1)"

definition fls_long :: "ulong \<Rightarrow> int" where
  "fls_long l = fls64 l"

definition fls :: "u32 \<Rightarrow> int" where
  "fls x =
    (let r = 32 in
     if x = 0 then 0 else
     let (r, x) = (if x AND 0xffff0000 = 0 then (r - 16, push_bit 16 x) else (r, x));
         (r, x) = (if x AND 0xff000000 = 0 then (r - 8, push_bit 8 x) else (r, x));
         (r, x) = (if x AND 0xf0000000 = 0 then (r - 4, push_bit 4 x) else (r, x));
         (r, x) = (if x AND 0xc0000000 = 0 then (r - 2, push_bit 2 x) else (r, x));
         (r, x) = (if x AND 0x80000000 = 0 then (r - 1, push_bit 1 x) else (r, x))
     in r)"

definition ffs :: "u32 \<Rightarrow> int" where
  "ffs word = (if word = 0 then 0 else fls (word AND - word))"

text \<open>The specification of a most significant and of a least significant set bit.\<close>

definition top_bit :: "'a::len word \<Rightarrow> nat \<Rightarrow> bool" where
  "top_bit w h \<longleftrightarrow> bit w h \<and> (\<forall>j>h. \<not> bit w j)"

definition low_bit :: "'a::len word \<Rightarrow> nat \<Rightarrow> bool" where
  "low_bit w l \<longleftrightarrow> bit w l \<and> (\<forall>j<l. \<not> bit w j)"

lemma top_bit_less: "top_bit (w :: 'a::len word) h \<Longrightarrow> h < LENGTH('a)"
  by (auto simp: top_bit_def bit_imp_le_length)

lemma top_bit_unique: "top_bit w h \<Longrightarrow> top_bit w k \<Longrightarrow> h = k"
  by (cases h k rule: linorder_cases) (auto simp: top_bit_def)

lemma low_bit_unique: "low_bit w h \<Longrightarrow> low_bit w k \<Longrightarrow> h = k"
  by (cases h k rule: linorder_cases) (auto simp: low_bit_def)

lemma nonzero_has_bit: "(w :: 'a::len word) \<noteq> 0 \<Longrightarrow> \<exists>n < LENGTH('a). bit w n"
proof -
  assume "w \<noteq> 0"
  then obtain n where "bit w n" by (auto simp: bit_eq_iff)
  then show ?thesis by (auto dest: bit_imp_le_length)
qed

lemma top_bit_exists: "(w :: 'a::len word) \<noteq> 0 \<Longrightarrow> \<exists>h. top_bit w h"
proof -
  assume "w \<noteq> 0"
  then have ne: "{n. bit w n} \<noteq> {}" using nonzero_has_bit by auto
  have fin: "finite {n. bit w n}"
    by (rule finite_subset [of _ "{..<LENGTH('a)}"]) (auto simp: bit_imp_le_length)
  have "top_bit w (Max {n. bit w n})"
    unfolding top_bit_def using Max_in [OF fin ne] Max_ge [OF fin] by (auto simp: leD)
  then show ?thesis by blast
qed

lemma low_bit_exists: "(w :: 'a::len word) \<noteq> 0 \<Longrightarrow> \<exists>l. low_bit w l"
proof -
  assume "w \<noteq> 0"
  then obtain n where "bit w n" using nonzero_has_bit by blast
  then have "low_bit w (LEAST n. bit w n)"
    unfolding low_bit_def by (meson LeastI not_less_Least)
  then show ?thesis by blast
qed

lemma bit_high_mask:
  "bit (push_bit k (NOT 0) :: 'a::len word) n \<longleftrightarrow> k \<le> n \<and> n < LENGTH('a)"
  unfolding bit_push_bit_iff bit_not_iff by auto

lemma and_high_mask_eq_0_iff:
  fixes w :: "'a::len word"
  assumes "top_bit w h"
  shows "w AND push_bit k (NOT 0) = 0 \<longleftrightarrow> h < k"
proof
  assume z: "w AND push_bit k (NOT 0) = 0"
  have "\<not> bit (w AND push_bit k (NOT 0)) h" unfolding z by simp
  then show "h < k"
    using assms top_bit_less [OF assms] unfolding bit_and_iff bit_high_mask top_bit_def by auto
next
  assume "h < k"
  show "w AND push_bit k (NOT 0) = 0"
  proof (rule bit_eqI)
    fix n
    show "bit (w AND push_bit k (NOT 0)) n = bit (0 :: 'a word) n"
      using assms \<open>h < k\<close> unfolding bit_and_iff bit_high_mask top_bit_def by auto
  qed
qed

lemma top_bit_push:
  fixes w :: "'a::len word"
  assumes "top_bit w h" and "h + n < LENGTH('a)"
  shows "top_bit (push_bit n w) (h + n)"
  using assms by (auto simp: top_bit_def bit_simps)

text \<open>
  One halving step of the search, with the invariant that \<open>num + h\<close> is unchanged where \<open>h\<close>
  is the position of the highest set bit; after the step that bit lies in the upper \<open>k\<close> positions.
\<close>

definition fls_step :: "nat \<Rightarrow> int \<times> 'a::len word \<Rightarrow> int \<times> 'a word" where
  "fls_step k = (\<lambda>(num, word). if word AND push_bit (LENGTH('a) - k) (NOT 0) = 0
                              then (num - int k, push_bit k word) else (num, word))"

lemma fls_step_top:
  fixes w :: "'a::len word"
  assumes "top_bit w h" and "LENGTH('a) - 2 * k \<le> h" and "2 * k \<le> LENGTH('a)"
  obtains num' w' h' where "fls_step k (num, w) = (num', w')" "top_bit w' h'"
    "num' + int h' = num + int h" "LENGTH('a) - k \<le> h'"
proof (cases "h < LENGTH('a) - k")
  case True
  then have "h + k < LENGTH('a)" by simp
  with assms(1) have "top_bit (push_bit k w) (h + k)" by (auto intro: top_bit_push)
  moreover have "fls_step k (num, w) = (num - int k, push_bit k w)"
    using and_high_mask_eq_0_iff [OF assms(1)] True by (simp add: fls_step_def)
  ultimately show ?thesis
    using assms(2,3) True by (intro that [of "num - int k" "push_bit k w" "h + k"]) auto
next
  case False
  then have "fls_step k (num, w) = (num, w)"
    using and_high_mask_eq_0_iff [OF assms(1)] by (simp add: fls_step_def)
  then show ?thesis using assms(1) False by (intro that [of num w h]) auto
qed

lemma raw_fls_steps:
  "raw_fls w = fst (fls_step 1 (fls_step 2 (fls_step 4 (fls_step 8 (fls_step 16
                 (fls_step 32 (63, w)))))))"
proof -
  have 32: "(if word AND push_bit 32 (NOT 0) = 0 then (num - 32, push_bit 32 word)
             else (num, word)) = fls_step 32 (num, word)" for num and word :: ulong
    using fls_step_def [of 32, where 'a = 64] by simp
  have k: "(if word AND push_bit (BITS_PER_LONG - k) (NOT 0) = 0 then (num - int k, push_bit k word)
             else (num, word)) = fls_step k (num, word)" for k num and word :: ulong
    using fls_step_def [of k, where 'a = 64] by (simp only: prod.case) simp
  note ks = k [of _ 16, simplified of_nat_numeral] k [of _ 8, simplified of_nat_numeral]
    k [of _ 4, simplified of_nat_numeral] k [of _ 2, simplified of_nat_numeral]
  have 1: "(if word AND push_bit (BITS_PER_LONG - 1) (NOT 0) = 0 then num - 1 else num)
            = fst (fls_step 1 (num, word))" for num and word :: ulong
    unfolding k [of _ 1, symmetric] by (simp only: fst_conv if_distrib [of fst] of_nat_1)
  show ?thesis
    by (simp only: raw_fls_def Let_def 32 ks 1 case_prod_unfold prod.collapse)
qed

lemma raw_fls_top:
  assumes "top_bit w h"
  shows "raw_fls w = int h"
proof -
  have "h < 64" using top_bit_less [OF assms] by simp
  obtain n1 w1 h1 where 1: "fls_step 32 (63, w) = (n1, w1)" "top_bit w1 h1"
      "n1 + int h1 = 63 + int h" "LENGTH(64) - 32 \<le> h1"
    using fls_step_top [OF assms, of 32 63] by auto
  obtain n2 w2 h2 where 2: "fls_step 16 (n1, w1) = (n2, w2)" "top_bit w2 h2"
      "n2 + int h2 = n1 + int h1" "LENGTH(64) - 16 \<le> h2"
    using fls_step_top [OF 1(2), of 16 n1] 1(4) by auto
  obtain n3 w3 h3 where 3: "fls_step 8 (n2, w2) = (n3, w3)" "top_bit w3 h3"
      "n3 + int h3 = n2 + int h2" "LENGTH(64) - 8 \<le> h3"
    using fls_step_top [OF 2(2), of 8 n2] 2(4) by auto
  obtain n4 w4 h4 where 4: "fls_step 4 (n3, w3) = (n4, w4)" "top_bit w4 h4"
      "n4 + int h4 = n3 + int h3" "LENGTH(64) - 4 \<le> h4"
    using fls_step_top [OF 3(2), of 4 n3] 3(4) by auto
  obtain n5 w5 h5 where 5: "fls_step 2 (n4, w4) = (n5, w5)" "top_bit w5 h5"
      "n5 + int h5 = n4 + int h4" "LENGTH(64) - 2 \<le> h5"
    using fls_step_top [OF 4(2), of 2 n4] 4(4) by auto
  obtain n6 w6 h6 where 6: "fls_step 1 (n5, w5) = (n6, w6)" "top_bit w6 h6"
      "n6 + int h6 = n5 + int h5" "LENGTH(64) - 1 \<le> h6"
    using fls_step_top [OF 5(2), of 1 n5] 5(4) by auto
  have "h6 = 63" using 6(4) top_bit_less [OF 6(2)] by simp
  then show ?thesis
    unfolding raw_fls_steps 1(1) 2(1) 3(1) 4(1) 5(1) 6(1)
    using 1(3) 2(3) 3(3) 4(3) 5(3) 6(3) by simp
qed

lemma raw_fls_zero: "raw_fls 0 = 0"
  by (simp add: raw_fls_def)

text \<open>The lowest set bit is isolated by \<open>x & -x\<close>.\<close>

lemma odd_and_uminus: "odd (v :: 'a::len word) \<Longrightarrow> v AND - v = 1"
proof -
  assume "odd v"
  then have "even (NOT v)" by (simp add: even_not_iff)
  then have "- v = NOT v OR 1" by (simp add: or_one_eq minus_eq_not_plus_1)
  then have "v AND - v = v AND 1" by (simp add: bit.conj_disj_distrib)
  also have "\<dots> = 1" using \<open>odd v\<close> by (simp add: and_one_eq odd_iff_mod_2_eq_one)
  finally show ?thesis .
qed

lemma low_bit_push_drop:
  fixes w :: "'a::len word"
  assumes "low_bit w l"
  shows "w = push_bit l (drop_bit l w)"
proof (rule bit_eqI)
  fix n
  show "bit w n = bit (push_bit l (drop_bit l w)) n"
    using assms by (cases "n < l") (auto simp: low_bit_def bit_push_bit_iff bit_drop_bit_eq
      dest: bit_imp_le_length)
qed

lemma and_uminus_low_bit:
  fixes w :: "'a::len word"
  assumes "low_bit w l"
  shows "w AND - w = push_bit l 1"
proof -
  define v where "v = drop_bit l w"
  have w: "w = push_bit l v" using low_bit_push_drop [OF assms] by (simp add: v_def)
  have "bit v 0" using assms by (simp add: v_def low_bit_def bit_drop_bit_eq)
  then have "odd v" by (simp add: bit_0)
  have "w AND - w = push_bit l (v AND - v)"
    unfolding w push_bit_minus [symmetric] push_bit_and ..
  then show ?thesis using odd_and_uminus [OF \<open>odd v\<close>] by simp
qed

lemma top_bit_exp: "l < LENGTH('a) \<Longrightarrow> top_bit (push_bit l 1 :: 'a::len word) l"
  by (auto simp: top_bit_def bit_exp_iff)

lemma low_bit_less: "low_bit (w :: 'a::len word) l \<Longrightarrow> l < LENGTH('a)"
  by (auto simp: low_bit_def dest: bit_imp_le_length)

lemma raw_ffs_low:
  assumes "low_bit w l"
  shows "raw_ffs w = int l"
proof -
  have "l < LENGTH(64)" using low_bit_less [OF assms] .
  then have "top_bit (w AND - w) l"
    unfolding and_uminus_low_bit [OF assms] by (rule top_bit_exp)
  then show ?thesis unfolding raw_ffs_def by (rule raw_fls_top)
qed

lemma fls_steps:
  "x \<noteq> 0 \<Longrightarrow> fls x = fst (fls_step 1 (fls_step 2 (fls_step 4 (fls_step 8 (fls_step 16 (32, x))))))"
proof -
  assume nz: "x \<noteq> 0"
  have k: "(if y AND push_bit (32 - k) (NOT 0) = 0 then (r - int k, push_bit k y)
             else (r, y)) = fls_step k (r, y)" for k r and y :: u32
    using fls_step_def [of k, where 'a = 32] by (simp only: prod.case) simp
  have m: "push_bit (32 - 16) (NOT 0) = (0xffff0000 :: u32)" "push_bit (32 - 8) (NOT 0) = (0xff000000 :: u32)"
    "push_bit (32 - 4) (NOT 0) = (0xf0000000 :: u32)" "push_bit (32 - 2) (NOT 0) = (0xc0000000 :: u32)"
    "push_bit (32 - 1) (NOT 0) = (0x80000000 :: u32)"
    by code_simp+
  note ks = k [of _ 16, unfolded m of_nat_numeral] k [of _ 8, unfolded m of_nat_numeral]
    k [of _ 4, unfolded m of_nat_numeral] k [of _ 2, unfolded m of_nat_numeral]
    k [of _ 1, unfolded m of_nat_1]
  show ?thesis
    using nz by (simp only: fls_def Let_def if_False ks case_prod_unfold prod.collapse)
qed

lemma fls_top:
  assumes "top_bit x h"
  shows "fls x = int h + 1"
proof -
  have "h < 32" using top_bit_less [OF assms] by simp
  have "x \<noteq> 0" using assms by (auto simp: top_bit_def)
  obtain n2 w2 h2 where 2: "fls_step 16 (32, x) = (n2, w2)" "top_bit w2 h2"
      "n2 + int h2 = 32 + int h" "LENGTH(32) - 16 \<le> h2"
    using fls_step_top [OF assms, of 16 32] by auto
  obtain n3 w3 h3 where 3: "fls_step 8 (n2, w2) = (n3, w3)" "top_bit w3 h3"
      "n3 + int h3 = n2 + int h2" "LENGTH(32) - 8 \<le> h3"
    using fls_step_top [OF 2(2), of 8 n2] 2(4) by auto
  obtain n4 w4 h4 where 4: "fls_step 4 (n3, w3) = (n4, w4)" "top_bit w4 h4"
      "n4 + int h4 = n3 + int h3" "LENGTH(32) - 4 \<le> h4"
    using fls_step_top [OF 3(2), of 4 n3] 3(4) by auto
  obtain n5 w5 h5 where 5: "fls_step 2 (n4, w4) = (n5, w5)" "top_bit w5 h5"
      "n5 + int h5 = n4 + int h4" "LENGTH(32) - 2 \<le> h5"
    using fls_step_top [OF 4(2), of 2 n4] 4(4) by auto
  obtain n6 w6 h6 where 6: "fls_step 1 (n5, w5) = (n6, w6)" "top_bit w6 h6"
      "n6 + int h6 = n5 + int h5" "LENGTH(32) - 1 \<le> h6"
    using fls_step_top [OF 5(2), of 1 n5] 5(4) by auto
  have "h6 = 31" using 6(4) top_bit_less [OF 6(2)] by simp
  then show ?thesis
    unfolding fls_steps [OF \<open>x \<noteq> 0\<close>] 2(1) 3(1) 4(1) 5(1) 6(1)
    using 2(3) 3(3) 4(3) 5(3) 6(3) by simp
qed

lemma ffs_low:
  assumes "low_bit x l"
  shows "ffs x = int l + 1"
proof -
  have "l < LENGTH(32)" using low_bit_less [OF assms] .
  then have "top_bit (x AND - x) l"
    unfolding and_uminus_low_bit [OF assms] by (rule top_bit_exp)
  moreover have "x \<noteq> 0" using assms by (auto simp: low_bit_def)
  ultimately show ?thesis by (simp add: ffs_def fls_top)
qed

lemma ffz_low:
  assumes "low_bit (NOT x) l"
  shows "ffz x = int l"
  unfolding ffz_def using assms by (rule raw_ffs_low)

section \<open>Powers of two\<close>

definition is_power_of_2 :: "ulong \<Rightarrow> bool" where
  "is_power_of_2 n \<longleftrightarrow> n \<noteq> 0 \<and> n AND (n - 1) = 0"

text \<open>A shift by the word width is undefined in C.\<close>

definition raw_roundup_pow_of_two :: "ulong \<Rightarrow> ulong option" where
  "raw_roundup_pow_of_two n =
     (let s = fls_long (n - 1) in if s < 64 then Some (push_bit (nat s) 1) else None)"

definition raw_rounddown_pow_of_two :: "ulong \<Rightarrow> ulong option" where
  "raw_rounddown_pow_of_two n =
     (let s = fls_long n - 1 in if 0 \<le> s then Some (push_bit (nat s) 1) else None)"

lemma fls64_top: "top_bit x h \<Longrightarrow> fls64 x = int h + 1"
  by (auto simp: fls64_def raw_fls_top top_bit_def)

lemma top_bit_bounds:
  fixes w :: "'a::len word"
  assumes "top_bit w h"
  shows "2 ^ h \<le> unat w" "unat w < 2 ^ Suc h"
proof -
  have b: "bit (unat w) h" "\<And>j. h < j \<Longrightarrow> \<not> bit (unat w) j"
    using assms by (auto simp: top_bit_def)
  then have "odd (unat w div 2 ^ h)" by (simp add: bit_iff_odd)
  then show "2 ^ h \<le> unat w" by (metis div_less even_zero not_less)
  have "take_bit (Suc h) (unat w) = unat w"
    by (rule bit_eqI) (use b(2) in \<open>auto simp: bit_take_bit_iff\<close>, meson b(2) bit_unat not_less_eq)
  then show "unat w < 2 ^ Suc h" by (metis take_bit_nat_less_exp)
qed

lemma is_power_of_2_iff: "is_power_of_2 n \<longleftrightarrow> (\<exists>k<64. n = 2 ^ k)"
proof
  assume "is_power_of_2 n"
  then have nz: "n \<noteq> 0" and z: "n AND (n - 1) = 0" by (auto simp: is_power_of_2_def)
  obtain h where h: "top_bit n h" using top_bit_exists [OF nz] by blast
  have "h < 64" using top_bit_less [OF h] by simp
  note hb = top_bit_bounds [OF h]
  have "unat n = 2 ^ h"
  proof (rule ccontr)
    assume "unat n \<noteq> 2 ^ h"
    have m: "unat (n - 1) = unat n - 1" using nz by (rule unat_pred)
    with hb \<open>unat n \<noteq> 2 ^ h\<close> have r: "2 ^ h \<le> unat (n - 1)" "unat (n - 1) < 2 ^ Suc h" by auto
    then have "unat (n - 1) div 2 ^ h = 1" by (simp add: div_nat_eqI)
    then have "bit (unat (n - 1)) h" by (simp add: bit_iff_odd)
    then have "bit (n - 1) h" by simp
    moreover have "bit n h" using h by (simp add: top_bit_def)
    ultimately have "bit (n AND (n - 1)) h" by (simp add: bit_and_iff)
    with z show False by simp
  qed
  then have "n = 2 ^ h" using \<open>h < 64\<close> by (simp add: word_unat_eq_iff unat_exp)
  with \<open>h < 64\<close> show "\<exists>k<64. n = 2 ^ k" by blast
next
  assume "\<exists>k<64. n = 2 ^ k"
  then obtain k where k: "k < 64" "n = 2 ^ k" by blast
  have "n - 1 = mask k" using k by (simp add: mask_eq_exp_minus_1)
  moreover have "2 ^ k AND mask k = (0 :: ulong)"
    by (rule bit_eqI) (simp add: bit_and_iff bit_exp_iff bit_mask_iff)
  moreover have "n \<noteq> 0" using k by simp
  ultimately show "is_power_of_2 n" using k by (simp add: is_power_of_2_def)
qed

text \<open>
  \<open>roundup_pow_of_two\<close> returns the least power of two that is not below its argument, for
  arguments between 1 and \<open>2 ^ 63\<close>; outside that range the shift count is 64.
\<close>

lemma raw_roundup_pow_of_two_spec:
  assumes "0 < unat n" and "unat n \<le> 2 ^ 63"
  shows "\<exists>k<64. raw_roundup_pow_of_two n = Some (2 ^ k) \<and> unat n \<le> 2 ^ k \<and>
           (\<forall>j. unat n \<le> 2 ^ j \<longrightarrow> k \<le> j)"
proof (cases "n = 1")
  case True
  then show ?thesis
    by (auto simp: raw_roundup_pow_of_two_def fls_long_def fls64_def intro!: exI [of _ 0])
next
  case False
  have m: "unat (n - 1) = unat n - 1" using assms(1) by (intro unat_pred) auto
  have "n - 1 \<noteq> 0" using False by simp
  then obtain h where h: "top_bit (n - 1) h" using top_bit_exists by blast
  have b: "2 ^ h \<le> unat n - 1" "unat n - 1 < 2 ^ Suc h" using top_bit_bounds [OF h] m by simp_all
  have lt: "(2::nat) ^ h < 2 ^ 63" using b(1) assms by linarith
  then have "h < 63" by (rule power_less_imp_less_exp [rotated]) simp
  have "j < Suc h \<Longrightarrow> 2 ^ j \<le> (2::nat) ^ h" for j by simp
  then have least: "unat n \<le> 2 ^ j \<Longrightarrow> Suc h \<le> j" for j
    using b(1) assms(1) by (meson Suc_leI le_trans less_Suc_eq_le not_less_eq_eq diff_less zero_less_one not_le)
  have "raw_roundup_pow_of_two n = Some (2 ^ Suc h)"
    using \<open>h < 63\<close> by (simp add: raw_roundup_pow_of_two_def fls_long_def fls64_top [OF h] nat_add_distrib)
  with least b(2) \<open>h < 63\<close> show ?thesis by (intro exI [of _ "Suc h"]) auto
qed

section \<open>Bit arrays\<close>

text \<open>
  A C bitmap is an array of longs; bit \<open>nr\<close> lives in word \<open>nr / 64\<close> at position
  \<open>nr % 64\<close>. Bit numbers are non-negative in every caller, so they are naturals here.
\<close>

definition BIT_MASK :: "nat \<Rightarrow> ulong" where
  "BIT_MASK nr = push_bit (nr mod BITS_PER_LONG) 1"

definition BIT_WORD :: "nat \<Rightarrow> nat" where
  "BIT_WORD nr = nr div BITS_PER_LONG"

definition BITS_TO_LONGS :: "nat \<Rightarrow> nat" where
  "BITS_TO_LONGS nr = (nr + 64 - 1) div 64"

definition raw_set_bit :: "nat \<Rightarrow> ulong list \<Rightarrow> ulong list option" where
  "raw_set_bit nr addr =
     do { w \<leftarrow> rd addr (BIT_WORD nr); wr addr (BIT_WORD nr) (w OR BIT_MASK nr) }"

definition raw_clear_bit :: "nat \<Rightarrow> ulong list \<Rightarrow> ulong list option" where
  "raw_clear_bit nr addr =
     do { w \<leftarrow> rd addr (BIT_WORD nr); wr addr (BIT_WORD nr) (w AND NOT (BIT_MASK nr)) }"

definition raw_change_bit :: "nat \<Rightarrow> ulong list \<Rightarrow> ulong list option" where
  "raw_change_bit nr addr =
     do { w \<leftarrow> rd addr (BIT_WORD nr); wr addr (BIT_WORD nr) (w XOR BIT_MASK nr) }"

definition raw_test_and_set_bit :: "nat \<Rightarrow> ulong list \<Rightarrow> (bool \<times> ulong list) option" where
  "raw_test_and_set_bit nr addr =
     do { old \<leftarrow> rd addr (BIT_WORD nr);
          addr' \<leftarrow> wr addr (BIT_WORD nr) (old OR BIT_MASK nr);
          Some (old AND BIT_MASK nr \<noteq> 0, addr') }"

definition raw_test_and_clear_bit :: "nat \<Rightarrow> ulong list \<Rightarrow> (bool \<times> ulong list) option" where
  "raw_test_and_clear_bit nr addr =
     do { old \<leftarrow> rd addr (BIT_WORD nr);
          addr' \<leftarrow> wr addr (BIT_WORD nr) (old AND NOT (BIT_MASK nr));
          Some (old AND BIT_MASK nr \<noteq> 0, addr') }"

definition test_bit :: "nat \<Rightarrow> ulong list \<Rightarrow> bool option" where
  "test_bit nr addr =
     do { w \<leftarrow> rd addr (BIT_WORD nr); Some (1 AND drop_bit (nr mod BITS_PER_LONG) w \<noteq> 0) }"

text \<open>
  The non-LL/SC branches of the atomic \<open>set_bit\<close> and \<open>clear_bit\<close> of the MIPS port; the
  LL/SC branches have the same effect on memory.
\<close>

definition set_bit :: "nat \<Rightarrow> ulong list \<Rightarrow> ulong list option" where
  "set_bit nr addr =
     (let a = drop_bit 6 nr; mask = push_bit (nr AND 63) 1 in
      do { w \<leftarrow> rd addr a; wr addr a (w OR mask) })"

definition clear_bit :: "nat \<Rightarrow> ulong list \<Rightarrow> ulong list option" where
  "clear_bit nr addr =
     (let a = drop_bit 6 nr; mask = push_bit (nr AND 63) 1 in
      do { w \<leftarrow> rd addr a; wr addr a (w AND NOT mask) })"

text \<open>The set of bit numbers that a bitmap holds, and the number of bits it has room for.\<close>

definition bmem :: "ulong list \<Rightarrow> nat \<Rightarrow> bool" where
  "bmem addr i \<longleftrightarrow> i < 64 * length addr \<and> bit (addr ! (i div 64)) (i mod 64)"

abbreviation room :: "ulong list \<Rightarrow> nat" where
  "room addr \<equiv> 64 * length addr"

lemma word_index [simp]: "i < room addr \<Longrightarrow> i div 64 < length addr"
  by (simp add: less_mult_imp_div_less mult.commute)

lemma bit_BIT_MASK [simp]: "bit (BIT_MASK nr) n \<longleftrightarrow> n = nr mod 64"
  by (auto simp: BIT_MASK_def bit_exp_iff possible_bit_def)

lemma set_bit_eq: "set_bit nr addr = raw_set_bit nr addr"
proof -
  have "nr AND 63 = nr mod 64" using take_bit_eq_mask [of 6 nr] by (simp add: take_bit_eq_mod mask_eq_exp_minus_1)
  moreover have "drop_bit 6 nr = nr div 64" by (simp add: drop_bit_eq_div)
  ultimately show ?thesis by (simp add: set_bit_def raw_set_bit_def BIT_WORD_def BIT_MASK_def Let_def)
qed

lemma clear_bit_eq: "clear_bit nr addr = raw_clear_bit nr addr"
proof -
  have "nr AND 63 = nr mod 64" using take_bit_eq_mask [of 6 nr] by (simp add: take_bit_eq_mod mask_eq_exp_minus_1)
  moreover have "drop_bit 6 nr = nr div 64" by (simp add: drop_bit_eq_div)
  ultimately show ?thesis by (simp add: clear_bit_def raw_clear_bit_def BIT_WORD_def BIT_MASK_def Let_def)
qed

lemma test_bit_bmem: "i < room addr \<Longrightarrow> test_bit i addr = Some (bmem addr i)"
  by (simp add: test_bit_def BIT_WORD_def bmem_def one_and_eq even_drop_bit_iff_not_bit odd_iff_mod_2_eq_one [symmetric])

lemma bmem_update:
  assumes "k < length addr"
  shows "bmem (addr[k := w]) i \<longleftrightarrow> (if i div 64 = k then bit w (i mod 64) else bmem addr i)"
  using assms by (auto simp: bmem_def)

lemma same_bit_iff: "(i::nat) div 64 = j div 64 \<Longrightarrow> i mod 64 = j mod 64 \<longleftrightarrow> i = j"
  by (metis div_mult_mod_eq)

text \<open>
  What the writers do to the set of bits. They stay inside the array and change one bit only.
\<close>

lemma raw_set_bit_spec:
  assumes "nr < room addr"
  shows "\<exists>a'. raw_set_bit nr addr = Some a' \<and> length a' = length addr \<and>
              (\<forall>i. bmem a' i \<longleftrightarrow> i = nr \<or> bmem addr i)"
  using assms by (auto simp: raw_set_bit_def BIT_WORD_def nth_list_update bit_or_iff bmem_def same_bit_iff)

lemma raw_clear_bit_spec:
  assumes "nr < room addr"
  shows "\<exists>a'. raw_clear_bit nr addr = Some a' \<and> length a' = length addr \<and>
              (\<forall>i. bmem a' i \<longleftrightarrow> i \<noteq> nr \<and> bmem addr i)"
  using assms
  by (auto simp: raw_clear_bit_def BIT_WORD_def nth_list_update bit_and_iff bit_not_iff bmem_def same_bit_iff)

lemma raw_change_bit_spec:
  assumes "nr < room addr"
  shows "\<exists>a'. raw_change_bit nr addr = Some a' \<and> length a' = length addr \<and>
              (\<forall>i. bmem a' i \<longleftrightarrow> (i = nr) \<noteq> bmem addr i)"
  using assms
  by (auto simp: raw_change_bit_def BIT_WORD_def nth_list_update bit_xor_iff bmem_def same_bit_iff)

lemma and_BIT_MASK_iff: "w AND BIT_MASK nr \<noteq> 0 \<longleftrightarrow> bit w (nr mod 64)"
proof
  assume "w AND BIT_MASK nr \<noteq> 0"
  then obtain n where "bit (w AND BIT_MASK nr) n" using nonzero_has_bit by blast
  then show "bit w (nr mod 64)" by (auto simp: bit_and_iff)
next
  assume "bit w (nr mod 64)"
  then have "bit (w AND BIT_MASK nr) (nr mod 64)" by (simp add: bit_and_iff)
  then show "w AND BIT_MASK nr \<noteq> 0" by auto
qed

lemma raw_test_and_set_bit_spec:
  assumes "nr < room addr"
  shows "\<exists>a'. raw_test_and_set_bit nr addr = Some (bmem addr nr, a') \<and> raw_set_bit nr addr = Some a'"
  using assms by (auto simp: raw_test_and_set_bit_def raw_set_bit_def BIT_WORD_def bmem_def and_BIT_MASK_iff)

lemma raw_test_and_clear_bit_spec:
  assumes "nr < room addr"
  shows "\<exists>a'. raw_test_and_clear_bit nr addr = Some (bmem addr nr, a') \<and>
              raw_clear_bit nr addr = Some a'"
  using assms by (auto simp: raw_test_and_clear_bit_def raw_clear_bit_def BIT_WORD_def bmem_def and_BIT_MASK_iff)

section \<open>Hamming weight\<close>

text \<open>
  On OCTEON the weights are the compiler's population count
  (\<open>arch/mips/include/asm/bitops.h\<close> under \<open>CONFIG_CPU_CAVIUM_OCTEON\<close>).
\<close>

definition builtin_popcount :: "'a::len word \<Rightarrow> nat" where
  "builtin_popcount w = length (filter (bit w) [0..<LENGTH('a)])"

definition hweight64 :: "u64 \<Rightarrow> nat" where
  "hweight64 w = builtin_popcount w"

lemma builtin_popcount_card: "builtin_popcount w = card {i. bit w i}"
proof -
  have "{i. bit w i} = set (filter (bit w) [0..<LENGTH('a)])"
    by (auto dest: bit_imp_le_length)
  then show ?thesis by (simp add: builtin_popcount_def distinct_card [symmetric])
qed

section \<open>Scanning one word\<close>

lemma fls_0: "fls 0 = 0" and ffs_0: "ffs 0 = 0"
  by (simp_all add: fls_def ffs_def)

lemma finite_bits [simp]: "finite {i. bit (w :: 'a::len word) i}"
  by (rule finite_subset [of _ "{..<LENGTH('a)}"]) (auto dest: bit_imp_le_length)

lemma top_bit_Max: "top_bit w h \<Longrightarrow> Max {i. bit w i} = h"
  by (rule Max_eqI) (auto simp: top_bit_def not_less [symmetric])

lemma low_bit_Min: "low_bit w l \<Longrightarrow> Min {i. bit w i} = l"
  by (rule Min_eqI) (auto simp: low_bit_def not_less [symmetric])

text \<open>
  The five-step binary searches are exact: on a nonzero word \<open>__fls\<close> and \<open>fls64\<close> give the highest
  set bit (the latter counted from one), \<open>__ffs\<close> the lowest, \<open>ffz\<close> the lowest clear bit of a word
  with one, and on 32 bits \<open>fls\<close> and \<open>ffs\<close> give these positions counted from one and 0 for zero.
\<close>

theorem bit_search_correct:
  fixes w :: ulong and x :: u32
  shows "(w \<noteq> 0 \<longrightarrow> raw_fls w = int (Max {i. bit w i}) \<and> fls64 w = int (Max {i. bit w i}) + 1 \<and>
                    raw_ffs w = int (Min {i. bit w i})) \<and>
         (w \<noteq> - 1 \<longrightarrow> ffz w = int (Min {i. i < 64 \<and> \<not> bit w i})) \<and>
         fls x = (if x = 0 then 0 else int (Max {i. bit x i}) + 1) \<and>
         ffs x = (if x = 0 then 0 else int (Min {i. bit x i}) + 1)"
proof (intro conjI impI)
  assume nz: "w \<noteq> 0"
  obtain h l where hl: "top_bit w h" "low_bit w l" using top_bit_exists [OF nz] low_bit_exists [OF nz] by blast
  then show "raw_fls w = int (Max {i. bit w i})" "fls64 w = int (Max {i. bit w i}) + 1"
    "raw_ffs w = int (Min {i. bit w i})"
    by (simp_all add: raw_fls_top fls64_top raw_ffs_low top_bit_Max low_bit_Min)
next
  assume "w \<noteq> - 1"
  then have "NOT w \<noteq> 0" by (auto simp: not_eq_complement minus_equation_iff [of w])
  then obtain l where "low_bit (NOT w) l" using low_bit_exists by blast
  moreover have "{i. i < 64 \<and> \<not> bit w i} = {i. bit (NOT w) i}" by (auto simp: bit_not_iff possible_bit_def)
  ultimately show "ffz w = int (Min {i. i < 64 \<and> \<not> bit w i})" by (simp add: ffz_low low_bit_Min)
next
  show "fls x = (if x = 0 then 0 else int (Max {i. bit x i}) + 1)"
    using top_bit_exists [of x] fls_0 by (cases "x = 0") (auto simp: fls_top top_bit_Max)
  show "ffs x = (if x = 0 then 0 else int (Min {i. bit x i}) + 1)"
    using low_bit_exists [of x] ffs_0 by (cases "x = 0") (auto simp: ffs_low low_bit_Min)
qed

theorem bit_search_correct_witness:
  "raw_fls 0x900 = 11 \<and> raw_ffs 0x900 = 8 \<and> int (Max {i. bit (0x900 :: ulong) i}) = 11 \<and>
   int (Min {i. bit (0x900 :: ulong) i}) = 8"
proof -
  have "raw_fls 0x900 = 11" "raw_ffs 0x900 = 8" by code_simp+
  then show ?thesis using bit_search_correct [of "0x900" 0] by simp
qed

end
