(* ===== verification/Find_Bit.thy ===== *)
theory Find_Bit
  imports Bitops
begin

text \<open>
  The word-at-a-time bit searches of \<open>lib/find_next_bit.c\<close> and \<open>lib/find_last_bit.c\<close>.
  Sizes and offsets are naturals: every subtraction in the code is guarded, so the unsigned longs
  never wrap. The labels \<open>found_first\<close> and \<open>found_middle\<close> are functions of the live
  variables, and a \<open>goto\<close> is a call.
\<close>

section \<open>Forward searches\<close>

definition found_middle :: "nat \<Rightarrow> ulong \<Rightarrow> nat option" where
  "found_middle result tmp = Some (result + nat (raw_ffs tmp))"

definition found_first :: "nat \<Rightarrow> nat \<Rightarrow> ulong \<Rightarrow> nat option" where
  "found_first result sz tmp =
     (let tmp = tmp AND drop_bit (BITS_PER_LONG - sz) (NOT 0)
      in if tmp = 0 then Some (result + sz) else found_middle result tmp)"

text \<open>\<open>size & ~(BITS_PER_LONG-1)\<close> is nonzero exactly when \<open>size\<close> is at least 64.\<close>

fun find_next_bit_while :: "ulong list \<Rightarrow> nat \<Rightarrow> nat \<Rightarrow> nat \<Rightarrow> nat option" where
  "find_next_bit_while addr p result sz =
     (if BITS_PER_LONG \<le> sz then
        do { tmp \<leftarrow> rd addr p;
             if tmp \<noteq> 0 then found_middle result tmp
             else find_next_bit_while addr (Suc p) (result + BITS_PER_LONG) (sz - BITS_PER_LONG) }
      else if sz = 0 then Some result
      else do { tmp \<leftarrow> rd addr p; found_first result sz tmp })"

definition find_next_bit :: "ulong list \<Rightarrow> nat \<Rightarrow> nat \<Rightarrow> nat option" where
  "find_next_bit addr sz offset =
     (let p = offset div BITS_PER_LONG; result = offset - offset mod BITS_PER_LONG in
      if sz \<le> offset then Some sz
      else
        let sz = sz - result; offset = offset mod BITS_PER_LONG in
        if offset \<noteq> 0 then
          do { tmp \<leftarrow> rd addr p;
               let tmp = tmp AND push_bit offset (NOT 0);
               if sz < BITS_PER_LONG then found_first result sz tmp
               else if tmp \<noteq> 0 then found_middle result tmp
               else find_next_bit_while addr (Suc p) (result + BITS_PER_LONG) (sz - BITS_PER_LONG) }
        else find_next_bit_while addr p result sz)"

definition zfound_middle :: "nat \<Rightarrow> ulong \<Rightarrow> nat option" where
  "zfound_middle result tmp = Some (result + nat (ffz tmp))"

definition zfound_first :: "nat \<Rightarrow> nat \<Rightarrow> ulong \<Rightarrow> nat option" where
  "zfound_first result sz tmp =
     (let tmp = tmp OR push_bit sz (NOT 0)
      in if tmp = NOT 0 then Some (result + sz) else zfound_middle result tmp)"

fun find_next_zero_bit_while :: "ulong list \<Rightarrow> nat \<Rightarrow> nat \<Rightarrow> nat \<Rightarrow> nat option" where
  "find_next_zero_bit_while addr p result sz =
     (if BITS_PER_LONG \<le> sz then
        do { tmp \<leftarrow> rd addr p;
             if NOT tmp \<noteq> 0 then zfound_middle result tmp
             else find_next_zero_bit_while addr (Suc p) (result + BITS_PER_LONG)
                    (sz - BITS_PER_LONG) }
      else if sz = 0 then Some result
      else do { tmp \<leftarrow> rd addr p; zfound_first result sz tmp })"

definition find_next_zero_bit :: "ulong list \<Rightarrow> nat \<Rightarrow> nat \<Rightarrow> nat option" where
  "find_next_zero_bit addr sz offset =
     (let p = offset div BITS_PER_LONG; result = offset - offset mod BITS_PER_LONG in
      if sz \<le> offset then Some sz
      else
        let sz = sz - result; offset = offset mod BITS_PER_LONG in
        if offset \<noteq> 0 then
          do { tmp \<leftarrow> rd addr p;
               let tmp = tmp OR drop_bit (BITS_PER_LONG - offset) (NOT 0);
               if sz < BITS_PER_LONG then zfound_first result sz tmp
               else if NOT tmp \<noteq> 0 then zfound_middle result tmp
               else find_next_zero_bit_while addr (Suc p) (result + BITS_PER_LONG)
                      (sz - BITS_PER_LONG) }
        else find_next_zero_bit_while addr p result sz)"

text \<open>The macros of \<open>include/asm-generic/bitops/find.h\<close>, which the MIPS port uses.\<close>

definition find_first_bit :: "ulong list \<Rightarrow> nat \<Rightarrow> nat option" where
  "find_first_bit addr sz = find_next_bit addr sz 0"

definition find_first_zero_bit :: "ulong list \<Rightarrow> nat \<Rightarrow> nat option" where
  "find_first_zero_bit addr sz = find_next_zero_bit addr sz 0"

text \<open>
  The out-of-line versions that \<open>CONFIG_GENERIC_FIND_FIRST_BIT\<close> compiles instead of the macros.
\<close>

fun generic_find_first_bit_while :: "ulong list \<Rightarrow> nat \<Rightarrow> nat \<Rightarrow> nat \<Rightarrow> nat option" where
  "generic_find_first_bit_while addr p result sz =
     (if BITS_PER_LONG \<le> sz then
        do { tmp \<leftarrow> rd addr p;
             if tmp \<noteq> 0 then Some (result + nat (raw_ffs tmp))
             else generic_find_first_bit_while addr (Suc p) (result + BITS_PER_LONG)
                    (sz - BITS_PER_LONG) }
      else if sz = 0 then Some result
      else do { w \<leftarrow> rd addr p;
                let tmp = w AND drop_bit (BITS_PER_LONG - sz) (NOT 0);
                if tmp = 0 then Some (result + sz) else Some (result + nat (raw_ffs tmp)) })"

definition generic_find_first_bit :: "ulong list \<Rightarrow> nat \<Rightarrow> nat option" where
  "generic_find_first_bit addr sz = generic_find_first_bit_while addr 0 0 sz"

fun generic_find_first_zero_bit_while :: "ulong list \<Rightarrow> nat \<Rightarrow> nat \<Rightarrow> nat \<Rightarrow> nat option" where
  "generic_find_first_zero_bit_while addr p result sz =
     (if BITS_PER_LONG \<le> sz then
        do { tmp \<leftarrow> rd addr p;
             if NOT tmp \<noteq> 0 then Some (result + nat (ffz tmp))
             else generic_find_first_zero_bit_while addr (Suc p) (result + BITS_PER_LONG)
                    (sz - BITS_PER_LONG) }
      else if sz = 0 then Some result
      else do { w \<leftarrow> rd addr p;
                let tmp = w OR push_bit sz (NOT 0);
                if tmp = NOT 0 then Some (result + sz) else Some (result + nat (ffz tmp)) })"

definition generic_find_first_zero_bit :: "ulong list \<Rightarrow> nat \<Rightarrow> nat option" where
  "generic_find_first_zero_bit addr sz = generic_find_first_zero_bit_while addr 0 0 sz"

section \<open>Little-endian bitmaps on a big-endian machine\<close>

definition swab64 :: "u64 \<Rightarrow> u64" where
  "swab64 x =
     push_bit 56 (x AND 0x00000000000000ff) OR
     push_bit 40 (x AND 0x000000000000ff00) OR
     push_bit 24 (x AND 0x0000000000ff0000) OR
     push_bit 8 (x AND 0x00000000ff000000) OR
     drop_bit 8 (x AND 0x000000ff00000000) OR
     drop_bit 24 (x AND 0x0000ff0000000000) OR
     drop_bit 40 (x AND 0x00ff000000000000) OR
     drop_bit 56 (x AND 0xff00000000000000)"

definition ext2_swab :: "ulong \<Rightarrow> ulong" where
  "ext2_swab y = swab64 y"

definition ext2_swabp :: "ulong list \<Rightarrow> nat \<Rightarrow> ulong option" where
  "ext2_swabp addr p = do { x \<leftarrow> rd addr p; Some (swab64 x) }"

fun generic_find_next_le_bit_while :: "ulong list \<Rightarrow> nat \<Rightarrow> nat \<Rightarrow> nat \<Rightarrow> nat option" where
  "generic_find_next_le_bit_while addr p result sz =
     (if BITS_PER_LONG \<le> sz then
        do { tmp \<leftarrow> rd addr p;
             if tmp \<noteq> 0 then Some (result + nat (raw_ffs (ext2_swab tmp)))
             else generic_find_next_le_bit_while addr (Suc p) (result + BITS_PER_LONG)
                    (sz - BITS_PER_LONG) }
      else if sz = 0 then Some result
      else do { tmp \<leftarrow> ext2_swabp addr p; found_first result sz tmp })"

definition generic_find_next_le_bit :: "ulong list \<Rightarrow> nat \<Rightarrow> nat \<Rightarrow> nat option" where
  "generic_find_next_le_bit addr sz offset =
     (let p = offset div BITS_PER_LONG; result = offset - offset mod BITS_PER_LONG in
      if sz \<le> offset then Some sz
      else
        let sz = sz - result; offset = offset mod BITS_PER_LONG in
        if offset \<noteq> 0 then
          do { tmp \<leftarrow> ext2_swabp addr p;
               let tmp = tmp AND push_bit offset (NOT 0);
               if sz < BITS_PER_LONG then found_first result sz tmp
               else if tmp \<noteq> 0 then found_middle result tmp
               else generic_find_next_le_bit_while addr (Suc p) (result + BITS_PER_LONG)
                      (sz - BITS_PER_LONG) }
        else generic_find_next_le_bit_while addr p result sz)"

fun generic_find_next_zero_le_bit_while :: "ulong list \<Rightarrow> nat \<Rightarrow> nat \<Rightarrow> nat \<Rightarrow> nat option" where
  "generic_find_next_zero_le_bit_while addr p result sz =
     (if BITS_PER_LONG \<le> sz then
        do { tmp \<leftarrow> rd addr p;
             if NOT tmp \<noteq> 0 then Some (result + nat (ffz (ext2_swab tmp)))
             else generic_find_next_zero_le_bit_while addr (Suc p) (result + BITS_PER_LONG)
                    (sz - BITS_PER_LONG) }
      else if sz = 0 then Some result
      else do { tmp \<leftarrow> ext2_swabp addr p; zfound_first result sz tmp })"

definition generic_find_next_zero_le_bit :: "ulong list \<Rightarrow> nat \<Rightarrow> nat \<Rightarrow> nat option" where
  "generic_find_next_zero_le_bit addr sz offset =
     (let p = offset div BITS_PER_LONG; result = offset - offset mod BITS_PER_LONG in
      if sz \<le> offset then Some sz
      else
        let sz = sz - result; offset = offset mod BITS_PER_LONG in
        if offset \<noteq> 0 then
          do { tmp \<leftarrow> ext2_swabp addr p;
               let tmp = tmp OR drop_bit (BITS_PER_LONG - offset) (NOT 0);
               if sz < BITS_PER_LONG then zfound_first result sz tmp
               else if NOT tmp \<noteq> 0 then zfound_middle result tmp
               else generic_find_next_zero_le_bit_while addr (Suc p) (result + BITS_PER_LONG)
                      (sz - BITS_PER_LONG) }
        else generic_find_next_zero_le_bit_while addr p result sz)"

section \<open>Backward search\<close>

definition find_last_found :: "nat \<Rightarrow> ulong \<Rightarrow> nat option" where
  "find_last_found words tmp = Some (words * BITS_PER_LONG + nat (raw_fls tmp))"

fun find_last_bit_while :: "ulong list \<Rightarrow> nat \<Rightarrow> nat \<Rightarrow> nat option" where
  "find_last_bit_while addr sz 0 = Some sz"
| "find_last_bit_while addr sz (Suc words) =
     do { tmp \<leftarrow> rd addr words;
          if tmp \<noteq> 0 then find_last_found words tmp else find_last_bit_while addr sz words }"

definition find_last_bit :: "ulong list \<Rightarrow> nat \<Rightarrow> nat option" where
  "find_last_bit addr sz =
     (let words = sz div BITS_PER_LONG in
      if sz mod BITS_PER_LONG \<noteq> 0 then
        do { w \<leftarrow> rd addr words;
             let tmp = w AND drop_bit (BITS_PER_LONG - sz mod BITS_PER_LONG) (NOT 0);
             if tmp \<noteq> 0 then find_last_found words tmp else find_last_bit_while addr sz words }
      else find_last_bit_while addr sz words)"

declare find_next_bit_while.simps [simp del] find_next_zero_bit_while.simps [simp del]
  generic_find_first_bit_while.simps [simp del] generic_find_first_zero_bit_while.simps [simp del]
  generic_find_next_le_bit_while.simps [simp del] generic_find_next_zero_le_bit_while.simps [simp del]

section \<open>What a search returns\<close>

definition is_first :: "(nat \<Rightarrow> bool) \<Rightarrow> nat \<Rightarrow> nat \<Rightarrow> nat \<Rightarrow> bool" where
  "is_first P lo hi r \<longleftrightarrow>
     r \<le> hi \<and> (\<forall>i. lo \<le> i \<and> i < r \<longrightarrow> \<not> P i) \<and> (r < hi \<longrightarrow> lo \<le> r \<and> P r)"

lemma is_first_unique: "is_first P lo hi r \<Longrightarrow> is_first P lo hi r' \<Longrightarrow> r = r'"
  by (cases r r' rule: linorder_cases) (auto simp: is_first_def)

lemma is_first_none: "hi \<le> lo \<Longrightarrow> is_first P lo hi hi"
  by (auto simp: is_first_def)

lemma is_first_cong:
  "(\<And>i. lo \<le> i \<Longrightarrow> i < hi \<Longrightarrow> P i \<longleftrightarrow> Q i) \<Longrightarrow> is_first P lo hi r \<longleftrightarrow> is_first Q lo hi r"
  by (auto simp: is_first_def)

lemma raw_ffs_is_first:
  assumes nz: "tmp \<noteq> (0 :: ulong)"
    and before: "\<And>i. lo \<le> i \<Longrightarrow> i < result \<Longrightarrow> \<not> P i"
    and bits: "\<And>j. j < 64 \<Longrightarrow> bit tmp j \<longleftrightarrow> lo \<le> result + j \<and> result + j < hi \<and> P (result + j)"
  shows "is_first P lo hi (result + nat (raw_ffs tmp))"
proof -
  obtain l where l: "low_bit tmp l" using low_bit_exists [OF nz] by blast
  have l64: "l < 64" using low_bit_less [OF l] by simp
  have here: "bit tmp l" and below: "\<And>j. j < l \<Longrightarrow> \<not> bit tmp j" using l by (auto simp: low_bit_def)
  have "\<not> P i" if "lo \<le> i" "i < result + l" for i
  proof (cases "i < result")
    case False
    then have "i - result < l" "result + (i - result) = i" using that by auto
    then show ?thesis using below bits [of "i - result"] bits [OF l64] here l64 that by auto
  qed (use before that in simp)
  then show ?thesis using bits [OF l64] here by (auto simp: is_first_def raw_ffs_low [OF l])
qed

lemma bit_low_ones: "n \<le> 64 \<Longrightarrow> bit (drop_bit (BITS_PER_LONG - n) (NOT 0) :: ulong) j \<longleftrightarrow> j < n"
  unfolding bit_drop_bit_eq bit_not_iff by auto

lemma bmem_word: "p < length addr \<Longrightarrow> j < 64 \<Longrightarrow> bmem addr (64 * p + j) \<longleftrightarrow> bit (addr ! p) j"
  by (auto simp: bmem_def)

lemma found_first_is_first:
  assumes p: "p < length addr" and r: "result = 64 * p" and sz: "0 < sz" "sz \<le> 64"
    and lo: "lo \<le> result + sz"
    and before: "\<And>i. lo \<le> i \<Longrightarrow> i < result \<Longrightarrow> \<not> bmem addr i"
    and bits: "\<And>j. j < 64 \<Longrightarrow> bit tmp j \<longleftrightarrow> lo \<le> result + j \<and> bit (addr ! p) j"
  shows "\<exists>x. found_first result sz tmp = Some x \<and> is_first (bmem addr) lo (result + sz) x"
proof -
  define t where "t = tmp AND drop_bit (BITS_PER_LONG - sz) (NOT 0)"
  have t: "bit t j \<longleftrightarrow> lo \<le> result + j \<and> result + j < result + sz \<and> bmem addr (result + j)"
    if "j < 64" for j
    using that bits [OF that] p sz unfolding t_def bit_and_iff bit_low_ones [OF sz(2)] r
    by (auto simp: bmem_word)
  show ?thesis
  proof (cases "t = 0")
    case True
    have "\<not> bmem addr i" if "lo \<le> i" "i < result + sz" for i
    proof (cases "i < result")
      case False
      then have "i - result < 64" "result + (i - result) = i" using that sz by auto
      then show ?thesis using t [of "i - result"] True that by auto
    qed (use before that in simp)
    moreover have "found_first result sz tmp = Some (result + sz)"
      unfolding found_first_def t_def [symmetric] Let_def using True by simp
    ultimately show ?thesis by (auto simp: is_first_def)
  next
    case False
    then have "found_first result sz tmp = Some (result + nat (raw_ffs t))"
      unfolding found_first_def t_def [symmetric] Let_def found_middle_def by simp
    then show ?thesis using raw_ffs_is_first [OF False before t] by simp
  qed
qed

lemma find_next_bit_while_spec:
  assumes "result = 64 * p" and "lo \<le> result" and "result + sz \<le> room addr"
    and "\<And>i. lo \<le> i \<Longrightarrow> i < result \<Longrightarrow> \<not> bmem addr i"
  shows "\<exists>x. find_next_bit_while addr p result sz = Some x \<and> is_first (bmem addr) lo (result + sz) x"
  using assms
proof (induction addr p result sz rule: find_next_bit_while.induct)
  case (1 addr p result sz)
  note unfold = find_next_bit_while.simps [of addr p result sz]
  show ?case
  proof (cases "sz = 0")
    case True
    have "find_next_bit_while addr p result sz = Some result" by (subst unfold) (simp add: True)
    then show ?thesis using "1.prems" True by (auto simp: is_first_def)
  next
    case False
    then have p: "p < length addr" using "1.prems" by auto
    have bits: "bit (addr ! p) j \<longleftrightarrow> lo \<le> result + j \<and> bit (addr ! p) j" for j
      using "1.prems"(2) by auto
    show ?thesis
    proof (cases "64 \<le> sz")
      case small: False
      then show ?thesis
        using found_first_is_first [OF p "1.prems"(1) _ _ _ "1.prems"(4) bits, of sz] False "1.prems"(2) p
        by (simp add: unfold)
    next
      case large: True
      show ?thesis
      proof (cases "addr ! p = 0")
        case True
        have "\<not> bmem addr i" if "lo \<le> i" "i < result + 64" for i
        proof (cases "i < result")
          case False
          then have "i - 64 * p < 64" "64 * p + (i - 64 * p) = i" using that "1.prems"(1) by auto
          then show ?thesis using bmem_word [OF p, of "i - 64 * p"] True by simp
        qed (use that "1.prems"(4) in simp)
        moreover have "find_next_bit_while addr p result sz =
            find_next_bit_while addr (Suc p) (result + 64) (sz - 64)"
          by (subst unfold) (simp add: large p True)
        ultimately show ?thesis using "1.IH" [of "addr ! p"] "1.prems" large p True by simp
      next
        case False
        have "is_first (bmem addr) lo (result + sz) (result + nat (raw_ffs (addr ! p)))"
          by (rule raw_ffs_is_first [OF False "1.prems"(4)])
             (use "1.prems" large p in \<open>auto simp: bmem_word\<close>)
        then show ?thesis using large p False by (simp add: unfold found_middle_def)
      qed
    qed
  qed
qed

lemma bit_from: "o' < 64 \<Longrightarrow> j < 64 \<Longrightarrow> bit (w AND push_bit o' (NOT 0) :: ulong) j \<longleftrightarrow> o' \<le> j \<and> bit w j"
  unfolding bit_and_iff bit_high_mask by auto

lemma find_next_bit_spec:
  assumes "sz \<le> room addr"
  shows "\<exists>x. find_next_bit addr sz off = Some x \<and> is_first (bmem addr) off sz x"
proof (cases "sz \<le> off")
  case True
  then show ?thesis by (simp add: find_next_bit_def is_first_none)
next
  case False
  define p o' where "p = off div 64" and "o' = off mod 64"
  have off: "off = 64 * p + o'" "off - o' = 64 * p" "o' < 64"
    by (auto simp: p_def o'_def minus_mod_eq_mult_div)
  have p: "p < length addr" using False assms off by linarith
  show ?thesis
  proof (cases "o' = 0")
    case True
    then have "find_next_bit addr sz off = find_next_bit_while addr p (64 * p) (sz - 64 * p)"
      using False off(1) unfolding find_next_bit_def Let_def p_def [symmetric] o'_def [symmetric] off(2)
      by simp
    then show ?thesis
      using find_next_bit_while_spec [of "64 * p" p off "sz - 64 * p" addr] True False assms off by simp
  next
    case nz: False
    define tmp where "tmp = addr ! p AND push_bit o' (NOT 0)"
    have bits: "bit tmp j \<longleftrightarrow> off \<le> 64 * p + j \<and> bit (addr ! p) j" if "j < 64" for j
      unfolding tmp_def bit_from [OF off(3) that] off(1) by simp
    have before: "\<not> bmem addr i" if "off \<le> i" "i < 64 * p" for i using that off by simp
    have eq: "find_next_bit addr sz off =
        (if sz - 64 * p < 64 then found_first (64 * p) (sz - 64 * p) tmp
         else if tmp \<noteq> 0 then found_middle (64 * p) tmp
         else find_next_bit_while addr (Suc p) (64 * p + 64) (sz - 64 * p - 64))"
      using False nz p
      unfolding find_next_bit_def Let_def p_def [symmetric] o'_def [symmetric] off(2) tmp_def by simp
    show ?thesis
    proof (cases "sz - 64 * p < 64")
      case True
      then show ?thesis
        using found_first_is_first [OF p refl _ _ _ before bits, of "sz - 64 * p"] eq False off by simp
    next
      case large: False
      show ?thesis
      proof (cases "tmp = 0")
        case True
        have "\<not> bmem addr i" if "off \<le> i" "i < 64 * p + 64" for i
          using bits [of "i - 64 * p"] bmem_word [OF p, of "i - 64 * p"] that off(1) True by auto
        then show ?thesis
          using find_next_bit_while_spec [of "64 * p + 64" "Suc p" off "sz - 64 * p - 64" addr]
            large True eq assms off by simp
      next
        case tnz: False
        have "is_first (bmem addr) off sz (64 * p + nat (raw_ffs tmp))"
          by (rule raw_ffs_is_first [OF tnz before])
             (use bits large p in \<open>auto simp: bmem_word\<close>)
        then show ?thesis using eq large tnz by (simp add: found_middle_def)
      qed
    qed
  qed
qed

section \<open>Zero bits\<close>

text \<open>
  The searches for a zero bit run the searches for a set bit on the complemented array, word by
  word.
\<close>

lemma not_high_ones: "n \<le> 64 \<Longrightarrow> NOT (push_bit n (NOT 0)) = (drop_bit (BITS_PER_LONG - n) (NOT 0) :: ulong)"
proof (rule bit_eqI)
  fix j
  assume n: "n \<le> 64" and j: "possible_bit TYPE(ulong) j"
  then have "j < 64" by (simp add: possible_bit_def)
  then show "bit (NOT (push_bit n (NOT 0) :: ulong)) j = bit (drop_bit (BITS_PER_LONG - n) (NOT 0) :: ulong) j"
    unfolding bit_low_ones [OF n] bit_not_iff bit_high_mask using j by auto
qed

lemma not_low_ones: "n \<le> 64 \<Longrightarrow> NOT (drop_bit (BITS_PER_LONG - n) (NOT 0)) = (push_bit n (NOT 0) :: ulong)"
  using not_high_ones [of n] by (metis bit.double_compl)

lemma zfound_middle_compl: "zfound_middle result tmp = found_middle result (NOT tmp)"
  by (simp add: zfound_middle_def found_middle_def ffz_def)

lemma zfound_first_compl: "sz \<le> 64 \<Longrightarrow> zfound_first result sz tmp = found_first result sz (NOT tmp)"
proof -
  assume sz: "sz \<le> 64"
  have n: "NOT (tmp OR push_bit sz (NOT 0)) = NOT tmp AND drop_bit (BITS_PER_LONG - sz) (NOT 0)"
    unfolding bit.de_Morgan_disj not_high_ones [OF sz] ..
  have z: "tmp OR push_bit sz (NOT 0) = NOT 0 \<longleftrightarrow> NOT tmp AND drop_bit (BITS_PER_LONG - sz) (NOT 0) = 0"
    unfolding n [symmetric] by (metis bit.compl_zero bit.double_compl)
  show ?thesis
    unfolding zfound_first_def found_first_def Let_def z zfound_middle_compl n ..
qed

lemma rd_map: "rd (map f xs) i = map_option f (rd xs i)"
  by (simp add: rd_def)

lemma bind_map_option: "Option.bind (map_option f m) g = Option.bind m (\<lambda>x. g (f x))"
  by (cases m) auto

lemma find_next_zero_bit_while_compl:
  "find_next_zero_bit_while addr p result sz = find_next_bit_while (map NOT addr) p result sz"
proof (induction addr p result sz rule: find_next_zero_bit_while.induct)
  case (1 addr p result sz)
  show ?case
    by (subst find_next_zero_bit_while.simps, subst find_next_bit_while.simps)
       (auto simp: rd_map bind_map_option zfound_middle_compl zfound_first_compl "1.IH"
         intro!: Option.bind_cong)
qed

lemma find_next_zero_bit_compl:
  "find_next_zero_bit addr sz off = find_next_bit (map NOT addr) sz off"
proof -
  have o64: "off mod 64 \<le> 64" by (simp add: less_imp_le)
  have m: "NOT (tmp OR drop_bit (BITS_PER_LONG - off mod 64) (NOT 0)) = NOT tmp AND push_bit (off mod 64) (NOT 0)"
    for tmp :: ulong
    unfolding bit.de_Morgan_disj not_low_ones [OF o64] ..
  show ?thesis
    unfolding find_next_zero_bit_def find_next_bit_def Let_def rd_map bind_map_option
      find_next_zero_bit_while_compl zfound_middle_compl m
    by (cases "sz - (off - off mod 64) < 64") (simp_all add: zfound_first_compl m)
qed

lemma bmem_compl: "i < room addr \<Longrightarrow> bmem (map NOT addr) i \<longleftrightarrow> \<not> bmem addr i"
  by (auto simp: bmem_def bit_not_iff possible_bit_def)

lemma find_next_zero_bit_spec:
  assumes "sz \<le> room addr"
  shows "\<exists>x. find_next_zero_bit addr sz off = Some x \<and> is_first (\<lambda>i. \<not> bmem addr i) off sz x"
proof -
  have "is_first (bmem (map NOT addr)) off sz x \<longleftrightarrow> is_first (\<lambda>i. \<not> bmem addr i) off sz x" for x
    by (rule is_first_cong) (use assms bmem_compl in auto)
  then show ?thesis
    using find_next_bit_spec [of sz "map NOT addr" off] assms by (simp add: find_next_zero_bit_compl)
qed

section \<open>The out-of-line and the little-endian variants\<close>

lemma generic_find_first_bit_while_eq:
  "generic_find_first_bit_while addr p result sz = find_next_bit_while addr p result sz"
proof (induction addr p result sz rule: generic_find_first_bit_while.induct)
  case (1 addr p result sz)
  show ?case
    by (subst generic_find_first_bit_while.simps, subst find_next_bit_while.simps)
       (auto simp: found_middle_def found_first_def Let_def "1.IH" intro!: Option.bind_cong)
qed

lemma generic_find_first_zero_bit_while_eq:
  "generic_find_first_zero_bit_while addr p result sz = find_next_zero_bit_while addr p result sz"
proof (induction addr p result sz rule: generic_find_first_zero_bit_while.induct)
  case (1 addr p result sz)
  show ?case
    by (subst generic_find_first_zero_bit_while.simps, subst find_next_zero_bit_while.simps)
       (auto simp: zfound_middle_def zfound_first_def Let_def "1.IH" intro!: Option.bind_cong)
qed

lemma find_next_bit_0: "find_next_bit addr sz 0 = find_next_bit_while addr 0 0 sz"
  by (cases "sz = 0") (simp_all add: find_next_bit_def find_next_bit_while.simps)

lemma find_next_zero_bit_0: "find_next_zero_bit addr sz 0 = find_next_zero_bit_while addr 0 0 sz"
  by (cases "sz = 0") (simp_all add: find_next_zero_bit_def find_next_zero_bit_while.simps)

lemma swab64_masks:
  "0x00000000000000ff = (push_bit 0 (mask 8) :: u64)" "0x000000000000ff00 = (push_bit 8 (mask 8) :: u64)"
  "0x0000000000ff0000 = (push_bit 16 (mask 8) :: u64)" "0x00000000ff000000 = (push_bit 24 (mask 8) :: u64)"
  "0x000000ff00000000 = (push_bit 32 (mask 8) :: u64)" "0x0000ff0000000000 = (push_bit 40 (mask 8) :: u64)"
  "0x00ff000000000000 = (push_bit 48 (mask 8) :: u64)" "0xff00000000000000 = (push_bit 56 (mask 8) :: u64)"
  by code_simp+

lemma bit_swab64: "i < 64 \<Longrightarrow> bit (swab64 x) i \<longleftrightarrow> bit x (56 - 8 * (i div 8) + i mod 8)"
proof -
  assume i: "i < 64"
  define q r where "q = i div 8" and "r = i mod 8"
  have ir: "i = 8 * q + r" "r < 8" "q < 8" using i by (auto simp: q_def r_def)
  have qs: "q = 0 \<or> q = 1 \<or> q = 2 \<or> q = 3 \<or> q = 4 \<or> q = 5 \<or> q = 6 \<or> q = 7" using ir(3) by linarith
  have "bit (swab64 x) (8 * q + r) \<longleftrightarrow> bit x (56 - 8 * q + r)"
    unfolding swab64_def swab64_masks bit_or_iff bit_push_bit_iff bit_drop_bit_eq bit_and_iff
      bit_mask_iff possible_bit_def o_def
    using qs ir(2) by (elim disjE) (auto simp: add.commute)
  then show ?thesis using ir by simp
qed

text \<open>The byte-reversed position of a bit; reversing twice gives the bit back.\<close>

definition swab_pos :: "nat \<Rightarrow> nat" where
  "swab_pos i = 56 - 8 * (i div 8) + i mod 8"

lemma swab_pos_less: "i < 64 \<Longrightarrow> swab_pos i < 64"
proof -
  assume "i < 64"
  then have "i div 8 < 8" "i mod 8 < 8" by (auto intro: less_mult_imp_div_less)
  then show ?thesis by (simp add: swab_pos_def)
qed

lemma swab_pos_swab_pos: "i < 64 \<Longrightarrow> swab_pos (swab_pos i) = i"
proof -
  assume "i < 64"
  then have q: "i div 8 < 8" "i mod 8 < 8" by (auto intro: less_mult_imp_div_less)
  have e: "swab_pos i = 8 * (7 - i div 8) + i mod 8" using q by (simp add: swab_pos_def)
  have "swab_pos i div 8 = 7 - i div 8" "swab_pos i mod 8 = i mod 8" unfolding e using q by simp_all
  moreover have "8 * (i div 8) + i mod 8 = i" by simp
  ultimately show ?thesis unfolding swab_pos_def [of "swab_pos i"] using q by linarith
qed

lemma swab64_eq_0_iff: "swab64 x = 0 \<longleftrightarrow> x = 0"
proof
  assume z: "swab64 x = 0"
  show "x = 0"
  proof (rule bit_eqI)
    fix n
    assume "possible_bit TYPE(ulong) n"
    then have n: "n < 64" by (simp add: possible_bit_def)
    then have "bit x n \<longleftrightarrow> bit (swab64 x) (swab_pos n)"
      using swab_pos_less [OF n] swab_pos_swab_pos [OF n] by (simp add: bit_swab64 swab_pos_def [symmetric])
    then show "bit x n \<longleftrightarrow> bit (0 :: ulong) n" by (simp add: z)
  qed
qed (simp add: swab64_def)

lemma swab64_not: "swab64 (NOT x) = NOT (swab64 x)"
proof (rule bit_eqI)
  fix n
  assume "possible_bit TYPE(ulong) n"
  then have n: "n < 64" by (simp add: possible_bit_def)
  then show "bit (swab64 (NOT x)) n \<longleftrightarrow> bit (NOT (swab64 x)) n"
    using swab_pos_less [OF n]
    by (simp add: bit_swab64 swab_pos_def [symmetric] bit_not_iff possible_bit_def)
qed

lemma ext2_swabp_map: "ext2_swabp addr p = rd (map swab64 addr) p"
  by (simp add: ext2_swabp_def rd_map map_option_case Option.bind_def split: option.split)

lemma generic_find_next_le_bit_while_eq:
  "generic_find_next_le_bit_while addr p result sz = find_next_bit_while (map swab64 addr) p result sz"
proof (induction addr p result sz rule: generic_find_next_le_bit_while.induct)
  case (1 addr p result sz)
  show ?case
    by (subst generic_find_next_le_bit_while.simps, subst find_next_bit_while.simps)
       (auto simp: found_middle_def ext2_swab_def ext2_swabp_map rd_map bind_map_option "1.IH"
         swab64_eq_0_iff intro!: Option.bind_cong)
qed

lemma generic_find_next_le_bit_eq:
  "generic_find_next_le_bit addr sz off = find_next_bit (map swab64 addr) sz off"
  unfolding generic_find_next_le_bit_def find_next_bit_def
    generic_find_next_le_bit_while_eq ext2_swabp_map ..

lemma generic_find_next_zero_le_bit_while_eq:
  "generic_find_next_zero_le_bit_while addr p result sz =
   find_next_zero_bit_while (map swab64 addr) p result sz"
proof (induction addr p result sz rule: generic_find_next_zero_le_bit_while.induct)
  case (1 addr p result sz)
  have z: "NOT (swab64 x) = 0 \<longleftrightarrow> NOT x = 0" for x
    unfolding swab64_not [symmetric] swab64_eq_0_iff ..
  show ?case
    by (subst generic_find_next_zero_le_bit_while.simps, subst find_next_zero_bit_while.simps)
       (auto simp: zfound_middle_def ext2_swab_def ext2_swabp_map rd_map bind_map_option "1.IH"
         z simp del: bit.compl_eq_compl_iff intro!: Option.bind_cong)
qed

lemma generic_find_next_zero_le_bit_eq:
  "generic_find_next_zero_le_bit addr sz off = find_next_zero_bit (map swab64 addr) sz off"
  unfolding generic_find_next_zero_le_bit_def find_next_zero_bit_def
    generic_find_next_zero_le_bit_while_eq ext2_swabp_map ..

definition le_pos :: "nat \<Rightarrow> nat" where
  "le_pos i = 64 * (i div 64) + swab_pos (i mod 64)"

lemma bmem_swab: "i < room addr \<Longrightarrow> bmem (map swab64 addr) i \<longleftrightarrow> bmem addr (le_pos i)"
proof -
  assume i: "i < room addr"
  have m: "i mod 64 < 64" by simp
  have "bmem (map swab64 addr) i \<longleftrightarrow> bit (addr ! (i div 64)) (swab_pos (i mod 64))"
    using i by (simp add: bmem_def bit_swab64 swab_pos_def)
  also have "\<dots> \<longleftrightarrow> bmem addr (le_pos i)"
    unfolding le_pos_def by (rule bmem_word [symmetric]) (use i swab_pos_less [OF m] in auto)
  finally show ?thesis .
qed

lemma generic_find_next_le_bit_spec:
  assumes "sz \<le> room addr"
  shows "\<exists>x. generic_find_next_le_bit addr sz off = Some x \<and>
             is_first (\<lambda>i. bmem addr (le_pos i)) off sz x"
proof -
  have "is_first (bmem (map swab64 addr)) off sz x \<longleftrightarrow> is_first (\<lambda>i. bmem addr (le_pos i)) off sz x" for x
    by (rule is_first_cong) (use assms bmem_swab in auto)
  then show ?thesis
    using find_next_bit_spec [of sz "map swab64 addr" off] assms by (simp add: generic_find_next_le_bit_eq)
qed

lemma generic_find_next_zero_le_bit_spec:
  assumes "sz \<le> room addr"
  shows "\<exists>x. generic_find_next_zero_le_bit addr sz off = Some x \<and>
             is_first (\<lambda>i. \<not> bmem addr (le_pos i)) off sz x"
proof -
  have "is_first (\<lambda>i. \<not> bmem (map swab64 addr) i) off sz x \<longleftrightarrow>
        is_first (\<lambda>i. \<not> bmem addr (le_pos i)) off sz x" for x
    by (rule is_first_cong) (use assms bmem_swab in auto)
  then show ?thesis
    using find_next_zero_bit_spec [of sz "map swab64 addr" off] assms
    by (simp add: generic_find_next_zero_le_bit_eq)
qed

section \<open>The last set bit\<close>

definition is_last :: "(nat \<Rightarrow> bool) \<Rightarrow> nat \<Rightarrow> nat \<Rightarrow> bool" where
  "is_last P hi r \<longleftrightarrow>
     (r < hi \<and> P r \<and> (\<forall>i. r < i \<and> i < hi \<longrightarrow> \<not> P i)) \<or> (r = hi \<and> (\<forall>i < hi. \<not> P i))"

lemma find_last_found_is_last:
  assumes p: "p < length addr" and nz: "tmp \<noteq> 0" and hi: "64 * p \<le> hi"
    and above: "\<And>i. 64 * p + 64 \<le> i \<Longrightarrow> i < hi \<Longrightarrow> \<not> bmem addr i"
    and bits: "\<And>j. j < 64 \<Longrightarrow> bit tmp j \<longleftrightarrow> bit (addr ! p) j \<and> 64 * p + j < hi"
  shows "\<exists>x. find_last_found p tmp = Some x \<and> is_last (bmem addr) hi x"
proof -
  obtain h where h: "top_bit tmp h" using top_bit_exists [OF nz] by blast
  have h64: "h < 64" using top_bit_less [OF h] by simp
  have here: "bit (addr ! p) h" "64 * p + h < hi" and over: "\<And>j. h < j \<Longrightarrow> \<not> bit tmp j"
    using h bits [OF h64] by (auto simp: top_bit_def)
  have "\<not> bmem addr i" if "64 * p + h < i" "i < hi" for i
  proof (cases "64 * p + 64 \<le> i")
    case False
    then have "i - 64 * p < 64" "64 * p + (i - 64 * p) = i" "h < i - 64 * p" using that by auto
    then show ?thesis using over bits [of "i - 64 * p"] bmem_word [OF p, of "i - 64 * p"] that by auto
  qed (use above that in simp)
  moreover have "bmem addr (64 * p + h)" using here h64 p by (simp add: bmem_word)
  moreover have "find_last_found p tmp = Some (64 * p + h)"
    by (simp add: find_last_found_def raw_fls_top [OF h])
  ultimately show ?thesis using here by (auto simp: is_last_def)
qed

lemma find_last_bit_while_spec:
  assumes "64 * words \<le> sz" and "words \<le> length addr"
    and "\<And>i. 64 * words \<le> i \<Longrightarrow> i < sz \<Longrightarrow> \<not> bmem addr i"
  shows "\<exists>x. find_last_bit_while addr sz words = Some x \<and> is_last (bmem addr) sz x"
  using assms
proof (induction words)
  case 0
  then show ?case by (simp add: is_last_def)
next
  case (Suc words)
  show ?case
  proof (cases "addr ! words = 0")
    case True
    have "\<not> bmem addr i" if "64 * words \<le> i" "i < sz" for i
    proof (cases "64 * Suc words \<le> i")
      case False
      then have "i - 64 * words < 64" "64 * words + (i - 64 * words) = i" using that by auto
      then show ?thesis using bmem_word [of words addr "i - 64 * words"] True Suc.prems by simp
    qed (use that Suc.prems in simp)
    then show ?thesis using Suc True by simp
  next
    case False
    then show ?thesis
      using find_last_found_is_last [of words addr "addr ! words" sz] Suc.prems by simp
  qed
qed

lemma find_last_bit_spec:
  assumes "sz \<le> room addr"
  shows "\<exists>x. find_last_bit addr sz = Some x \<and> is_last (bmem addr) sz x"
proof (cases "sz mod 64 = 0")
  case True
  then have "64 * (sz div 64) = sz" by (metis add.right_neutral mult_div_mod_eq)
  then show ?thesis
    using find_last_bit_while_spec [of "sz div 64" sz addr] True assms by (simp add: find_last_bit_def)
next
  case False
  define p r where "p = sz div 64" and "r = sz mod 64"
  have pr: "sz = 64 * p + r" "r < 64" "0 < r" using False by (auto simp: p_def r_def)
  have p: "p < length addr" using pr assms by linarith
  define tmp where "tmp = addr ! p AND drop_bit (BITS_PER_LONG - r) (NOT 0)"
  have r64: "r \<le> 64" using pr by simp
  have bits: "bit tmp j \<longleftrightarrow> bit (addr ! p) j \<and> 64 * p + j < sz" for j
    unfolding tmp_def bit_and_iff bit_low_ones [OF r64] pr(1) by simp
  have eq: "find_last_bit addr sz =
      (if tmp \<noteq> 0 then find_last_found p tmp else find_last_bit_while addr sz p)"
    using False p unfolding find_last_bit_def p_def [symmetric] r_def [symmetric] tmp_def Let_def by simp
  show ?thesis
  proof (cases "tmp = 0")
    case True
    have "\<not> bmem addr i" if "64 * p \<le> i" "i < sz" for i
      using bits [of "i - 64 * p"] bmem_word [OF p, of "i - 64 * p"] that True pr by auto
    then show ?thesis using find_last_bit_while_spec [of p sz addr] pr p True eq by simp
  next
    case nz: False
    then show ?thesis using find_last_found_is_last [OF p nz _ _ bits] pr eq by simp
  qed
qed

section \<open>Scanning all set bits\<close>

text \<open>
  The \<open>for_each_bit\<close> macro of \<open>include/linux/bitops.h\<close>; the loops of \<open>lib/bitmap.c\<close>
  spell it out. The body is a state transformer.
\<close>

partial_function (option) for_each_bit_from ::
  "(nat \<Rightarrow> nat option) \<Rightarrow> nat \<Rightarrow> (nat \<Rightarrow> 's \<Rightarrow> 's option) \<Rightarrow> nat \<Rightarrow> 's \<Rightarrow> 's option" where
  "for_each_bit_from nxt sz body i s =
     (if i < sz then
        do { s' \<leftarrow> body i s; j \<leftarrow> nxt (i + 1); for_each_bit_from nxt sz body j s' }
      else Some s)"

declare for_each_bit_from.simps [code]

definition for_each_bit :: "ulong list \<Rightarrow> nat \<Rightarrow> (nat \<Rightarrow> 's \<Rightarrow> 's option) \<Rightarrow> 's \<Rightarrow> 's option" where
  "for_each_bit addr sz body s =
     do { i \<leftarrow> find_first_bit addr sz;
          for_each_bit_from (find_next_bit addr sz) sz body i s }"

text \<open>
  The contract of a forward search, and what a client may conclude from it: the loop runs its body
  once for each member below the bound, in increasing order, and stops.
\<close>

definition members :: "(nat \<Rightarrow> bool) \<Rightarrow> nat \<Rightarrow> nat \<Rightarrow> nat list" where
  "members P lo hi = filter P [lo..<hi]"

lemma members_first:
  assumes "is_first P lo hi r"
  shows "members P lo hi = (if r < hi then r # members P (Suc r) hi else [])"
proof (cases "r < hi")
  case True
  with assms have r: "lo \<le> r" "P r" "\<And>i. lo \<le> i \<Longrightarrow> i < r \<Longrightarrow> \<not> P i" by (auto simp: is_first_def)
  have "[lo..<hi] = [lo..<r] @ r # [Suc r..<hi]"
    using True r(1) upt_add_eq_append [of lo r "hi - r"] by (simp add: upt_conv_Cons)
  moreover have "filter P [lo..<r] = []" using r(3) by (simp add: filter_empty_conv)
  ultimately show ?thesis using True r(2) by (simp add: members_def)
next
  case False
  with assms have "\<And>i. lo \<le> i \<Longrightarrow> i < hi \<Longrightarrow> \<not> P i" by (auto simp: is_first_def)
  then show ?thesis using False by (simp add: members_def filter_empty_conv)
qed

locale bit_scan =
  fixes find_next :: "'m \<Rightarrow> nat \<Rightarrow> nat \<Rightarrow> nat option"
    and member :: "'m \<Rightarrow> nat \<Rightarrow> bool"
    and capacity :: "'m \<Rightarrow> nat"
  assumes find_next: "sz \<le> capacity m \<Longrightarrow>
    \<exists>x. find_next m sz off = Some x \<and> is_first (member m) off sz x"
begin

lemma scan_from:
  assumes "sz \<le> capacity m" and "is_first (member m) lo sz i"
  shows "for_each_bit_from (find_next m sz) sz body i s = foldM body (members (member m) lo sz) s"
  using assms(2)
proof (induction "sz - i" arbitrary: i lo s rule: less_induct)
  case less
  show ?case
  proof (cases "i < sz")
    case True
    obtain j where j: "find_next m sz (i + 1) = Some j" "is_first (member m) (Suc i) sz j"
      using find_next [OF assms(1), of "i + 1"] by auto
    have "sz - j < sz - i" using j(2) True by (auto simp: is_first_def)
    then have IH: "for_each_bit_from (find_next m sz) sz body j s' = foldM body (members (member m) (Suc i) sz) s'" for s'
      using less.hyps [OF _ j(2)] by simp
    show ?thesis
      using True j(1) by (simp add: members_first [OF less.prems] for_each_bit_from.simps [of _ _ _ i] IH)
  next
    case False
    then show ?thesis by (simp add: members_first [OF less.prems] for_each_bit_from.simps)
  qed
qed

lemma scan_all:
  assumes "sz \<le> capacity m" and "find_next m sz 0 = Some i"
  shows "for_each_bit_from (find_next m sz) sz body i s = foldM body (members (member m) 0 sz) s"
  using scan_from [OF assms(1)] find_next [OF assms(1), of 0] assms(2) by auto

end

interpretation set_scan: bit_scan find_next_bit bmem "\<lambda>a. room a"
  by unfold_locales (rule find_next_bit_spec)

interpretation zero_scan: bit_scan find_next_zero_bit "\<lambda>a i. \<not> bmem a i" "\<lambda>a. room a"
  by unfold_locales (rule find_next_zero_bit_spec)

interpretation le_scan: bit_scan generic_find_next_le_bit "\<lambda>a i. bmem a (le_pos i)" "\<lambda>a. room a"
  by unfold_locales (rule generic_find_next_le_bit_spec)

lemma for_each_bit_fold:
  assumes "sz \<le> room addr"
  shows "for_each_bit addr sz body s = foldM body (members (bmem addr) 0 sz) s"
proof -
  obtain i where i: "find_next_bit addr sz 0 = Some i" using find_next_bit_spec [OF assms] by blast
  show ?thesis
    using set_scan.scan_all [OF assms i] i by (simp add: for_each_bit_def find_first_bit_def)
qed

section \<open>Correctness of the searches\<close>

lemma is_first_Least:
  assumes "is_first P lo hi x"
  shows "if \<exists>i. lo \<le> i \<and> i < hi \<and> P i then x = (LEAST i. lo \<le> i \<and> P i) else x = hi"
proof (cases "x < hi")
  case True
  then have "(LEAST i. lo \<le> i \<and> P i) = x"
    using assms by (intro Least_equality) (auto simp: is_first_def not_less [symmetric])
  then show ?thesis using True assms by (auto simp: is_first_def)
qed (use assms in \<open>auto simp: is_first_def\<close>)

lemma is_last_Max:
  assumes "is_last P hi x"
  shows "if \<exists>i. i < hi \<and> P i then x = Max {i. i < hi \<and> P i} else x = hi"
proof (cases "x < hi")
  case True
  then have "Max {i. i < hi \<and> P i} = x"
    using assms by (intro Max_eqI) (auto simp: is_last_def not_less [symmetric])
  then show ?thesis using True assms by (auto simp: is_last_def)
qed (use assms in \<open>auto simp: is_last_def\<close>)

text \<open>
  C38: On a bitmap of at least \<open>sz\<close> bits every search returns without reading outside the array:
  \<open>find_next_bit\<close> and \<open>find_next_zero_bit\<close> give the first set or clear bit from \<open>off\<close> on below \<open>sz\<close>, or \<open>sz\<close>
  when there is none; \<open>find_last_bit\<close> the last set bit below \<open>sz\<close>, or \<open>sz\<close>.
\<close>

theorem find_bit_correct:
  assumes "sz \<le> room addr"
  shows "(\<exists>x. find_next_bit addr sz off = Some x \<and>
            (if \<exists>i. off \<le> i \<and> i < sz \<and> bmem addr i then x = (LEAST i. off \<le> i \<and> bmem addr i) else x = sz)) \<and>
         (\<exists>x. find_next_zero_bit addr sz off = Some x \<and>
            (if \<exists>i. off \<le> i \<and> i < sz \<and> \<not> bmem addr i then x = (LEAST i. off \<le> i \<and> \<not> bmem addr i) else x = sz)) \<and>
         (\<exists>x. find_last_bit addr sz = Some x \<and>
            (if \<exists>i. i < sz \<and> bmem addr i then x = Max {i. i < sz \<and> bmem addr i} else x = sz))"
proof (intro conjI)
  show "\<exists>x. find_next_bit addr sz off = Some x \<and>
      (if \<exists>i. off \<le> i \<and> i < sz \<and> bmem addr i then x = (LEAST i. off \<le> i \<and> bmem addr i) else x = sz)"
    using find_next_bit_spec [OF assms, of off] is_first_Least by blast
  show "\<exists>x. find_next_zero_bit addr sz off = Some x \<and>
      (if \<exists>i. off \<le> i \<and> i < sz \<and> \<not> bmem addr i then x = (LEAST i. off \<le> i \<and> \<not> bmem addr i) else x = sz)"
    using find_next_zero_bit_spec [OF assms, of off] is_first_Least [of "\<lambda>i. \<not> bmem addr i"] by blast
  show "\<exists>x. find_last_bit addr sz = Some x \<and>
      (if \<exists>i. i < sz \<and> bmem addr i then x = Max {i. i < sz \<and> bmem addr i} else x = sz)"
    using find_last_bit_spec [OF assms] is_last_Max by blast
qed

theorem find_bit_correct_witness:
  "find_next_bit [0, 0x10] 128 3 = Some 68 \<and> (LEAST i. 3 \<le> i \<and> bmem [0, 0x10] i) = 68"
proof -
  have "find_next_bit [0, 0x10] 128 3 = Some 68" by code_simp
  moreover have "bmem [0, 0x10] 68" by code_simp
  then have "\<exists>i. 3 \<le> i \<and> i < 128 \<and> bmem [0, 0x10] i" by (intro exI [of _ 68]) simp
  ultimately show ?thesis using find_bit_correct [of 128 "[0, 0x10]" 3] by (simp split: if_splits)
qed

text \<open>
  The little-endian searches that the ext2 bitmaps use are the ordinary searches over the
  bit numbering in which each byte keeps its place in memory: bit \<open>i\<close> is bit \<open>i mod 8\<close> of byte
  \<open>i div 8\<close>, which on a big-endian long is bit \<open>56 - 8 * (i mod 64 div 8) + i mod 8\<close>.
\<close>

theorem find_le_bit_correct:
  assumes "sz \<le> room addr"
  shows "(\<exists>x. generic_find_next_le_bit addr sz off = Some x \<and>
            is_first (\<lambda>i. bmem addr (64 * (i div 64) + (56 - 8 * (i mod 64 div 8) + i mod 64 mod 8))) off sz x) \<and>
         (\<exists>x. generic_find_next_zero_le_bit addr sz off = Some x \<and>
            is_first (\<lambda>i. \<not> bmem addr (64 * (i div 64) + (56 - 8 * (i mod 64 div 8) + i mod 64 mod 8))) off sz x)"
  using generic_find_next_le_bit_spec [OF assms, of off] generic_find_next_zero_le_bit_spec [OF assms, of off]
  unfolding le_pos_def swab_pos_def by blast

theorem find_le_bit_correct_witness:
  "generic_find_next_le_bit [0x0100000000000000] 64 0 = Some 0 \<and>
   (\<exists>x. generic_find_next_le_bit [0x0100000000000000] 64 0 = Some x \<and> x \<le> 64)"
proof -
  have "generic_find_next_le_bit [0x0100000000000000] 64 0 = Some 0" by code_simp
  then show ?thesis using find_le_bit_correct [of 64 "[0x0100000000000000]" 0] by (auto simp: is_first_def)
qed

end
