(* ===== verification/Bitmap.thy ===== *)
theory Bitmap
  imports Find_Bit
begin

text \<open>
  The whole-bitmap operations of \<open>lib/bitmap.c\<close>: predicates, logical operations, shifts and
  weight. A bitmap of \<open>bits\<close> bits is an array of longs; sizes and shift counts are the C ints
  of the callers, which are non-negative. Every word access is bounds-checked, so a result
  \<open>Some\<close> also says that the operation stays inside its arrays. The lemmas compare each
  operation with the set of bit numbers below \<open>bits\<close>.
\<close>

section \<open>Operations\<close>

definition BITMAP_LAST_WORD_MASK :: "nat \<Rightarrow> ulong" where
  "BITMAP_LAST_WORD_MASK nbits =
     (if nbits mod BITS_PER_LONG \<noteq> 0 then push_bit (nbits mod BITS_PER_LONG) 1 - 1 else NOT 0)"

definition raw_bitmap_empty :: "ulong list \<Rightarrow> nat \<Rightarrow> bool option" where
  "raw_bitmap_empty bitmap bits =
     (let lim = bits div BITS_PER_LONG in
      do { hit \<leftarrow> anyM (\<lambda>k. do { w \<leftarrow> rd bitmap k; Some (w \<noteq> 0) }) [0..<lim];
           if hit then Some False
           else if bits mod BITS_PER_LONG \<noteq> 0 then
             do { w \<leftarrow> rd bitmap lim;
                  if w AND BITMAP_LAST_WORD_MASK bits \<noteq> 0 then Some False else Some True }
           else Some True })"

definition raw_bitmap_full :: "ulong list \<Rightarrow> nat \<Rightarrow> bool option" where
  "raw_bitmap_full bitmap bits =
     (let lim = bits div BITS_PER_LONG in
      do { hit \<leftarrow> anyM (\<lambda>k. do { w \<leftarrow> rd bitmap k; Some (NOT w \<noteq> 0) }) [0..<lim];
           if hit then Some False
           else if bits mod BITS_PER_LONG \<noteq> 0 then
             do { w \<leftarrow> rd bitmap lim;
                  if NOT w AND BITMAP_LAST_WORD_MASK bits \<noteq> 0 then Some False else Some True }
           else Some True })"

definition raw_bitmap_equal :: "ulong list \<Rightarrow> ulong list \<Rightarrow> nat \<Rightarrow> bool option" where
  "raw_bitmap_equal bitmap1 bitmap2 bits =
     (let lim = bits div BITS_PER_LONG in
      do { hit \<leftarrow> anyM (\<lambda>k. do { w1 \<leftarrow> rd bitmap1 k; w2 \<leftarrow> rd bitmap2 k; Some (w1 \<noteq> w2) }) [0..<lim];
           if hit then Some False
           else if bits mod BITS_PER_LONG \<noteq> 0 then
             do { w1 \<leftarrow> rd bitmap1 lim; w2 \<leftarrow> rd bitmap2 lim;
                  if (w1 XOR w2) AND BITMAP_LAST_WORD_MASK bits \<noteq> 0 then Some False else Some True }
           else Some True })"

definition raw_bitmap_intersects :: "ulong list \<Rightarrow> ulong list \<Rightarrow> nat \<Rightarrow> bool option" where
  "raw_bitmap_intersects bitmap1 bitmap2 bits =
     (let lim = bits div BITS_PER_LONG in
      do { hit \<leftarrow> anyM (\<lambda>k. do { w1 \<leftarrow> rd bitmap1 k; w2 \<leftarrow> rd bitmap2 k;
                                   Some (w1 AND w2 \<noteq> 0) }) [0..<lim];
           if hit then Some True
           else if bits mod BITS_PER_LONG \<noteq> 0 then
             do { w1 \<leftarrow> rd bitmap1 lim; w2 \<leftarrow> rd bitmap2 lim;
                  if (w1 AND w2) AND BITMAP_LAST_WORD_MASK bits \<noteq> 0 then Some True else Some False }
           else Some False })"

definition raw_bitmap_subset :: "ulong list \<Rightarrow> ulong list \<Rightarrow> nat \<Rightarrow> bool option" where
  "raw_bitmap_subset bitmap1 bitmap2 bits =
     (let lim = bits div BITS_PER_LONG in
      do { hit \<leftarrow> anyM (\<lambda>k. do { w1 \<leftarrow> rd bitmap1 k; w2 \<leftarrow> rd bitmap2 k;
                                   Some (w1 AND NOT w2 \<noteq> 0) }) [0..<lim];
           if hit then Some False
           else if bits mod BITS_PER_LONG \<noteq> 0 then
             do { w1 \<leftarrow> rd bitmap1 lim; w2 \<leftarrow> rd bitmap2 lim;
                  if (w1 AND NOT w2) AND BITMAP_LAST_WORD_MASK bits \<noteq> 0
                  then Some False else Some True }
           else Some True })"

definition raw_bitmap_complement :: "ulong list \<Rightarrow> ulong list \<Rightarrow> nat \<Rightarrow> ulong list option" where
  "raw_bitmap_complement dst src bits =
     (let lim = bits div BITS_PER_LONG in
      do { dst \<leftarrow> foldM (\<lambda>k dst. do { w \<leftarrow> rd src k; wr dst k (NOT w) }) [0..<lim] dst;
           if bits mod BITS_PER_LONG \<noteq> 0 then
             do { w \<leftarrow> rd src lim; wr dst lim (NOT w AND BITMAP_LAST_WORD_MASK bits) }
           else Some dst })"

definition raw_bitmap_and ::
  "ulong list \<Rightarrow> ulong list \<Rightarrow> ulong list \<Rightarrow> nat \<Rightarrow> (bool \<times> ulong list) option" where
  "raw_bitmap_and dst bitmap1 bitmap2 bits =
     (let nr = BITS_TO_LONGS bits in
      do { (result, dst) \<leftarrow>
             foldM (\<lambda>k (result, dst).
               do { w1 \<leftarrow> rd bitmap1 k; w2 \<leftarrow> rd bitmap2 k;
                    dst \<leftarrow> wr dst k (w1 AND w2); Some (result OR (w1 AND w2), dst) })
               [0..<nr] (0, dst);
           Some (result \<noteq> 0, dst) })"

definition raw_bitmap_or :: "ulong list \<Rightarrow> ulong list \<Rightarrow> ulong list \<Rightarrow> nat \<Rightarrow> ulong list option" where
  "raw_bitmap_or dst bitmap1 bitmap2 bits =
     (let nr = BITS_TO_LONGS bits in
      foldM (\<lambda>k dst. do { w1 \<leftarrow> rd bitmap1 k; w2 \<leftarrow> rd bitmap2 k; wr dst k (w1 OR w2) }) [0..<nr] dst)"

definition raw_bitmap_xor :: "ulong list \<Rightarrow> ulong list \<Rightarrow> ulong list \<Rightarrow> nat \<Rightarrow> ulong list option" where
  "raw_bitmap_xor dst bitmap1 bitmap2 bits =
     (let nr = BITS_TO_LONGS bits in
      foldM (\<lambda>k dst. do { w1 \<leftarrow> rd bitmap1 k; w2 \<leftarrow> rd bitmap2 k; wr dst k (w1 XOR w2) }) [0..<nr] dst)"

definition raw_bitmap_andnot ::
  "ulong list \<Rightarrow> ulong list \<Rightarrow> ulong list \<Rightarrow> nat \<Rightarrow> (bool \<times> ulong list) option" where
  "raw_bitmap_andnot dst bitmap1 bitmap2 bits =
     (let nr = BITS_TO_LONGS bits in
      do { (result, dst) \<leftarrow>
             foldM (\<lambda>k (result, dst).
               do { w1 \<leftarrow> rd bitmap1 k; w2 \<leftarrow> rd bitmap2 k;
                    dst \<leftarrow> wr dst k (w1 AND NOT w2); Some (result OR (w1 AND NOT w2), dst) })
               [0..<nr] (0, dst);
           Some (result \<noteq> 0, dst) })"

definition raw_bitmap_weight :: "ulong list \<Rightarrow> nat \<Rightarrow> nat option" where
  "raw_bitmap_weight bitmap bits =
     (let lim = bits div BITS_PER_LONG in
      do { w \<leftarrow> foldM (\<lambda>k w. do { x \<leftarrow> rd bitmap k; Some (w + hweight64 x) }) [0..<lim] 0;
           if bits mod BITS_PER_LONG \<noteq> 0 then
             do { x \<leftarrow> rd bitmap lim; Some (w + hweight64 (x AND BITMAP_LAST_WORD_MASK bits)) }
           else Some w })"

text \<open>
  Shifts. With a word-aligned shift the code computes \<open>upper << 64\<close> on \<open>upper == 0\<close>, which is
  taken as 0. \<open>&dst[lim - off]\<close> needs \<open>off \<le> lim\<close>.
\<close>

definition raw_bitmap_shift_right :: "ulong list \<Rightarrow> ulong list \<Rightarrow> nat \<Rightarrow> nat \<Rightarrow> ulong list option" where
  "raw_bitmap_shift_right dst src shift bits =
     (let lim = BITS_TO_LONGS bits; left = bits mod BITS_PER_LONG;
          off = shift div BITS_PER_LONG; rem = shift mod BITS_PER_LONG;
          msk = push_bit left 1 - 1 in
      do { dst \<leftarrow>
             foldM (\<lambda>k dst.
               do { upper \<leftarrow> (if rem = 0 \<or> lim \<le> off + k + 1 then Some 0
                              else do { u \<leftarrow> rd src (off + k + 1);
                                        Some (if off + k + 1 = lim - 1 \<and> left \<noteq> 0 then u AND msk else u) });
                    l \<leftarrow> rd src (off + k);
                    let lower = (if left \<noteq> 0 \<and> off + k = lim - 1 then l AND msk else l);
                    let v = push_bit (BITS_PER_LONG - rem) upper OR drop_bit rem lower;
                    dst \<leftarrow> wr dst k v;
                    if left \<noteq> 0 \<and> k = lim - 1 then wr dst k (v AND msk) else Some dst })
               [0..<lim - off] dst;
           if off \<noteq> 0 then (if off \<le> lim then memset dst (lim - off) 0 off else None)
           else Some dst })"

definition raw_bitmap_shift_left :: "ulong list \<Rightarrow> ulong list \<Rightarrow> nat \<Rightarrow> nat \<Rightarrow> ulong list option" where
  "raw_bitmap_shift_left dst src shift bits =
     (let lim = BITS_TO_LONGS bits; left = bits mod BITS_PER_LONG;
          off = shift div BITS_PER_LONG; rem = shift mod BITS_PER_LONG in
      do { dst \<leftarrow>
             foldM (\<lambda>k dst.
               do { lower \<leftarrow> (if rem \<noteq> 0 \<and> 0 < k then rd src (k - 1) else Some 0);
                    u \<leftarrow> rd src k;
                    let upper = (if left \<noteq> 0 \<and> k = lim - 1 then u AND (push_bit left 1 - 1) else u);
                    let v = drop_bit (BITS_PER_LONG - rem) lower OR push_bit rem upper;
                    dst \<leftarrow> wr dst (k + off) v;
                    if left \<noteq> 0 \<and> k + off = lim - 1
                    then wr dst (k + off) (v AND (push_bit left 1 - 1)) else Some dst })
               (rev [0..<lim - off]) dst;
           if off \<noteq> 0 then memset dst 0 0 off else Some dst })"

definition bitmap_zero :: "ulong list \<Rightarrow> nat \<Rightarrow> ulong list option" where
  "bitmap_zero dst nbits = memset dst 0 0 (BITS_TO_LONGS nbits)"

definition bitmap_fill :: "ulong list \<Rightarrow> nat \<Rightarrow> ulong list option" where
  "bitmap_fill dst nbits =
     (let nlongs = BITS_TO_LONGS nbits in
      if nlongs = 0 then None
      else do { dst \<leftarrow> memset dst 0 (NOT 0) (nlongs - 1);
                wr dst (nlongs - 1) (BITMAP_LAST_WORD_MASK nbits) })"

definition bitmap_copy :: "ulong list \<Rightarrow> ulong list \<Rightarrow> nat \<Rightarrow> ulong list option" where
  "bitmap_copy dst src nbits = memcpy dst 0 src 0 (BITS_TO_LONGS nbits)"

text \<open>On this big-endian machine \<open>cpu_to_le64\<close> is the byte swap.\<close>

definition bitmap_copy_le :: "ulong list \<Rightarrow> ulong list \<Rightarrow> nat \<Rightarrow> ulong list option" where
  "bitmap_copy_le dst src nbits =
     foldM (\<lambda>i d. do { w \<leftarrow> rd src i; wr d i (swab64 w) }) [0..<nbits div BITS_PER_LONG] dst"

section \<open>Predicates\<close>

lemma last_words: "n \<le> room a \<Longrightarrow> n div 64 \<le> length a" "n \<le> room a \<Longrightarrow> n mod 64 \<noteq> 0 \<Longrightarrow> n div 64 < length a"
  by (simp_all add: div_le_mono2) (use div_mult_mod_eq [of n 64] in linarith)+

lemma bit_low_mask: "m < 64 \<Longrightarrow> bit (push_bit m 1 - 1 :: ulong) j \<longleftrightarrow> j < m"
proof -
  assume "m < 64"
  have "push_bit m 1 - 1 = (mask m :: ulong)" by (simp add: mask_eq_exp_minus_1)
  then show ?thesis using \<open>m < 64\<close> by (auto simp: bit_mask_iff possible_bit_def)
qed

lemma bit_last_word_mask:
  "n mod 64 \<noteq> 0 \<Longrightarrow> bit (BITMAP_LAST_WORD_MASK n) j \<longleftrightarrow> j < n mod 64"
  by (simp only: BITMAP_LAST_WORD_MASK_def if_True not_False_eq_True) (simp only: bit_low_mask mod_less_divisor zero_less_numeral)

lemma word_nonzero_iff: "(w :: ulong) \<noteq> 0 \<longleftrightarrow> (\<exists>j<64. bit w j)"
  using nonzero_has_bit [of w] by auto

lemma any_bits_iff:
  fixes f :: "nat \<Rightarrow> ulong"
  shows "(\<exists>k<n div 64. f k \<noteq> 0) \<or> (n mod 64 \<noteq> 0 \<and> f (n div 64) AND BITMAP_LAST_WORD_MASK n \<noteq> 0)
     \<longleftrightarrow> (\<exists>i<n. bit (f (i div 64)) (i mod 64))" (is "?L \<longleftrightarrow> ?R")
proof
  assume ?L
  then show ?R
  proof
    assume "\<exists>k<n div 64. f k \<noteq> 0"
    then obtain k j where "k < n div 64" "j < 64" "bit (f k) j" by (auto simp: word_nonzero_iff)
    moreover from this have "64 * k + j < n"
      using div_mult_mod_eq [of n 64] by linarith
    ultimately show ?R by (intro exI [of _ "64 * k + j"]) auto
  next
    assume a: "n mod 64 \<noteq> 0 \<and> f (n div 64) AND BITMAP_LAST_WORD_MASK n \<noteq> 0"
    then obtain j where "bit (f (n div 64)) j" "j < n mod 64"
      using bit_last_word_mask by (auto simp: word_nonzero_iff bit_and_iff)
    moreover from this have "64 * (n div 64) + j < n" using div_mult_mod_eq [of n 64] by linarith
    ultimately show ?R using a by (intro exI [of _ "64 * (n div 64) + j"]) auto
  qed
next
  assume ?R
  then obtain i where i: "i < n" "bit (f (i div 64)) (i mod 64)" by blast
  show ?L
  proof (cases "i div 64 < n div 64")
    case True
    moreover have "f (i div 64) \<noteq> 0" using i(2) by auto
    ultimately show ?thesis by blast
  next
    case False
    then have e: "i div 64 = n div 64" using i(1) by (metis div_le_mono less_imp_le antisym_conv2)
    then have "i mod 64 < n mod 64" using i(1) by (metis div_mult_mod_eq nat_add_left_cancel_less)
    then show ?thesis
      using i(2) e bit_last_word_mask [of n "i mod 64"]
      by (auto simp: word_nonzero_iff bit_and_iff intro!: exI [of _ "i mod 64"])
  qed
qed

text \<open>
  A predicate loop checks \<open>f k\<close> on every full word and \<open>f lim & mask\<close> on the partial one;
  its outcome is whether some bit below \<open>n\<close> is set in \<open>f\<close>.
\<close>

lemma predicate_loop:
  fixes f :: "nat \<Rightarrow> ulong"
  assumes full: "\<And>k. k < n div 64 \<Longrightarrow> c k = Some (f k \<noteq> 0)"
    and part: "n mod 64 \<noteq> 0 \<Longrightarrow> d = Some (if f (n div 64) AND BITMAP_LAST_WORD_MASK n \<noteq> 0 then y else \<not> y)"
    and hits: "\<And>b. e b = (if b then Some y else if n mod 64 \<noteq> 0 then d else Some (\<not> y))"
    and bits: "\<And>i. i < n \<Longrightarrow> bit (f (i div 64)) (i mod 64) \<longleftrightarrow> P i"
  shows "Option.bind (anyM c [0..<n div 64]) e = Some ((\<exists>i<n. P i) = y)"
proof -
  have "anyM c [0..<n div 64] = Some (\<exists>k \<in> set [0..<n div 64]. f k \<noteq> 0)"
    by (rule anyM_total) (use full in auto)
  then have "Option.bind (anyM c [0..<n div 64]) e = e (\<exists>k<n div 64. f k \<noteq> 0)"
    by (simp add: Bex_def)
  also have "\<dots> = Some (((\<exists>k<n div 64. f k \<noteq> 0) \<or>
      (n mod 64 \<noteq> 0 \<and> f (n div 64) AND BITMAP_LAST_WORD_MASK n \<noteq> 0)) = y)"
    unfolding hits using part by auto
  also have "((\<exists>k<n div 64. f k \<noteq> 0) \<or> (n mod 64 \<noteq> 0 \<and> f (n div 64) AND BITMAP_LAST_WORD_MASK n \<noteq> 0))
      \<longleftrightarrow> (\<exists>i<n. P i)"
    unfolding any_bits_iff using bits by (simp cong: conj_cong)
  finally show ?thesis .
qed

lemma bmem_bit: "i < n \<Longrightarrow> n \<le> room a \<Longrightarrow> bit (a ! (i div 64)) (i mod 64) \<longleftrightarrow> bmem a i"
  by (auto simp: bmem_def)

lemma raw_bitmap_empty_spec:
  assumes "n \<le> room a"
  shows "raw_bitmap_empty a n = Some (\<forall>i<n. \<not> bmem a i)"
proof -
  have "raw_bitmap_empty a n = Some ((\<exists>i<n. bmem a i) = False)"
    unfolding raw_bitmap_empty_def Let_def
    by (rule predicate_loop [where f = "\<lambda>k. a ! k"])
       (use assms last_words in \<open>auto simp: bmem_bit bit_simps \<close>)
  then show ?thesis by auto
qed

lemma raw_bitmap_full_spec:
  assumes "n \<le> room a"
  shows "raw_bitmap_full a n = Some (\<forall>i<n. bmem a i)"
proof -
  have "raw_bitmap_full a n = Some ((\<exists>i<n. \<not> bmem a i) = False)"
    unfolding raw_bitmap_full_def Let_def
    by (rule predicate_loop [where f = "\<lambda>k. NOT (a ! k)"])
       (use assms last_words in \<open>auto simp: bmem_bit bit_simps \<close>)
  then show ?thesis by auto
qed

lemma xor_eq_0_iff: "(a :: ulong) XOR b = 0 \<longleftrightarrow> a = b"
  by (auto simp: bit_eq_iff bit_xor_iff)

lemma raw_bitmap_equal_spec:
  assumes "n \<le> room a" and "n \<le> room b"
  shows "raw_bitmap_equal a b n = Some (\<forall>i<n. bmem a i = bmem b i)"
proof -
  have "raw_bitmap_equal a b n = Some ((\<exists>i<n. bmem a i \<noteq> bmem b i) = False)"
    unfolding raw_bitmap_equal_def Let_def
    by (rule predicate_loop [where f = "\<lambda>k. a ! k XOR b ! k"])
       (use assms last_words in \<open>auto simp: bmem_bit bit_simps xor_eq_0_iff\<close>)
  then show ?thesis by auto
qed

lemma raw_bitmap_intersects_spec:
  assumes "n \<le> room a" and "n \<le> room b"
  shows "raw_bitmap_intersects a b n = Some (\<exists>i<n. bmem a i \<and> bmem b i)"
proof -
  have "raw_bitmap_intersects a b n = Some ((\<exists>i<n. bmem a i \<and> bmem b i) = True)"
    unfolding raw_bitmap_intersects_def Let_def
    by (rule predicate_loop [where f = "\<lambda>k. a ! k AND b ! k"])
       (use assms last_words in \<open>auto simp: bmem_bit bit_simps \<close>)
  then show ?thesis by auto
qed

lemma raw_bitmap_subset_spec:
  assumes "n \<le> room a" and "n \<le> room b"
  shows "raw_bitmap_subset a b n = Some (\<forall>i<n. bmem a i \<longrightarrow> bmem b i)"
proof -
  have "raw_bitmap_subset a b n = Some ((\<exists>i<n. bmem a i \<and> \<not> bmem b i) = False)"
    unfolding raw_bitmap_subset_def Let_def
    by (rule predicate_loop [where f = "\<lambda>k. a ! k AND NOT (b ! k)"])
       (use assms last_words in \<open>auto simp: bmem_bit bit_simps \<close>)
  then show ?thesis by auto
qed

section \<open>Logical operations\<close>

text \<open>
  A loop that stores \<open>f k\<close> into word \<open>k\<close> for every word writes exactly the words below the limit.
\<close>

lemma store_loop:
  assumes "lim \<le> length dst"
    and "\<And>k d. k < lim \<Longrightarrow> length d = length dst \<Longrightarrow> step k d = Some (d[k := f k])"
  shows "foldM step [0..<lim] dst = Some (map f [0..<lim] @ drop lim dst)"
  using assms
proof (induction lim)
  case 0
  then show ?case by simp
next
  case (Suc lim)
  have IH: "foldM step [0..<lim] dst = Some (map f [0..<lim] @ drop lim dst)"
    using Suc by simp
  let ?d = "map f [0..<lim] @ drop lim dst"
  have "step lim ?d = Some (?d[lim := f lim])" using Suc.prems by simp
  also have "?d[lim := f lim] = map f [0..<Suc lim] @ drop (Suc lim) dst"
    using Suc.prems(1) by (simp add: list_update_append Cons_nth_drop_Suc [symmetric])
  finally show ?case using IH by (simp add: foldM_append)
qed

lemma longs: "n \<le> room a \<Longrightarrow> BITS_TO_LONGS n \<le> length a"
proof -
  assume "n \<le> room a"
  then have "(n + 63) div 64 \<le> (64 * length a + 63) div 64" by (intro div_le_mono) simp
  then show ?thesis by (simp add: BITS_TO_LONGS_def)
qed

lemma less_longs: "i < n \<Longrightarrow> i div 64 < BITS_TO_LONGS n"
proof -
  assume "i < n"
  then have "(i + 64) div 64 \<le> (n + 63) div 64" by (intro div_le_mono) simp
  moreover have "(i + 64) div 64 = Suc (i div 64)" by simp
  ultimately show ?thesis by (simp add: BITS_TO_LONGS_def)
qed

lemma bmem_stored:
  assumes "i < 64 * lim" and "lim \<le> length dst"
  shows "bmem (map f [0..<lim] @ drop lim dst) i \<longleftrightarrow> bit (f (i div 64)) (i mod 64)"
  using assms by (auto simp: bmem_def nth_append less_mult_imp_div_less mult.commute)

lemma stored_bits:
  assumes "n \<le> room dst" and "\<And>i. i < n \<Longrightarrow> bit (f (i div 64)) (i mod 64) \<longleftrightarrow> P i"
  shows "\<forall>i<n. bmem (map f [0..<BITS_TO_LONGS n] @ drop (BITS_TO_LONGS n) dst) i \<longleftrightarrow> P i"
proof (intro allI impI)
  fix i assume i: "i < n"
  have "i < 64 * BITS_TO_LONGS n"
    using less_longs [OF i] by (simp add: div_less_iff_less_mult mult.commute)
  then show "bmem (map f [0..<BITS_TO_LONGS n] @ drop (BITS_TO_LONGS n) dst) i \<longleftrightarrow> P i"
    using bmem_stored [OF _ longs [OF assms(1)], where i = i and f = f] assms(2) [OF i] by simp
qed

lemma raw_bitmap_or_spec:
  assumes "n \<le> room a" "n \<le> room b" "n \<le> room dst"
  shows "\<exists>d. raw_bitmap_or dst a b n = Some d \<and> length d = length dst \<and>
             (\<forall>i<n. bmem d i \<longleftrightarrow> bmem a i \<or> bmem b i)"
proof -
  have "raw_bitmap_or dst a b n =
      Some (map (\<lambda>k. a ! k OR b ! k) [0..<BITS_TO_LONGS n] @ drop (BITS_TO_LONGS n) dst)"
    unfolding raw_bitmap_or_def Let_def
    by (rule store_loop) (use longs assms in \<open>auto simp: less_le_trans\<close>)
  moreover have "\<forall>i<n. bmem (map (\<lambda>k. a ! k OR b ! k) [0..<BITS_TO_LONGS n] @ drop (BITS_TO_LONGS n) dst) i
      \<longleftrightarrow> bmem a i \<or> bmem b i"
    by (rule stored_bits) (use assms in \<open>auto simp: bit_or_iff bmem_bit\<close>)
  ultimately show ?thesis using longs [OF assms(3)] by simp
qed

lemma raw_bitmap_xor_spec:
  assumes "n \<le> room a" "n \<le> room b" "n \<le> room dst"
  shows "\<exists>d. raw_bitmap_xor dst a b n = Some d \<and> length d = length dst \<and>
             (\<forall>i<n. bmem d i \<longleftrightarrow> bmem a i \<noteq> bmem b i)"
proof -
  have "raw_bitmap_xor dst a b n =
      Some (map (\<lambda>k. a ! k XOR b ! k) [0..<BITS_TO_LONGS n] @ drop (BITS_TO_LONGS n) dst)"
    unfolding raw_bitmap_xor_def Let_def
    by (rule store_loop) (use longs assms in \<open>auto simp: less_le_trans\<close>)
  moreover have "\<forall>i<n. bmem (map (\<lambda>k. a ! k XOR b ! k) [0..<BITS_TO_LONGS n] @ drop (BITS_TO_LONGS n) dst) i
      \<longleftrightarrow> bmem a i \<noteq> bmem b i"
    by (rule stored_bits) (use assms in \<open>auto simp: bit_xor_iff bmem_bit\<close>)
  ultimately show ?thesis using longs [OF assms(3)] by simp
qed

text \<open>
  The loops of \<open>__bitmap_and\<close> and \<open>__bitmap_andnot\<close> also accumulate every stored word.
\<close>

lemma store_or_loop:
  assumes "lim \<le> length dst"
    and "\<And>k r d. k < lim \<Longrightarrow> length d = length dst \<Longrightarrow> step k (r, d) = Some (r OR f k, d[k := f k])"
  shows "\<exists>r. foldM step [0..<lim] (0 :: ulong, dst) = Some (r, map f [0..<lim] @ drop lim dst) \<and>
             (\<forall>j. bit r j \<longleftrightarrow> (\<exists>k<lim. bit (f k) j))"
  using assms
proof (induction lim)
  case 0
  then show ?case by simp
next
  case (Suc lim)
  then obtain r where r: "foldM step [0..<lim] (0, dst) = Some (r, map f [0..<lim] @ drop lim dst)"
      "\<And>j. bit r j \<longleftrightarrow> (\<exists>k<lim. bit (f k) j)" by auto
  let ?d = "map f [0..<lim] @ drop lim dst"
  have "step lim (r, ?d) = Some (r OR f lim, ?d[lim := f lim])" using Suc.prems by simp
  also have "?d[lim := f lim] = map f [0..<Suc lim] @ drop (Suc lim) dst"
    using Suc.prems(1) by (simp add: list_update_append Cons_nth_drop_Suc [symmetric])
  finally show ?case using r by (auto simp: foldM_append bit_or_iff less_Suc_eq)
qed

lemma and_loop_result:
  fixes f :: "nat \<Rightarrow> ulong"
  assumes "\<And>j. bit r j \<longleftrightarrow> (\<exists>k<lim. bit (f k) j)"
    and "\<And>i. i < 64 * lim \<Longrightarrow> bit (f (i div 64)) (i mod 64) \<longleftrightarrow> P i"
  shows "r \<noteq> (0 :: ulong) \<longleftrightarrow> (\<exists>i < 64 * lim. P i)"
proof -
  have "r \<noteq> 0 \<longleftrightarrow> (\<exists>k<lim. \<exists>j<64. bit (f k) j)" using assms(1) by (auto simp: word_nonzero_iff)
  also have "\<dots> \<longleftrightarrow> (\<exists>i<64 * lim. bit (f (i div 64)) (i mod 64))"
  proof
    assume "\<exists>k<lim. \<exists>j<64. bit (f k) j"
    then obtain k j where "k < lim" "j < 64" "bit (f k) j" by blast
    then show "\<exists>i<64 * lim. bit (f (i div 64)) (i mod 64)"
      by (intro exI [of _ "64 * k + j"]) auto
  next
    assume "\<exists>i<64 * lim. bit (f (i div 64)) (i mod 64)"
    then obtain i where i: "i < 64 * lim" "bit (f (i div 64)) (i mod 64)" by blast
    then have "i div 64 < lim" by (simp add: less_mult_imp_div_less mult.commute)
    moreover have "i mod 64 < 64" by simp
    ultimately show "\<exists>k<lim. \<exists>j<64. bit (f k) j" using i(2) by blast
  qed
  finally show ?thesis using assms(2) by (simp cong: conj_cong)
qed

lemma longs_room: "n \<le> room a \<Longrightarrow> 64 * BITS_TO_LONGS n \<le> room a"
  using longs by simp

lemma raw_bitmap_and_spec:
  assumes "n \<le> room a" "n \<le> room b" "n \<le> room dst"
  shows "\<exists>d. raw_bitmap_and dst a b n = Some (\<exists>i < 64 * BITS_TO_LONGS n. bmem a i \<and> bmem b i, d) \<and>
             length d = length dst \<and> (\<forall>i<n. bmem d i \<longleftrightarrow> bmem a i \<and> bmem b i)"
proof -
  let ?f = "\<lambda>k. a ! k AND b ! k" and ?lim = "BITS_TO_LONGS n"
  obtain r where r: "foldM (\<lambda>k (result, dst). do { w1 \<leftarrow> rd a k; w2 \<leftarrow> rd b k;
        dst \<leftarrow> wr dst k (w1 AND w2); Some (result OR (w1 AND w2), dst) }) [0..<?lim] (0, dst)
        = Some (r, map ?f [0..<?lim] @ drop ?lim dst)"
      "\<And>j. bit r j \<longleftrightarrow> (\<exists>k<?lim. bit (?f k) j)"
    using store_or_loop [of ?lim dst "\<lambda>k (result, dst). do { w1 \<leftarrow> rd a k; w2 \<leftarrow> rd b k;
        dst \<leftarrow> wr dst k (w1 AND w2); Some (result OR (w1 AND w2), dst) }" ?f] longs assms
    by (auto simp: less_le_trans)
  have "r \<noteq> 0 \<longleftrightarrow> (\<exists>i < 64 * ?lim. bmem a i \<and> bmem b i)"
    by (rule and_loop_result [OF r(2)])
       (use longs_room assms in \<open>auto simp: bit_and_iff bmem_def less_le_trans\<close>)
  moreover have "\<forall>i<n. bmem (map ?f [0..<?lim] @ drop ?lim dst) i \<longleftrightarrow> bmem a i \<and> bmem b i"
    by (rule stored_bits) (use assms in \<open>auto simp: bit_and_iff bmem_bit\<close>)
  ultimately show ?thesis
    using r(1) longs [OF assms(3)] by (simp add: raw_bitmap_and_def)
qed

lemma raw_bitmap_andnot_spec:
  assumes "n \<le> room a" "n \<le> room b" "n \<le> room dst"
  shows "\<exists>d. raw_bitmap_andnot dst a b n = Some (\<exists>i < 64 * BITS_TO_LONGS n. bmem a i \<and> \<not> bmem b i, d) \<and>
             length d = length dst \<and> (\<forall>i<n. bmem d i \<longleftrightarrow> bmem a i \<and> \<not> bmem b i)"
proof -
  let ?f = "\<lambda>k. a ! k AND NOT (b ! k)" and ?lim = "BITS_TO_LONGS n"
  obtain r where r: "foldM (\<lambda>k (result, dst). do { w1 \<leftarrow> rd a k; w2 \<leftarrow> rd b k;
        dst \<leftarrow> wr dst k (w1 AND NOT w2); Some (result OR (w1 AND NOT w2), dst) }) [0..<?lim] (0, dst)
        = Some (r, map ?f [0..<?lim] @ drop ?lim dst)"
      "\<And>j. bit r j \<longleftrightarrow> (\<exists>k<?lim. bit (?f k) j)"
    using store_or_loop [of ?lim dst "\<lambda>k (result, dst). do { w1 \<leftarrow> rd a k; w2 \<leftarrow> rd b k;
        dst \<leftarrow> wr dst k (w1 AND NOT w2); Some (result OR (w1 AND NOT w2), dst) }" ?f] longs assms
    by (auto simp: less_le_trans)
  have "r \<noteq> 0 \<longleftrightarrow> (\<exists>i < 64 * ?lim. bmem a i \<and> \<not> bmem b i)"
    by (rule and_loop_result [OF r(2)])
       (use longs_room assms in \<open>auto simp: bit_simps bmem_def less_le_trans\<close>)
  moreover have "\<forall>i<n. bmem (map ?f [0..<?lim] @ drop ?lim dst) i \<longleftrightarrow> bmem a i \<and> \<not> bmem b i"
    by (rule stored_bits) (use assms in \<open>auto simp: bit_simps bmem_bit\<close>)
  ultimately show ?thesis
    using r(1) longs [OF assms(3)] by (simp add: raw_bitmap_andnot_def)
qed

text \<open>\<open>__bitmap_complement\<close> also clears the unused bits of the last word.\<close>

lemma longs_eq: "BITS_TO_LONGS n = (if n mod 64 = 0 then n div 64 else Suc (n div 64))"
proof -
  have "n + 63 = 64 * (n div 64) + (n mod 64 + 63)" by simp
  then have "(n + 63) div 64 = n div 64 + (n mod 64 + 63) div 64" by (metis div_mult_self4 zero_neq_numeral add.commute)
  moreover have "n mod 64 < 64" by simp
  then have "(n mod 64 + 63) div 64 = (if n mod 64 = 0 then 0 else 1)"
    by (auto intro!: div_nat_eqI)
  ultimately show ?thesis by (simp add: BITS_TO_LONGS_def add.commute)
qed

definition last_masked :: "nat \<Rightarrow> (nat \<Rightarrow> ulong) \<Rightarrow> nat \<Rightarrow> ulong" where
  "last_masked n f k = (if n mod 64 \<noteq> 0 \<and> k = BITS_TO_LONGS n - 1
                        then f k AND (push_bit (n mod 64) 1 - 1) else f k)"

lemma bit_last_masked:
  assumes "k < BITS_TO_LONGS n" and "j < 64"
  shows "bit (last_masked n f k) j \<longleftrightarrow> bit (f k) j \<and> 64 * k + j < n"
proof (cases "n mod 64 \<noteq> 0 \<and> k = BITS_TO_LONGS n - 1")
  case True
  then have k: "k = n div 64" by (simp add: longs_eq)
  have "j < n mod 64 \<longleftrightarrow> 64 * k + j < n" unfolding k using mult_div_mod_eq [of 64 n] by linarith
  moreover have "n mod 64 < 64" by simp
  ultimately show ?thesis using True by (simp only: last_masked_def bit_and_iff bit_low_mask simp_thms if_True)
next
  case False
  then have "k < n div 64" using assms(1) by (auto simp: longs_eq split: if_splits)
  then have "64 * k + j < n" using assms(2) mult_div_mod_eq [of 64 n] by linarith
  then show ?thesis using False by (auto simp: last_masked_def)
qed

lemma raw_bitmap_complement_spec:
  assumes "n \<le> room a" "n \<le> room dst"
  shows "\<exists>d. raw_bitmap_complement dst a n = Some d \<and> length d = length dst \<and>
             (\<forall>i < 64 * BITS_TO_LONGS n. bmem d i \<longleftrightarrow> i < n \<and> \<not> bmem a i)"
proof -
  let ?f = "\<lambda>k. NOT (a ! k)" and ?lim = "BITS_TO_LONGS n"
  have step: "foldM (\<lambda>k dst. do { w \<leftarrow> rd a k; wr dst k (NOT w) }) [0..<n div 64] dst =
      Some (map ?f [0..<n div 64] @ drop (n div 64) dst)"
    by (rule store_loop) (use last_words(1) assms in \<open>auto simp: less_le_trans\<close>)
  have "raw_bitmap_complement dst a n = Some (map (last_masked n ?f) [0..<?lim] @ drop ?lim dst)"
  proof (cases "n mod 64 = 0")
    case True
    then have "map (last_masked n ?f) [0..<?lim] = map ?f [0..<n div 64]"
      by (simp add: longs_eq last_masked_def)
    then show ?thesis using True step by (simp add: raw_bitmap_complement_def longs_eq)
  next
    case False
    have lt: "n div 64 < length a" "n div 64 < length dst" using last_words(2) assms False by auto
    have "map (last_masked n ?f) [0..<?lim] = map ?f [0..<n div 64] @ [NOT (a ! (n div 64)) AND BITMAP_LAST_WORD_MASK n]"
      using False unfolding BITMAP_LAST_WORD_MASK_def
      by (simp only: longs_eq if_False if_True not_False_eq_True simp_thms upt_Suc_append map_append) (simp add: last_masked_def longs_eq)
    then show ?thesis
      using False lt step
      by (simp add: raw_bitmap_complement_def longs_eq Let_def list_update_append Cons_nth_drop_Suc [symmetric])
  qed
  moreover have "bmem (map (last_masked n ?f) [0..<?lim] @ drop ?lim dst) i \<longleftrightarrow> i < n \<and> \<not> bmem a i"
    if i: "i < 64 * ?lim" for i
  proof -
    have k: "i div 64 < ?lim" using i by (simp add: less_mult_imp_div_less mult.commute)
    have "bmem (map (last_masked n ?f) [0..<?lim] @ drop ?lim dst) i \<longleftrightarrow> bit (last_masked n ?f (i div 64)) (i mod 64)"
      using i longs [OF assms(2)] by (rule bmem_stored)
    also have "\<dots> \<longleftrightarrow> bit (?f (i div 64)) (i mod 64) \<and> i < n"
      using bit_last_masked [OF k, of "i mod 64" ?f] by simp
    also have "\<dots> \<longleftrightarrow> i < n \<and> \<not> bmem a i"
      using assms(1) by (auto simp: bit_simps bmem_def)
    finally show ?thesis .
  qed
  ultimately show ?thesis using longs [OF assms(2)] by auto
qed

lemma bitmap_zero_spec:
  assumes "n \<le> room dst"
  shows "\<exists>d. bitmap_zero dst n = Some d \<and> length d = length dst \<and>
             (\<forall>i. bmem d i \<longleftrightarrow> 64 * BITS_TO_LONGS n \<le> i \<and> bmem dst i)"
proof -
  obtain d where d: "memset dst 0 0 (BITS_TO_LONGS n) = Some d"
    using longs [OF assms] by (simp add: memset_def)
  have "d ! (i div 64) = (if i div 64 < BITS_TO_LONGS n then 0 else dst ! (i div 64))" if "i < room dst" for i
    using nth_memset [OF d, of "i div 64"] that by simp
  moreover have "i div 64 < BITS_TO_LONGS n \<longleftrightarrow> \<not> 64 * BITS_TO_LONGS n \<le> i" for i
    by (simp add: div_less_iff_less_mult mult.commute not_le)
  ultimately show ?thesis
    using d length_memset [OF d] by (auto simp: bitmap_zero_def bmem_def split: if_splits)
qed

lemma bitmap_copy_spec:
  assumes "n \<le> room dst" "n \<le> room src"
  shows "\<exists>d. bitmap_copy dst src n = Some d \<and> length d = length dst \<and> (\<forall>i<n. bmem d i \<longleftrightarrow> bmem src i)"
proof -
  obtain d where d: "memcpy dst 0 src 0 (BITS_TO_LONGS n) = Some d"
    using longs [OF assms(1)] longs [OF assms(2)] by (simp add: memcpy_def)
  have "d ! (i div 64) = src ! (i div 64)" if "i < n" for i
    using nth_memcpy [OF d, of "i div 64"] that less_longs [OF that] longs [OF assms(1)] by simp
  then show ?thesis
    using d length_memcpy [OF d] assms by (auto simp: bitmap_copy_def bmem_def)
qed

section \<open>Weight\<close>

lemma le_longs: "n \<le> 64 * BITS_TO_LONGS n"
proof -
  have "n mod 64 < 64" by simp
  then show ?thesis using mult_div_mod_eq [of 64 n] by (auto simp: longs_eq)
qed

lemma card_words:
  "card {i :: nat. i < 64 * k + m \<and> P i} = card {i. i < 64 * k \<and> P i} + card {j. j < m \<and> P (64 * k + j)}"
proof -
  have "{i. i < 64 * k + m \<and> P i} = {i. i < 64 * k \<and> P i} \<union> (+) (64 * k) ` {j. j < m \<and> P (64 * k + j)}"
  proof (intro equalityI subsetI)
    fix i assume i: "i \<in> {i. i < 64 * k + m \<and> P i}"
    show "i \<in> {i. i < 64 * k \<and> P i} \<union> (+) (64 * k) ` {j. j < m \<and> P (64 * k + j)}"
    proof (cases "i < 64 * k")
      case False
      then have "i = 64 * k + (i - 64 * k)" "i - 64 * k < m" using i by auto
      then show ?thesis using i by (intro UnI2 image_eqI [of _ _ "i - 64 * k"]) auto
    qed (use i in simp)
  qed auto
  moreover have "card ((+) (64 * k) ` {j. j < m \<and> P (64 * k + j)}) = card {j. j < m \<and> P (64 * k + j)}"
    by (rule card_image) simp
  moreover have "{i. i < 64 * k \<and> P i} \<inter> (+) (64 * k) ` {j. j < m \<and> P (64 * k + j)} = {}" by auto
  ultimately show ?thesis by (simp add: card_Un_disjoint)
qed

lemma weight_loop:
  assumes "m \<le> length a"
  shows "foldM (\<lambda>k w. do { x \<leftarrow> rd a k; Some (w + hweight64 x) }) [0..<m] 0 =
         Some (card {i. i < 64 * m \<and> bmem a i})"
  using assms
proof (induction m)
  case (Suc m)
  have "{j. bit (a ! m) j} = {j. j < 64 \<and> bmem a (64 * m + j)}"
    using Suc.prems bit_imp_le_length [of "a ! m"] by (auto simp: bmem_word)
  then show ?case
    using Suc card_words [of m 64 "bmem a"]
    by (simp add: foldM_append hweight64_def builtin_popcount_card add.commute)
qed simp

lemma raw_bitmap_weight_spec:
  assumes "n \<le> room a"
  shows "raw_bitmap_weight a n = Some (card {i. i < n \<and> bmem a i})"
proof (cases "n mod 64 = 0")
  case True
  then have "64 * (n div 64) = n" by (simp add: mult_div_mod_eq dvd_eq_mod_eq_0)
  then show ?thesis
    using True weight_loop [OF last_words(1) [OF assms]] by (simp add: raw_bitmap_weight_def)
next
  case False
  let ?k = "n div 64" and ?m = "n mod 64"
  have k: "?k < length a" using last_words(2) [OF assms False] .
  have m: "?m < 64" by simp
  have "bit (a ! ?k AND BITMAP_LAST_WORD_MASK n) j \<longleftrightarrow> j < ?m \<and> bmem a (64 * ?k + j)" for j
    using k m bit_last_word_mask [OF False, of j] by (auto simp: bit_and_iff bmem_def)
  then have "hweight64 (a ! ?k AND BITMAP_LAST_WORD_MASK n) = card {j. j < ?m \<and> bmem a (64 * ?k + j)}"
    by (simp add: hweight64_def builtin_popcount_card)
  then show ?thesis
    using False k weight_loop [OF last_words(1) [OF assms]] card_words [of ?k ?m "bmem a"]
    by (simp add: raw_bitmap_weight_def Let_def)
qed

section \<open>Shifts\<close>

text \<open>
  Both shifts read the source through \<open>last_masked\<close>, so that bits past \<open>n\<close> count as zeros, and
  assemble each destination word from two neighbouring source words.
\<close>

definition sr_word :: "ulong list \<Rightarrow> nat \<Rightarrow> nat \<Rightarrow> nat \<Rightarrow> ulong" where
  "sr_word src shift n k =
     (let x = shift div 64 + k; r = shift mod 64; w = last_masked n ((!) src) in
      push_bit (64 - r) (if r = 0 \<or> BITS_TO_LONGS n \<le> x + 1 then 0 else w (x + 1)) OR drop_bit r (w x))"

lemma bit_last_masked_src:
  assumes "n \<le> room src" "k < BITS_TO_LONGS n" "j < 64"
  shows "bit (last_masked n ((!) src) k) j \<longleftrightarrow> 64 * k + j < n \<and> bmem src (64 * k + j)"
  using bit_last_masked [OF assms(2,3), of "(!) src"] longs [OF assms(1)] assms(2,3) by (auto simp: bmem_word)

lemma bit_sr_word:
  assumes "n \<le> room src" and k: "k < BITS_TO_LONGS n - shift div 64" and j: "j < 64"
  shows "bit (sr_word src shift n k) j \<longleftrightarrow> 64 * k + j + shift < n \<and> bmem src (64 * k + j + shift)"
proof -
  define x r where "x = shift div 64 + k" and "r = shift mod 64"
  have sh: "64 * k + j + shift = 64 * x + (r + j)" unfolding x_def r_def by simp
  note w = bit_last_masked_src [OF assms(1)]
  let ?w = "last_masked n ((!) src)"
  have x: "x < BITS_TO_LONGS n" and r: "r < 64" using k by (auto simp: x_def r_def)
  have def_: "sr_word src shift n k =
      push_bit (64 - r) (if r = 0 \<or> BITS_TO_LONGS n \<le> x + 1 then 0 else ?w (x + 1)) OR drop_bit r (?w x)"
    by (simp add: sr_word_def x_def r_def Let_def)
  show ?thesis
  proof (cases "r + j < 64")
    case True
    then show ?thesis unfolding sh def_
      using w [OF x True] j r by (auto simp: bit_or_iff bit_push_bit_iff bit_drop_bit_eq)
  next
    case False
    then have hi: "64 * x + (r + j) = 64 * (x + 1) + (r + j - 64)" and lt: "r + j - 64 < 64" and r0: "r \<noteq> 0"
      and ix: "j - (64 - r) = r + j - 64" "64 - r \<le> j"
      using r j by auto
    have low: "\<not> bit (?w x) (r + j)" using False bit_imp_le_length [of "?w x" "r + j"] by auto
    show ?thesis
    proof (cases "BITS_TO_LONGS n \<le> x + 1")
      case True
      then have "\<not> 64 * (x + 1) + (r + j - 64) < n" using le_longs [of n] mult_le_mono2 [OF True, of 64] by linarith
      then show ?thesis unfolding sh hi def_
        using low True by (simp add: bit_or_iff bit_drop_bit_eq)
    next
      case F: False
      then have x1: "x + 1 < BITS_TO_LONGS n" by simp
      have "bit (sr_word src shift n k) j \<longleftrightarrow> bit (?w (x + 1)) (r + j - 64)"
        unfolding def_ using low r0 j ix F by (simp add: bit_or_iff bit_push_bit_iff bit_drop_bit_eq)
      then show ?thesis unfolding sh hi using w [OF x1 lt] by (simp only:)
    qed
  qed
qed

lemma raw_bitmap_shift_right_spec:
  assumes "n \<le> room src" "n \<le> room dst" "shift div 64 \<le> BITS_TO_LONGS n"
  shows "\<exists>d. raw_bitmap_shift_right dst src shift n = Some d \<and> length d = length dst \<and>
             (\<forall>i<n. bmem d i \<longleftrightarrow> i + shift < n \<and> bmem src (i + shift))"
proof -
  let ?lim = "BITS_TO_LONGS n" and ?off = "shift div 64"
  let ?F = "\<lambda>k. last_masked n (\<lambda>k. sr_word src shift n k) k"
  define G where "G k = (if k < ?lim - ?off then ?F k else 0)" for k
  have L: "?lim \<le> length src" "?lim \<le> length dst" using longs assms by auto
  have "raw_bitmap_shift_right dst src shift n =
      do { d \<leftarrow> Some (map ?F [0..<?lim - ?off] @ drop (?lim - ?off) dst);
           if ?off \<noteq> 0 then (if ?off \<le> ?lim then memset d (?lim - ?off) 0 ?off else None) else Some d }"
    unfolding raw_bitmap_shift_right_def Let_def
    by (rule arg_cong2 [where f = Option.bind], rule store_loop)
       (use L in \<open>auto simp: last_masked_def sr_word_def Let_def\<close>)
  also have "\<dots> = Some (map G [0..<?lim] @ drop ?lim dst)"
    using L assms(3)
    by (auto simp: memset_def G_def intro!: nth_equalityI simp: nth_append)
  finally have eq: "raw_bitmap_shift_right dst src shift n = Some (map G [0..<?lim] @ drop ?lim dst)" .
  have "bit (G (i div 64)) (i mod 64) \<longleftrightarrow> i + shift < n \<and> bmem src (i + shift)" if "i < n" for i
  proof (cases "i div 64 < ?lim - ?off")
    case True
    then show ?thesis
      using bit_last_masked [OF less_longs [OF that], of "i mod 64" "sr_word src shift n"] that
        bit_sr_word [OF assms(1) True, of "i mod 64"] by (simp add: G_def)
  next
    case False
    have "?lim \<le> i div 64 + ?off" using False by simp
    from mult_le_mono2 [OF this, of 64] have "64 * ?lim \<le> 64 * (i div 64) + 64 * ?off"
      unfolding distrib_left .
    then have "n \<le> i + shift"
      using le_longs [of n] times_div_less_eq_dividend [of 64 i] times_div_less_eq_dividend [of 64 shift] by linarith
    then show ?thesis using False by (simp add: G_def)
  qed
  then show ?thesis using eq L stored_bits [OF assms(2), of G] by auto
qed

lemma store_loop_down:
  assumes "off + m \<le> length dst"
    and "\<And>k d. k < m \<Longrightarrow> length d = length dst \<Longrightarrow> step k d = Some (d[k + off := f k])"
  shows "foldM step (rev [0..<m]) dst = Some (take off dst @ map f [0..<m] @ drop (off + m) dst)"
  using assms
proof (induction m arbitrary: dst)
  case (Suc m)
  have "foldM step (rev [0..<m]) (dst[m + off := f m]) =
      Some (take off (dst[m + off := f m]) @ map f [0..<m] @ drop (off + m) (dst[m + off := f m]))"
    using Suc.prems by (intro Suc.IH) auto
  moreover have "drop (off + m) (dst[m + off := f m]) = f m # drop (off + Suc m) dst"
    using Suc.prems(1) by (simp add: Cons_nth_drop_Suc [symmetric] add.commute)
  ultimately show ?case using Suc.prems(2) [of m dst] by simp
qed simp

definition sl_word :: "ulong list \<Rightarrow> nat \<Rightarrow> nat \<Rightarrow> nat \<Rightarrow> ulong" where
  "sl_word src shift n k =
     (let r = shift mod 64 in
      drop_bit (64 - r) (if r \<noteq> 0 \<and> 0 < k then src ! (k - 1) else 0) OR push_bit r (last_masked n ((!) src) k))"

lemma bit_sl_word:
  assumes "n \<le> room src" "k < BITS_TO_LONGS n" "j < 64" "64 * k + j < n + shift mod 64"
  shows "bit (sl_word src shift n k) j \<longleftrightarrow>
           shift mod 64 \<le> 64 * k + j \<and> bmem src (64 * k + j - shift mod 64)"
proof -
  define r where "r = shift mod 64"
  have r: "r < 64" by (simp add: r_def)
  have k: "k < length src" using longs [OF assms(1)] assms(2) by simp
  have def_: "sl_word src shift n k = drop_bit (64 - r) (if r \<noteq> 0 \<and> 0 < k then src ! (k - 1) else 0) OR
      push_bit r (last_masked n ((!) src) k)" by (simp add: sl_word_def r_def Let_def)
  show ?thesis
  proof (cases "r \<le> j")
    case True
    then have ix: "64 * k + j - r = 64 * k + (j - r)" and lt: "j - r < 64" "64 * k + (j - r) < n"
      using assms(3,4) by (auto simp: r_def)
    have "\<not> bit (src ! (k - 1)) (64 - r + j)"
      using True r bit_imp_le_length [of "src ! (k - 1)" "64 - r + j"] by auto
    then have "bit (sl_word src shift n k) j \<longleftrightarrow> bit (last_masked n ((!) src) k) (j - r)"
      unfolding def_ using True assms(3) by (auto simp: bit_or_iff bit_push_bit_iff bit_drop_bit_eq)
    then show ?thesis
      unfolding r_def [symmetric] ix using bit_last_masked_src [OF assms(1,2) lt(1)] lt True by simp
  next
    case False
    then have "bit (sl_word src shift n k) j \<longleftrightarrow> 0 < k \<and> bit (src ! (k - 1)) (64 - r + j)"
      unfolding def_ by (auto simp: bit_or_iff bit_push_bit_iff bit_drop_bit_eq)
    moreover have "bmem src (64 * k + j - r) \<longleftrightarrow> bit (src ! (k - 1)) (64 - r + j)" "r \<le> 64 * k + j" if "0 < k"
    proof -
      have ix: "64 * k + j - r = 64 * (k - 1) + (64 - r + j)" using that False r by (cases k) auto
      have "k - 1 < length src" "64 - r + j < 64" using False r k by auto
      then show "bmem src (64 * k + j - r) \<longleftrightarrow> bit (src ! (k - 1)) (64 - r + j)"
        unfolding ix by (rule bmem_word)
      show "r \<le> 64 * k + j" using that r by (cases k) auto
    qed
    ultimately show ?thesis
      unfolding r_def [symmetric] using False by (cases "k = 0") auto
  qed
qed

lemma shift_cancel:
  fixes a b r :: nat
  assumes "i = a + b" "s = r + b"
  shows "a - r = i - s" "r \<le> a \<longleftrightarrow> s \<le> i"
  using assms by simp_all

lemma raw_bitmap_shift_left_spec:
  assumes "n \<le> room src" "n \<le> room dst" "shift div 64 \<le> BITS_TO_LONGS n"
  shows "\<exists>d. raw_bitmap_shift_left dst src shift n = Some d \<and> length d = length dst \<and>
             (\<forall>i<n. bmem d i \<longleftrightarrow> shift \<le> i \<and> bmem src (i - shift))"
proof -
  let ?lim = "BITS_TO_LONGS n" and ?off = "shift div 64" and ?m = "BITS_TO_LONGS n - shift div 64"
  let ?F = "\<lambda>k. if n mod 64 \<noteq> 0 \<and> k + ?off = ?lim - 1
                 then sl_word src shift n k AND (push_bit (n mod 64) 1 - 1) else sl_word src shift n k"
  let ?H = "\<lambda>x. last_masked n (\<lambda>x. sl_word src shift n (x - ?off)) x"
  define G where "G x = (if x < ?off then 0 else ?H x)" for x
  have L: "?lim \<le> length src" "?lim \<le> length dst" using longs assms by auto
  have "raw_bitmap_shift_left dst src shift n =
      do { d \<leftarrow> Some (take ?off dst @ map ?F [0..<?m] @ drop (?off + ?m) dst);
           if ?off \<noteq> 0 then memset d 0 0 ?off else Some d }"
    unfolding raw_bitmap_shift_left_def Let_def
    by (rule arg_cong2 [where f = Option.bind], rule store_loop_down)
       (use L assms(3) in \<open>auto simp: last_masked_def sl_word_def Let_def\<close>)
  also have "\<dots> = Some (map G [0..<?lim] @ drop ?lim dst)"
    using L assms(3) by (auto simp: memset_def G_def last_masked_def intro!: nth_equalityI simp: nth_append)
  finally have eq: "raw_bitmap_shift_left dst src shift n = Some (map G [0..<?lim] @ drop ?lim dst)" .
  have "bit (G (i div 64)) (i mod 64) \<longleftrightarrow> shift \<le> i \<and> bmem src (i - shift)" if i: "i < n" for i
  proof (cases "i div 64 < ?off")
    case True
    then have "\<not> shift \<le> i" using div_le_mono [of shift i 64] by linarith
    then show ?thesis using True by (simp add: G_def)
  next
    case False
    let ?k = "i div 64 - ?off"
    have ik: "i = 64 * ?k + i mod 64 + 64 * ?off"
      using False by (simp add: diff_mult_distrib2)
    have k: "?k < ?lim" using less_longs [OF i] by simp
    have "bit (G (i div 64)) (i mod 64) \<longleftrightarrow> bit (sl_word src shift n ?k) (i mod 64)"
      using False bit_last_masked [OF less_longs [OF i], of "i mod 64" "\<lambda>x. sl_word src shift n (x - ?off)"] i
      by (simp add: G_def)
    also have "\<dots> \<longleftrightarrow> shift mod 64 \<le> 64 * ?k + i mod 64 \<and> bmem src (64 * ?k + i mod 64 - shift mod 64)"
      using ik i by (intro bit_sl_word [OF assms(1) k]) simp_all
    also have "64 * ?k + i mod 64 - shift mod 64 = i - shift"
      by (rule shift_cancel [OF ik]) simp
    also have "shift mod 64 \<le> 64 * ?k + i mod 64 \<longleftrightarrow> shift \<le> i"
      by (rule shift_cancel [OF ik]) simp
    finally show ?thesis .
  qed
  then show ?thesis using eq L stored_bits [OF assms(2), of G] by auto
qed

section \<open>Filling and byte order\<close>

lemma bitmap_fill_spec:
  assumes "n \<le> room dst" "0 < n"
  shows "\<exists>d. bitmap_fill dst n = Some d \<and> length d = length dst \<and>
             (\<forall>i < 64 * BITS_TO_LONGS n. bmem d i \<longleftrightarrow> i < n)"
proof -
  let ?lim = "BITS_TO_LONGS n"
  let ?F = "last_masked n (\<lambda>k. NOT 0)"
  have L: "?lim \<le> length dst" "0 < ?lim"
    using longs [OF assms(1)] less_longs [OF assms(2)] by auto
  have last: "BITMAP_LAST_WORD_MASK n = ?F (?lim - 1)"
    unfolding BITMAP_LAST_WORD_MASK_def last_masked_def by simp
  have "bitmap_fill dst n = Some (map ?F [0..<?lim] @ drop ?lim dst)"
    using L unfolding bitmap_fill_def Let_def last
    by (auto simp: memset_def last_masked_def nth_append nth_list_update intro!: nth_equalityI)
  moreover have "bmem (map ?F [0..<?lim] @ drop ?lim dst) i \<longleftrightarrow> i < n" if "i < 64 * ?lim" for i
  proof -
    have k: "i div 64 < ?lim" using that by (simp add: less_mult_imp_div_less mult.commute)
    have "bmem (map ?F [0..<?lim] @ drop ?lim dst) i \<longleftrightarrow> bit (?F (i div 64)) (i mod 64)"
      using that L(1) by (rule bmem_stored)
    also have "\<dots> \<longleftrightarrow> bit (NOT 0 :: ulong) (i mod 64) \<and> i < n"
      using bit_last_masked [OF k, of "i mod 64" "\<lambda>k. NOT 0"] by simp
    finally show ?thesis by (simp add: bit_not_iff possible_bit_def)
  qed
  ultimately show ?thesis using L by auto
qed

lemma bitmap_copy_le_spec:
  assumes "n \<le> room dst" "n \<le> room src" "n mod 64 = 0"
  shows "\<exists>d. bitmap_copy_le dst src n = Some d \<and> length d = length dst \<and>
             (\<forall>i<n. bmem d i \<longleftrightarrow> bmem src (le_pos i))"
proof -
  let ?F = "\<lambda>k. swab64 (src ! k)"
  have lim: "n div 64 = BITS_TO_LONGS n" using assms(3) by (simp add: longs_eq)
  have "bitmap_copy_le dst src n = Some (map ?F [0..<BITS_TO_LONGS n] @ drop (BITS_TO_LONGS n) dst)"
    unfolding bitmap_copy_le_def lim
    by (rule store_loop) (use longs [OF assms(1)] longs [OF assms(2)] in auto)
  moreover have "bit (?F (i div 64)) (i mod 64) \<longleftrightarrow> bmem src (le_pos i)" if "i < n" for i
  proof -
    have "i < room src" using that assms(2) by simp
    from bmem_swab [OF this] show ?thesis using that assms(2) by (simp add: bmem_def)
  qed
  ultimately show ?thesis using longs [OF assms(1)] stored_bits [OF assms(1), of ?F] by auto
qed

section \<open>Bitmaps as sets\<close>

text \<open>The set of members below \<open>n\<close>, which the operations manipulate.\<close>

definition bitset :: "nat \<Rightarrow> ulong list \<Rightarrow> nat set" where
  "bitset n a = {i. i < n \<and> bmem a i}"

text \<open>
  C39: Bitmaps of \<open>n\<close> bits implement finite sets: the word-wise routines compute intersection,
  union, symmetric difference, difference and complement of the sets of the bits below \<open>n\<close>,
  stay inside their arrays whether or not \<open>n\<close> is a multiple of the word size, and leave the
  length of the destination alone.
\<close>

theorem bitmap_algebra:
  assumes "n \<le> room a" "n \<le> room b" "n \<le> room dst"
  shows "(\<exists>r d. raw_bitmap_and dst a b n = Some (r, d) \<and> length d = length dst \<and> bitset n d = bitset n a \<inter> bitset n b) \<and>
         (\<exists>d. raw_bitmap_or dst a b n = Some d \<and> length d = length dst \<and> bitset n d = bitset n a \<union> bitset n b) \<and>
         (\<exists>d. raw_bitmap_xor dst a b n = Some d \<and> length d = length dst \<and>
              bitset n d = (bitset n a - bitset n b) \<union> (bitset n b - bitset n a)) \<and>
         (\<exists>r d. raw_bitmap_andnot dst a b n = Some (r, d) \<and> length d = length dst \<and> bitset n d = bitset n a - bitset n b) \<and>
         (\<exists>d. raw_bitmap_complement dst a n = Some d \<and> length d = length dst \<and> bitset n d = {..<n} - bitset n a)"
proof (intro conjI)
  show "\<exists>r d. raw_bitmap_and dst a b n = Some (r, d) \<and> length d = length dst \<and> bitset n d = bitset n a \<inter> bitset n b"
    using raw_bitmap_and_spec [OF assms] by (auto simp: bitset_def)
  show "\<exists>d. raw_bitmap_or dst a b n = Some d \<and> length d = length dst \<and> bitset n d = bitset n a \<union> bitset n b"
    using raw_bitmap_or_spec [OF assms] by (auto simp: bitset_def)
  show "\<exists>d. raw_bitmap_xor dst a b n = Some d \<and> length d = length dst \<and>
      bitset n d = (bitset n a - bitset n b) \<union> (bitset n b - bitset n a)"
    using raw_bitmap_xor_spec [OF assms] by (auto simp: bitset_def)
  show "\<exists>r d. raw_bitmap_andnot dst a b n = Some (r, d) \<and> length d = length dst \<and> bitset n d = bitset n a - bitset n b"
    using raw_bitmap_andnot_spec [OF assms] by (auto simp: bitset_def)
  have "i < n \<Longrightarrow> i < 64 * BITS_TO_LONGS n" for i using le_longs [of n] by linarith
  then show "\<exists>d. raw_bitmap_complement dst a n = Some d \<and> length d = length dst \<and> bitset n d = {..<n} - bitset n a"
    using raw_bitmap_complement_spec [OF assms(1,3)] by (auto simp: bitset_def)
qed

theorem bitmap_algebra_witness:
  "raw_bitmap_xor [0] [0x3] [0x6] 4 = Some [0x5] \<and> bitset 4 [0x5] = (bitset 4 [0x3] - bitset 4 [0x6]) \<union> (bitset 4 [0x6] - bitset 4 [0x3])"
proof -
  have "raw_bitmap_xor [0] [0x3] [0x6] 4 = Some [0x5]" by code_simp
  then show ?thesis using bitmap_algebra [of 4 "[0x3]" "[0x6]" "[0]"] by auto
qed

text \<open>
  The predicates decide emptiness, fullness, equality, intersection and inclusion of those
  sets, and the weight is their size; bits past \<open>n\<close> in the last word do not matter.
\<close>

theorem bitmap_predicates:
  assumes "n \<le> room a" "n \<le> room b"
  shows "raw_bitmap_empty a n = Some (bitset n a = {}) \<and>
         raw_bitmap_full a n = Some (bitset n a = {..<n}) \<and>
         raw_bitmap_equal a b n = Some (bitset n a = bitset n b) \<and>
         raw_bitmap_intersects a b n = Some (bitset n a \<inter> bitset n b \<noteq> {}) \<and>
         raw_bitmap_subset a b n = Some (bitset n a \<subseteq> bitset n b) \<and>
         raw_bitmap_weight a n = Some (card (bitset n a))"
  using assms
  by (auto simp: raw_bitmap_empty_spec raw_bitmap_full_spec raw_bitmap_equal_spec raw_bitmap_intersects_spec
      raw_bitmap_subset_spec raw_bitmap_weight_spec bitset_def)

theorem bitmap_predicates_witness:
  "raw_bitmap_weight [0xFF, 0x5] 65 = Some 9 \<and> card (bitset 65 [0xFF, 0x5]) = 9"
proof -
  have "raw_bitmap_weight [0xFF, 0x5] 65 = Some 9" by code_simp
  then show ?thesis using bitmap_predicates [of 65 "[0xFF, 0x5]" "[0xFF, 0x5]"] by simp
qed

text \<open>
  The shifts move the set by \<open>shift\<close> positions, drop what leaves the \<open>n\<close> bits and feed in zeros,
  for every shift that starts inside the array and whatever the unused bits of the source.
\<close>

theorem bitmap_shifts:
  assumes "n \<le> room src" "n \<le> room dst" "shift div 64 \<le> BITS_TO_LONGS n"
  shows "(\<exists>d. raw_bitmap_shift_right dst src shift n = Some d \<and> length d = length dst \<and>
              bitset n d = {i. i + shift \<in> bitset n src}) \<and>
         (\<exists>d. raw_bitmap_shift_left dst src shift n = Some d \<and> length d = length dst \<and>
              bitset n d = {j. j < n \<and> (\<exists>i \<in> bitset n src. j = i + shift)})"
proof (intro conjI)
  show "\<exists>d. raw_bitmap_shift_right dst src shift n = Some d \<and> length d = length dst \<and>
      bitset n d = {i. i + shift \<in> bitset n src}"
    using raw_bitmap_shift_right_spec [OF assms] by (auto simp: bitset_def)
  obtain d where d: "raw_bitmap_shift_left dst src shift n = Some d" "length d = length dst"
      "\<forall>i<n. bmem d i \<longleftrightarrow> shift \<le> i \<and> bmem src (i - shift)"
    using raw_bitmap_shift_left_spec [OF assms] by blast
  have "shift \<le> j \<and> bmem src (j - shift) \<longleftrightarrow> (\<exists>i \<in> bitset n src. j = i + shift)" if "j < n" for j
    using that by (auto simp: bitset_def intro!: exI [of _ "j - shift"])
  then show "\<exists>d. raw_bitmap_shift_left dst src shift n = Some d \<and> length d = length dst \<and>
      bitset n d = {j. j < n \<and> (\<exists>i \<in> bitset n src. j = i + shift)}"
    using d by (auto simp: bitset_def)
qed

theorem bitmap_shifts_witness:
  "raw_bitmap_shift_right [0, 0] [0, 0x3] 60 66 = Some [0x30, 0] \<and> bitset 66 [0x30, 0] = {i. i + 60 \<in> bitset 66 [0, 0x3]}"
proof -
  have "raw_bitmap_shift_right [0, 0] [0, 0x3] 60 66 = Some [0x30, 0]" by code_simp
  then show ?thesis using bitmap_shifts [of 66 "[0, 0x3]" "[0, 0]" 60] by (simp add: BITS_TO_LONGS_def)
qed

text \<open>
  The Boolean result of \<open>__bitmap_and\<close> and \<open>__bitmap_andnot\<close> is taken over whole words: a common bit
  past \<open>n\<close> makes it true although the intersection of the first \<open>n\<close> bits is empty.
\<close>

lemma bitmap_and_unused_bits: "raw_bitmap_and [0] [2] [2] 1 = Some (True, [2]) \<and> raw_bitmap_intersects [2] [2] 1 = Some False"
  by code_simp

end
