(* ===== verification/Bitmap_Region.thy ===== *)
theory Bitmap_Region
  imports Bitmap
begin

text \<open>
  Power-of-two regions of a bitmap (\<open>lib/bitmap.c\<close>: \<open>__reg_op\<close>, \<open>bitmap_find_free_region\<close>,
  \<open>bitmap_release_region\<close>, \<open>bitmap_allocate_region\<close>), and the contract \<open>bit_allocator\<close> of an
  allocator that marks cells in a bitmap: no cell is ever handed out twice. The IOMMU area
  allocator is a second implementation of that contract.

  \<open>1 << order\<close> and \<open>pos + (1 << order)\<close> are \<open>int\<close> computations, so \<open>order \<ge> 31\<close> and an end of
  \<open>2 ^ 31\<close> or more are undefined and give \<open>None\<close>.
\<close>

section \<open>The operations\<close>

datatype reg_op = REG_OP_ISFREE | REG_OP_ALLOC | REG_OP_RELEASE

definition raw_reg_op :: "ulong list \<Rightarrow> nat \<Rightarrow> nat \<Rightarrow> reg_op \<Rightarrow> (int \<times> ulong list) option" where
  "raw_reg_op bitmap pos order rop =
     (if 31 \<le> order then None else
      let nbits_reg = 2 ^ order;
          index = pos div BITS_PER_LONG;
          offset = pos - index * BITS_PER_LONG;
          nlongs_reg = BITS_TO_LONGS nbits_reg;
          nbitsinlong = min nbits_reg BITS_PER_LONG;
          msk = push_bit (nbitsinlong - 1) 1;
          msk = msk + (msk - 1);
          msk = push_bit offset msk in
      case rop of
        REG_OP_ISFREE \<Rightarrow>
          do { b \<leftarrow> anyM (\<lambda>i. do { w \<leftarrow> rd bitmap (index + i); Some (w AND msk \<noteq> 0) }) [0..<nlongs_reg];
               Some (if b then 0 else 1, bitmap) }
      | REG_OP_ALLOC \<Rightarrow>
          do { bitmap \<leftarrow> foldM (\<lambda>i bm. do { w \<leftarrow> rd bm (index + i); wr bm (index + i) (w OR msk) })
                          [0..<nlongs_reg] bitmap;
               Some (0, bitmap) }
      | REG_OP_RELEASE \<Rightarrow>
          do { bitmap \<leftarrow> foldM (\<lambda>i bm. do { w \<leftarrow> rd bm (index + i); wr bm (index + i) (w AND NOT msk) })
                          [0..<nlongs_reg] bitmap;
               Some (0, bitmap) })"

function find_free_region_from :: "ulong list \<Rightarrow> nat \<Rightarrow> nat \<Rightarrow> nat \<Rightarrow> (int \<times> ulong list) option" where
  "find_free_region_from bitmap bits order pos =
     (let e = pos + 2 ^ order in
      if 31 \<le> order \<or> 2 ^ 31 \<le> e then None
      else if e \<le> bits then
        (case raw_reg_op bitmap pos order REG_OP_ISFREE of
           None \<Rightarrow> None
         | Some (free, bitmap') \<Rightarrow>
             if free = 0 then find_free_region_from bitmap' bits order e
             else do { (r, bitmap) \<leftarrow> raw_reg_op bitmap' pos order REG_OP_ALLOC; Some (int pos, bitmap) })
      else Some (- ENOMEM, bitmap))"
  by pat_completeness auto
termination
proof (relation "measure (\<lambda>(bm, bits, order, pos). Suc bits - pos)")
  fix pos e bits order :: nat
  assume "e = pos + 2 ^ order" "e \<le> bits"
  moreover have "0 < (2 :: nat) ^ order" by simp
  ultimately have "Suc bits - e < Suc bits - pos" by linarith
  then show "((bitmap', bits, order, e), bitmap, bits, order, pos) \<in> measure (\<lambda>(bm, bits, order, pos). Suc bits - pos)"
    for bitmap bitmap' :: "ulong list" by simp
qed simp

declare find_free_region_from.simps [simp del]

definition bitmap_find_free_region :: "ulong list \<Rightarrow> nat \<Rightarrow> nat \<Rightarrow> (int \<times> ulong list) option" where
  "bitmap_find_free_region bitmap bits order = find_free_region_from bitmap bits order 0"

definition bitmap_release_region :: "ulong list \<Rightarrow> nat \<Rightarrow> nat \<Rightarrow> ulong list option" where
  "bitmap_release_region bitmap pos order =
     do { (r, bitmap) \<leftarrow> raw_reg_op bitmap pos order REG_OP_RELEASE; Some bitmap }"

definition bitmap_allocate_region :: "ulong list \<Rightarrow> nat \<Rightarrow> nat \<Rightarrow> (int \<times> ulong list) option" where
  "bitmap_allocate_region bitmap pos order =
     do { (free, bitmap) \<leftarrow> raw_reg_op bitmap pos order REG_OP_ISFREE;
          if free = 0 then Some (- EBUSY, bitmap)
          else do { (r, bitmap) \<leftarrow> raw_reg_op bitmap pos order REG_OP_ALLOC; Some (0, bitmap) } }"

section \<open>One region\<close>

definition region :: "nat \<Rightarrow> nat \<Rightarrow> nat set" where
  "region pos order = {pos..<pos + 2 ^ order}"

definition region_ok :: "nat \<Rightarrow> nat \<Rightarrow> nat \<Rightarrow> bool" where
  "region_ok n pos order \<longleftrightarrow> order < 31 \<and> 2 ^ order dvd pos \<and> pos + 2 ^ order \<le> n"

text \<open>The mask the code builds once and applies to each long of the region.\<close>

definition region_mask :: "nat \<Rightarrow> nat \<Rightarrow> ulong" where
  "region_mask pos order =
     push_bit (pos mod 64) (push_bit (min (2 ^ order) 64 - 1) 1 + (push_bit (min (2 ^ order) 64 - 1) 1 - 1))"

lemma double_mask: "0 < m \<Longrightarrow> m \<le> 64 \<Longrightarrow> push_bit (m - 1) 1 + (push_bit (m - 1) 1 - 1) = (mask m :: ulong)"
  by (cases m) (simp_all add: mask_eq_exp_minus_1 push_bit_eq_mult)

lemma bit_region_mask:
  "bit (region_mask pos order) j \<longleftrightarrow> j < 64 \<and> pos mod 64 \<le> j \<and> j < pos mod 64 + min (2 ^ order) 64"
  unfolding region_mask_def by (subst double_mask) (auto simp: bit_push_bit_iff bit_mask_iff possible_bit_def)

text \<open>
  Either the region lies in one long, or it is a whole number of longs: in both cases every long
  it spans is selected by the same mask.
\<close>

lemma region_words:
  assumes "2 ^ order dvd pos" "j < 64"
  shows "64 * k + j \<in> region pos order \<longleftrightarrow>
           pos div 64 \<le> k \<and> k < pos div 64 + BITS_TO_LONGS (2 ^ order) \<and> bit (region_mask pos order) j"
proof (cases "order < 6")
  case True
  then obtain c where c: "(64 :: nat) = 2 ^ order * c" "0 < c"
    by (intro that [of "2 ^ (6 - order)"]) (simp_all flip: power_add)
  obtain q where q: "pos = 2 ^ order * q" using assms(1) by (auto simp: dvd_def)
  have "pos mod 64 = 2 ^ order * (q mod c)" unfolding q c(1) by (rule mult_mod_right [symmetric])
  moreover have "2 ^ order * (q mod c) + 2 ^ order \<le> 2 ^ order * c"
    using mult_le_mono2 [of "Suc (q mod c)" c "2 ^ order"] c(2) by (simp add: Suc_le_eq)
  ultimately have fit: "pos mod 64 + 2 ^ order \<le> 64" using c(1) by simp
  have m: "(2 ^ order :: nat) \<le> 64" using fit by simp
  have "BITS_TO_LONGS (2 ^ order) = 1" using m by (simp add: BITS_TO_LONGS_def div_nat_eqI)
  moreover have "64 * k + j \<in> region pos order \<longleftrightarrow>
      k = pos div 64 \<and> pos mod 64 \<le> j \<and> j < pos mod 64 + 2 ^ order"
  proof -
    define p r where "p = pos div 64" and "r = pos mod 64"
    have "pos = 64 * p + r" "r < 64" by (simp_all add: p_def r_def)
    then show ?thesis unfolding p_def [symmetric] r_def [symmetric] region_def
      using fit [folded r_def] assms(2) by (cases "k < p"; cases "p < k") auto
  qed
  ultimately show ?thesis using m assms(2) by (auto simp: bit_region_mask)
next
  case False
  then have p2: "(2 :: nat) ^ order = 64 * 2 ^ (order - 6)"
    using power_add [of "2 :: nat" 6 "order - 6"] by simp
  then have "64 dvd pos" using assms(1) by (metis dvd_mult_left)
  then have pos: "pos mod 64 = 0" "pos = 64 * (pos div 64)" by auto
  have "BITS_TO_LONGS (2 ^ order) = 2 ^ (order - 6)" unfolding p2 by (simp add: BITS_TO_LONGS_def)
  moreover have "64 * k + j \<in> region pos order \<longleftrightarrow> pos div 64 \<le> k \<and> k < pos div 64 + 2 ^ (order - 6)"
    unfolding region_def using pos(2) p2 assms(2) by auto
  moreover have "bit (region_mask pos order) j"
    using pos(1) assms(2) p2 by (simp add: bit_region_mask)
  ultimately show ?thesis by simp
qed

lemma region_in_longs:
  assumes "region_ok (room bm) pos order"
  shows "pos div 64 + BITS_TO_LONGS (2 ^ order) \<le> length bm"
proof (rule ccontr)
  assume n: "\<not> pos div 64 + BITS_TO_LONGS (2 ^ order) \<le> length bm"
  let ?k = "pos div 64 + BITS_TO_LONGS (2 ^ order) - 1"
  have pos1: "0 < BITS_TO_LONGS (2 ^ order)" using less_longs [of 0 "2 ^ order"] by simp
  have b: "bit (region_mask pos order) (pos mod 64)" by (simp add: bit_region_mask)
  then have "64 * ?k + pos mod 64 \<in> region pos order"
    using assms pos1 by (subst region_words) (auto simp: region_ok_def)
  then have "64 * ?k < room bm" using assms by (simp add: region_def region_ok_def)
  then show False using n pos1 by simp
qed

lemma raw_reg_op_mask:
  "order < 31 \<Longrightarrow> raw_reg_op bm pos order rop =
     (let index = pos div 64; n = BITS_TO_LONGS (2 ^ order); m = region_mask pos order in
      case rop of
        REG_OP_ISFREE \<Rightarrow>
          do { b \<leftarrow> anyM (\<lambda>i. do { w \<leftarrow> rd bm (index + i); Some (w AND m \<noteq> 0) }) [0..<n];
               Some (if b then 0 else 1, bm) }
      | REG_OP_ALLOC \<Rightarrow>
          do { bm \<leftarrow> foldM (\<lambda>i bm. do { w \<leftarrow> rd bm (index + i); wr bm (index + i) (w OR m) }) [0..<n] bm;
               Some (0, bm) }
      | REG_OP_RELEASE \<Rightarrow>
          do { bm \<leftarrow> foldM (\<lambda>i bm. do { w \<leftarrow> rd bm (index + i); wr bm (index + i) (w AND NOT m) }) [0..<n] bm;
               Some (0, bm) })"
  by (simp add: raw_reg_op_def region_mask_def Let_def minus_mult_div_eq_mod mult.commute cong: reg_op.case_cong)

lemma reg_isfree_spec:
  assumes "region_ok (room bm) pos order"
  shows "raw_reg_op bm pos order REG_OP_ISFREE =
           Some (if \<forall>i \<in> region pos order. \<not> bmem bm i then 1 else 0, bm)"
proof -
  let ?n = "BITS_TO_LONGS (2 ^ order)" and ?m = "region_mask pos order" and ?x = "pos div 64"
  have al: "2 ^ order dvd pos" "order < 31" using assms by (auto simp: region_ok_def)
  have L: "?x + ?n \<le> length bm" by (rule region_in_longs [OF assms])
  have "anyM (\<lambda>i. do { w \<leftarrow> rd bm (?x + i); Some (w AND ?m \<noteq> 0) }) [0..<?n] =
        Some (\<exists>i\<in>set [0..<?n]. bm ! (?x + i) AND ?m \<noteq> 0)"
    by (rule anyM_total) (use L in auto)
  moreover have "(\<exists>i\<in>set [0..<?n]. bm ! (?x + i) AND ?m \<noteq> 0) \<longleftrightarrow> (\<exists>i \<in> region pos order. bmem bm i)"
  proof
    assume "\<exists>i\<in>set [0..<?n]. bm ! (?x + i) AND ?m \<noteq> 0"
    then obtain i j where "i < ?n" "j < 64" "bit (bm ! (?x + i)) j" "bit ?m j"
      unfolding word_nonzero_iff bit_and_iff by auto
    then show "\<exists>i \<in> region pos order. bmem bm i"
      using L region_words [OF al(1), of j "?x + i"] bmem_word [of "?x + i" bm j]
      by (intro bexI [of _ "64 * (?x + i) + j"]) simp_all
  next
    assume "\<exists>i \<in> region pos order. bmem bm i"
    then obtain i where i: "i \<in> region pos order" "bmem bm i" by blast
    have "64 * (i div 64) + i mod 64 \<in> region pos order" using i(1) by simp
    then have "?x \<le> i div 64" "i div 64 - ?x < ?n" "bit ?m (i mod 64)"
      unfolding region_words [OF al(1) mod_less_divisor [of 64, OF zero_less_numeral]] by auto
    moreover have "bit (bm ! (i div 64)) (i mod 64)" using i(2) by (simp add: bmem_def)
    ultimately show "\<exists>i\<in>set [0..<?n]. bm ! (?x + i) AND ?m \<noteq> 0"
      unfolding word_nonzero_iff bit_and_iff
      by (intro bexI [of _ "i div 64 - ?x"] exI [of _ "i mod 64"]) auto
  qed
  ultimately show ?thesis using al(2) by (simp add: raw_reg_op_mask)
qed

lemma update_loop:
  assumes "x + n \<le> length bm"
  shows "foldM (\<lambda>i bm. do { w \<leftarrow> rd bm (x + i); wr bm (x + i) (g w) }) [0..<n] bm =
         Some (map (\<lambda>k. if x \<le> k \<and> k < x + n then g (bm ! k) else bm ! k) [0..<length bm])"
  using assms
proof (induction n)
  case 0
  show ?case by (simp add: map_nth leD cong: if_cong) (simp add: map_nth leD flip: not_le)
next
  case (Suc n)
  then show ?case by (auto simp: foldM_append intro!: nth_equalityI simp: nth_list_update)
qed

lemma update_loop_bits:
  assumes "region_ok (room bm) pos order"
  shows "\<exists>bm'. foldM (\<lambda>i bm. do { w \<leftarrow> rd bm (pos div 64 + i); wr bm (pos div 64 + i) (g w) })
                  [0..<BITS_TO_LONGS (2 ^ order)] bm = Some bm' \<and> length bm' = length bm \<and>
               (\<forall>i. bmem bm' i \<longleftrightarrow> i < room bm \<and>
                  (if pos div 64 \<le> i div 64 \<and> i div 64 < pos div 64 + BITS_TO_LONGS (2 ^ order)
                   then bit (g (bm ! (i div 64))) (i mod 64) else bmem bm i))"
  unfolding update_loop [OF region_in_longs [OF assms]] by (auto simp: bmem_def)

lemma region_bits:
  assumes "region_ok (room bm) pos order"
  shows "i \<in> region pos order \<longleftrightarrow> i < room bm \<and> pos div 64 \<le> i div 64 \<and>
      i div 64 < pos div 64 + BITS_TO_LONGS (2 ^ order) \<and> bit (region_mask pos order) (i mod 64)"
proof -
  have "i \<in> region pos order \<Longrightarrow> i < room bm"
    using assms by (auto simp: region_ok_def region_def)
  then show ?thesis
    using region_words [of order pos "i mod 64" "i div 64"] assms by (auto simp: region_ok_def)
qed

lemma reg_alloc_spec:
  assumes "region_ok (room bm) pos order"
  shows "\<exists>bm'. raw_reg_op bm pos order REG_OP_ALLOC = Some (0, bm') \<and> length bm' = length bm \<and>
               (\<forall>i. bmem bm' i \<longleftrightarrow> bmem bm i \<or> i \<in> region pos order)"
  using update_loop_bits [OF assms, of "\<lambda>w. w OR region_mask pos order"] assms
  by (auto simp: raw_reg_op_mask region_ok_def bit_or_iff region_bits [OF assms] bmem_def)

lemma reg_release_spec:
  assumes "region_ok (room bm) pos order"
  shows "\<exists>bm'. raw_reg_op bm pos order REG_OP_RELEASE = Some (0, bm') \<and> length bm' = length bm \<and>
               (\<forall>i. bmem bm' i \<longleftrightarrow> bmem bm i \<and> i \<notin> region pos order)"
  using update_loop_bits [OF assms, of "\<lambda>w. w AND NOT (region_mask pos order)"] assms
  by (auto simp: raw_reg_op_mask region_ok_def bit_and_iff bit_not_iff possible_bit_def region_bits [OF assms] bmem_def)

text \<open>The public operations, on every branch.\<close>

lemma bitmap_release_region_spec:
  assumes "region_ok (room bm) pos order"
  shows "\<exists>bm'. bitmap_release_region bm pos order = Some bm' \<and> length bm' = length bm \<and>
               (\<forall>i. bmem bm' i \<longleftrightarrow> bmem bm i \<and> i \<notin> region pos order)"
  using reg_release_spec [OF assms] by (auto simp: bitmap_release_region_def)

lemma bitmap_allocate_region_spec:
  assumes "region_ok (room bm) pos order"
  shows "if \<forall>i \<in> region pos order. \<not> bmem bm i
         then \<exists>bm'. bitmap_allocate_region bm pos order = Some (0, bm') \<and> length bm' = length bm \<and>
               (\<forall>i. bmem bm' i \<longleftrightarrow> bmem bm i \<or> i \<in> region pos order)
         else bitmap_allocate_region bm pos order = Some (- EBUSY, bm)"
  using reg_alloc_spec [OF assms] reg_isfree_spec [OF assms] by (auto simp: bitmap_allocate_region_def)

text \<open>
  The search returns the lowest aligned free region.
\<close>

definition free_region :: "ulong list \<Rightarrow> nat \<Rightarrow> nat \<Rightarrow> nat \<Rightarrow> bool" where
  "free_region bm n order p \<longleftrightarrow> region_ok n p order \<and> (\<forall>i \<in> region p order. \<not> bmem bm i)"

lemma aligned_gap:
  fixes p q w :: nat
  assumes "w dvd p" "w dvd q" "p \<le> q" "q < p + w"
  shows "q = p"
proof -
  have "w dvd q - p" using assms by simp
  moreover have "q - p < w" using assms by simp
  ultimately have "q - p = 0" using nat_dvd_not_less by blast
  then show ?thesis using assms by simp
qed

lemma find_free_region_from_spec:
  assumes "n \<le> room bm" "order < 31" "n + 2 ^ order < 2 ^ 31" "2 ^ order dvd pos" "pos \<le> n"
  shows "(\<exists>p bm'. find_free_region_from bm n order pos = Some (int p, bm') \<and>
            least_from (free_region bm n order) pos p \<and>
            length bm' = length bm \<and> (\<forall>i. bmem bm' i \<longleftrightarrow> bmem bm i \<or> i \<in> region p order)) \<or>
         (find_free_region_from bm n order pos = Some (- ENOMEM, bm) \<and> none_from (free_region bm n order) pos)"
  using assms
proof (induction bm n order pos rule: find_free_region_from.induct)
  case (1 bm n order pos)
  let ?e = "pos + 2 ^ order"
  have ov: "\<not> (31 \<le> order \<or> 2 ^ 31 \<le> ?e)" using "1.prems" by simp
  show ?case
  proof (cases "?e \<le> n")
    case False
    then have "none_from (free_region bm n order) pos" by (auto simp: none_from_def free_region_def region_ok_def)
    then show ?thesis using False ov by (simp add: find_free_region_from.simps)
  next
    case True
    then have ok: "region_ok (room bm) pos order" "region_ok n pos order"
      using "1.prems" by (auto simp: region_ok_def)
    show ?thesis
    proof (cases "\<forall>i \<in> region pos order. \<not> bmem bm i")
      case free: True
      then have "least_from (free_region bm n order) pos pos" using ok by (auto simp: free_region_def least_from_def)
      then show ?thesis
        using reg_isfree_spec [OF ok(1)] reg_alloc_spec [OF ok(1)] True ov free
        by (intro disjI1 exI [of _ pos]) (auto simp: find_free_region_from.simps)
    next
      case busy: False
      have step: "find_free_region_from bm n order pos = find_free_region_from bm n order ?e"
        using reg_isfree_spec [OF ok(1)] True ov busy by (subst find_free_region_from.simps) (simp add: Let_def)
      have "?e \<le> q" if "pos \<le> q" "free_region bm n order q" for q
        using that busy "1.prems"(4) aligned_gap [of "2 ^ order" pos q]
        by (auto simp: free_region_def region_ok_def not_le [symmetric])
      note skip = search_skip [OF le_add1 [of pos "2 ^ order"], of "free_region bm n order", OF this]
      have z: "(if \<forall>i \<in> region pos order. \<not> bmem bm i then 1 else 0) = (0 :: int)" using busy by simp
      have "2 ^ order dvd ?e" using "1.prems"(4) by simp
      from "1.IH" [OF refl ov True reg_isfree_spec [OF ok(1)] refl z "1.prems"(1-3) this True]
      show ?thesis unfolding step using skip by blast
    qed
  qed
qed

section \<open>No cell is handed out twice\<close>

text \<open>
  The contract of an allocator over a bitmap, and its consequence for any run of allocations and
  releases: the outstanding requests never overlap, and exactly their cells (and those in use
  at the start) are marked.
\<close>

locale bit_allocator =
  fixes used :: "'m \<Rightarrow> nat set"
    and cells :: "'r \<Rightarrow> nat set"
    and acquire :: "'m \<Rightarrow> 'r \<Rightarrow> 'm \<Rightarrow> bool"
    and give_back :: "'m \<Rightarrow> 'r \<Rightarrow> 'm \<Rightarrow> bool"
  assumes acquire_free: "acquire m r m' \<Longrightarrow> cells r \<inter> used m = {}"
    and acquire_used: "acquire m r m' \<Longrightarrow> used m' = used m \<union> cells r"
    and give_back_used: "give_back m r m' \<Longrightarrow> used m' = used m - cells r"
begin

inductive run :: "'m \<Rightarrow> 'm \<Rightarrow> 'r list \<Rightarrow> bool" for m0 where
  start: "run m0 m0 []"
| acquire: "run m0 m rs \<Longrightarrow> acquire m r m' \<Longrightarrow> run m0 m' (r # rs)"
| give_back: "run m0 m rs \<Longrightarrow> r \<in> set rs \<Longrightarrow> give_back m r m' \<Longrightarrow> run m0 m' (remove1 r rs)"

definition disjoint_cells :: "'r list \<Rightarrow> bool" where
  "disjoint_cells = sorted_wrt (\<lambda>r s. cells r \<inter> cells s = {})"

lemma disjoint_remove1:
  assumes "disjoint_cells rs" "r \<in> set rs"
  shows "disjoint_cells (remove1 r rs)"
    and "(\<Union>s \<in> set (remove1 r rs). cells s) = (\<Union>s \<in> set rs. cells s) - cells r"
    and "\<Union> (cells ` set (remove1 r rs)) \<subseteq> \<Union> (cells ` set rs)"
proof -
  obtain as bs where rs: "rs = as @ r # bs" "r \<notin> set as" using split_list_first [OF assms(2)] by blast
  have rm: "remove1 r rs = as @ bs" using rs by (simp add: remove1_append)
  have all: "\<forall>x \<in> set (as @ bs). cells x \<inter> cells r = {}" "disjoint_cells (as @ bs)"
    using assms(1) unfolding rs(1) disjoint_cells_def by (auto simp: sorted_wrt_append)
  show "disjoint_cells (remove1 r rs)" using all(2) by (simp add: rm)
  show "(\<Union>s \<in> set (remove1 r rs). cells s) = (\<Union>s \<in> set rs. cells s) - cells r"
    unfolding rm using all(1) rs(1) by auto
  show "\<Union> (cells ` set (remove1 r rs)) \<subseteq> \<Union> (cells ` set rs)" unfolding rm using rs(1) by auto
qed

lemma run_invariant:
  "run m0 m rs \<Longrightarrow> disjoint_cells rs \<and> used m = used m0 \<union> (\<Union>r \<in> set rs. cells r) \<and>
     used m0 \<inter> (\<Union>r \<in> set rs. cells r) = {}"
proof (induction rule: run.induct)
  case start
  show ?case by (simp add: disjoint_cells_def)
next
  case (acquire m rs r m')
  then show ?case using acquire_free [OF acquire.hyps(2)] acquire_used [OF acquire.hyps(2)]
    by (auto simp: disjoint_cells_def)
next
  case (give_back m rs r m')
  then have d: "disjoint_cells rs" by simp
  note rm = disjoint_remove1 [OF d give_back.hyps(2)]
  show ?case
    using give_back.IH rm(1) give_back.hyps(2) unfolding give_back_used [OF give_back.hyps(3)] rm(2)
    by auto
qed

lemma outstanding_disjoint:
  assumes "run m0 m rs" "i < j" "j < length rs"
  shows "cells (rs ! i) \<inter> cells (rs ! j) = {}"
  using run_invariant [OF assms(1)] assms(2,3) by (auto simp: disjoint_cells_def sorted_wrt_iff_nth_less)

end

definition region_acquire :: "nat \<Rightarrow> ulong list \<Rightarrow> nat \<times> nat \<Rightarrow> ulong list \<Rightarrow> bool" where
  "region_acquire n bm r bm' \<longleftrightarrow> (case r of (pos, order) \<Rightarrow> n \<le> room bm \<and>
     (n + 2 ^ order < 2 ^ 31 \<and> bitmap_find_free_region bm n order = Some (int pos, bm') \<or>
      region_ok n pos order \<and> bitmap_allocate_region bm pos order = Some (0, bm')))"

definition region_give_back :: "nat \<Rightarrow> ulong list \<Rightarrow> nat \<times> nat \<Rightarrow> ulong list \<Rightarrow> bool" where
  "region_give_back n bm r bm' \<longleftrightarrow> (case r of (pos, order) \<Rightarrow>
     n \<le> room bm \<and> region_ok n pos order \<and> bitmap_release_region bm pos order = Some bm')"

lemma region_ok_mono: "region_ok n pos order \<Longrightarrow> n \<le> m \<Longrightarrow> region_ok m pos order"
  by (simp add: region_ok_def)

lemma find_free_region_order: "bitmap_find_free_region bm n order = Some x \<Longrightarrow> order < 31"
  by (rule ccontr) (simp add: bitmap_find_free_region_def find_free_region_from.simps)

lemma minus_errno [simp]: "- ENOMEM \<noteq> int p" "int p \<noteq> - ENOMEM" "EBUSY \<noteq> 0"
  by (simp_all add: errno_defs)

lemma region_acquire_effect:
  assumes "region_acquire n bm (pos, order) bm'"
  shows "region_ok n pos order" "\<forall>i \<in> region pos order. \<not> bmem bm i" "length bm' = length bm"
    "bmem bm' i \<longleftrightarrow> bmem bm i \<or> i \<in> region pos order"
proof -
  have n: "n \<le> room bm" using assms by (simp add: region_acquire_def)
  have "region_ok n pos order \<and> (\<forall>i \<in> region pos order. \<not> bmem bm i) \<and> length bm' = length bm \<and>
        (\<forall>i. bmem bm' i \<longleftrightarrow> bmem bm i \<or> i \<in> region pos order)"
  proof (cases "n + 2 ^ order < 2 ^ 31 \<and> bitmap_find_free_region bm n order = Some (int pos, bm')")
    case True
    then have "order < 31" using find_free_region_order by blast
    then show ?thesis
      using find_free_region_from_spec [OF n, of order 0] True
      by (auto simp: bitmap_find_free_region_def free_region_def least_from_def)
  next
    case False
    then have ok: "region_ok n pos order" "bitmap_allocate_region bm pos order = Some (0, bm')"
      using assms by (auto simp: region_acquire_def)
    then show ?thesis
      using bitmap_allocate_region_spec [OF region_ok_mono [OF ok(1) n]] by (auto split: if_splits)
  qed
  then show "region_ok n pos order" "\<forall>i \<in> region pos order. \<not> bmem bm i" "length bm' = length bm"
    "bmem bm' i \<longleftrightarrow> bmem bm i \<or> i \<in> region pos order" by blast+
qed

lemma region_give_back_effect:
  assumes "region_give_back n bm (pos, order) bm'"
  shows "length bm' = length bm" "bmem bm' i \<longleftrightarrow> bmem bm i \<and> i \<notin> region pos order"
proof -
  have "region_ok (room bm) pos order"
    using assms region_ok_mono by (auto simp: region_give_back_def)
  from bitmap_release_region_spec [OF this] assms
  show "length bm' = length bm" "bmem bm' i \<longleftrightarrow> bmem bm i \<and> i \<notin> region pos order"
    by (auto simp: region_give_back_def)
qed

interpretation regions: bit_allocator "\<lambda>bm. {i. bmem bm i}" "\<lambda>(pos, order). region pos order"
  "region_acquire n" "region_give_back n" for n
proof unfold_locales
  fix m m' and r :: "nat \<times> nat"
  obtain pos order where r: "r = (pos, order)" by (cases r)
  show "(case r of (pos, order) \<Rightarrow> region pos order) \<inter> {i. bmem m i} = {}" if "region_acquire n m r m'"
    using region_acquire_effect(2) that unfolding r by fastforce
  show "{i. bmem m' i} = {i. bmem m i} \<union> (case r of (pos, order) \<Rightarrow> region pos order)"
    if "region_acquire n m r m'"
    using region_acquire_effect(4) that unfolding r by auto
  show "{i. bmem m' i} = {i. bmem m i} - (case r of (pos, order) \<Rightarrow> region pos order)"
    if "region_give_back n m r m'"
    using region_give_back_effect(2) that unfolding r by auto
qed

text \<open>
  A run of the three public operations on a bitmap of \<open>n\<close> bits, with the regions handed out and
  not yet released.
\<close>

inductive region_run :: "nat \<Rightarrow> ulong list \<Rightarrow> ulong list \<Rightarrow> (nat \<times> nat) list \<Rightarrow> bool" for n bm0 where
  start: "region_run n bm0 bm0 []"
| find: "region_run n bm0 bm rs \<Longrightarrow> n + 2 ^ order < 2 ^ 31 \<Longrightarrow>
    bitmap_find_free_region bm n order = Some (int pos, bm') \<Longrightarrow> region_run n bm0 bm' ((pos, order) # rs)"
| allocate: "region_run n bm0 bm rs \<Longrightarrow> region_ok n pos order \<Longrightarrow>
    bitmap_allocate_region bm pos order = Some (0, bm') \<Longrightarrow> region_run n bm0 bm' ((pos, order) # rs)"
| release: "region_run n bm0 bm rs \<Longrightarrow> (pos, order) \<in> set rs \<Longrightarrow>
    bitmap_release_region bm pos order = Some bm' \<Longrightarrow> region_run n bm0 bm' (remove1 (pos, order) rs)"

lemma region_run_regions:
  assumes "region_run n bm0 bm rs" "n \<le> room bm0"
  shows "length bm = length bm0 \<and> (\<forall>(pos, order) \<in> set rs. region_ok n pos order) \<and> regions.run n bm0 bm rs"
  using assms(1)
proof (induction rule: region_run.induct)
  case start
  show ?case using regions.run.start by simp
next
  case (find bm rs order pos bm')
  then have "region_acquire n bm (pos, order) bm'" using assms(2) by (simp add: region_acquire_def)
  from region_acquire_effect(1,3) [OF this] regions.run.acquire [OF _ this] find show ?case by simp
next
  case (allocate bm rs pos order bm')
  then have "region_acquire n bm (pos, order) bm'" using assms(2) by (simp add: region_acquire_def)
  from region_acquire_effect(1,3) [OF this] regions.run.acquire [OF _ this] allocate show ?case by simp
next
  case (release bm rs pos order bm')
  then have gb: "region_give_back n bm (pos, order) bm'" using assms(2) by (auto simp: region_give_back_def)
  from region_give_back_effect(1) [OF gb] regions.run.give_back [OF _ release.hyps(2) gb] release
  show ?case by (auto dest: notin_set_remove1 in_set_remove1 intro: set_mp [OF set_remove1_subset])
qed

text \<open>
  C33: Whatever sequence of \<open>bitmap_find_free_region\<close>, \<open>bitmap_allocate_region\<close> and
  \<open>bitmap_release_region\<close> calls has run on a bitmap, the regions handed out and not yet released
  are aligned, inside the bitmap and pairwise disjoint, and the bits set are exactly theirs and
  those set at the start: no bit is ever allocated to two owners.
\<close>

theorem region_run_exclusive:
  assumes "region_run n bm0 bm rs" "n \<le> room bm0"
  shows "(\<forall>(pos, order) \<in> set rs. region_ok n pos order) \<and>
    (\<forall>i j. i < j \<and> j < length rs \<longrightarrow>
       region (fst (rs ! i)) (snd (rs ! i)) \<inter> region (fst (rs ! j)) (snd (rs ! j)) = {}) \<and>
    {i. bmem bm i} = {i. bmem bm0 i} \<union> (\<Union>(pos, order) \<in> set rs. region pos order)"
proof -
  note run = region_run_regions [OF assms]
  show ?thesis
    using run regions.outstanding_disjoint [of n bm0 bm rs] regions.run_invariant [of n bm0 bm rs]
    by (auto simp: case_prod_beta)
qed

lemmas region_eval = bitmap_find_free_region_def find_free_region_from.simps bitmap_release_region_def
  raw_reg_op_def BITS_TO_LONGS_def

theorem region_run_exclusive_witness:
  "region_run 8 [3] [0xF3] [(4, 2)] \<and> region 4 2 = {4..<8} \<and> {i. bmem [0xF3] i} = {i. bmem [3] i} \<union> region 4 2"
proof -
  have 1: "region_run 8 [3] [0xF] [(2, 1)]"
    by (rule region_run.find [OF region_run.start]) (simp_all add: region_eval)
  have 2: "region_run 8 [3] [0xFF] [(4, 2), (2, 1)]"
    by (rule region_run.find [OF 1]) (simp_all add: region_eval)
  have "region_run 8 [3] [0xF3] (remove1 (2, 1) [(4, 2), (2, 1)])"
    by (rule region_run.release [OF 2]) (simp_all add: region_eval)
  then have run: "region_run 8 [3] [0xF3] [(4, 2)]" by simp
  from region_run_exclusive [OF run] run show ?thesis by (simp add: region_def)
qed

text \<open>
  C35: On a bitmap that fits its array, \<open>bitmap_find_free_region\<close> always returns: with the lowest
  aligned position whose region is free, which it has marked and nothing else, or with
  \<open>-ENOMEM\<close> and the bitmap untouched, in which case no aligned free region exists.
\<close>

theorem bitmap_find_free_region_correct:
  assumes "n \<le> room bm" "order < 31" "n + 2 ^ order < 2 ^ 31"
  shows "(\<exists>p bm'. bitmap_find_free_region bm n order = Some (int p, bm') \<and> free_region bm n order p \<and>
            (\<forall>q<p. \<not> free_region bm n order q) \<and>
            length bm' = length bm \<and> (\<forall>i. bmem bm' i \<longleftrightarrow> bmem bm i \<or> i \<in> region p order)) \<or>
         (bitmap_find_free_region bm n order = Some (- ENOMEM, bm) \<and> (\<forall>q. \<not> free_region bm n order q))"
  using find_free_region_from_spec [OF assms, of 0]
  by (auto simp: bitmap_find_free_region_def least_from_def none_from_def)

theorem bitmap_find_free_region_correct_witness:
  "bitmap_find_free_region [1] 64 2 = Some (4, [0xF1]) \<and> free_region [1] 64 2 4 \<and> \<not> free_region [1] 64 2 0"
proof -
  have e: "bitmap_find_free_region [1] 64 2 = Some (4, [0xF1])" by (simp add: region_eval)
  from bitmap_find_free_region_correct [of 64 "[1]" 2] show ?thesis unfolding e by (auto simp: errno_defs)
qed

end
