(* ===== verification/Bitmap_Map.thy ===== *)
theory Bitmap_Map
  imports Bitmap
begin

text \<open>
  Ordinals and remapping (\<open>lib/bitmap.c\<close>: \<open>bitmap_pos_to_ord\<close> to \<open>bitmap_fold\<close>). The position of the
  k-th set bit and the number of set bits below a position are read off the list of set bits; the
  two searches are inverse to each other, and remapping, translation and folding are images of
  the source bitmap. The tests \<open>dst == src\<close> and \<open>dst == orig\<close> on pointers are an argument.
\<close>

section \<open>The operations\<close>

partial_function (option) pos_to_ord_while :: "ulong list \<Rightarrow> nat \<Rightarrow> nat \<Rightarrow> nat \<Rightarrow> nat \<Rightarrow> (nat \<times> nat) option" where
  "pos_to_ord_while buf bits pos i ord =
     (if i < pos then do { i \<leftarrow> find_next_bit buf bits (i + 1); pos_to_ord_while buf bits pos i (ord + 1) }
      else Some (i, ord))"

declare pos_to_ord_while.simps [code]

definition bitmap_pos_to_ord :: "ulong list \<Rightarrow> int \<Rightarrow> nat \<Rightarrow> int option" where
  "bitmap_pos_to_ord buf pos bits =
     (if pos < 0 \<or> int bits \<le> pos then Some (- 1)
      else do { b \<leftarrow> test_bit (nat pos) buf;
                if \<not> b then Some (- 1)
                else do { i \<leftarrow> find_first_bit buf bits;
                          (i, ord) \<leftarrow> pos_to_ord_while buf bits (nat pos) i 0;
                          if i \<noteq> nat pos then None else Some (int ord) } })"

partial_function (option) ord_to_pos_for :: "ulong list \<Rightarrow> nat \<Rightarrow> nat \<Rightarrow> int \<Rightarrow> (nat \<times> int) option" where
  "ord_to_pos_for buf bits i ord =
     (if i < bits \<and> 0 < ord then do { i \<leftarrow> find_next_bit buf bits (i + 1); ord_to_pos_for buf bits i (ord - 1) }
      else Some (i, ord))"

declare ord_to_pos_for.simps [code]

definition bitmap_ord_to_pos :: "ulong list \<Rightarrow> int \<Rightarrow> nat \<Rightarrow> nat option" where
  "bitmap_ord_to_pos buf ord bits =
     (if 0 \<le> ord \<and> ord < int bits
      then do { i \<leftarrow> find_first_bit buf bits;
                (i, ord) \<leftarrow> ord_to_pos_for buf bits i ord;
                Some (if i < bits \<and> ord = 0 then i else 0) }
      else Some 0)"

definition bitmap_remap ::
  "bool \<Rightarrow> ulong list \<Rightarrow> ulong list \<Rightarrow> ulong list \<Rightarrow> ulong list \<Rightarrow> nat \<Rightarrow> ulong list option" where
  "bitmap_remap same dst src old new bits =
     (if same then Some dst
      else do { dst \<leftarrow> bitmap_zero dst bits;
                w \<leftarrow> raw_bitmap_weight new bits;
                for_each_bit src bits (\<lambda>oldbit dst.
                  do { n \<leftarrow> bitmap_pos_to_ord old (int oldbit) bits;
                       if n < 0 \<or> w = 0 then set_bit oldbit dst
                       else do { p \<leftarrow> bitmap_ord_to_pos new (n mod int w) bits; set_bit p dst } }) dst })"

definition bitmap_bitremap :: "int \<Rightarrow> ulong list \<Rightarrow> ulong list \<Rightarrow> nat \<Rightarrow> int option" where
  "bitmap_bitremap oldbit old new bits =
     do { w \<leftarrow> raw_bitmap_weight new bits;
          n \<leftarrow> bitmap_pos_to_ord old oldbit bits;
          if n < 0 \<or> w = 0 then Some oldbit
          else map_option int (bitmap_ord_to_pos new (n mod int w) bits) }"

definition bitmap_onto :: "bool \<Rightarrow> ulong list \<Rightarrow> ulong list \<Rightarrow> ulong list \<Rightarrow> nat \<Rightarrow> ulong list option" where
  "bitmap_onto same dst orig relmap bits =
     (if same then Some dst
      else do { dst \<leftarrow> bitmap_zero dst bits;
                (m, dst) \<leftarrow> for_each_bit relmap bits (\<lambda>n (m, dst).
                  do { b \<leftarrow> test_bit m orig;
                       dst \<leftarrow> (if b then set_bit n dst else Some dst);
                       Some (m + 1, dst) }) (0, dst);
                Some dst })"

definition bitmap_fold :: "bool \<Rightarrow> ulong list \<Rightarrow> ulong list \<Rightarrow> nat \<Rightarrow> nat \<Rightarrow> ulong list option" where
  "bitmap_fold same dst orig sz bits =
     (if same then Some dst
      else do { dst \<leftarrow> bitmap_zero dst bits;
                for_each_bit orig bits (\<lambda>oldbit dst.
                  if sz = 0 then None else set_bit (oldbit mod sz) dst) dst })"

section \<open>Rank and select\<close>

definition rank :: "(nat \<Rightarrow> bool) \<Rightarrow> nat \<Rightarrow> nat" where
  "rank P p = length (members P 0 p)"

lemma set_members: "set (members P lo hi) = {i. lo \<le> i \<and> i < hi \<and> P i}"
  by (auto simp: members_def)

lemma sorted_members: "sorted (members P lo hi)" "distinct (members P lo hi)"
  by (simp_all add: members_def sorted_wrt_filter)

lemma length_members: "length (members P lo hi) = card {i. lo \<le> i \<and> i < hi \<and> P i}"
  by (metis set_members sorted_members(2) distinct_card)

lemma rank_card: "rank P p = card {i. i < p \<and> P i}"
  by (simp add: rank_def length_members)

lemma members_split: "lo \<le> p \<Longrightarrow> p < hi \<Longrightarrow> P p \<Longrightarrow> members P lo hi = members P lo p @ p # members P (Suc p) hi"
  using upt_add_eq_append [of lo p "hi - p"] by (simp add: members_def upt_conv_Cons)

lemma members_rank: "p < n \<Longrightarrow> P p \<Longrightarrow> members P 0 n ! rank P p = p \<and> rank P p < length (members P 0 n)"
  using members_split [of 0 p n P] by (simp add: rank_def nth_append)

lemma rank_nth:
  assumes "k < length (members P 0 n)"
  shows "rank P (members P 0 n ! k) = k" "members P 0 n ! k < n" "P (members P 0 n ! k)"
proof -
  show *: "members P 0 n ! k < n" "P (members P 0 n ! k)" using nth_mem [OF assms] by (auto simp: set_members)
  show "rank P (members P 0 n ! k) = k"
    using members_rank [where P = P, OF *] sorted_members(2) assms by (metis nth_eq_iff_index_eq)
qed

lemma pos_to_ord_while_spec:
  assumes "n \<le> room buf" "p < n" "bmem buf p" "is_first (bmem buf) lo n i" "lo \<le> p"
  shows "pos_to_ord_while buf n p i ord = Some (p, ord + length (members (bmem buf) lo p))"
  using assms(4,5)
proof (induction "n - i" arbitrary: i lo ord rule: less_induct)
  case less
  have le: "i \<le> p" using less.prems assms(2,3) by (auto simp: is_first_def not_less [symmetric])
  have fp: "is_first (bmem buf) lo p i" using less.prems le assms(2) by (auto simp: is_first_def)
  show ?case
  proof (cases "i < p")
    case True
    obtain j where j: "find_next_bit buf n (i + 1) = Some j" "is_first (bmem buf) (Suc i) n j"
      using find_next_bit_spec [OF assms(1), of "i + 1"] by auto
    have "n - j < n - i" using j(2) True assms(2) by (auto simp: is_first_def)
    from less.hyps [OF this j(2)] True show ?thesis
      by (subst pos_to_ord_while.simps) (use j(1) in \<open>simp add: members_first [OF fp]\<close>)
  next
    case False
    then show ?thesis using le by (subst pos_to_ord_while.simps) (simp add: members_first [OF fp])
  qed
qed

lemma bitmap_pos_to_ord_spec:
  assumes "n \<le> room buf"
  shows "bitmap_pos_to_ord buf pos n =
    Some (if 0 \<le> pos \<and> nat pos < n \<and> bmem buf (nat pos) then int (rank (bmem buf) (nat pos)) else - 1)"
proof -
  obtain i where i: "find_next_bit buf n 0 = Some i" "is_first (bmem buf) 0 n i"
    using find_next_bit_spec [OF assms] by blast
  show ?thesis
    using assms i(1) pos_to_ord_while_spec [OF assms _ _ i(2), of "nat pos" 0]
    by (auto simp: bitmap_pos_to_ord_def test_bit_bmem find_first_bit_def rank_def nat_less_iff not_less)
qed

lemma ord_to_pos_for_spec:
  assumes "n \<le> room buf" "is_first (bmem buf) lo n i"
  shows "ord_to_pos_for buf n i (int k) =
    (let ms = members (bmem buf) lo n in
     Some (if k < length ms then (ms ! k, 0) else (n, int (k - length ms))))"
  using assms(2)
proof (induction k arbitrary: lo i)
  case 0
  then show ?case
    by (subst ord_to_pos_for.simps) (auto simp: members_first [OF 0] Let_def is_first_def)
next
  case (Suc k)
  show ?case
  proof (cases "i < n")
    case True
    obtain j where j: "find_next_bit buf n (i + 1) = Some j" "is_first (bmem buf) (Suc i) n j"
      using find_next_bit_spec [OF assms(1), of "i + 1"] by auto
    show ?thesis using True j Suc.IH [OF j(2)]
      by (subst ord_to_pos_for.simps) (simp add: members_first [OF Suc.prems] Let_def)
  next
    case False
    then show ?thesis using Suc.prems
      by (subst ord_to_pos_for.simps) (auto simp: members_first [OF Suc.prems] Let_def is_first_def)
  qed
qed

lemma bitmap_ord_to_pos_spec:
  assumes "n \<le> room buf"
  shows "bitmap_ord_to_pos buf ord n =
    (let ms = members (bmem buf) 0 n in
     Some (if 0 \<le> ord \<and> nat ord < length ms then ms ! nat ord else 0))"
proof -
  obtain i where i: "find_next_bit buf n 0 = Some i" "is_first (bmem buf) 0 n i"
    using find_next_bit_spec [OF assms] by blast
  have len: "length (members (bmem buf) 0 n) \<le> n"
    using length_filter_le [of "bmem buf" "[0..<n]"] by (simp add: members_def)
  have lt: "members (bmem buf) 0 n ! k < n" if "k < length (members (bmem buf) 0 n)" for k
    using rank_nth(2) [OF that] .
  show ?thesis
    using i(1) ord_to_pos_for_spec [OF assms i(2), of "nat ord"] len lt [of "nat ord"]
    by (auto simp: bitmap_ord_to_pos_def find_first_bit_def Let_def nat_less_iff simp del: bind_split_Some)
qed

text \<open>
  The two searches are inverse: the ordinal of a set bit leads back to it, and the k-th set
  bit has ordinal k; the ordinal counts the set bits below the position.
\<close>

theorem bitmap_ord_pos_inverse:
  assumes "n \<le> room buf"
  shows "(p < n \<and> bmem buf p \<longrightarrow>
            (\<exists>k. bitmap_pos_to_ord buf (int p) n = Some k \<and> k = int (card {i. i < p \<and> bmem buf i}) \<and>
                 bitmap_ord_to_pos buf k n = Some p)) \<and>
         (k < card {i. i < n \<and> bmem buf i} \<longrightarrow>
            (\<exists>p. bitmap_ord_to_pos buf (int k) n = Some p \<and> p < n \<and> bmem buf p \<and>
                 bitmap_pos_to_ord buf (int p) n = Some (int k)))"
  using members_rank [of p n "bmem buf"] rank_nth [of k "bmem buf" n]
  by (simp add: bitmap_pos_to_ord_spec [OF assms] bitmap_ord_to_pos_spec [OF assms] Let_def rank_card length_members)

theorem bitmap_ord_pos_inverse_witness:
  "bitmap_pos_to_ord [0xF0] 7 64 = Some 3 \<and> bitmap_ord_to_pos [0xF0] 3 64 = Some 7"
proof -
  have b: "bmem [0xF0] 7" by (simp add: bmem_def)
  have "{i. i < 7 \<and> bmem [0xF0] i} = set (filter (bmem [0xF0]) [0..<7])" by auto
  also have "\<dots> = {4, 5, 6}" by (simp add: upt_rec bmem_def) (simp add: eval_nat_numeral)
  finally have "card {i. i < 7 \<and> bmem [0xF0] i} = 3" by simp
  then show ?thesis using bitmap_ord_pos_inverse [of 64 "[0xF0]" 7] b by simp
qed

section \<open>Images\<close>

lemma set_bit_spec:
  assumes "nr < room addr"
  shows "\<exists>a'. set_bit nr addr = Some a' \<and> length a' = length addr \<and> (\<forall>i. bmem a' i \<longleftrightarrow> i = nr \<or> bmem addr i)"
  using raw_set_bit_spec [OF assms] by (simp add: set_bit_eq)

lemma set_loop:
  assumes "\<And>x d. x \<in> set xs \<Longrightarrow> length d = length dst \<Longrightarrow>
     \<exists>d'. step x d = Some d' \<and> length d' = length d \<and> (\<forall>i. bmem d' i \<longleftrightarrow> Q x i \<or> bmem d i)"
  shows "\<exists>d. foldM step xs dst = Some d \<and> length d = length dst \<and>
             (\<forall>i. bmem d i \<longleftrightarrow> (\<exists>x \<in> set xs. Q x i) \<or> bmem dst i)"
  using assms
proof (induction xs arbitrary: dst)
  case (Cons x xs)
  obtain d' where d': "step x dst = Some d'" "length d' = length dst" "\<And>i. bmem d' i \<longleftrightarrow> Q x i \<or> bmem dst i"
    using Cons.prems [of x dst] by auto
  have "\<exists>d. foldM step xs d' = Some d \<and> length d = length d' \<and>
             (\<forall>i. bmem d i \<longleftrightarrow> (\<exists>x \<in> set xs. Q x i) \<or> bmem d' i)"
    by (rule Cons.IH) (use Cons.prems d'(2) in auto)
  then show ?case using d' by auto
qed simp

text \<open>All loops below start from a cleared destination.\<close>

lemma cleared_loop:
  assumes "n \<le> room dst" "n \<le> room src"
    and "\<And>x d. x < n \<Longrightarrow> bmem src x \<Longrightarrow> length d = length dst \<Longrightarrow>
     \<exists>d'. step x d = Some d' \<and> length d' = length d \<and> (\<forall>i. bmem d' i \<longleftrightarrow> Q x i \<or> bmem d i)"
  shows "\<exists>z d. bitmap_zero dst n = Some z \<and> for_each_bit src n step z = Some d \<and> length d = length dst \<and>
             (\<forall>i<n. bmem d i \<longleftrightarrow> (\<exists>x<n. bmem src x \<and> Q x i))"
proof -
  obtain z where z: "bitmap_zero dst n = Some z" "length z = length dst"
    "\<And>i. bmem z i \<longleftrightarrow> 64 * BITS_TO_LONGS n \<le> i \<and> bmem dst i"
    using bitmap_zero_spec [OF assms(1)] by blast
  have clear: "\<not> bmem z i" if "i < n" for i using that z(3) le_longs [of n] by auto
  obtain d where d: "foldM step (members (bmem src) 0 n) z = Some d" "length d = length z"
    "\<And>i. bmem d i \<longleftrightarrow> (\<exists>x \<in> set (members (bmem src) 0 n). Q x i) \<or> bmem z i"
    using set_loop [of "members (bmem src) 0 n" z step Q] assms(3) z(2) by (auto simp: set_members)
  show ?thesis
    using z d clear by (auto simp: for_each_bit_fold [OF assms(2)] set_members)
qed

text \<open>The map of positions that \<open>old\<close> and \<open>new\<close> define, as the comment above \<open>bitmap_remap\<close> states it.\<close>

definition position_map :: "(nat \<Rightarrow> bool) \<Rightarrow> (nat \<Rightarrow> bool) \<Rightarrow> nat \<Rightarrow> nat \<Rightarrow> nat" where
  "position_map old new n p =
     (let ms = members new 0 n in
      if p < n \<and> old p \<and> ms \<noteq> [] then ms ! (rank old p mod length ms) else p)"

lemma position_map_less: "p < n \<Longrightarrow> position_map old new n p < n"
proof -
  assume p: "p < n"
  have "members new 0 n ! (rank old p mod length (members new 0 n)) < n" if "members new 0 n \<noteq> []"
    using that by (intro rank_nth(2)) simp
  then show ?thesis using p by (auto simp: position_map_def Let_def)
qed

lemma weight_members: "n \<le> room a \<Longrightarrow> raw_bitmap_weight a n = Some (length (members (bmem a) 0 n))"
  by (simp add: raw_bitmap_weight_spec length_members)

lemma bitmap_bitremap_spec:
  assumes "n \<le> room old" "n \<le> room new"
  shows "bitmap_bitremap (int p) old new n = Some (int (position_map (bmem old) (bmem new) n p))"
proof -
  let ?ms = "members (bmem new) 0 n"
  have "rank (bmem old) p mod length ?ms < length ?ms" if "?ms \<noteq> []" using that by simp
  then show ?thesis
    by (auto simp: bitmap_bitremap_def weight_members [OF assms(2)] bitmap_pos_to_ord_spec [OF assms(1)]
        bitmap_ord_to_pos_spec [OF assms(2)] position_map_def Let_def nat_mod_distrib simp del: bind_split_Some)
qed

text \<open>
  C36: \<open>bitmap_remap\<close> applies the position map of \<open>old\<close> and \<open>new\<close> to every set bit of \<open>src\<close>: the n-th
  set bit of \<open>old\<close> goes to the (n mod w)-th set bit of \<open>new\<close>, w being the weight of \<open>new\<close>, and every
  other position to itself; \<open>bitmap_bitremap\<close> computes that map for one position.
\<close>

theorem bitmap_remap_correct:
  assumes "n \<le> room dst" "n \<le> room src" "n \<le> room old" "n \<le> room new"
  shows "\<exists>d. bitmap_remap False dst src old new n = Some d \<and> length d = length dst \<and>
     (\<forall>i<n. bmem d i \<longleftrightarrow> (\<exists>p<n. bmem src p \<and> bitmap_bitremap (int p) old new n = Some (int i))) \<and>
     (\<forall>p. bitmap_bitremap (int p) old new n = Some (int (position_map (bmem old) (bmem new) n p)))"
proof -
  let ?f = "position_map (bmem old) (bmem new) n" and ?w = "length (members (bmem new) 0 n)"
  let ?step = "\<lambda>oldbit dst.
    do { k \<leftarrow> bitmap_pos_to_ord old (int oldbit) n;
         if k < 0 \<or> ?w = 0 then set_bit oldbit dst
         else do { p \<leftarrow> bitmap_ord_to_pos new (k mod int ?w) n; set_bit p dst } }"
  have step: "?step p d = set_bit (?f p) d" if "p < n" for p d
  proof -
    have "rank (bmem old) p mod ?w < ?w" if "members (bmem new) 0 n \<noteq> []" using that by simp
    then show ?thesis using that
      by (auto simp: bitmap_pos_to_ord_spec [OF assms(3)] bitmap_ord_to_pos_spec [OF assms(4)]
          position_map_def Let_def nat_mod_distrib)
  qed
  have "\<exists>d'. ?step p d = Some d' \<and> length d' = length d \<and> (\<forall>i. bmem d' i \<longleftrightarrow> i = ?f p \<or> bmem d i)"
    if "p < n" "length d = length dst" for p d
    unfolding step [OF that(1)] using less_le_trans [OF position_map_less [OF that(1)] assms(1)] that(2)
    by (intro set_bit_spec) simp
  then obtain z d where "bitmap_zero dst n = Some z" "for_each_bit src n ?step z = Some d" "length d = length dst"
    "\<forall>i<n. bmem d i \<longleftrightarrow> (\<exists>p<n. bmem src p \<and> i = ?f p)"
    using cleared_loop [OF assms(1,2), where step = ?step and Q = "\<lambda>p i. i = ?f p"] by blast
  then show ?thesis
    by (auto simp: bitmap_remap_def weight_members [OF assms(4)] bitmap_bitremap_spec [OF assms(3,4)])
qed

theorem bitmap_remap_correct_witness:
  "\<exists>d. bitmap_remap False [0] [0xA2] [0xF0] [0xF000] 64 = Some d \<and> bmem d 1 \<and> bmem d 13 \<and> bmem d 15 \<and> \<not> bmem d 5"
proof -
  obtain d where d: "bitmap_remap False [0] [0xA2] [0xF0] [0xF000] 64 = Some d"
    "\<forall>i<64. bmem d i \<longleftrightarrow> (\<exists>p<64. bmem [0xA2] p \<and> bitmap_bitremap (int p) [0xF0] [0xF000] 64 = Some (int i))"
    "\<forall>p. bitmap_bitremap (int p) [0xF0] [0xF000] 64 = Some (int (position_map (bmem [0xF0]) (bmem [0xF000]) 64 p))"
    using bitmap_remap_correct [of 64 "[0]" "[0xA2]" "[0xF0]" "[0xF000]"] by auto
  have "position_map (bmem [0xF0]) (bmem [0xF000]) 64 1 = 1" "position_map (bmem [0xF0]) (bmem [0xF000]) 64 5 = 13"
    "position_map (bmem [0xF0]) (bmem [0xF000]) 64 7 = 15" by code_simp+
  moreover have "members (bmem [0xA2]) 0 64 = [1, 5, 7]" by code_simp
  then have "p < 64 \<and> bmem [0xA2] p \<longleftrightarrow> p \<in> {1, 5, 7}" for p
    using set_members [of "bmem [0xA2]" 0 64] by (auto simp: set_eq_iff)
  moreover from this have "bmem d i \<longleftrightarrow> (\<exists>p \<in> {1, 5, 7}. position_map (bmem [0xF0]) (bmem [0xF000]) 64 p = i)"
    if "i < 64" for i
    using d(2) that unfolding d(3) [rule_format] by (metis of_nat_eq_iff option.inject)
  ultimately show ?thesis using d(1) by auto
qed

text \<open>
  The loop of \<open>bitmap_onto\<close> keeps \<open>m\<close> equal to the ordinal of \<open>n\<close>, as its comment says; \<open>onto_step\<close> is
  the body with that ordinal recomputed.
\<close>

lemma onto_counter:
  assumes "sorted_wrt (<) ns" "\<And>k. k < length ns \<Longrightarrow> g (ns ! k) = c + k"
  shows "foldM (\<lambda>n (m, dst). do { b \<leftarrow> test_bit m orig;
                                  dst \<leftarrow> (if b then set_bit n dst else Some dst); Some (Suc m, dst) }) ns (c, dst) =
         map_option (Pair (c + length ns))
           (foldM (\<lambda>n dst. do { b \<leftarrow> test_bit (g n) orig; if b then set_bit n dst else Some dst }) ns dst)"
  using assms
proof (induction ns arbitrary: c dst)
  case (Cons n ns)
  have g: "g n = c" using Cons.prems(2) [of 0] by simp
  have "g (ns ! k) = Suc c + k" if "k < length ns" for k using Cons.prems(2) [of "Suc k"] that by simp
  note IH = Cons.IH [of "Suc c", OF _ this]
  show ?case
    using Cons.prems(1) by (cases "test_bit c orig") (auto simp: g IH simp del: bind_split_Some split: Option.bind_split)
qed simp

lemma onto_loop:
  assumes "n \<le> room relmap"
  shows "for_each_bit relmap n (\<lambda>n (m, dst). do { b \<leftarrow> test_bit m orig;
           dst \<leftarrow> (if b then set_bit n dst else Some dst); Some (Suc m, dst) }) (0, dst) =
         map_option (Pair (length (members (bmem relmap) 0 n)))
           (for_each_bit relmap n (\<lambda>n dst. do { b \<leftarrow> test_bit (rank (bmem relmap) n) orig;
             if b then set_bit n dst else Some dst }) dst)"
proof -
  have "sorted_wrt (<) (members (bmem relmap) 0 n)"
    using sorted_members [of "bmem relmap" 0 n] by (simp add: strict_sorted_iff)
  from onto_counter [OF this, of "rank (bmem relmap)" 0] show ?thesis
    using rank_nth(1) [of _ "bmem relmap" n] by (simp add: for_each_bit_fold [OF assms])
qed

lemma rank_le: "rank P p \<le> p"
  using length_filter_le [of P "[0..<p]"] by (simp add: rank_def members_def)

text \<open>
  C37: \<open>bitmap_onto\<close> sets exactly those bits of \<open>relmap\<close> whose ordinal in \<open>relmap\<close> is a set bit of
  \<open>orig\<close>, and \<open>bitmap_fold\<close> sets exactly the residues modulo \<open>sz\<close> of the set bits.
\<close>

theorem bitmap_onto_fold_correct:
  assumes "n \<le> room dst" "n \<le> room orig" "n \<le> room relmap" "0 < sz"
  shows "(\<exists>d. bitmap_onto False dst orig relmap n = Some d \<and> length d = length dst \<and>
            (\<forall>i<n. bmem d i \<longleftrightarrow> bmem relmap i \<and> bmem orig (card {j. j < i \<and> bmem relmap j}))) \<and>
         (\<exists>d. bitmap_fold False dst orig sz n = Some d \<and> length d = length dst \<and>
            (\<forall>i<n. bmem d i \<longleftrightarrow> (\<exists>j<n. bmem orig j \<and> j mod sz = i)))"
proof
  let ?g = "rank (bmem relmap)"
  let ?step = "\<lambda>n dst. do { b \<leftarrow> test_bit (?g n) orig; if b then set_bit n dst else Some dst }"
  have "\<exists>d'. ?step p d = Some d' \<and> length d' = length d \<and> (\<forall>i. bmem d' i \<longleftrightarrow> (i = p \<and> bmem orig (?g p)) \<or> bmem d i)"
    if "p < n" "length d = length dst" for p d
  proof -
    have "?g p < room orig" "p < room d" using that assms(1,2) rank_le [of "bmem relmap" p] by auto
    then show ?thesis using set_bit_spec [of p d] by (auto simp: test_bit_bmem)
  qed
  then obtain z d where "bitmap_zero dst n = Some z" "for_each_bit relmap n ?step z = Some d" "length d = length dst"
    "\<forall>i<n. bmem d i \<longleftrightarrow> (\<exists>p<n. bmem relmap p \<and> i = p \<and> bmem orig (?g p))"
    using cleared_loop [OF assms(1,3), where step = ?step and Q = "\<lambda>p i. i = p \<and> bmem orig (?g p)"] by blast
  then show "\<exists>d. bitmap_onto False dst orig relmap n = Some d \<and> length d = length dst \<and>
      (\<forall>i<n. bmem d i \<longleftrightarrow> bmem relmap i \<and> bmem orig (card {j. j < i \<and> bmem relmap j}))"
    by (auto simp: bitmap_onto_def onto_loop [OF assms(3)] rank_card)
next
  let ?step = "\<lambda>oldbit dst. if sz = 0 then None else set_bit (oldbit mod sz) dst"
  have "\<exists>d'. ?step p d = Some d' \<and> length d' = length d \<and> (\<forall>i. bmem d' i \<longleftrightarrow> i = p mod sz \<or> bmem d i)"
    if "p < n" "length d = length dst" for p d
    using set_bit_spec [of "p mod sz" d] that assms(1,4) mod_less_eq_dividend [of p sz] by auto
  then show "\<exists>d. bitmap_fold False dst orig sz n = Some d \<and> length d = length dst \<and>
      (\<forall>i<n. bmem d i \<longleftrightarrow> (\<exists>j<n. bmem orig j \<and> j mod sz = i))"
    using cleared_loop [OF assms(1,2), where step = ?step and Q = "\<lambda>p i. i = p mod sz"]
    by (fastforce simp: bitmap_fold_def)
qed

theorem bitmap_onto_fold_correct_witness:
  "\<exists>d. bitmap_onto False [0] [0xAA] [0xF0F00] 64 = Some d \<and> bmem d 9 \<and> \<not> bmem d 8"
proof -
  have "card {j. j < 9 \<and> bmem [0xF0F00] j} = 1" "\<not> bmem [0xAA] (card {j. j < 8 \<and> bmem [0xF0F00] j})"
    unfolding rank_card [symmetric] by code_simp+
  moreover have "bmem [0xF0F00] 9" "bmem [0xAA] 1" by code_simp+
  ultimately show ?thesis
    using bitmap_onto_fold_correct [of 64 "[0]" "[0xAA]" "[0xF0F00]" 1] by auto
qed

end
