(* ===== verification/Iommu_Area.thy ===== *)
theory Iommu_Area
  imports Bitmap_Region
begin

text \<open>
  The free-area management of \<open>lib/iommu-helper.c\<close> over an allocation bitmap. Indices, sizes and
  masks keep their C widths (\<open>unsigned long\<close>, \<open>unsigned int\<close>); bit numbers handed to the bitmap
  routines are read as naturals. The two \<open>goto again\<close> loops are partial functions, and that they
  return is proved. The allocator meets the contract \<open>bit_allocator\<close>.
\<close>

section \<open>The operations\<close>

fun first_set :: "ulong list \<Rightarrow> nat list \<Rightarrow> nat option option" where
  "first_set mp [] = Some None"
| "first_set mp (i # is) = do { b \<leftarrow> test_bit i mp; if b then Some (Some i) else first_set mp is }"

partial_function (option) find_next_zero_area ::
  "ulong list \<Rightarrow> ulong \<Rightarrow> ulong \<Rightarrow> u32 \<Rightarrow> ulong \<Rightarrow> ulong option" where
  "find_next_zero_area mp sz start nr align_mask =
     do { x \<leftarrow> find_next_zero_bit mp (unat sz) (unat start);
          let index = (of_nat x + align_mask) AND NOT align_mask;
          let e = index + ucast nr;
          if sz \<le> e then Some (- 1)
          else do { busy \<leftarrow> first_set mp [unat index..<unat e];
                    case busy of
                      Some i \<Rightarrow> find_next_zero_area mp sz (of_nat i + 1) nr align_mask
                    | None \<Rightarrow> Some index } }"

declare find_next_zero_area.simps [code]

definition iommu_area_reserve :: "ulong list \<Rightarrow> ulong \<Rightarrow> u32 \<Rightarrow> ulong list option" where
  "iommu_area_reserve mp i len =
     (let e = i + scast len in foldM raw_set_bit [unat i..<unat e] mp)"

definition iommu_is_span_boundary :: "u32 \<Rightarrow> u32 \<Rightarrow> ulong \<Rightarrow> ulong \<Rightarrow> bool option" where
  "iommu_is_span_boundary index nr shift boundary_size =
     (if \<not> is_power_of_2 boundary_size then None
      else let shift = (shift + ucast index) AND (boundary_size - 1) in
           Some (boundary_size < shift + ucast nr))"

partial_function (option) iommu_area_alloc ::
  "ulong list \<Rightarrow> ulong \<Rightarrow> ulong \<Rightarrow> u32 \<Rightarrow> ulong \<Rightarrow> ulong \<Rightarrow> ulong \<Rightarrow> (ulong \<times> ulong list) option" where
  "iommu_area_alloc mp sz start nr shift boundary_size align_mask =
     do { index \<leftarrow> find_next_zero_area mp sz start nr align_mask;
          if index \<noteq> - 1 then
            do { span \<leftarrow> iommu_is_span_boundary (ucast index) nr shift boundary_size;
                 if span then iommu_area_alloc mp sz (index + 1) nr shift boundary_size align_mask
                 else do { mp \<leftarrow> iommu_area_reserve mp index nr; Some (index, mp) } }
          else Some (index, mp) }"

declare iommu_area_alloc.simps [code]

definition iommu_area_free :: "ulong list \<Rightarrow> ulong \<Rightarrow> u32 \<Rightarrow> ulong list option" where
  "iommu_area_free mp start nr =
     (let e = start + ucast nr in foldM raw_clear_bit [unat start..<unat e] mp)"


definition iommu_device_max_index :: "ulong \<Rightarrow> ulong \<Rightarrow> u64 \<Rightarrow> ulong" where
  "iommu_device_max_index sz offset dma_mask =
     (if dma_mask < sz + offset then dma_mask - offset + 1 else sz)"

section \<open>Searching for a free area\<close>

definition free_area :: "ulong list \<Rightarrow> nat \<Rightarrow> nat \<Rightarrow> nat \<Rightarrow> nat \<Rightarrow> bool" where
  "free_area mp n nr a q \<longleftrightarrow> a dvd q \<and> q + nr < n \<and> (\<forall>i. q \<le> i \<and> i < q + nr \<longrightarrow> \<not> bmem mp i)"

definition area_args :: "ulong list \<Rightarrow> ulong \<Rightarrow> u32 \<Rightarrow> nat \<Rightarrow> bool" where
  "area_args mp sz nr k \<longleftrightarrow> unat sz \<le> room mp \<and> k < 64 \<and> 0 < nr \<and> unat sz + 2 ^ k + unat nr < 2 ^ 64"

lemma first_set_spec:
  assumes "u \<le> room mp"
  shows "(first_set mp [l..<u] = Some None \<and> (\<forall>i. l \<le> i \<and> i < u \<longrightarrow> \<not> bmem mp i)) \<or>
         (\<exists>i. first_set mp [l..<u] = Some (Some i) \<and> l \<le> i \<and> i < u \<and> bmem mp i)"
proof -
  have "\<forall>i \<in> set is. i < room mp \<Longrightarrow>
     (first_set mp is = Some None \<and> (\<forall>i \<in> set is. \<not> bmem mp i)) \<or>
     (\<exists>i \<in> set is. first_set mp is = Some (Some i) \<and> bmem mp i)" for "is"
    by (induction "is") (auto simp: test_bit_bmem)
  from this [of "[l..<u]"] show ?thesis using assms by auto
qed

lemma find_next_zero_area_step:
  assumes "area_args mp sz nr k"
  obtains x where "is_first (\<lambda>i. \<not> bmem mp i) (unat start) (unat sz) x"
    "find_next_zero_area mp sz start nr (mask k) =
       (let q = round_up x (2 ^ k) in
        if unat sz \<le> q + unat nr then Some (- 1)
        else do { busy \<leftarrow> first_set mp [q..<q + unat nr];
                  case busy of Some i \<Rightarrow> find_next_zero_area mp sz (of_nat i + 1) nr (mask k)
                             | None \<Rightarrow> Some (of_nat q) })"
proof -
  have args: "unat sz \<le> room mp" "k < 64" "unat sz + 2 ^ k + unat nr < 2 ^ 64"
    using assms by (auto simp: area_args_def)
  obtain x where x: "find_next_zero_bit mp (unat sz) (unat start) = Some x"
      "is_first (\<lambda>i. \<not> bmem mp i) (unat start) (unat sz) x"
    using find_next_zero_bit_spec [OF args(1)] by blast
  have le: "x \<le> unat sz" using x(2) by (simp add: is_first_def)
  let ?q = "round_up x (2 ^ k)" and ?index = "(of_nat x + mask k) AND NOT (mask k) :: ulong"
  have ux: "unat (of_nat x :: ulong) = x" using le args(3) by (simp add: unat_of_nat)
  have q: "unat ?index = ?q"
    using unat_round_up [of k "of_nat x :: ulong"] args le ux by simp
  have "?q < x + 2 ^ k" by (rule round_up) simp
  then have qn: "?q + unat nr < 2 ^ 64" using le args(3) by linarith
  have nr: "unat (ucast nr :: ulong) = unat nr"
    using unsigned_less [of nr, where ?'a = nat] by (simp add: unsigned_ucast_eq take_bit_nat_eq_self)
  have e: "unat (?index + ucast nr) = ?q + unat nr"
    using qn q nr by (simp add: unat_add_less)
  have "?index = of_nat ?q" using q qn by (simp add: word_unat_eq_iff unat_of_nat)
  then show thesis
    using e q by (intro that [OF x(2)]) (subst find_next_zero_area.simps, simp add: x(1) Let_def word_le_nat_alt)
qed

lemma free_area_from:
  assumes "is_first (\<lambda>i. \<not> bmem mp i) lo n x" "free_area mp n nr a r" "0 < nr" "lo \<le> r"
  shows "round_up x a \<le> r"
proof -
  have "\<not> bmem mp r" "r < n" "a dvd r" using assms(2,3) by (auto simp: free_area_def)
  moreover from this have "x \<le> r" using assms(1,4) by (auto simp: is_first_def not_less [symmetric])
  ultimately show ?thesis using round_up(4) [of a] by (cases "a = 0") (auto simp: round_up_def)
qed

lemma find_next_zero_area_spec:
  assumes args: "area_args mp sz nr k"
  shows "(\<exists>q. find_next_zero_area mp sz start nr (mask k) = Some (of_nat q) \<and>
             least_from (free_area mp (unat sz) (unat nr) (2 ^ k)) (unat start) q) \<or>
         (find_next_zero_area mp sz start nr (mask k) = Some (- 1) \<and>
             none_from (free_area mp (unat sz) (unat nr) (2 ^ k)) (unat start))"
proof (induction "unat sz - unat start" arbitrary: start rule: less_induct)
  case less
  let ?free = "free_area mp (unat sz) (unat nr) (2 ^ k)" and ?go = "\<lambda>s. find_next_zero_area mp sz s nr (mask k)"
  obtain x where x: "is_first (\<lambda>i. \<not> bmem mp i) (unat start) (unat sz) x"
    and eq: "?go start = (let q = round_up x (2 ^ k) in
        if unat sz \<le> q + unat nr then Some (- 1)
        else do { busy \<leftarrow> first_set mp [q..<q + unat nr];
                  case busy of Some i \<Rightarrow> ?go (of_nat i + 1) | None \<Rightarrow> Some (of_nat q) })"
    using find_next_zero_area_step [OF args] by blast
  define q where "q = round_up x (2 ^ k)"
  have q: "2 ^ k dvd q" "x \<le> q" unfolding q_def by (rule round_up; simp)+
  have nr: "0 < unat nr" and room: "unat sz \<le> room mp" and ov: "unat sz + unat nr < 2 ^ 64"
    using args by (auto simp: area_args_def word_greater_zero_iff unat_gt_0)
  have skip: "q \<le> r" if "unat start \<le> r" "?free r" for r
    using free_area_from [OF x that(2) nr that(1)] by (simp add: q_def)
  show ?case
  proof (cases "unat sz \<le> q + unat nr")
    case True
    then have "none_from ?free (unat start)" using skip by (fastforce simp: none_from_def free_area_def)
    then show ?thesis using True eq by (simp add: q_def Let_def)
  next
    case False
    then have lt: "x < unat sz" using q(2) by linarith
    then have sx: "unat start \<le> x" using x by (simp add: is_first_def)
    have fit: "q + unat nr \<le> room mp" using False room by linarith
    from first_set_spec [OF fit, of q] show ?thesis
    proof (elim disjE exE conjE)
      assume free: "first_set mp [q..<q + unat nr] = Some None" "\<forall>i. q \<le> i \<and> i < q + unat nr \<longrightarrow> \<not> bmem mp i"
      then have "?free q" using q(1) False by (simp add: free_area_def)
      then have "least_from ?free (unat start) q" using skip sx q(2) by (intro search_here) auto
      then show ?thesis using free(1) False eq by (auto simp: q_def Let_def)
    next
      fix i assume i: "first_set mp [q..<q + unat nr] = Some (Some i)" "q \<le> i" "i < q + unat nr" "bmem mp i"
      have go: "?go start = ?go (of_nat i + 1)" using i(1) False eq by (simp add: q_def Let_def)
      have si: "unat (of_nat i + 1 :: ulong) = Suc i" using i(3) False ov
        by (subst unat_add_less) (auto simp: unat_of_nat)
      have "Suc i \<le> r" if "unat start \<le> r" "?free r" for r
        using skip [OF that] i(3,4) that(2) by (auto simp: free_area_def not_less_eq_eq [symmetric])
      moreover have "unat start \<le> Suc i" using i(2) q(2) sx by linarith
      moreover have "unat sz - unat (of_nat i + 1 :: ulong) < unat sz - unat start"
        using si i(2) q(2) sx lt by linarith
      ultimately show ?thesis unfolding go using less.hyps [of "of_nat i + 1"] search_skip [of "unat start" "Suc i" ?free]
        unfolding si by blast
    qed
  qed
qed

section \<open>Allocation\<close>

lemma range_loop:
  assumes "\<And>x d. x < room d \<Longrightarrow>
     \<exists>d'. step x d = Some d' \<and> length d' = length d \<and> (\<forall>i. bmem d' i \<longleftrightarrow> (if i = x then v else bmem d i))"
    and "u \<le> room mp"
  shows "\<exists>d. foldM step [l..<u] mp = Some d \<and> length d = length mp \<and>
             (\<forall>i. bmem d i \<longleftrightarrow> (if l \<le> i \<and> i < u then v else bmem mp i))"
  using assms(2)
proof (induction u)
  case (Suc u)
  show ?case
  proof (cases "l \<le> u")
    case True
    obtain d where d: "foldM step [l..<u] mp = Some d" "length d = length mp"
      "\<And>i. bmem d i \<longleftrightarrow> (if l \<le> i \<and> i < u then v else bmem mp i)" using Suc by auto
    obtain d' where "step u d = Some d'" "length d' = length d" "\<And>i. bmem d' i \<longleftrightarrow> (if i = u then v else bmem d i)"
      using assms(1) [of u d] Suc.prems d(2) by auto
    then show ?thesis using True d by (auto simp: foldM_append)
  qed (use Suc.prems in auto)
qed simp

lemma unat_ucast_nr: "unat (ucast (nr :: u32) :: ulong) = unat nr"
  using unsigned_less [of nr, where ?'a = nat] by (simp add: unsigned_ucast_eq take_bit_nat_eq_self)

lemma scast_nr: "unat (nr :: u32) < 2 ^ 31 \<Longrightarrow> (scast nr :: ulong) = ucast nr"
proof -
  assume "unat nr < 2 ^ 31"
  then have "\<not> bit (unat nr) 31" by (simp add: bit_iff_odd)
  then have "\<not> bit nr n" if "31 \<le> n" for n using bit_imp_le_length [of nr n] that by (cases "n = 31") auto
  then show ?thesis by (intro bit_word_eqI) (auto simp: bit_signed_iff bit_unsigned_iff min_def)
qed

lemma iommu_area_reserve_spec:
  assumes "q + unat nr \<le> room mp" "q + unat nr < 2 ^ 64" "unat nr < 2 ^ 31"
  shows "\<exists>d. iommu_area_reserve mp (of_nat q) nr = Some d \<and> length d = length mp \<and>
             (\<forall>i. bmem d i \<longleftrightarrow> (q \<le> i \<and> i < q + unat nr) \<or> bmem mp i)"
proof -
  have e: "unat (of_nat q + scast nr :: ulong) = q + unat nr" "unat (of_nat q :: ulong) = q"
    using assms(2) by (simp_all add: scast_nr [OF assms(3)] unat_add_less unat_ucast_nr unat_of_nat)
  obtain d where "foldM raw_set_bit [q..<q + unat nr] mp = Some d" "length d = length mp"
      "\<forall>i. bmem d i \<longleftrightarrow> (if q \<le> i \<and> i < q + unat nr then True else bmem mp i)"
    using range_loop [OF _ assms(1), of raw_set_bit True q] raw_set_bit_spec by (smt (verit, best))
  then show ?thesis by (auto simp: iommu_area_reserve_def e)
qed

lemma iommu_area_free_spec:
  assumes "q + unat nr \<le> room mp" "q + unat nr < 2 ^ 64"
  shows "\<exists>d. iommu_area_free mp (of_nat q) nr = Some d \<and> length d = length mp \<and>
             (\<forall>i. bmem d i \<longleftrightarrow> \<not> (q \<le> i \<and> i < q + unat nr) \<and> bmem mp i)"
proof -
  have e: "unat (of_nat q + ucast nr :: ulong) = q + unat nr" "unat (of_nat q :: ulong) = q"
    using assms(2) by (simp_all add: unat_add_less unat_ucast_nr unat_of_nat)
  obtain d where "foldM raw_clear_bit [q..<q + unat nr] mp = Some d" "length d = length mp"
      "\<forall>i. bmem d i \<longleftrightarrow> (if q \<le> i \<and> i < q + unat nr then False else bmem mp i)"
    using range_loop [OF _ assms(1), of raw_clear_bit False q] raw_clear_bit_spec by (smt (verit, best))
  then show ?thesis by (auto simp: iommu_area_free_def e)
qed

lemma iommu_is_span_boundary_spec:
  assumes "is_power_of_2 bs"
  shows "iommu_is_span_boundary idx nr shift bs =
           Some (unat bs < (unat shift + unat idx) mod unat bs + unat nr)"
proof -
  obtain j where j: "j < 64" "bs = 2 ^ j" using assms by (auto simp: is_power_of_2_iff)
  have ub: "unat bs = 2 ^ j" using j by (simp add: unat_exp)
  have m: "bs - 1 = mask j" using j by (simp add: mask_eq_exp_minus_1)
  have idx: "unat (ucast idx :: ulong) = unat idx" by (rule unat_ucast_nr)
  have "unat (shift + ucast idx) mod 2 ^ j = (unat shift + unat idx) mod 2 ^ j"
    using mod_mod_cancel [OF le_imp_power_dvd [of j 64 "2 :: nat"], of "unat shift + unat idx"] j(1)
    by (simp add: unat_word_ariths idx)
  then have s: "unat ((shift + ucast idx) AND (bs - 1)) = (unat shift + unat idx) mod unat bs"
    unfolding m unat_and_mask ub .
  have "(unat shift + unat idx) mod unat bs < 2 ^ j" using ub by simp
  also have "(2 :: nat) ^ j \<le> 2 ^ 63" using j(1) by (intro power_increasing) auto
  finally have "unat ((shift + ucast idx) AND (bs - 1)) + unat nr < 2 ^ 64"
    using s unsigned_less [of nr, where ?'a = nat] by simp
  then have "unat (((shift + ucast idx) AND (bs - 1)) + ucast nr) = (unat shift + unat idx) mod unat bs + unat nr"
    using s by (simp add: unat_add_less unat_ucast_nr)
  then show ?thesis using assms by (simp add: iommu_is_span_boundary_def Let_def word_less_nat_alt)
qed

text \<open>An area that does not straddle a multiple of the boundary.\<close>

definition within_boundary :: "nat \<Rightarrow> nat \<Rightarrow> nat \<Rightarrow> bool" where
  "within_boundary p nr bs \<longleftrightarrow> p div bs = (p + nr - 1) div bs"

lemma within_boundary_iff:
  assumes "0 < nr" "0 < bs"
  shows "within_boundary p nr bs \<longleftrightarrow> \<not> bs < p mod bs + nr"
proof -
  define y where "y = p mod bs + nr - 1"
  have "p + nr - 1 = p div bs * bs + y" using div_mult_mod_eq [of p bs] assms(1) unfolding y_def by linarith
  then have "(p + nr - 1) div bs = p div bs + y div bs" using assms(2) by simp
  moreover have "y div bs = 0 \<longleftrightarrow> \<not> bs < p mod bs + nr" using assms unfolding y_def by (auto simp: div_eq_0_iff)
  ultimately show ?thesis by (simp add: within_boundary_def)
qed

definition good_area :: "ulong list \<Rightarrow> nat \<Rightarrow> nat \<Rightarrow> nat \<Rightarrow> nat \<Rightarrow> nat \<Rightarrow> nat \<Rightarrow> bool" where
  "good_area mp n nr a shift bs q \<longleftrightarrow> free_area mp n nr a q \<and> within_boundary (shift + q) nr bs"

lemma of_nat_ulong:
  assumes "q < 2 ^ 32"
  shows "unat (of_nat q :: ulong) = q" "unat (ucast (of_nat q :: ulong) :: u32) = q"
    "(of_nat q :: ulong) \<noteq> - 1" "unat (of_nat q + 1 :: ulong) = Suc q"
proof -
  show u: "unat (of_nat q :: ulong) = q" "unat (ucast (of_nat q :: ulong) :: u32) = q"
    using assms by (simp_all add: unat_of_nat unsigned_ucast_eq take_bit_nat_eq_self)
  show s: "unat (of_nat q + 1 :: ulong) = Suc q" using assms by (subst unat_add_less) (auto simp: u)
  show "(of_nat q :: ulong) \<noteq> - 1"
  proof
    assume "(of_nat q :: ulong) = - 1"
    then have "(of_nat q + 1 :: ulong) = 0" by simp
    then show False using s by simp
  qed
qed

lemma iommu_area_alloc_spec:
  assumes args: "area_args mp sz nr k" "unat sz \<le> 2 ^ 32" "unat nr < 2 ^ 31" "is_power_of_2 bs"
  shows "(\<exists>q mp'. iommu_area_alloc mp sz start nr shift bs (mask k) = Some (of_nat q, mp') \<and>
            least_from (good_area mp (unat sz) (unat nr) (2 ^ k) (unat shift) (unat bs)) (unat start) q \<and>
            length mp' = length mp \<and> (\<forall>i. bmem mp' i \<longleftrightarrow> (q \<le> i \<and> i < q + unat nr) \<or> bmem mp i)) \<or>
         (iommu_area_alloc mp sz start nr shift bs (mask k) = Some (- 1, mp) \<and>
            none_from (good_area mp (unat sz) (unat nr) (2 ^ k) (unat shift) (unat bs)) (unat start))"
proof (induction "unat sz - unat start" arbitrary: start rule: less_induct)
  case less
  let ?free = "free_area mp (unat sz) (unat nr) (2 ^ k)"
    and ?good = "good_area mp (unat sz) (unat nr) (2 ^ k) (unat shift) (unat bs)"
    and ?go = "\<lambda>s. iommu_area_alloc mp sz s nr shift bs (mask k)"
  have nr: "0 < unat nr" and room: "unat sz \<le> room mp" and bs: "0 < unat bs"
    using args by (auto simp: area_args_def word_greater_zero_iff unat_gt_0 is_power_of_2_def)
  from find_next_zero_area_spec [OF args(1), of start] show ?case
  proof (elim disjE exE conjE)
    fix q assume q: "find_next_zero_area mp sz start nr (mask k) = Some (of_nat q)" "least_from ?free (unat start) q"
    then have fit: "q + unat nr < unat sz" "unat start \<le> q" by (auto simp: least_from_def free_area_def)
    have small: "q < 2 ^ 32" "q + unat nr \<le> room mp" "q + unat nr < 2 ^ 64"
      using fit(1) args(2) room by auto
    note uq = of_nat_ulong [OF small(1)]
    have span: "iommu_is_span_boundary (ucast (of_nat q :: ulong)) nr shift bs = Some (\<not> ?good q)"
      using q(2) nr bs
      by (simp add: iommu_is_span_boundary_spec [OF args(4)] uq good_area_def within_boundary_iff least_from_def)
    show ?thesis
    proof (cases "?good q")
      case True
      then have "least_from ?good (unat start) q" using q(2) by (auto simp: least_from_def good_area_def)
      then show ?thesis
        using iommu_area_reserve_spec [OF small(2,3) args(3)] q(1) uq(3) span True
        by (subst (1 2) iommu_area_alloc.simps) auto
    next
      case False
      have go: "?go start = ?go (of_nat q + 1)"
        using q(1) uq(3) span False by (subst iommu_area_alloc.simps) simp
      have "Suc q \<le> r" if "unat start \<le> r" "?good r" for r
        using q(2) that False unfolding least_from_def by (metis good_area_def not_less_eq_eq le_neq_implies_less)
      moreover have "unat sz - unat (of_nat q + 1 :: ulong) < unat sz - unat start" using uq(4) fit by linarith
      ultimately show ?thesis unfolding go
        using less.hyps [of "of_nat q + 1"] search_skip [of "unat start" "Suc q" ?good] fit(2)
        unfolding uq(4) by (metis le_SucI)
    qed
  next
    assume n: "find_next_zero_area mp sz start nr (mask k) = Some (- 1)" "none_from ?free (unat start)"
    have "?go start = Some (- 1, mp)" using n(1) by (subst iommu_area_alloc.simps) simp
    then show ?thesis using n(2) by (auto simp: good_area_def none_from_def)
  qed
qed



section \<open>The contract of an allocator\<close>

definition area_acquire :: "ulong \<Rightarrow> ulong list \<Rightarrow> nat \<times> u32 \<Rightarrow> ulong list \<Rightarrow> bool" where
  "area_acquire sz mp r mp' \<longleftrightarrow> (case r of (q, nr) \<Rightarrow> unat sz \<le> 2 ^ 32 \<and> unat nr < 2 ^ 31 \<and> q < 2 ^ 32 \<and>
     (\<exists>start shift bs k. area_args mp sz nr k \<and> is_power_of_2 bs \<and>
        iommu_area_alloc mp sz start nr shift bs (mask k) = Some (of_nat q, mp')))"

definition area_give_back :: "ulong list \<Rightarrow> nat \<times> u32 \<Rightarrow> ulong list \<Rightarrow> bool" where
  "area_give_back mp r mp' \<longleftrightarrow> (case r of (q, nr) \<Rightarrow>
     q + unat nr \<le> room mp \<and> q + unat nr < 2 ^ 64 \<and> iommu_area_free mp (of_nat q) nr = Some mp')"

lemma area_acquire_effect:
  assumes "area_acquire sz mp (q, nr) mp'"
  shows "q + unat nr < unat sz" "\<forall>i. q \<le> i \<and> i < q + unat nr \<longrightarrow> \<not> bmem mp i" "length mp' = length mp"
    "bmem mp' i \<longleftrightarrow> (q \<le> i \<and> i < q + unat nr) \<or> bmem mp i"
proof -
  obtain start shift bs k where a: "area_args mp sz nr k" "unat sz \<le> 2 ^ 32" "unat nr < 2 ^ 31" "is_power_of_2 bs"
      "q < 2 ^ 32" "iommu_area_alloc mp sz start nr shift bs (mask k) = Some (of_nat q, mp')"
    using assms unfolding area_acquire_def prod.case by blast
  obtain p where p: "of_nat q = (of_nat p :: ulong)" "free_area mp (unat sz) (unat nr) (2 ^ k) p"
      "length mp' = length mp" "\<forall>i. bmem mp' i \<longleftrightarrow> (p \<le> i \<and> i < p + unat nr) \<or> bmem mp i"
    using iommu_area_alloc_spec [OF a(1-4), of start shift]
  proof (elim disjE exE conjE)
    fix p mp'' assume "iommu_area_alloc mp sz start nr shift bs (mask k) = Some (of_nat p, mp'')"
      "least_from (good_area mp (unat sz) (unat nr) (2 ^ k) (unat shift) (unat bs)) (unat start) p"
      "length mp'' = length mp" "\<forall>i. bmem mp'' i \<longleftrightarrow> (p \<le> i \<and> i < p + unat nr) \<or> bmem mp i"
    then show thesis unfolding a(6) least_from_def good_area_def by (intro that [of p]) blast+
  next
    assume "iommu_area_alloc mp sz start nr shift bs (mask k) = Some (- 1, mp)"
    then show thesis using of_nat_ulong(3) [OF a(5)] unfolding a(6) by blast
  qed
  have "p < 2 ^ 32" using p(2) a(2) unfolding free_area_def by linarith
  from trans [OF sym [OF of_nat_ulong(1) [OF this]] of_nat_ulong(1) [OF a(5), unfolded p(1)]] have "p = q" .
  then show "q + unat nr < unat sz" "\<forall>i. q \<le> i \<and> i < q + unat nr \<longrightarrow> \<not> bmem mp i" "length mp' = length mp"
    "bmem mp' i \<longleftrightarrow> (q \<le> i \<and> i < q + unat nr) \<or> bmem mp i"
    using p by (simp_all add: free_area_def)
qed

interpretation areas: bit_allocator "\<lambda>mp. {i. bmem mp i}" "\<lambda>(q, nr). {q..<q + unat nr}"
  "area_acquire sz" area_give_back for sz
proof unfold_locales
  fix m m' and r :: "nat \<times> u32"
  obtain q nr where r: "r = (q, nr)" by (cases r)
  show "(case r of (q, nr) \<Rightarrow> {q..<q + unat nr}) \<inter> {i. bmem m i} = {}" if "area_acquire sz m r m'"
    using area_acquire_effect(2) [OF that [unfolded r]] by (simp add: r disjoint_iff)
  show "{i. bmem m' i} = {i. bmem m i} \<union> (case r of (q, nr) \<Rightarrow> {q..<q + unat nr})" if "area_acquire sz m r m'"
    using area_acquire_effect(4) [OF that [unfolded r]] by (simp add: r set_eq_iff disj_commute)
  show "{i. bmem m' i} = {i. bmem m i} - (case r of (q, nr) \<Rightarrow> {q..<q + unat nr})" if g: "area_give_back m r m'"
  proof -
    have "q + unat nr \<le> room m" "q + unat nr < 2 ^ 64" "iommu_area_free m (of_nat q) nr = Some m'"
      using g unfolding r area_give_back_def prod.case by blast+
    then show ?thesis using iommu_area_free_spec [of q nr m] by (simp add: r set_eq_iff conj_commute)
  qed
qed

text \<open>
  Whatever areas \<open>iommu_area_alloc\<close> has handed out and \<open>iommu_area_free\<close> has not yet returned,
  they are pairwise disjoint, none of them covers a bit that was set at the start, and the bits
  set are exactly those of the outstanding areas and of the start.
\<close>

theorem iommu_areas_exclusive:
  assumes "areas.run sz mp0 mp rs"
  shows "(\<forall>i j. i < j \<and> j < length rs \<longrightarrow>
            {fst (rs ! i)..<fst (rs ! i) + unat (snd (rs ! i))} \<inter> {fst (rs ! j)..<fst (rs ! j) + unat (snd (rs ! j))} = {}) \<and>
         {i. bmem mp i} = {i. bmem mp0 i} \<union> (\<Union>(q, nr) \<in> set rs. {q..<q + unat nr}) \<and>
         {i. bmem mp0 i} \<inter> (\<Union>(q, nr) \<in> set rs. {q..<q + unat nr}) = {}"
  using areas.run_invariant [OF assms] areas.outstanding_disjoint [OF assms] by (simp add: case_prod_beta)

theorem iommu_areas_exclusive_witness:
  "areas.run 64 [0x7] [0xF7] [(4, 4)] \<and> {i. bmem [0xF7] i} = {i. bmem [0x7] i} \<union> {4..<8}"
proof -
  have "iommu_area_alloc [0x7] 64 0 4 0 8 3 = Some (4, [0xF7])" by code_simp
  moreover have "(mask 2 :: ulong) = 3" by (simp add: mask_eq_exp_minus_1)
  moreover have "is_power_of_2 (8 :: ulong)" by code_simp
  moreover have "area_args [0x7] 64 4 2" by (simp add: area_args_def)
  ultimately have "area_acquire 64 [0x7] (4, 4) [0xF7]"
    unfolding area_acquire_def prod.case
    by (intro conjI exI [of _ 0] exI [of _ 8] exI [of _ 2]) simp_all
  then have run: "areas.run 64 [0x7] [0xF7] [(4, 4)]" by (rule areas.run.acquire [OF areas.run.start])
  from iommu_areas_exclusive [OF run] run show ?thesis by simp
qed

text \<open>An area that ends exactly at \<open>size\<close> is never found, not even in an empty map.\<close>

lemma whole_map_refused: "find_next_zero_area [0] 64 0 64 0 = Some (- 1) \<and> find_next_zero_area [0] 64 0 63 0 = Some 0"
  by code_simp

section \<open>Page counts\<close>





end
