(* ===== verification/Kfifo.thy ===== *)
theory Kfifo
  imports Bitops
begin

text \<open>
  The byte FIFO of \<open>kernel/kfifo.c\<close> and \<open>include/linux/kfifo.h\<close>: a ring buffer whose size is a power
  of two and whose two 32-bit counters run freely and wrap. The abstraction is the list of bytes
  between \<open>out\<close> and \<open>in\<close>; the operations are shown to implement a bounded queue on that list (locale
  \<open>byte_queue\<close>), and the unlocked operations to be safe for one reader and one writer that run
  concurrently, as their comments claim.

  The spin lock of the locked variants and the memory barriers leave no trace in a sequential
  model; the concurrent model interleaves single steps of the reader and the writer. \<open>kmalloc\<close> is an
  argument: it gives the buffer, or \<open>None\<close> when memory is exhausted.
\<close>

section \<open>The operations\<close>

record kfifo =
  kf_buffer :: bytes
  kf_size :: u32
  kf_in :: u32
  kf_out :: u32

definition kfifo_init :: "bool \<Rightarrow> bytes \<Rightarrow> u32 \<Rightarrow> (int + kfifo) option" where
  "kfifo_init kmalloc_ok buffer sz =
     (if \<not> is_power_of_2 (ucast sz) then None
      else if \<not> kmalloc_ok then Some (Inl (- ENOMEM))
      else Some (Inr \<lparr>kf_buffer = buffer, kf_size = sz, kf_in = 0, kf_out = 0\<rparr>))"

definition kfifo_alloc :: "(u32 \<Rightarrow> bytes option) \<Rightarrow> bool \<Rightarrow> u32 \<Rightarrow> (int + kfifo) option" where
  "kfifo_alloc kmalloc kmalloc_ok sz =
     do { sz \<leftarrow> (if \<not> is_power_of_2 (ucast sz)
                 then if 0x80000000 < sz then None
                      else do { n \<leftarrow> raw_roundup_pow_of_two (ucast sz); Some (ucast n) }
                 else Some sz);
          case kmalloc sz of
            None \<Rightarrow> Some (Inl (- ENOMEM))
          | Some buffer \<Rightarrow> kfifo_init kmalloc_ok buffer sz }"

definition raw_kfifo_put :: "kfifo \<Rightarrow> bytes \<Rightarrow> u32 \<Rightarrow> (u32 \<times> kfifo) option" where
  "raw_kfifo_put fifo buffer len =
     (let len = min len (kf_size fifo - kf_in fifo + kf_out fifo);
          off = kf_in fifo AND (kf_size fifo - 1);
          l = min len (kf_size fifo - off) in
      do { b \<leftarrow> memcpy (kf_buffer fifo) (unat off) buffer 0 (unat l);
           b \<leftarrow> memcpy b 0 buffer (unat l) (unat (len - l));
           Some (len, fifo \<lparr>kf_buffer := b, kf_in := kf_in fifo + len\<rparr>) })"

definition raw_kfifo_get :: "kfifo \<Rightarrow> bytes \<Rightarrow> u32 \<Rightarrow> (u32 \<times> bytes \<times> kfifo) option" where
  "raw_kfifo_get fifo buffer len =
     (let len = min len (kf_in fifo - kf_out fifo);
          off = kf_out fifo AND (kf_size fifo - 1);
          l = min len (kf_size fifo - off) in
      do { buffer \<leftarrow> memcpy buffer 0 (kf_buffer fifo) (unat off) (unat l);
           buffer \<leftarrow> memcpy buffer (unat l) (kf_buffer fifo) 0 (unat (len - l));
           Some (len, buffer, fifo \<lparr>kf_out := kf_out fifo + len\<rparr>) })"

definition raw_kfifo_reset :: "kfifo \<Rightarrow> kfifo" where
  "raw_kfifo_reset fifo = fifo \<lparr>kf_in := 0, kf_out := 0\<rparr>"

definition kfifo_reset :: "kfifo \<Rightarrow> kfifo" where
  "kfifo_reset fifo = raw_kfifo_reset fifo"

definition kfifo_put :: "kfifo \<Rightarrow> bytes \<Rightarrow> u32 \<Rightarrow> (u32 \<times> kfifo) option" where
  "kfifo_put fifo buffer len = raw_kfifo_put fifo buffer len"

definition kfifo_get :: "kfifo \<Rightarrow> bytes \<Rightarrow> u32 \<Rightarrow> (u32 \<times> bytes \<times> kfifo) option" where
  "kfifo_get fifo buffer len =
     do { (ret, buffer, fifo) \<leftarrow> raw_kfifo_get fifo buffer len;
          let fifo = (if kf_in fifo = kf_out fifo then fifo \<lparr>kf_in := 0, kf_out := 0\<rparr> else fifo);
          Some (ret, buffer, fifo) }"

definition raw_kfifo_len :: "kfifo \<Rightarrow> u32" where
  "raw_kfifo_len fifo = kf_in fifo - kf_out fifo"

definition kfifo_len :: "kfifo \<Rightarrow> u32" where
  "kfifo_len fifo = raw_kfifo_len fifo"

section \<open>Ring arithmetic\<close>

text \<open>Two block copies write, or read, a run of positions modulo the size of the ring.\<close>

lemma ring_pos: "s < N \<Longrightarrow> j < N \<Longrightarrow> (s + j) mod N = (if s + j < N then s + j else s + j - N)"
  for s j N :: nat
  by (simp add: mod_if)

lemma ring_pos_inj: "i < N \<Longrightarrow> j < N \<Longrightarrow> (s + i) mod N = (s + j) mod N \<Longrightarrow> i = j" for i j s N :: nat
proof -
  assume "i < N" "j < N" "(s + i) mod N = (s + j) mod N"
  moreover from this have "((s mod N) + i) mod N = ((s mod N) + j) mod N" by (simp add: mod_add_left_eq)
  moreover have "s mod N < N" using \<open>i < N\<close> by simp
  ultimately show "i = j" using ring_pos [of "s mod N" N i] ring_pos [of "s mod N" N j] by (auto split: if_splits)
qed

lemma ring_shift: "a mod N = b mod N \<Longrightarrow> (a + j) mod N = (b + j) mod N" for a b j N :: nat
  by (rule mod_add_cong) simp_all

lemma ring_write:
  assumes "length buf = N" "s < N" "n \<le> N" "n \<le> length data" "l = min n (N - s)"
  shows "\<exists>b b'. memcpy buf s data 0 l = Some b \<and> memcpy b 0 data l (n - l) = Some b' \<and> length b' = N \<and>
           (\<forall>j<n. b' ! ((s + j) mod N) = data ! j) \<and>
           (\<forall>p<N. (\<forall>j<n. p \<noteq> (s + j) mod N) \<longrightarrow> b' ! p = buf ! p)"
proof -
  have bounds: "s + l \<le> N" "l \<le> n" "n - l \<le> N" using assms by auto
  obtain b where b: "memcpy buf s data 0 l = Some b" using memcpy_total [of s l buf 0 data] bounds assms by auto
  have lb: "length b = N" using length_memcpy [OF b] assms(1) by simp
  obtain b' where b': "memcpy b 0 data l (n - l) = Some b'"
    using memcpy_total [of 0 "n - l" b l data] bounds assms lb by auto
  have nth: "b' ! p = (if p < n - l then data ! (l + p) else if s \<le> p \<and> p < s + l then data ! (p - s) else buf ! p)"
    if "p < N" for p
    using nth_memcpy [OF b', of p] nth_memcpy [OF b, of p] that lb assms(1) by simp
  have "b' ! ((s + j) mod N) = data ! j" if "j < n" for j
  proof -
    have "j < N" using that assms(3) by simp
    then show ?thesis
      using nth [of "(s + j) mod N"] ring_pos [OF assms(2), of j] that assms(2,3,5) by (auto simp: min_def)
  qed
  moreover have "b' ! p = buf ! p" if "p < N" "\<forall>j<n. p \<noteq> (s + j) mod N" for p
  proof -
    have "\<not> p < n - l"
    proof
      assume p: "p < n - l"
      then have "l + p < n" "(s + (l + p)) mod N = p" using assms(2,3,5) by (auto simp: min_def split: if_splits)
      then show False using that(2) by auto
    qed
    moreover have "\<not> (s \<le> p \<and> p < s + l)"
    proof
      assume "s \<le> p \<and> p < s + l"
      then have "p - s < n" "(s + (p - s)) mod N = p" using assms(5) that(1) by auto
      then show False using that(2) by metis
    qed
    ultimately show ?thesis using nth [OF that(1)] by presburger
  qed
  ultimately show ?thesis using b b' length_memcpy [OF b'] lb by blast
qed

lemma ring_read:
  assumes "length buf = N" "s < N" "n \<le> N" "n \<le> length dst" "l = min n (N - s)"
  shows "\<exists>d. memcpy dst 0 buf s l = Some d \<and>
           memcpy d l buf 0 (n - l) = Some (map (\<lambda>j. buf ! ((s + j) mod N)) [0..<n] @ drop n dst)"
proof -
  have bounds: "s + l \<le> N" "l \<le> n" "n - l \<le> N" using assms by auto
  obtain d where d: "memcpy dst 0 buf s l = Some d" using memcpy_total [of 0 l dst s buf] bounds assms by auto
  have ld: "length d = length dst" by (rule length_memcpy [OF d])
  obtain d' where d': "memcpy d l buf 0 (n - l) = Some d'"
    using memcpy_total [of l "n - l" d 0 buf] bounds assms ld by auto
  have "d' = map (\<lambda>j. buf ! ((s + j) mod N)) [0..<n] @ drop n dst"
  proof (rule nth_equalityI)
    show "length d' = length (map (\<lambda>j. buf ! ((s + j) mod N)) [0..<n] @ drop n dst)"
      using length_memcpy [OF d'] ld assms(4) by simp
    fix i assume "i < length d'"
    then have i: "i < length dst" using length_memcpy [OF d'] ld by simp
    have "d' ! i = (if l \<le> i \<and> i < n then buf ! (i - l) else if i < l then buf ! (s + i) else dst ! i)"
      using nth_memcpy [OF d', of i] nth_memcpy [OF d, of i] i ld assms(5) by (auto simp: min_def)
    then show "d' ! i = (map (\<lambda>j. buf ! ((s + j) mod N)) [0..<n] @ drop n dst) ! i"
      using assms(2,3,5) i ring_pos [OF assms(2), of i] by (auto simp: nth_append min_def add.commute [of i s] split: if_splits)
  qed
  then show ?thesis using d d' by blast
qed

section \<open>The queue of bytes\<close>

definition kfifo_ok :: "kfifo \<Rightarrow> bool" where
  "kfifo_ok f \<longleftrightarrow> (\<exists>k<32. kf_size f = 2 ^ k) \<and> length (kf_buffer f) = unat (kf_size f) \<and>
     unat (kf_in f - kf_out f) \<le> unat (kf_size f)"

definition used :: "kfifo \<Rightarrow> nat" where
  "used f = unat (kf_in f - kf_out f)"

definition contents :: "kfifo \<Rightarrow> bytes" where
  "contents f = map (\<lambda>i. kf_buffer f ! ((unat (kf_out f) + i) mod unat (kf_size f))) [0..<used f]"

lemma length_contents [simp]: "length (contents f) = used f"
  by (simp add: contents_def)

lemma size_facts:
  assumes "kfifo_ok f"
  shows "unat (w AND (kf_size f - 1)) = unat w mod unat (kf_size f)" "0 < unat (kf_size f)"
    "unat (kf_size f) dvd 2 ^ 32" "unat (v + w) mod unat (kf_size f) = (unat v + unat w) mod unat (kf_size f)"
proof -
  obtain k where k: "k < 32" "kf_size f = 2 ^ k" using assms by (auto simp: kfifo_ok_def)
  have N: "unat (kf_size f) = 2 ^ k" using k by (simp add: unat_exp)
  have "kf_size f - 1 = mask k" using k by (simp add: mask_eq_exp_minus_1)
  then show "unat (w AND (kf_size f - 1)) = unat w mod unat (kf_size f)" using N by (simp add: unat_and_mask)
  show "0 < unat (kf_size f)" using N by simp
  show d: "unat (kf_size f) dvd 2 ^ 32" unfolding N using k(1) by (intro le_imp_power_dvd) simp
  show "unat (v + w) mod unat (kf_size f) = (unat v + unat w) mod unat (kf_size f)"
    using mod_mod_cancel [OF d] by (simp add: unat_word_ariths)
qed

lemma in_pos:
  assumes "kfifo_ok f"
  shows "unat (kf_in f) mod unat (kf_size f) = (unat (kf_out f) + used f) mod unat (kf_size f)"
  using size_facts(4) [OF assms, of "kf_out f" "kf_in f - kf_out f"] by (simp add: used_def)

lemma free_space:
  assumes "kfifo_ok f"
  shows "unat (kf_size f - kf_in f + kf_out f) = unat (kf_size f) - used f" "used f \<le> unat (kf_size f)"
proof -
  show le: "used f \<le> unat (kf_size f)" using assms by (simp add: kfifo_ok_def used_def)
  have e: "kf_size f - kf_in f + kf_out f = kf_size f - (kf_in f - kf_out f)" by simp
  show "unat (kf_size f - kf_in f + kf_out f) = unat (kf_size f) - used f"
    using le unfolding e used_def by (rule unat_diff)
qed

lemma unat_min: "unat (min a b) = min (unat a) (unat b)"
  by (simp add: min_def word_le_nat_alt)

lemma ring_off:
  assumes "kfifo_ok f"
  shows "unat (kf_size f - (w AND (kf_size f - 1))) = unat (kf_size f) - unat w mod unat (kf_size f)"
    "unat w mod unat (kf_size f) < unat (kf_size f)"
proof -
  show lt: "unat w mod unat (kf_size f) < unat (kf_size f)" using size_facts(2) [OF assms] by simp
  show "unat (kf_size f - (w AND (kf_size f - 1))) = unat (kf_size f) - unat w mod unat (kf_size f)"
    using unat_diff [of "w AND (kf_size f - 1)" "kf_size f"] lt unfolding size_facts(1) [OF assms] by simp
qed

lemma used_add:
  assumes "kfifo_ok f" "used f + unat n \<le> unat (kf_size f)"
  shows "unat (kf_in f + n - kf_out f) = used f + unat n"
proof -
  have e: "kf_in f + n - kf_out f = (kf_in f - kf_out f) + n" by simp
  have "unat (kf_size f) < 2 ^ LENGTH(32)" by (rule unsigned_less)
  then have "unat (kf_in f - kf_out f) + unat n < 2 ^ LENGTH(32)" using assms(2) unfolding used_def by linarith
  then show ?thesis unfolding e used_def by (rule unat_add_less)
qed

text \<open>What publishing \<open>n\<close> bytes already written after \<open>in\<close>, and dropping \<open>n\<close> bytes after \<open>out\<close>, do to the contents.\<close>

lemma publish_in:
  assumes ok: "kfifo_ok f" and fit: "used f + unat n \<le> unat (kf_size f)" and len: "unat n \<le> length data"
    and b: "length b = unat (kf_size f)"
    and new: "\<And>j. j < unat n \<Longrightarrow> b ! ((unat (kf_in f) + j) mod unat (kf_size f)) = data ! j"
    and old: "\<And>i. i < used f \<Longrightarrow> b ! ((unat (kf_out f) + i) mod unat (kf_size f)) = contents f ! i"
  shows "kfifo_ok (f \<lparr>kf_buffer := b, kf_in := kf_in f + n\<rparr>)"
    "contents (f \<lparr>kf_buffer := b, kf_in := kf_in f + n\<rparr>) = contents f @ take (unat n) data"
proof -
  let ?f = "f \<lparr>kf_buffer := b, kf_in := kf_in f + n\<rparr>" and ?N = "unat (kf_size f)"
  note u = used_add [OF ok fit]
  show "kfifo_ok ?f" using ok u fit b by (simp add: kfifo_ok_def)
  have uf: "used ?f = used f + unat n" using u by (simp add: used_def)
  have "(unat (kf_out f) + (used f + j)) mod ?N = (unat (kf_in f) + j) mod ?N" for j
    using ring_shift [OF in_pos [OF ok, symmetric]] by (simp only: add.assoc)
  then have new': "b ! ((unat (kf_out f) + (used f + j)) mod ?N) = data ! j" if "j < unat n" for j
    using new [OF that] by simp
  show "contents ?f = contents f @ take (unat n) data"
  proof (rule nth_equalityI)
    show "length (contents ?f) = length (contents f @ take (unat n) data)" using uf len by simp
    fix i assume "i < length (contents ?f)"
    then have i: "i < used f + unat n" using uf by simp
    then have "contents ?f ! i = b ! ((unat (kf_out f) + i) mod ?N)" using uf by (simp add: contents_def)
    then show "contents ?f ! i = (contents f @ take (unat n) data) ! i"
      using i old [of i] new' [of "i - used f"] by (auto simp: nth_append)
  qed
qed

lemma publish_out:
  assumes ok: "kfifo_ok f" and fit: "unat n \<le> used f"
  shows "kfifo_ok (f \<lparr>kf_out := kf_out f + n\<rparr>)" "contents (f \<lparr>kf_out := kf_out f + n\<rparr>) = drop (unat n) (contents f)"
proof -
  let ?f = "f \<lparr>kf_out := kf_out f + n\<rparr>" and ?N = "unat (kf_size f)"
  have e: "kf_in ?f - kf_out ?f = (kf_in f - kf_out f) - n" by simp
  have uf: "used ?f = used f - unat n" using fit unfolding used_def e by (rule unat_diff)
  then have "used ?f \<le> unat (kf_size ?f)" using free_space(2) [OF ok] by simp
  then show "kfifo_ok ?f" using ok unfolding kfifo_ok_def used_def by simp
  have "(unat (kf_out f + n) + i) mod ?N = (unat (kf_out f) + (unat n + i)) mod ?N" for i
    using ring_shift [OF size_facts(4) [OF ok, of "kf_out f" n]] by (simp only: add.assoc)
  then show "contents ?f = drop (unat n) (contents f)"
    using uf by (intro nth_equalityI) (auto simp: contents_def)
qed

section \<open>The operations on the queue\<close>

lemma raw_kfifo_put_spec:
  assumes ok: "kfifo_ok f" and len: "unat len \<le> length data"
  shows "\<exists>n f'. raw_kfifo_put f data len = Some (n, f') \<and> unat n = min (unat len) (unat (kf_size f) - used f) \<and>
           kfifo_ok f' \<and> kf_size f' = kf_size f \<and> contents f' = contents f @ take (unat n) data"
proof -
  let ?N = "unat (kf_size f)" and ?s = "unat (kf_in f) mod unat (kf_size f)"
  define n where "n = min len (kf_size f - kf_in f + kf_out f)"
  have un: "unat n = min (unat len) (?N - used f)" by (simp add: n_def unat_min free_space [OF ok])
  have fit: "used f + unat n \<le> ?N" and dl: "unat n \<le> length data" using un free_space(2) [OF ok] len by auto
  define l where "l = min n (kf_size f - (kf_in f AND (kf_size f - 1)))"
  have ul: "unat l = min (unat n) (?N - ?s)" by (simp add: l_def unat_min ring_off [OF ok])
  have ud: "unat (n - l) = unat n - unat l" using ul by (intro unat_diff) simp
  have bl: "length (kf_buffer f) = ?N" using ok by (simp add: kfifo_ok_def)
  have nN: "unat n \<le> ?N" using fit by simp
  obtain b b' where b: "memcpy (kf_buffer f) ?s data 0 (unat l) = Some b" "memcpy b 0 data (unat l) (unat n - unat l) = Some b'"
      "length b' = ?N" "\<forall>j<unat n. b' ! ((?s + j) mod ?N) = data ! j"
      "\<forall>p<?N. (\<forall>j<unat n. p \<noteq> (?s + j) mod ?N) \<longrightarrow> b' ! p = kf_buffer f ! p"
    using ring_write [OF bl ring_off(2) [OF ok] nN dl ul] by blast
  have "raw_kfifo_put f data len = Some (n, f \<lparr>kf_buffer := b', kf_in := kf_in f + n\<rparr>)"
    unfolding raw_kfifo_put_def Let_def n_def [symmetric] l_def [symmetric] size_facts(1) [OF ok] ud
    using b(1,2) by simp
  moreover have "b' ! ((unat (kf_out f) + i) mod ?N) = contents f ! i" if i: "i < used f" for i
  proof -
    have "(unat (kf_out f) + i) mod ?N \<noteq> (?s + j) mod ?N" if "j < unat n" for j
      using ring_pos_inj [of i ?N "used f + j" "unat (kf_out f)"] in_pos [OF ok] i that fit
      by (auto simp: mod_add_left_eq add.assoc)
    then show ?thesis using b(5) i size_facts(2) [OF ok] by (simp add: contents_def)
  qed
  moreover have "b' ! ((unat (kf_in f) + j) mod ?N) = data ! j" if "j < unat n" for j
    using b(4) that by (simp add: mod_add_left_eq)
  ultimately show ?thesis
    using publish_in [OF ok fit dl b(3)] un by auto
qed

lemma raw_kfifo_get_spec:
  assumes ok: "kfifo_ok f" and len: "unat len \<le> length dst"
  shows "\<exists>n f'. raw_kfifo_get f dst len = Some (n, take (unat n) (contents f) @ drop (unat n) dst, f') \<and>
           unat n = min (unat len) (used f) \<and> kfifo_ok f' \<and> kf_size f' = kf_size f \<and>
           contents f' = drop (unat n) (contents f)"
proof -
  let ?N = "unat (kf_size f)" and ?s = "unat (kf_out f) mod unat (kf_size f)"
  define n where "n = min len (kf_in f - kf_out f)"
  have un: "unat n = min (unat len) (used f)" by (simp add: n_def unat_min used_def)
  define l where "l = min n (kf_size f - (kf_out f AND (kf_size f - 1)))"
  have ul: "unat l = min (unat n) (?N - ?s)" by (simp add: l_def unat_min ring_off [OF ok])
  have ud: "unat (n - l) = unat n - unat l" using ul by (intro unat_diff) simp
  have bl: "length (kf_buffer f) = ?N" using ok by (simp add: kfifo_ok_def)
  have nN: "unat n \<le> ?N" "unat n \<le> length dst" "unat n \<le> used f" using un free_space(2) [OF ok] len by auto
  obtain d where d: "memcpy dst 0 (kf_buffer f) ?s (unat l) = Some d"
      "memcpy d (unat l) (kf_buffer f) 0 (unat n - unat l) =
         Some (map (\<lambda>j. kf_buffer f ! ((?s + j) mod ?N)) [0..<unat n] @ drop (unat n) dst)"
    using ring_read [OF bl ring_off(2) [OF ok] nN(1,2) ul] by blast
  have "map (\<lambda>j. kf_buffer f ! ((?s + j) mod ?N)) [0..<unat n] = take (unat n) (contents f)"
    using nN(3) by (intro nth_equalityI) (auto simp: contents_def mod_add_left_eq)
  then have "raw_kfifo_get f dst len =
      Some (n, take (unat n) (contents f) @ drop (unat n) dst, f \<lparr>kf_out := kf_out f + n\<rparr>)"
    unfolding raw_kfifo_get_def Let_def n_def [symmetric] l_def [symmetric] size_facts(1) [OF ok] ud
    using d by simp
  then show ?thesis using publish_out [OF ok nN(3)] un by auto
qed

lemma reset_spec: "kfifo_ok f \<Longrightarrow> kfifo_ok (raw_kfifo_reset f) \<and> contents (raw_kfifo_reset f) = []"
  by (simp add: raw_kfifo_reset_def kfifo_ok_def contents_def used_def)

lemma kfifo_get_spec:
  assumes "kfifo_ok f" "unat len \<le> length dst"
  shows "\<exists>n f'. kfifo_get f dst len = Some (n, take (unat n) (contents f) @ drop (unat n) dst, f') \<and>
           unat n = min (unat len) (used f) \<and> kfifo_ok f' \<and> kf_size f' = kf_size f \<and>
           contents f' = drop (unat n) (contents f)"
proof -
  obtain n f' where g: "raw_kfifo_get f dst len = Some (n, take (unat n) (contents f) @ drop (unat n) dst, f')"
    "unat n = min (unat len) (used f)" "kfifo_ok f'" "kf_size f' = kf_size f" "contents f' = drop (unat n) (contents f)"
    using raw_kfifo_get_spec [OF assms] by blast
  show ?thesis
  proof (cases "kf_in f' = kf_out f'")
    case True
    then have "contents f' = []" by (simp add: contents_def used_def)
    moreover have "f' \<lparr>kf_in := 0, kf_out := 0\<rparr> = raw_kfifo_reset f'" by (simp add: raw_kfifo_reset_def)
    ultimately show ?thesis using g True reset_spec [OF g(3)] by (simp add: kfifo_get_def raw_kfifo_reset_def)
  qed (use g in \<open>simp add: kfifo_get_def\<close>)
qed

section \<open>A FIFO keeps the order of the bytes\<close>

datatype kop = Put bytes u32 | Get bytes u32 | Reset

text \<open>
  The specification: a list of at most \<open>cap\<close> bytes. A \<open>Put\<close> appends as many of its bytes as there is room
  for, a \<open>Get\<close> takes as many as it may from the front, a \<open>Reset\<close> empties the list. Each call answers
  with the number of bytes moved and, for a \<open>Get\<close>, the caller's buffer afterwards.
\<close>

fun bounded_queue :: "nat \<Rightarrow> bytes \<Rightarrow> kop list \<Rightarrow> (nat \<times> bytes) list \<times> bytes" where
  "bounded_queue cap xs [] = ([], xs)"
| "bounded_queue cap xs (Put data len # ops) =
     (let n = min (unat len) (cap - length xs); (rs, ys) = bounded_queue cap (xs @ take n data) ops
      in ((n, []) # rs, ys))"
| "bounded_queue cap xs (Get buf len # ops) =
     (let n = min (unat len) (length xs); (rs, ys) = bounded_queue cap (drop n xs) ops
      in ((n, take n xs @ drop n buf) # rs, ys))"
| "bounded_queue cap xs (Reset # ops) =
     (let (rs, ys) = bounded_queue cap [] ops in ((0, []) # rs, ys))"

text \<open>Running the same calls on an implementation.\<close>

fun queue_run ::
  "('q \<Rightarrow> bytes \<Rightarrow> u32 \<Rightarrow> (u32 \<times> 'q) option) \<Rightarrow> ('q \<Rightarrow> bytes \<Rightarrow> u32 \<Rightarrow> (u32 \<times> bytes \<times> 'q) option) \<Rightarrow> ('q \<Rightarrow> 'q) \<Rightarrow>
   'q \<Rightarrow> kop list \<Rightarrow> ((nat \<times> bytes) list \<times> 'q) option" where
  "queue_run put get reset q [] = Some ([], q)"
| "queue_run put get reset q (Put data len # ops) =
     do { (n, q) \<leftarrow> put q data len;
          (rs, q) \<leftarrow> queue_run put get reset q ops;
          Some ((unat n, []) # rs, q) }"
| "queue_run put get reset q (Get buf len # ops) =
     do { (n, buf, q) \<leftarrow> get q buf len;
          (rs, q) \<leftarrow> queue_run put get reset q ops;
          Some ((unat n, buf) # rs, q) }"
| "queue_run put get reset q (Reset # ops) =
     do { (rs, q) \<leftarrow> queue_run put get reset (reset q) ops;
          Some ((0, []) # rs, q) }"

fun kop_ok :: "kop \<Rightarrow> bool" where
  "kop_ok (Put data len) \<longleftrightarrow> unat len \<le> length data"
| "kop_ok (Get buf len) \<longleftrightarrow> unat len \<le> length buf"
| "kop_ok Reset \<longleftrightarrow> True"

locale byte_queue =
  fixes ok :: "'q \<Rightarrow> bool"
    and cap :: "'q \<Rightarrow> nat"
    and elems :: "'q \<Rightarrow> bytes"
    and put :: "'q \<Rightarrow> bytes \<Rightarrow> u32 \<Rightarrow> (u32 \<times> 'q) option"
    and get :: "'q \<Rightarrow> bytes \<Rightarrow> u32 \<Rightarrow> (u32 \<times> bytes \<times> 'q) option"
    and reset :: "'q \<Rightarrow> 'q"
  assumes put: "ok q \<Longrightarrow> unat len \<le> length data \<Longrightarrow>
      \<exists>n q'. put q data len = Some (n, q') \<and> unat n = min (unat len) (cap q - length (elems q)) \<and>
             ok q' \<and> cap q' = cap q \<and> elems q' = elems q @ take (unat n) data"
    and get: "ok q \<Longrightarrow> unat len \<le> length dst \<Longrightarrow>
      \<exists>n q'. get q dst len = Some (n, take (unat n) (elems q) @ drop (unat n) dst, q') \<and>
             unat n = min (unat len) (length (elems q)) \<and> ok q' \<and> cap q' = cap q \<and> elems q' = drop (unat n) (elems q)"
    and reset: "ok q \<Longrightarrow> ok (reset q) \<and> cap (reset q) = cap q \<and> elems (reset q) = []"
begin

lemma run_refines:
  assumes "ok q" "\<forall>c \<in> set ops. kop_ok c"
  shows "\<exists>q'. queue_run put get reset q ops = Some (fst (bounded_queue (cap q) (elems q) ops), q') \<and> ok q' \<and> cap q' = cap q \<and>
           elems q' = snd (bounded_queue (cap q) (elems q) ops)"
  using assms
proof (induction ops arbitrary: q)
  case (Cons c ops)
  have IH: "\<exists>q'. queue_run put get reset q1 ops = Some (fst (bounded_queue (cap q) (elems q1) ops), q') \<and> ok q' \<and> cap q' = cap q \<and>
      elems q' = snd (bounded_queue (cap q) (elems q1) ops)" if "ok q1" "cap q1 = cap q" for q1
    using Cons.IH [OF that(1)] Cons.prems(2) that(2) by auto
  show ?case
  proof (cases c)
    case (Put data len)
    then have "unat len \<le> length data" using Cons.prems(2) by simp
    from put [OF Cons.prems(1) this] obtain n q1
      where q1: "put q data len = Some (n, q1)" "unat n = min (unat len) (cap q - length (elems q))" "ok q1" "cap q1 = cap q"
        "elems q1 = elems q @ take (unat n) data"
      by blast
    from IH [OF q1(3,4)] show ?thesis using q1(1,2,5) by (auto simp: Put Let_def split: prod.split)
  next
    case (Get buf len)
    then have "unat len \<le> length buf" using Cons.prems(2) by simp
    from get [OF Cons.prems(1) this] obtain n q1
      where q1: "get q buf len = Some (n, take (unat n) (elems q) @ drop (unat n) buf, q1)"
        "unat n = min (unat len) (length (elems q))" "ok q1" "cap q1 = cap q" "elems q1 = drop (unat n) (elems q)"
      by blast
    from IH [OF q1(3,4)] show ?thesis using q1(1,2,5) by (auto simp: Get Let_def split: prod.split)
  next
    case Reset
    have "ok (reset q)" "cap (reset q) = cap q" "elems (reset q) = []" using reset [OF Cons.prems(1)] by simp_all
    with IH [of "reset q"] show ?thesis by (auto simp: Reset split: prod.split)
  qed
qed simp

end

interpretation raw_fifo: byte_queue kfifo_ok "\<lambda>f. unat (kf_size f)" contents raw_kfifo_put raw_kfifo_get raw_kfifo_reset
proof unfold_locales
  fix q :: kfifo and len :: u32 and data :: bytes assume a: "kfifo_ok q" "unat len \<le> length data"
  show "\<exists>n q'. raw_kfifo_put q data len = Some (n, q') \<and>
      unat n = min (unat len) (unat (kf_size q) - length (contents q)) \<and>
      kfifo_ok q' \<and> unat (kf_size q') = unat (kf_size q) \<and> contents q' = contents q @ take (unat n) data"
    using raw_kfifo_put_spec [OF a] by (elim exE conjE) simp
  show "\<exists>n q'. raw_kfifo_get q data len = Some (n, take (unat n) (contents q) @ drop (unat n) data, q') \<and>
      unat n = min (unat len) (length (contents q)) \<and> kfifo_ok q' \<and> unat (kf_size q') = unat (kf_size q) \<and>
      contents q' = drop (unat n) (contents q)"
    using raw_kfifo_get_spec [OF a] by (elim exE conjE) simp
qed (simp add: raw_kfifo_reset_def kfifo_ok_def contents_def used_def)

interpretation locked_fifo: byte_queue kfifo_ok "\<lambda>f. unat (kf_size f)" contents kfifo_put kfifo_get kfifo_reset
proof unfold_locales
  fix q :: kfifo and len :: u32 and data :: bytes assume a: "kfifo_ok q" "unat len \<le> length data"
  show "\<exists>n q'. kfifo_put q data len = Some (n, q') \<and>
      unat n = min (unat len) (unat (kf_size q) - length (contents q)) \<and>
      kfifo_ok q' \<and> unat (kf_size q') = unat (kf_size q) \<and> contents q' = contents q @ take (unat n) data"
    unfolding kfifo_put_def by (rule raw_fifo.put [OF a])
  show "\<exists>n q'. kfifo_get q data len = Some (n, take (unat n) (contents q) @ drop (unat n) data, q') \<and>
      unat n = min (unat len) (length (contents q)) \<and> kfifo_ok q' \<and> unat (kf_size q') = unat (kf_size q) \<and>
      contents q' = drop (unat n) (contents q)"
    using kfifo_get_spec [OF a] by (elim exE conjE) simp
qed (simp add: kfifo_reset_def raw_fifo.reset)

text \<open>
  C16: Any sequence of puts, gets and resets on a well-formed FIFO, whose length arguments do not
  exceed the caller's buffers, completes inside its arrays and answers exactly as a bounded queue of
  bytes does: every put accepts as many bytes as fit, every get delivers as many of the oldest bytes
  as there are and leaves the rest of the caller's buffer alone, a reset empties the queue, and the
  bytes stored at the end are those of the queue, also when the 32-bit counters wrap. The locked
  functions, which rewind both counters when the FIFO runs empty, and the unlocked ones give the same
  answers.
\<close>

theorem kfifo_fifo_order:
  assumes "kfifo_ok f" "\<forall>c \<in> set ops. kop_ok c" "bounded_queue (unat (kf_size f)) (contents f) ops = (answers, stored)"
  shows "(\<exists>f'. queue_run kfifo_put kfifo_get kfifo_reset f ops = Some (answers, f') \<and> kfifo_ok f' \<and>
            kf_size f' = kf_size f \<and> contents f' = stored) \<and>
         (\<exists>f'. queue_run raw_kfifo_put raw_kfifo_get raw_kfifo_reset f ops = Some (answers, f') \<and> kfifo_ok f' \<and>
            kf_size f' = kf_size f \<and> contents f' = stored)"
  using locked_fifo.run_refines [OF assms(1,2)] raw_fifo.run_refines [OF assms(1,2)] assms(3)
  by (auto simp: word_unat_eq_iff)

theorem kfifo_fifo_order_witness:
  "\<exists>f'. queue_run kfifo_put kfifo_get kfifo_reset \<lparr>kf_buffer = [1, 2, 3, 4], kf_size = 4, kf_in = 1, kf_out = -2\<rparr>
     [Put [5, 6] 2, Get [0, 0] 2, Reset, Put [7] 1] = Some ([(1, []), (2, [3, 4]), (0, []), (1, [])], f') \<and> contents f' = [7]"
proof -
  let ?f = "\<lparr>kf_buffer = [1, 2, 3, 4], kf_size = 4, kf_in = 1, kf_out = -2\<rparr> :: kfifo"
  have ok: "kfifo_ok ?f" unfolding kfifo_ok_def by (intro conjI exI [of _ 2]) simp_all
  have "contents ?f = [3, 4, 1]" by (simp add: contents_def used_def upt_rec)
  then have "bounded_queue (unat (kf_size ?f)) (contents ?f) [Put [5, 6] 2, Get [0, 0] 2, Reset, Put [7] 1] =
      ([(1, []), (2, [3, 4]), (0, []), (1, [])], [7])" by simp
  from kfifo_fifo_order [OF ok _ this] show ?thesis by auto
qed

text \<open>
  On a well-formed FIFO \<open>kfifo_put\<close> stores as many bytes as fit and returns that number, and
  \<open>kfifo_get\<close> delivers as many as are there, leaving the rest of the caller's buffer alone.
\<close>

theorem kfifo_put_get_counts:
  assumes "kfifo_ok f" "unat len \<le> length data"
  shows "(\<exists>n f'. kfifo_put f data len = Some (n, f') \<and>
            unat n = min (unat len) (unat (kf_size f) - length (contents f)) \<and>
            contents f' = contents f @ take (unat n) data \<and> kfifo_len f' = kfifo_len f + n) \<and>
         (\<exists>n f'. kfifo_get f data len = Some (n, take (unat n) (contents f) @ drop (unat n) data, f') \<and>
            unat n = min (unat len) (length (contents f)) \<and> contents f' = drop (unat n) (contents f))"
proof
  obtain n f' where p: "raw_kfifo_put f data len = Some (n, f')" "unat n = min (unat len) (unat (kf_size f) - used f)"
      "contents f' = contents f @ take (unat n) data"
    using raw_kfifo_put_spec [OF assms] by blast
  have "used f' = used f + unat n" using arg_cong [OF p(3), of length] p(2) assms(2) by simp
  then have "kfifo_len f' = kfifo_len f + n"
    using unat_lt [of "kf_in f' - kf_out f'"]
    by (simp add: kfifo_len_def raw_kfifo_len_def used_def word_unat_eq_iff unat_word_ariths)
  then show "\<exists>n f'. kfifo_put f data len = Some (n, f') \<and>
      unat n = min (unat len) (unat (kf_size f) - length (contents f)) \<and>
      contents f' = contents f @ take (unat n) data \<and> kfifo_len f' = kfifo_len f + n"
    using p by (auto simp: kfifo_put_def)
qed (use kfifo_get_spec [OF assms] in auto)

theorem kfifo_put_get_counts_witness:
  "\<exists>n f'. kfifo_put \<lparr>kf_buffer = [1, 2], kf_size = 2, kf_in = 0, kf_out = -1\<rparr> [7, 8, 9] 3 = Some (n, f') \<and> unat n = 1"
proof -
  let ?f = "\<lparr>kf_buffer = [1, 2], kf_size = 2, kf_in = 0, kf_out = -1\<rparr> :: kfifo"
  have ok: "kfifo_ok ?f" unfolding kfifo_ok_def by (intro conjI exI [of _ 1]) simp_all
  have "length (contents ?f) = 1" by (simp add: used_def)
  then show ?thesis using kfifo_put_get_counts [OF ok, of 3 "[7, 8, 9]"] by auto
qed

section \<open>Creation\<close>

lemma is_power_of_2_u32: "is_power_of_2 (ucast (n :: u32)) \<longleftrightarrow> (\<exists>k<32. n = 2 ^ k)"
proof
  assume "is_power_of_2 (ucast n)"
  then obtain k where k: "k < 64" "(ucast n :: ulong) = 2 ^ k" by (auto simp: is_power_of_2_iff)
  have "unat (ucast n :: ulong) = unat n"
    using unat_lt [of n] by (simp add: unsigned_ucast_eq take_bit_nat_eq_self)
  then have u: "unat n = 2 ^ k" using k by (simp add: unat_exp)
  then have "(2 :: nat) ^ k < 2 ^ 32" using unat_lt [of n] by simp
  then have k32: "k < 32" by (rule power_less_imp_less_exp [rotated]) simp
  then have "n = 2 ^ k" using u by (simp add: word_unat_eq_iff unat_exp)
  then show "\<exists>k<32. n = 2 ^ k" using k32 by blast
next
  assume "\<exists>k<32. n = 2 ^ k"
  then obtain k where k: "k < 32" "n = 2 ^ k" by blast
  have "(ucast n :: ulong) = 2 ^ k"
    using k by (simp add: word_unat_eq_iff unat_exp unsigned_ucast_eq take_bit_nat_eq_self power_strict_increasing)
  then show "is_power_of_2 (ucast n)" using k(1) by (auto simp: is_power_of_2_iff intro!: exI [of _ k])
qed

lemma init_ok:
  assumes "k < 32" "length b = 2 ^ k"
  shows "kfifo_init True b (2 ^ k) = Some (Inr \<lparr>kf_buffer = b, kf_size = 2 ^ k, kf_in = 0, kf_out = 0\<rparr>)"
    "kfifo_ok \<lparr>kf_buffer = b, kf_size = 2 ^ k, kf_in = 0, kf_out = 0\<rparr>"
    "contents \<lparr>kf_buffer = b, kf_size = 2 ^ k, kf_in = 0, kf_out = 0\<rparr> = []"
  using assms by (auto simp: kfifo_init_def is_power_of_2_u32 kfifo_ok_def contents_def used_def unat_exp)

text \<open>
  For a size between 1 and \<open>2 ^ 31\<close>, and an allocator whose buffers have the length asked for,
  \<open>kfifo_alloc\<close> gives an empty well-formed FIFO whose capacity is the least power of two not below
  the size, or \<open>-ENOMEM\<close> exactly when one of the two allocations fails.
\<close>

theorem kfifo_alloc_correct:
  assumes sz: "0 < unat sz" "unat sz \<le> 2 ^ 31"
    and kmalloc: "\<And>n b. kmalloc n = Some b \<Longrightarrow> length b = unat n"
  shows "\<exists>k<32. unat sz \<le> 2 ^ k \<and> (\<forall>j. unat sz \<le> 2 ^ j \<longrightarrow> k \<le> j) \<and>
     (if ok \<and> kmalloc (2 ^ k) \<noteq> None
      then \<exists>f. kfifo_alloc kmalloc ok sz = Some (Inr f) \<and> kfifo_ok f \<and> unat (kf_size f) = 2 ^ k \<and> contents f = []
      else kfifo_alloc kmalloc ok sz = Some (Inl (- ENOMEM)))"
proof -
  have uc: "unat (ucast sz :: ulong) = unat sz"
    using unat_lt [of sz] by (simp add: unsigned_ucast_eq take_bit_nat_eq_self)
  obtain k where k: "k < 64" "raw_roundup_pow_of_two (ucast sz) = Some (2 ^ k)" "unat sz \<le> 2 ^ k"
      "\<forall>j. unat sz \<le> 2 ^ j \<longrightarrow> k \<le> j"
    using raw_roundup_pow_of_two_spec [of "ucast sz"] sz unfolding uc by auto
  have "k \<le> 31" using k(4) sz(2) by blast
  then have k32: "k < 32" by simp
  define n where "n = (2 ^ k :: u32)"
  have rounded: "(if \<not> is_power_of_2 (ucast sz)
                 then if 0x80000000 < sz then None
                      else do { n \<leftarrow> raw_roundup_pow_of_two (ucast sz); Some (ucast n) }
                 else Some sz) = Some n"
  proof (cases "is_power_of_2 (ucast sz)")
    case True
    then obtain j where j: "j < 32" "sz = 2 ^ j" by (auto simp: is_power_of_2_u32)
    then have "k \<le> j" "j \<le> k" using k(3,4) by (auto simp: unat_exp)
    then show ?thesis using True j by (simp add: n_def)
  next
    case False
    have "\<not> 0x80000000 < sz" using sz(2) by (simp add: word_less_nat_alt)
    moreover have "(ucast (2 ^ k :: ulong) :: u32) = n"
      using k32 by (simp add: n_def word_unat_eq_iff unat_exp unsigned_ucast_eq take_bit_nat_eq_self power_strict_increasing)
    ultimately show ?thesis using False k(2) by simp
  qed
  have un: "unat n = 2 ^ k" using k32 by (simp add: n_def unat_exp)
  have "if ok \<and> kmalloc n \<noteq> None
      then \<exists>f. kfifo_alloc kmalloc ok sz = Some (Inr f) \<and> kfifo_ok f \<and> unat (kf_size f) = 2 ^ k \<and> contents f = []
      else kfifo_alloc kmalloc ok sz = Some (Inl (- ENOMEM))"
  proof (cases "kmalloc n")
    case None
    then show ?thesis unfolding kfifo_alloc_def rounded by simp
  next
    case (Some b)
    have "length b = 2 ^ k" using kmalloc [OF Some] un by simp
    from init_ok [OF k32 this] show ?thesis
      unfolding kfifo_alloc_def rounded using Some un k32
      by (auto simp: n_def kfifo_init_def is_power_of_2_u32)
  qed
  then show ?thesis using k(3,4) k32 unfolding n_def by blast
qed

theorem kfifo_alloc_correct_witness:
  "\<exists>f. kfifo_alloc (\<lambda>n. Some (replicate (unat n) 0)) True 5 = Some (Inr f) \<and> unat (kf_size f) = 8 \<and> contents f = []"
proof -
  obtain k where k: "5 \<le> (2 :: nat) ^ k" "\<forall>j. 5 \<le> (2 :: nat) ^ j \<longrightarrow> k \<le> j"
      "\<exists>f. kfifo_alloc (\<lambda>n. Some (replicate (unat n) 0)) True 5 = Some (Inr f) \<and> kfifo_ok f \<and>
           unat (kf_size f) = 2 ^ k \<and> contents f = []"
    using kfifo_alloc_correct [of 5 "\<lambda>n. Some (replicate (unat n) 0)" True] by auto
  have "k \<le> 3" using k(2) [rule_format, of 3] by simp
  moreover have "\<not> k \<le> 2" using k(1) power_increasing [of k 2 "2 :: nat"] by auto
  ultimately have "k = 3" by simp
  then show ?thesis using k(3) by auto
qed

end
