(* ===== verification/Kfifo_Concurrent.thy ===== *)
theory Kfifo_Concurrent
  imports Kfifo "HOL-Library.Sublist"
begin

text \<open>
  One reader and one writer on a \<open>kfifo\<close> without a lock, as the comments above \<open>__kfifo_put\<close> and
  \<open>__kfifo_get\<close> allow. Each call is cut into the steps between its memory barriers: sample the other
  side's counter, copy byte by byte, publish the own counter. The barriers order these steps, so
  steps of the two sides interleave freely but each side's steps run in program order.

  \<open>sp_sent\<close> and \<open>sp_recv\<close> are histories: the bytes whose \<open>in\<close> has been published and the bytes whose
  \<open>out\<close> has been published.
\<close>

section \<open>The interleaving semantics\<close>

datatype writer = WIdle | WCopy bytes u32 nat

datatype reader = RIdle | RCopy u32 bytes

record spsc =
  sp_fifo :: kfifo
  sp_w :: writer
  sp_r :: reader
  sp_sent :: bytes
  sp_recv :: bytes

definition put_index :: "kfifo \<Rightarrow> nat \<Rightarrow> nat" where
  "put_index f j = unat ((kf_in f + of_nat j) AND (kf_size f - 1))"

definition get_index :: "kfifo \<Rightarrow> nat \<Rightarrow> nat" where
  "get_index f j = unat ((kf_out f + of_nat j) AND (kf_size f - 1))"

inductive spsc_step :: "spsc \<Rightarrow> spsc \<Rightarrow> bool" where
  w_sample: "sp_w s = WIdle \<Longrightarrow> unat len \<le> length data \<Longrightarrow>
    spsc_step s (s \<lparr>sp_w := WCopy data (min len (kf_size (sp_fifo s) - kf_in (sp_fifo s) + kf_out (sp_fifo s))) 0\<rparr>)"
| w_copy: "sp_w s = WCopy data n j \<Longrightarrow> j < unat n \<Longrightarrow> wr (kf_buffer (sp_fifo s)) (put_index (sp_fifo s) j) (data ! j) = Some b \<Longrightarrow>
    spsc_step s (s \<lparr>sp_fifo := (sp_fifo s) \<lparr>kf_buffer := b\<rparr>, sp_w := WCopy data n (Suc j)\<rparr>)"
| w_publish: "sp_w s = WCopy data n j \<Longrightarrow> j = unat n \<Longrightarrow>
    spsc_step s (s \<lparr>sp_fifo := (sp_fifo s) \<lparr>kf_in := kf_in (sp_fifo s) + n\<rparr>, sp_w := WIdle,
                    sp_sent := sp_sent s @ take (unat n) data\<rparr>)"
| r_sample: "sp_r s = RIdle \<Longrightarrow>
    spsc_step s (s \<lparr>sp_r := RCopy (min len (kf_in (sp_fifo s) - kf_out (sp_fifo s))) []\<rparr>)"
| r_copy: "sp_r s = RCopy n got \<Longrightarrow> length got < unat n \<Longrightarrow>
    rd (kf_buffer (sp_fifo s)) (get_index (sp_fifo s) (length got)) = Some x \<Longrightarrow>
    spsc_step s (s \<lparr>sp_r := RCopy n (got @ [x])\<rparr>)"
| r_publish: "sp_r s = RCopy n got \<Longrightarrow> length got = unat n \<Longrightarrow>
    spsc_step s (s \<lparr>sp_fifo := (sp_fifo s) \<lparr>kf_out := kf_out (sp_fifo s) + n\<rparr>, sp_r := RIdle,
                    sp_recv := sp_recv s @ got\<rparr>)"

section \<open>The invariant\<close>

definition writer_ok :: "spsc \<Rightarrow> bool" where
  "writer_ok s = (case sp_w s of WIdle \<Rightarrow> True
    | WCopy data n j \<Rightarrow> j \<le> unat n \<and> unat n \<le> length data \<and> used (sp_fifo s) + unat n \<le> unat (kf_size (sp_fifo s)) \<and>
        (\<forall>i<j. kf_buffer (sp_fifo s) ! ((unat (kf_in (sp_fifo s)) + i) mod unat (kf_size (sp_fifo s))) = data ! i))"

definition reader_ok :: "spsc \<Rightarrow> bool" where
  "reader_ok s = (case sp_r s of RIdle \<Rightarrow> True
    | RCopy n got \<Rightarrow> length got \<le> unat n \<and> unat n \<le> used (sp_fifo s) \<and> got = take (length got) (contents (sp_fifo s)))"

definition spsc_inv :: "spsc \<Rightarrow> bool" where
  "spsc_inv s \<longleftrightarrow> kfifo_ok (sp_fifo s) \<and> writer_ok s \<and> reader_ok s \<and> sp_recv s @ contents (sp_fifo s) = sp_sent s"

lemma put_index:
  assumes "kfifo_ok f"
  shows "put_index f j = (unat (kf_in f) + j) mod unat (kf_size f)"
    "get_index f j = (unat (kf_out f) + j) mod unat (kf_size f)"
proof -
  have "unat (v + of_nat j) mod unat (kf_size f) = (unat v + j) mod unat (kf_size f)" for v :: u32
  proof -
    have "unat (of_nat j :: u32) mod unat (kf_size f) = j mod unat (kf_size f)"
      using mod_mod_cancel [OF size_facts(3) [OF assms], of j] by (simp add: unat_of_nat)
    then show ?thesis unfolding size_facts(4) [OF assms] by (intro mod_add_cong) simp_all
  qed
  then show "put_index f j = (unat (kf_in f) + j) mod unat (kf_size f)"
    "get_index f j = (unat (kf_out f) + j) mod unat (kf_size f)"
    by (simp_all add: put_index_def get_index_def size_facts(1) [OF assms])
qed

text \<open>The writer's positions past \<open>in\<close> are not among those the reader may look at.\<close>

lemma write_elsewhere:
  assumes ok: "kfifo_ok f" and fit: "used f + j < unat (kf_size f)" and i: "i < used f"
  shows "put_index f j \<noteq> (unat (kf_out f) + i) mod unat (kf_size f)"
proof -
  have "put_index f j = (unat (kf_out f) + (used f + j)) mod unat (kf_size f)"
    using ring_shift [OF in_pos [OF ok], of j] by (simp add: put_index [OF ok] add.assoc)
  then show ?thesis
    using ring_pos_inj [of "used f + j" "unat (kf_size f)" i "unat (kf_out f)"] fit i by auto
qed

lemma put_index_less: "kfifo_ok f \<Longrightarrow> put_index f j < length (kf_buffer f)"
  using size_facts(2) [of f] by (simp add: put_index) (simp add: kfifo_ok_def)

lemma copy_keeps:
  assumes ok: "kfifo_ok f" and fit: "used f + j < unat (kf_size f)"
  shows "kfifo_ok (f \<lparr>kf_buffer := (kf_buffer f)[put_index f j := x]\<rparr>)"
    "contents (f \<lparr>kf_buffer := (kf_buffer f)[put_index f j := x]\<rparr>) = contents f"
    "used (f \<lparr>kf_buffer := (kf_buffer f)[put_index f j := x]\<rparr>) = used f"
proof -
  show "kfifo_ok (f \<lparr>kf_buffer := (kf_buffer f)[put_index f j := x]\<rparr>)" using ok by (simp add: kfifo_ok_def)
  show u: "used (f \<lparr>kf_buffer := (kf_buffer f)[put_index f j := x]\<rparr>) = used f" by (simp add: used_def)
  show "contents (f \<lparr>kf_buffer := (kf_buffer f)[put_index f j := x]\<rparr>) = contents f"
    using write_elsewhere [OF ok fit] u unfolding contents_def by (auto intro!: map_cong)
qed

lemma w_copy_inv:
  assumes inv: "spsc_inv s" and w: "sp_w s = WCopy data n j" "j < unat n"
    and b: "wr (kf_buffer (sp_fifo s)) (put_index (sp_fifo s) j) (data ! j) = Some b"
  shows "spsc_inv (s \<lparr>sp_fifo := (sp_fifo s) \<lparr>kf_buffer := b\<rparr>, sp_w := WCopy data n (Suc j)\<rparr>)"
proof -
  let ?f = "sp_fifo s" and ?N = "unat (kf_size (sp_fifo s))"
  have ok: "kfifo_ok ?f" and wo: "unat n \<le> length data" "used ?f + unat n \<le> ?N"
    "\<forall>i<j. kf_buffer ?f ! ((unat (kf_in ?f) + i) mod ?N) = data ! i"
    using inv w by (auto simp: spsc_inv_def writer_ok_def)
  have beq: "b = (kf_buffer ?f)[put_index ?f j := data ! j]" using b by simp
  have fit: "used ?f + j < ?N" using wo(2) w(2) by simp
  note keep = copy_keeps [OF ok fit, of "data ! j"]
  have "b ! ((unat (kf_in ?f) + i) mod ?N) = data ! i" if "i < Suc j" for i
  proof (cases "i = j")
    case True
    then show ?thesis using put_index_less [OF ok, of j] unfolding beq by (simp add: put_index(1) [OF ok])
  next
    case False
    then have "i < j" "put_index ?f j \<noteq> (unat (kf_in ?f) + i) mod ?N"
      using that fit ring_pos_inj [of j ?N i "unat (kf_in ?f)"] by (auto simp: put_index(1) [OF ok])
    then show ?thesis using wo(3) unfolding beq by simp
  qed
  then have "writer_ok (s \<lparr>sp_fifo := ?f \<lparr>kf_buffer := b\<rparr>, sp_w := WCopy data n (Suc j)\<rparr>)"
    using wo w(2) keep(3) unfolding writer_ok_def beq by simp
  then show ?thesis
    using inv keep unfolding spsc_inv_def reader_ok_def beq by (auto split: reader.splits)
qed

lemma w_publish_inv:
  assumes inv: "spsc_inv s" and w: "sp_w s = WCopy data n j" "j = unat n"
  shows "spsc_inv (s \<lparr>sp_fifo := (sp_fifo s) \<lparr>kf_in := kf_in (sp_fifo s) + n\<rparr>, sp_w := WIdle,
                    sp_sent := sp_sent s @ take (unat n) data\<rparr>)"
proof -
  let ?f = "sp_fifo s" and ?N = "unat (kf_size (sp_fifo s))"
  let ?g = "?f \<lparr>kf_in := kf_in ?f + n\<rparr>"
  have ok: "kfifo_ok ?f" and wo: "unat n \<le> length data" "used ?f + unat n \<le> ?N"
    "\<forall>i<unat n. kf_buffer ?f ! ((unat (kf_in ?f) + i) mod ?N) = data ! i"
    using inv w by (auto simp: spsc_inv_def writer_ok_def)
  have same: "?f \<lparr>kf_buffer := kf_buffer ?f, kf_in := kf_in ?f + n\<rparr> = ?g" by simp
  have bl: "length (kf_buffer ?f) = ?N" using ok by (simp add: kfifo_ok_def)
  have "kfifo_ok ?g" "contents ?g = contents ?f @ take (unat n) data"
    using publish_in [OF ok wo(2,1) bl] wo(3) unfolding same by (auto simp: contents_def)
  moreover have "used ?g = used ?f + unat n" using used_add [OF ok wo(2)] by (simp add: used_def)
  ultimately show ?thesis
    using inv by (auto simp: spsc_inv_def writer_ok_def reader_ok_def split: reader.splits)
qed

lemma r_copy_inv:
  assumes inv: "spsc_inv s" and r: "sp_r s = RCopy n got" "length got < unat n"
    and x: "rd (kf_buffer (sp_fifo s)) (get_index (sp_fifo s) (length got)) = Some x"
  shows "spsc_inv (s \<lparr>sp_r := RCopy n (got @ [x])\<rparr>)"
proof -
  let ?f = "sp_fifo s"
  have ok: "kfifo_ok ?f" and ro: "unat n \<le> used ?f" "got = take (length got) (contents ?f)"
    using inv r by (auto simp: spsc_inv_def reader_ok_def)
  have "x = contents ?f ! length got"
    using x r(2) ro(1) by (simp add: contents_def put_index(2) [OF ok])
  then have "got @ [x] = take (length (got @ [x])) (contents ?f)"
    using ro r(2) by (simp add: take_Suc_conv_app_nth)
  then show ?thesis
    using inv r(2) ro(1) by (simp add: spsc_inv_def writer_ok_def reader_ok_def split: writer.splits)
qed

lemma r_publish_inv:
  assumes inv: "spsc_inv s" and r: "sp_r s = RCopy n got" "length got = unat n"
  shows "spsc_inv (s \<lparr>sp_fifo := (sp_fifo s) \<lparr>kf_out := kf_out (sp_fifo s) + n\<rparr>, sp_r := RIdle,
                    sp_recv := sp_recv s @ got\<rparr>)"
proof -
  let ?f = "sp_fifo s"
  have ok: "kfifo_ok ?f" and ro: "unat n \<le> used ?f" "got = take (unat n) (contents ?f)"
    using inv r by (auto simp: spsc_inv_def reader_ok_def)
  let ?g = "?f \<lparr>kf_out := kf_out ?f + n\<rparr>"
  have g: "kfifo_ok ?g" "contents ?g = drop (unat n) (contents ?f)" using publish_out [OF ok ro(1)] .
  have "used ?g = length (contents ?g)" by simp
  then have "used ?g = used ?f - unat n" unfolding g(2) by simp
  then show ?thesis
    using inv g ro(2) by (auto simp: spsc_inv_def writer_ok_def reader_ok_def split: writer.splits)
qed

lemma spsc_step_inv: "spsc_step s t \<Longrightarrow> spsc_inv s \<Longrightarrow> spsc_inv t"
proof (induction rule: spsc_step.induct)
  case (w_sample s len data)
  have ok: "kfifo_ok (sp_fifo s)" using w_sample by (simp add: spsc_inv_def)
  show ?case using w_sample free_space [OF ok]
    by (auto simp: spsc_inv_def writer_ok_def reader_ok_def unat_min split: reader.splits)
next
  case (r_sample s len)
  then show ?case by (auto simp: spsc_inv_def writer_ok_def reader_ok_def unat_min used_def split: writer.splits)
qed (use w_copy_inv w_publish_inv r_copy_inv r_publish_inv in blast)+

definition spsc_init :: "kfifo \<Rightarrow> spsc" where
  "spsc_init f = \<lparr>sp_fifo = f, sp_w = WIdle, sp_r = RIdle, sp_sent = contents f, sp_recv = []\<rparr>"

lemma spsc_reach_inv: "spsc_step\<^sup>*\<^sup>* (spsc_init f) s \<Longrightarrow> kfifo_ok f \<Longrightarrow> spsc_inv s"
  by (induction rule: rtranclp_induct)
     (auto simp: spsc_init_def spsc_inv_def writer_ok_def reader_ok_def dest: spsc_step_inv)

text \<open>
  C1: With one reader and one writer and no lock, in every interleaving of their steps, the bytes
  received so far followed by the bytes in the FIFO are exactly the bytes sent (the initial
  contents included): the reader sees a prefix of what was sent, the FIFO stays well-formed, and
  neither side is ever blocked in the middle of a copy by an access outside the buffer.
\<close>

theorem kfifo_spsc_safe:
  assumes "kfifo_ok f" "spsc_step\<^sup>*\<^sup>* (spsc_init f) s"
  shows "sp_recv s @ contents (sp_fifo s) = sp_sent s \<and> prefix (sp_recv s) (sp_sent s) \<and> kfifo_ok (sp_fifo s) \<and>
         (\<forall>data n j. sp_w s = WCopy data n j \<longrightarrow> (\<exists>t. spsc_step s t \<and> sp_w t \<noteq> sp_w s)) \<and>
         (\<forall>n got. sp_r s = RCopy n got \<longrightarrow> (\<exists>t. spsc_step s t \<and> sp_r t \<noteq> sp_r s))"
proof (intro conjI allI impI)
  have inv: "spsc_inv s" using spsc_reach_inv [OF assms(2,1)] .
  then have ok: "kfifo_ok (sp_fifo s)" and eq: "sp_recv s @ contents (sp_fifo s) = sp_sent s" by (auto simp: spsc_inv_def)
  show "kfifo_ok (sp_fifo s)" "sp_recv s @ contents (sp_fifo s) = sp_sent s" using ok eq .
  show "prefix (sp_recv s) (sp_sent s)" using eq [symmetric] by (rule prefixI)
  have g: "get_index (sp_fifo s) j < length (kf_buffer (sp_fifo s))" for j
    using size_facts(2) [OF ok] ok by (simp add: put_index(2) [OF ok]) (simp add: kfifo_ok_def)
  show "\<exists>t. spsc_step s t \<and> sp_w t \<noteq> sp_w s" if w: "sp_w s = WCopy data n j" for data n j
  proof (cases "j < unat n")
    case True
    then show ?thesis using spsc_step.w_copy [OF w True wr_in [OF put_index_less [OF ok]]] w by (intro exI conjI) auto
  next
    case False
    then have "j = unat n" using inv w by (simp add: spsc_inv_def writer_ok_def)
    then show ?thesis using spsc_step.w_publish [OF w] w by (intro exI conjI) auto
  qed
  show "\<exists>t. spsc_step s t \<and> sp_r t \<noteq> sp_r s" if r: "sp_r s = RCopy n got" for n got
  proof (cases "length got < unat n")
    case True
    then show ?thesis using spsc_step.r_copy [OF r True rd_in [OF g]] r by (intro exI conjI) auto
  next
    case False
    then have "length got = unat n" using inv r by (simp add: spsc_inv_def reader_ok_def)
    then show ?thesis using spsc_step.r_publish [OF r] r by (intro exI conjI) auto
  qed
qed

theorem kfifo_spsc_safe_witness:
  "\<exists>f s. kfifo_ok f \<and> spsc_step\<^sup>*\<^sup>* (spsc_init f) s \<and> sp_w s = WCopy [7] 1 0 \<and> sp_recv s @ contents (sp_fifo s) = sp_sent s"
proof -
  let ?f = "\<lparr>kf_buffer = [0, 0], kf_size = 2, kf_in = 0, kf_out = 0\<rparr> :: kfifo"
  have ok: "kfifo_ok ?f" unfolding kfifo_ok_def by (intro conjI exI [of _ 1]) simp_all
  let ?s = "(spsc_init ?f) \<lparr>sp_w := WCopy [7] (min 1 (2 - 0 + 0)) 0\<rparr>"
  have "spsc_step (spsc_init ?f) ?s"
    using spsc_step.w_sample [of "spsc_init ?f" 1 "[7]"] by (simp add: spsc_init_def)
  then have star: "spsc_step\<^sup>*\<^sup>* (spsc_init ?f) ?s" by (rule r_into_rtranclp)
  have "sp_w ?s = WCopy [7] 1 0" by (simp add: min_def)
  then show ?thesis using ok star kfifo_spsc_safe [OF ok star] by blast
qed

section \<open>Agreement with the sequential operation\<close>

text \<open>
  The writer's steps, run without interruption, are the call of \<open>__kfifo_put\<close>, and the reader's are
  the call of \<open>__kfifo_get\<close>: the byte positions \<open>put_index\<close> and \<open>get_index\<close> are those of the two
  block copies.
\<close>

lemma w_copy_run:
  assumes "spsc_inv s" "sp_w s = WCopy data n j"
  shows "\<exists>b. spsc_step\<^sup>*\<^sup>* s (s \<lparr>sp_fifo := (sp_fifo s) \<lparr>kf_buffer := b\<rparr>, sp_w := WCopy data n (unat n)\<rparr>)"
  using assms
proof (induction "unat n - j" arbitrary: s j)
  case 0
  then have "j = unat n" by (simp add: spsc_inv_def writer_ok_def)
  then have "s \<lparr>sp_fifo := (sp_fifo s) \<lparr>kf_buffer := kf_buffer (sp_fifo s)\<rparr>, sp_w := WCopy data n (unat n)\<rparr> = s"
    using 0 by simp
  then show ?case by (metis rtranclp.rtrancl_refl)
next
  case (Suc d)
  have ok: "kfifo_ok (sp_fifo s)" using Suc.prems by (simp add: spsc_inv_def)
  have lt: "j < unat n" using Suc.hyps(2) by linarith
  let ?b = "(kf_buffer (sp_fifo s))[put_index (sp_fifo s) j := data ! j]"
  let ?t = "s \<lparr>sp_fifo := (sp_fifo s) \<lparr>kf_buffer := ?b\<rparr>, sp_w := WCopy data n (Suc j)\<rparr>"
  note w = wr_in [OF put_index_less [OF ok], of j "data ! j"]
  have step: "spsc_step s ?t" using spsc_step.w_copy [OF Suc.prems(2) lt w] .
  have "d = unat n - Suc j" using Suc.hyps(2) by linarith
  from Suc.hyps(1) [OF this w_copy_inv [OF Suc.prems lt w]] obtain b
    where "spsc_step\<^sup>*\<^sup>* ?t (?t \<lparr>sp_fifo := (sp_fifo ?t) \<lparr>kf_buffer := b\<rparr>, sp_w := WCopy data n (unat n)\<rparr>)" by auto
  then have "spsc_step\<^sup>*\<^sup>* s (s \<lparr>sp_fifo := (sp_fifo s) \<lparr>kf_buffer := b\<rparr>, sp_w := WCopy data n (unat n)\<rparr>)"
    using step by (simp add: converse_rtranclp_into_rtranclp)
  then show ?case by blast
qed

lemma spsc_put_agrees:
  assumes inv: "spsc_inv s" and idle: "sp_w s = WIdle" and len: "unat len \<le> length data"
  shows "\<exists>t n f'. spsc_step\<^sup>*\<^sup>* s t \<and> sp_w t = WIdle \<and> raw_kfifo_put (sp_fifo s) data len = Some (n, f') \<and>
           contents (sp_fifo t) = contents f' \<and> sp_sent t = sp_sent s @ take (unat n) data \<and> sp_recv t = sp_recv s"
proof -
  have ok: "kfifo_ok (sp_fifo s)" using inv by (simp add: spsc_inv_def)
  define n where "n = min len (kf_size (sp_fifo s) - kf_in (sp_fifo s) + kf_out (sp_fifo s))"
  define s1 where "s1 = s \<lparr>sp_w := WCopy data n 0\<rparr>"
  have 1: "spsc_step s s1" unfolding s1_def n_def using idle len by (rule spsc_step.w_sample)
  obtain b where 2: "spsc_step\<^sup>*\<^sup>* s1 (s1 \<lparr>sp_fifo := (sp_fifo s1) \<lparr>kf_buffer := b\<rparr>, sp_w := WCopy data n (unat n)\<rparr>)"
    using w_copy_run [OF spsc_step_inv [OF 1 inv], of data n 0] by (auto simp: s1_def)
  let ?s2 = "s1 \<lparr>sp_fifo := (sp_fifo s1) \<lparr>kf_buffer := b\<rparr>, sp_w := WCopy data n (unat n)\<rparr>"
  let ?t = "?s2 \<lparr>sp_fifo := (sp_fifo ?s2) \<lparr>kf_in := kf_in (sp_fifo ?s2) + n\<rparr>, sp_w := WIdle,
                    sp_sent := sp_sent ?s2 @ take (unat n) data\<rparr>"
  have 3: "spsc_step ?s2 ?t" by (rule spsc_step.w_publish) simp_all
  have run: "spsc_step\<^sup>*\<^sup>* s ?t" using 1 2 3 by (meson converse_rtranclp_into_rtranclp rtranclp.rtrancl_into_rtrancl)
  have reach: "spsc_step\<^sup>*\<^sup>* u v \<Longrightarrow> spsc_inv u \<Longrightarrow> spsc_inv v" for u v
    by (induction rule: rtranclp_induct) (auto dest: spsc_step_inv)
  have "sp_recv ?t @ contents (sp_fifo ?t) = sp_sent ?t" using reach [OF run inv] by (simp only: spsc_inv_def)
  moreover have "sp_sent ?t = sp_recv ?t @ contents (sp_fifo s) @ take (unat n) data"
    using inv by (simp add: s1_def spsc_inv_def flip: append_assoc)
  ultimately have "contents (sp_fifo ?t) = contents (sp_fifo s) @ take (unat n) data" by (simp only: same_append_eq)
  moreover obtain f' where "raw_kfifo_put (sp_fifo s) data len = Some (n, f')"
      "contents f' = contents (sp_fifo s) @ take (unat n) data"
    using raw_kfifo_put_spec [OF ok len] by (auto simp: raw_kfifo_put_def Let_def n_def)
  ultimately show ?thesis
    using run by (intro exI [of _ ?t] exI [of _ n] exI [of _ f']) (simp add: s1_def)
qed

lemma r_copy_run:
  assumes "spsc_inv s" "sp_r s = RCopy n got"
  shows "spsc_step\<^sup>*\<^sup>* s (s \<lparr>sp_r := RCopy n (take (unat n) (contents (sp_fifo s)))\<rparr>)"
  using assms
proof (induction "unat n - length got" arbitrary: s got)
  case 0
  have "reader_ok s" using 0 by (simp only: spsc_inv_def)
  then have "length got \<le> unat n" "got = take (length got) (contents (sp_fifo s))"
    unfolding reader_ok_def 0(3) reader.case by blast+
  moreover from this(1) have "length got = unat n" using 0(1) by simp
  ultimately have "got = take (unat n) (contents (sp_fifo s))" by metis
  then have "s \<lparr>sp_r := RCopy n (take (unat n) (contents (sp_fifo s)))\<rparr> = s" using 0 by simp
  then show ?case by simp
next
  case (Suc d)
  have ok: "kfifo_ok (sp_fifo s)" using Suc.prems by (simp add: spsc_inv_def)
  have lt: "length got < unat n" using Suc.hyps(2) by linarith
  have "get_index (sp_fifo s) (length got) < length (kf_buffer (sp_fifo s))"
    using size_facts(2) [OF ok] ok by (simp add: put_index [OF ok]) (simp add: kfifo_ok_def)
  then obtain x where x: "rd (kf_buffer (sp_fifo s)) (get_index (sp_fifo s) (length got)) = Some x" by simp
  let ?t = "s \<lparr>sp_r := RCopy n (got @ [x])\<rparr>"
  have step: "spsc_step s ?t" using spsc_step.r_copy [OF Suc.prems(2) lt x] .
  have "d = unat n - length (got @ [x])" using Suc.hyps(2) by simp
  from Suc.hyps(1) [OF this spsc_step_inv [OF step Suc.prems(1)]] show ?case
    using step by (simp add: converse_rtranclp_into_rtranclp)
qed

lemma spsc_get_agrees:
  assumes inv: "spsc_inv s" and idle: "sp_r s = RIdle" and len: "unat len \<le> length dst"
  shows "\<exists>t n got f'. spsc_step\<^sup>*\<^sup>* s t \<and> sp_r t = RIdle \<and> raw_kfifo_get (sp_fifo s) dst len = Some (n, got @ drop (unat n) dst, f') \<and>
           sp_fifo t = f' \<and> sp_recv t = sp_recv s @ got \<and> sp_sent t = sp_sent s"
proof -
  have ok: "kfifo_ok (sp_fifo s)" using inv by (simp add: spsc_inv_def)
  define n where "n = min len (kf_in (sp_fifo s) - kf_out (sp_fifo s))"
  define got where "got = take (unat n) (contents (sp_fifo s))"
  define s1 where "s1 = s \<lparr>sp_r := RCopy n []\<rparr>"
  have 1: "spsc_step s s1" unfolding s1_def n_def using idle by (rule spsc_step.r_sample)
  have f1: "sp_fifo s1 = sp_fifo s" "sp_r s1 = RCopy n []" by (simp_all add: s1_def)
  let ?s2 = "s1 \<lparr>sp_r := RCopy n got\<rparr>"
  have 2: "spsc_step\<^sup>*\<^sup>* s1 ?s2" using r_copy_run [OF spsc_step_inv [OF 1 inv] f1(2)] by (simp add: f1 got_def)
  have un: "unat n = min (unat len) (used (sp_fifo s))" by (simp add: n_def unat_min used_def)
  let ?t = "?s2 \<lparr>sp_fifo := (sp_fifo ?s2) \<lparr>kf_out := kf_out (sp_fifo ?s2) + n\<rparr>, sp_r := RIdle, sp_recv := sp_recv ?s2 @ got\<rparr>"
  have 3: "spsc_step ?s2 ?t" by (rule spsc_step.r_publish) (simp_all add: got_def un)
  have run: "spsc_step\<^sup>*\<^sup>* s ?t" using 1 2 3 by (meson converse_rtranclp_into_rtranclp rtranclp.rtrancl_into_rtrancl)
  obtain f' where g: "raw_kfifo_get (sp_fifo s) dst len = Some (n, got @ drop (unat n) dst, f')"
      "f' = (sp_fifo s) \<lparr>kf_out := kf_out (sp_fifo s) + n\<rparr>"
    using raw_kfifo_get_spec [OF ok len] by (auto simp: raw_kfifo_get_def Let_def n_def got_def)
  then show ?thesis using run by (intro exI [of _ ?t] exI [of _ n] exI [of _ got] exI [of _ f']) (simp add: s1_def)
qed

end
