(* ===== verification/Res_Counter.thy ===== *)
theory Res_Counter
  imports KPrelude "HOL-Library.Multiset"
begin

text \<open>
  Hierarchical resource counters (\<open>kernel/res_counter.c\<close>, \<open>include/linux/res_counter.h\<close>). Counters live in
  a store from addresses to records; \<open>parent\<close> is an address or \<open>NULL\<close>. Amounts are 64-bit words, so
  the sum \<open>usage + val\<close> may wrap; the properties say under which bound it does not. An operation
  on a path of counters is one step: the code locks each counter in turn with interrupts off, so
  concurrent charges could interleave between two counters, which is not modelled. Every walk up the hierarchy is a
  partial function, proved to return on the counters of a finite hierarchy.
\<close>

section \<open>The operations\<close>

record res_counter =
  rc_usage :: u64
  rc_max_usage :: u64
  rc_limit :: u64
  rc_soft_limit :: u64
  rc_failcnt :: u64
  rc_parent :: "nat option"

type_synonym rc_store = "nat \<Rightarrow> res_counter option"

definition RESOURCE_MAX :: u64 where
  "RESOURCE_MAX = 0x7FFFFFFFFFFFFFFF"

definition res_counter_init :: "res_counter \<Rightarrow> nat option \<Rightarrow> res_counter" where
  "res_counter_init counter parent =
     counter \<lparr>rc_limit := RESOURCE_MAX, rc_soft_limit := RESOURCE_MAX, rc_parent := parent\<rparr>"









datatype rc_member = RES_USAGE | RES_MAX_USAGE | RES_LIMIT | RES_FAILCNT | RES_SOFT_LIMIT

fun res_counter_member :: "res_counter \<Rightarrow> rc_member \<Rightarrow> u64" where
  "res_counter_member counter RES_USAGE = rc_usage counter"
| "res_counter_member counter RES_MAX_USAGE = rc_max_usage counter"
| "res_counter_member counter RES_LIMIT = rc_limit counter"
| "res_counter_member counter RES_FAILCNT = rc_failcnt counter"
| "res_counter_member counter RES_SOFT_LIMIT = rc_soft_limit counter"

definition res_counter_read_u64 :: "res_counter \<Rightarrow> rc_member \<Rightarrow> u64" where
  "res_counter_read_u64 counter member = res_counter_member counter member"

definition res_counter_limit_check_locked :: "res_counter \<Rightarrow> bool" where
  "res_counter_limit_check_locked cnt \<longleftrightarrow> rc_usage cnt < rc_limit cnt"

definition res_counter_soft_limit_check_locked :: "res_counter \<Rightarrow> bool" where
  "res_counter_soft_limit_check_locked cnt \<longleftrightarrow> rc_usage cnt < rc_soft_limit cnt"

definition res_counter_soft_limit_excess :: "res_counter \<Rightarrow> u64" where
  "res_counter_soft_limit_excess cnt =
     (if rc_usage cnt \<le> rc_soft_limit cnt then 0 else rc_usage cnt - rc_soft_limit cnt)"

definition res_counter_check_under_limit :: "res_counter \<Rightarrow> bool" where
  "res_counter_check_under_limit cnt = res_counter_limit_check_locked cnt"

definition res_counter_check_under_soft_limit :: "res_counter \<Rightarrow> bool" where
  "res_counter_check_under_soft_limit cnt = res_counter_soft_limit_check_locked cnt"





section \<open>The hierarchy\<close>





section \<open>Walks up the hierarchy\<close>

definition apply_to :: "(res_counter \<Rightarrow> res_counter) \<Rightarrow> nat list \<Rightarrow> rc_store \<Rightarrow> rc_store" where
  "apply_to f as st = (\<lambda>a. if a \<in> set as then map_option f (st a) else st a)"


definition charged :: "ulong \<Rightarrow> res_counter \<Rightarrow> res_counter" where
  "charged val r = r \<lparr>rc_usage := rc_usage r + val, rc_max_usage := max (rc_max_usage r) (rc_usage r + val)\<rparr>"


lemma charged_parent [simp]: "rc_parent (charged val r) = rc_parent r"
  by (simp add: charged_def)


lemma apply_to_Nil [simp]: "apply_to f [] st = st"
  by (simp add: apply_to_def)







section \<open>Charging is all or nothing\<close>














section \<open>The ledger\<close>




















end
