(* ===== verification/Lmb.thy ===== *)
theory Lmb
  imports KPrelude
begin

text \<open>
  The boot-time memory block allocator of \<open>lib/lmb.c\<close>: two tables of address ranges, the memory of
  the machine and its reserved parts. A table holds \<open>MAX_LMB_REGIONS\<close> entries and one more that the
  insertion shifts into. Addresses are 64-bit words; a range \<open>(base, size)\<close> stands for the set of
  naturals \<open>{base ..< base + size}\<close>. The lemmas show that the tables stay sorted, disjoint and
  coalesced, that insertion and removal act on the covered set as union and difference, and that the
  allocator returns the highest free aligned block; for an address limit below the size they say to
  which address its subtraction wraps.
\<close>

section \<open>Tables\<close>

definition MAX_LMB_REGIONS :: nat where "MAX_LMB_REGIONS = 128"

definition LMB_ALLOC_ANYWHERE :: u64 where "LMB_ALLOC_ANYWHERE = 0"

record lmb_property =
  lp_base :: u64
  lp_size :: u64

record lmb_region =
  lr_cnt :: nat
  lr_size :: u64
  lr_region :: "lmb_property list"

record lmb =
  lmb_debug :: ulong
  lmb_rmo_size :: u64
  lmb_memory :: lmb_region
  lmb_reserved :: lmb_region

text \<open>The unsigned expression \<open>cnt - 1\<close> wraps when the table is empty.\<close>

definition cnt_minus_1 :: "lmb_region \<Rightarrow> nat" where
  "cnt_minus_1 rgn = (if lr_cnt rgn = 0 then 2 ^ 64 - 1 else lr_cnt rgn - 1)"

definition set_region :: "lmb_region \<Rightarrow> nat \<Rightarrow> lmb_property \<Rightarrow> lmb_region option" where
  "set_region rgn i p = do { ps \<leftarrow> wr (lr_region rgn) i p; Some (rgn \<lparr>lr_region := ps\<rparr>) }"

definition lmb_addrs_overlap :: "u64 \<Rightarrow> u64 \<Rightarrow> u64 \<Rightarrow> u64 \<Rightarrow> bool" where
  "lmb_addrs_overlap base1 size1 base2 size2 \<longleftrightarrow> base1 < base2 + size2 \<and> base2 < base1 + size1"

definition lmb_addrs_adjacent :: "u64 \<Rightarrow> u64 \<Rightarrow> u64 \<Rightarrow> u64 \<Rightarrow> int" where
  "lmb_addrs_adjacent base1 size1 base2 size2 =
     (if base2 = base1 + size1 then 1 else if base1 = base2 + size2 then -1 else 0)"

definition lmb_regions_adjacent :: "lmb_region \<Rightarrow> nat \<Rightarrow> nat \<Rightarrow> int option" where
  "lmb_regions_adjacent rgn r1 r2 =
     do { p1 \<leftarrow> rd (lr_region rgn) r1; p2 \<leftarrow> rd (lr_region rgn) r2;
          Some (lmb_addrs_adjacent (lp_base p1) (lp_size p1) (lp_base p2) (lp_size p2)) }"

definition lmb_remove_region :: "lmb_region \<Rightarrow> nat \<Rightarrow> lmb_region option" where
  "lmb_remove_region rgn r =
     do { rgn \<leftarrow> foldM (\<lambda>i rgn. do { p \<leftarrow> rd (lr_region rgn) (i + 1); set_region rgn i p })
                  [r ..< cnt_minus_1 rgn] rgn;
          Some (rgn \<lparr>lr_cnt := cnt_minus_1 rgn\<rparr>) }"

definition lmb_coalesce_regions :: "lmb_region \<Rightarrow> nat \<Rightarrow> nat \<Rightarrow> lmb_region option" where
  "lmb_coalesce_regions rgn r1 r2 =
     do { p1 \<leftarrow> rd (lr_region rgn) r1; p2 \<leftarrow> rd (lr_region rgn) r2;
          rgn \<leftarrow> set_region rgn r1 (p1 \<lparr>lp_size := lp_size p1 + lp_size p2\<rparr>);
          lmb_remove_region rgn r2 }"

definition lmb_init :: "lmb \<Rightarrow> lmb option" where
  "lmb_init l =
     do { m \<leftarrow> set_region (lmb_memory l) 0 \<lparr>lp_base = 0, lp_size = 0\<rparr>;
          r \<leftarrow> set_region (lmb_reserved l) 0 \<lparr>lp_base = 0, lp_size = 0\<rparr>;
          Some (l \<lparr>lmb_memory := m \<lparr>lr_cnt := 1\<rparr>, lmb_reserved := r \<lparr>lr_cnt := 1\<rparr>\<rparr>) }"

definition lmb_analyze :: "lmb \<Rightarrow> lmb option" where
  "lmb_analyze l =
     do { s \<leftarrow> foldM (\<lambda>i s. do { p \<leftarrow> rd (lr_region (lmb_memory l)) i; Some (s + lp_size p) })
                 [0 ..< lr_cnt (lmb_memory l)] 0;
          Some (l \<lparr>lmb_memory := (lmb_memory l) \<lparr>lr_size := s\<rparr>\<rparr>) }"

section \<open>Adding a range\<close>

text \<open>
  The first loop stops with a return when the range is present, with a \<open>break\<close> after extending
  entry \<open>i\<close>, or at the end of the table.
\<close>

datatype add_scan = Already | Extended nat lmb_region | NotFound nat

function lmb_add_scan :: "lmb_region \<Rightarrow> u64 \<Rightarrow> u64 \<Rightarrow> nat \<Rightarrow> add_scan option" where
  "lmb_add_scan rgn base sz i =
     (if i < lr_cnt rgn then
        do { p \<leftarrow> rd (lr_region rgn) i;
             if lp_base p = base \<and> lp_size p = sz then Some Already
             else let adjacent = lmb_addrs_adjacent base sz (lp_base p) (lp_size p) in
             if adjacent > 0 then
               do { rgn \<leftarrow> set_region rgn i \<lparr>lp_base = lp_base p - sz, lp_size = lp_size p + sz\<rparr>; Some (Extended i rgn) }
             else if adjacent < 0 then
               do { rgn \<leftarrow> set_region rgn i (p \<lparr>lp_size := lp_size p + sz\<rparr>); Some (Extended i rgn) }
             else lmb_add_scan rgn base sz (i + 1) }
      else Some (NotFound i))"
  by pat_completeness auto
termination by (relation "measure (\<lambda>(rgn, base, sz, i). lr_cnt rgn - i)") auto

text \<open>The insertion loop, from index \<open>n - 1\<close> down to 0.\<close>

primrec lmb_add_shift :: "u64 \<Rightarrow> u64 \<Rightarrow> nat \<Rightarrow> lmb_region \<Rightarrow> lmb_region option" where
  "lmb_add_shift base sz 0 rgn = Some rgn"
| "lmb_add_shift base sz (Suc i) rgn =
     do { p \<leftarrow> rd (lr_region rgn) i;
          if base < lp_base p then do { rgn \<leftarrow> set_region rgn (i + 1) p; lmb_add_shift base sz i rgn }
          else set_region rgn (i + 1) \<lparr>lp_base = base, lp_size = sz\<rparr> }"

definition lmb_add_region :: "lmb_region \<Rightarrow> u64 \<Rightarrow> u64 \<Rightarrow> (int \<times> lmb_region) option" where
  "lmb_add_region rgn base sz =
     do { p0 \<leftarrow> rd (lr_region rgn) 0;
          if lr_cnt rgn = 1 \<and> lp_size p0 = 0
          then do { rgn \<leftarrow> set_region rgn 0 \<lparr>lp_base = base, lp_size = sz\<rparr>; Some (0, rgn) }
          else
       do { scan \<leftarrow> lmb_add_scan rgn base sz 0;
            case scan of
              Already \<Rightarrow> Some (0, rgn)
            | _ \<Rightarrow>
              let (i, rgn, coalesced) = (case scan of Extended i rgn' \<Rightarrow> (i, rgn', 1) | NotFound i \<Rightarrow> (i, rgn, 0)
                                          | Already \<Rightarrow> (0, rgn, 0)) in
              do { adj \<leftarrow> (if i < cnt_minus_1 rgn then lmb_regions_adjacent rgn i (i + 1) else Some 0);
                   (coalesced, rgn) \<leftarrow>
                     (if adj \<noteq> 0 then do { rgn \<leftarrow> lmb_coalesce_regions rgn i (i + 1); Some (coalesced + 1, rgn) }
                      else Some (coalesced, rgn));
                   if coalesced \<noteq> 0 then Some (coalesced, rgn)
                   else if lr_cnt rgn \<ge> MAX_LMB_REGIONS then Some (-1, rgn)
                   else do { rgn \<leftarrow> lmb_add_shift base sz (lr_cnt rgn) rgn;
                             p0 \<leftarrow> rd (lr_region rgn) 0;
                             rgn \<leftarrow> (if base < lp_base p0 then set_region rgn 0 \<lparr>lp_base = base, lp_size = sz\<rparr>
                                     else Some rgn);
                             Some (0, rgn \<lparr>lr_cnt := lr_cnt rgn + 1\<rparr>) } } } }"

definition lmb_add :: "lmb \<Rightarrow> u64 \<Rightarrow> u64 \<Rightarrow> (int \<times> lmb) option" where
  "lmb_add l base sz =
     (let l = (if base = 0 then l \<lparr>lmb_rmo_size := sz\<rparr> else l) in
      do { (ret, rgn) \<leftarrow> lmb_add_region (lmb_memory l) base sz; Some (ret, l \<lparr>lmb_memory := rgn\<rparr>) })"

text \<open>A failing \<open>BUG_ON\<close> is \<open>None\<close>.\<close>

definition lmb_reserve :: "lmb \<Rightarrow> u64 \<Rightarrow> u64 \<Rightarrow> (int \<times> lmb) option" where
  "lmb_reserve l base sz =
     (if sz = 0 then None
      else do { (ret, rgn) \<leftarrow> lmb_add_region (lmb_reserved l) base sz; Some (ret, l \<lparr>lmb_reserved := rgn\<rparr>) })"

section \<open>Removing a range\<close>

function lmb_remove_find :: "lmb_region \<Rightarrow> u64 \<Rightarrow> u64 \<Rightarrow> nat \<Rightarrow> nat option" where
  "lmb_remove_find rgn base end i =
     (if i < lr_cnt rgn then
        do { p \<leftarrow> rd (lr_region rgn) i;
             if lp_base p \<le> base \<and> end \<le> lp_base p + lp_size p then Some i
             else lmb_remove_find rgn base end (i + 1) }
      else Some i)"
  by pat_completeness auto
termination by (relation "measure (\<lambda>(rgn, base, end, i). lr_cnt rgn - i)") auto

definition lmb_remove :: "lmb \<Rightarrow> u64 \<Rightarrow> u64 \<Rightarrow> (int \<times> lmb) option" where
  "lmb_remove l base sz =
     (let rgn = lmb_memory l; end = base + sz in
      do { i \<leftarrow> lmb_remove_find rgn base end 0;
           if i = lr_cnt rgn then Some (-1, l)
           else do { p \<leftarrow> rd (lr_region rgn) i;
                     let rgnbegin = lp_base p;
                     let rgnend = rgnbegin + lp_size p;
                     (ret, rgn) \<leftarrow>
                       (if rgnbegin = base \<and> rgnend = end then do { rgn \<leftarrow> lmb_remove_region rgn i; Some (0, rgn) }
                        else if rgnbegin = base then
                          do { rgn \<leftarrow> set_region rgn i \<lparr>lp_base = end, lp_size = lp_size p - sz\<rparr>; Some (0, rgn) }
                        else if rgnend = end then
                          do { rgn \<leftarrow> set_region rgn i (p \<lparr>lp_size := lp_size p - sz\<rparr>); Some (0, rgn) }
                        else do { rgn \<leftarrow> set_region rgn i (p \<lparr>lp_size := base - lp_base p\<rparr>);
                                  lmb_add_region rgn end (rgnend - end) });
                     Some (ret, l \<lparr>lmb_memory := rgn\<rparr>) } })"

section \<open>Allocation\<close>

function lmb_overlaps_from :: "lmb_region \<Rightarrow> u64 \<Rightarrow> u64 \<Rightarrow> nat \<Rightarrow> nat option" where
  "lmb_overlaps_from rgn base sz i =
     (if i < lr_cnt rgn then
        do { p \<leftarrow> rd (lr_region rgn) i;
             if lmb_addrs_overlap base sz (lp_base p) (lp_size p) then Some i
             else lmb_overlaps_from rgn base sz (i + 1) }
      else Some i)"
  by pat_completeness auto
termination by (relation "measure (\<lambda>(rgn, base, sz, i). lr_cnt rgn - i)") auto

definition lmb_overlaps_region :: "lmb_region \<Rightarrow> u64 \<Rightarrow> u64 \<Rightarrow> int option" where
  "lmb_overlaps_region rgn base sz =
     do { i \<leftarrow> lmb_overlaps_from rgn base sz 0; Some (if i < lr_cnt rgn then int i else -1) }"

definition lmb_align_down :: "u64 \<Rightarrow> u64 \<Rightarrow> u64" where
  "lmb_align_down addr sz = addr AND NOT (sz - 1)"

definition lmb_align_up :: "u64 \<Rightarrow> u64 \<Rightarrow> u64" where
  "lmb_align_up addr sz = (addr + (sz - 1)) AND NOT (sz - 1)"

text \<open>
  The downward search for an unreserved block. \<open>None\<close> inside says that the search left the region
  (\<open>break\<close> or the loop condition); \<open>Some\<close> is the \<open>return\<close> in the loop, with \<open>fail\<close> for a full table.
\<close>

partial_function (option) alloc_base_while ::
  "u64 \<Rightarrow> u64 \<Rightarrow> u64 \<Rightarrow> lmb \<Rightarrow> u64 \<Rightarrow> (u64 \<times> lmb) option option" where
  "alloc_base_while lmbbase sz align l base =
     (if base \<noteq> 0 \<and> lmbbase \<le> base then
        do { j \<leftarrow> lmb_overlaps_region (lmb_reserved l) base sz;
             if j < 0 then
               do { (ret, rgn) \<leftarrow> lmb_add_region (lmb_reserved l) base sz;
                    Some (Some (if ret < 0 then 0 else base, l \<lparr>lmb_reserved := rgn\<rparr>)) }
             else do { p \<leftarrow> rd (lr_region (lmb_reserved l)) (nat j);
                       if lp_base p < sz then Some None
                       else alloc_base_while lmbbase sz align l (lmb_align_down (lp_base p - sz) align) } }
      else Some None)"

declare alloc_base_while.simps [code]

primrec alloc_base_for :: "u64 \<Rightarrow> u64 \<Rightarrow> u64 \<Rightarrow> lmb \<Rightarrow> nat \<Rightarrow> (u64 \<times> lmb) option" where
  "alloc_base_for sz align max_addr l 0 = Some (0, l)"
| "alloc_base_for sz align max_addr l (Suc i) =
     do { p \<leftarrow> rd (lr_region (lmb_memory l)) i;
          let lmbbase = lp_base p;
          let lmbsize = lp_size p;
          if lmbsize < sz \<or> max_addr \<noteq> LMB_ALLOC_ANYWHERE \<and> \<not> lmbbase < max_addr
          then alloc_base_for sz align max_addr l i
          else do { let base = (if max_addr = LMB_ALLOC_ANYWHERE then lmb_align_down (lmbbase + lmbsize - sz) align
                                else lmb_align_down (min (lmbbase + lmbsize) max_addr - sz) align);
                    r \<leftarrow> alloc_base_while lmbbase sz align l base;
                    case r of Some res \<Rightarrow> Some res | None \<Rightarrow> alloc_base_for sz align max_addr l i } }"

definition raw_lmb_alloc_base :: "u64 \<Rightarrow> lmb \<Rightarrow> u64 \<Rightarrow> u64 \<Rightarrow> u64 \<Rightarrow> (u64 \<times> lmb) option" where
  "raw_lmb_alloc_base real_limit l sz align max_addr =
     (if sz = 0 then None
      else let sz = lmb_align_up sz align;
               max_addr = (if max_addr = LMB_ALLOC_ANYWHERE then real_limit else max_addr)
           in alloc_base_for sz align max_addr l (lr_cnt (lmb_memory l)))"

definition lmb_alloc_base :: "u64 \<Rightarrow> lmb \<Rightarrow> u64 \<Rightarrow> u64 \<Rightarrow> u64 \<Rightarrow> (u64 \<times> lmb) option" where
  "lmb_alloc_base real_limit l sz align max_addr =
     do { (alloc, l) \<leftarrow> raw_lmb_alloc_base real_limit l sz align max_addr;
          if alloc = 0 then None else Some (alloc, l) }"

definition lmb_alloc :: "u64 \<Rightarrow> lmb \<Rightarrow> u64 \<Rightarrow> u64 \<Rightarrow> (u64 \<times> lmb) option" where
  "lmb_alloc real_limit l sz align = lmb_alloc_base real_limit l sz align LMB_ALLOC_ANYWHERE"

section \<open>Allocation on a node\<close>

text \<open>
  \<open>nid_range start end\<close> is supplied by the caller; it returns the end of the part of
  \<open>[start, end)\<close> that lies on one node, and that node.
\<close>

partial_function (option) alloc_nid_unreserved_while ::
  "u64 \<Rightarrow> u64 \<Rightarrow> u64 \<Rightarrow> lmb \<Rightarrow> u64 \<Rightarrow> (u64 \<times> lmb) option" where
  "alloc_nid_unreserved_while start sz align l base =
     (if start \<le> base then
        do { j \<leftarrow> lmb_overlaps_region (lmb_reserved l) base sz;
             if j < 0 then
               do { (ret, rgn) \<leftarrow> lmb_add_region (lmb_reserved l) base sz;
                    Some (if ret < 0 then -1 else base, l \<lparr>lmb_reserved := rgn\<rparr>) }
             else do { p \<leftarrow> rd (lr_region (lmb_reserved l)) (nat j);
                       if lp_base p < sz then Some (-1, l)
                       else alloc_nid_unreserved_while start sz align l (lmb_align_down (lp_base p - sz) align) } }
      else Some (-1, l))"

declare alloc_nid_unreserved_while.simps [code]

definition lmb_alloc_nid_unreserved :: "lmb \<Rightarrow> u64 \<Rightarrow> u64 \<Rightarrow> u64 \<Rightarrow> u64 \<Rightarrow> (u64 \<times> lmb) option" where
  "lmb_alloc_nid_unreserved l start end sz align =
     alloc_nid_unreserved_while start sz align l (lmb_align_down (end - sz) align)"

partial_function (option) alloc_nid_region_while ::
  "(u64 \<Rightarrow> u64 \<Rightarrow> u64 \<times> int) \<Rightarrow> u64 \<Rightarrow> u64 \<Rightarrow> u64 \<Rightarrow> int \<Rightarrow> lmb \<Rightarrow> u64 \<Rightarrow> (u64 \<times> lmb) option" where
  "alloc_nid_region_while nid_range end sz align nid l start =
     (if start < end then
        let (this_end, this_nid) = nid_range start end in
        if this_nid = nid then
          do { (ret, l) \<leftarrow> lmb_alloc_nid_unreserved l start this_end sz align;
               if ret \<noteq> -1 then Some (ret, l)
               else alloc_nid_region_while nid_range end sz align nid l this_end }
        else alloc_nid_region_while nid_range end sz align nid l this_end
      else Some (-1, l))"

declare alloc_nid_region_while.simps [code]

definition lmb_alloc_nid_region ::
  "(u64 \<Rightarrow> u64 \<Rightarrow> u64 \<times> int) \<Rightarrow> lmb \<Rightarrow> lmb_property \<Rightarrow> u64 \<Rightarrow> u64 \<Rightarrow> int \<Rightarrow> (u64 \<times> lmb) option" where
  "lmb_alloc_nid_region nid_range l mp sz align nid =
     (let start = lp_base mp; end = start + lp_size mp; start = lmb_align_up start align in
      alloc_nid_region_while nid_range end sz align nid l start)"

function alloc_nid_for ::
  "(u64 \<Rightarrow> u64 \<Rightarrow> u64 \<times> int) \<Rightarrow> nat \<Rightarrow> u64 \<Rightarrow> u64 \<Rightarrow> int \<Rightarrow> lmb \<Rightarrow> nat \<Rightarrow> (u64 \<times> lmb) option" where
  "alloc_nid_for nid_range cnt sz align nid l i =
     (if i < cnt then
        do { mp \<leftarrow> rd (lr_region (lmb_memory l)) i;
             (ret, l) \<leftarrow> lmb_alloc_nid_region nid_range l mp sz align nid;
             if ret \<noteq> -1 then Some (ret, l) else alloc_nid_for nid_range cnt sz align nid l (i + 1) }
      else Some (-1, l))"
  by pat_completeness auto
termination by (relation "measure (\<lambda>(nid_range, cnt, sz, align, nid, l, i). cnt - i)") auto

definition lmb_alloc_nid ::
  "u64 \<Rightarrow> (u64 \<Rightarrow> u64 \<Rightarrow> u64 \<times> int) \<Rightarrow> lmb \<Rightarrow> u64 \<Rightarrow> u64 \<Rightarrow> int \<Rightarrow> (u64 \<times> lmb) option" where
  "lmb_alloc_nid real_limit nid_range l sz align nid =
     (if sz = 0 then None
      else let sz = lmb_align_up sz align in
        do { (ret, l) \<leftarrow> alloc_nid_for nid_range (lr_cnt (lmb_memory l)) sz align nid l 0;
             if ret \<noteq> -1 then Some (ret, l) else lmb_alloc real_limit l sz align })"

section \<open>Queries and the memory limit\<close>

definition lmb_phys_mem_size :: "lmb \<Rightarrow> u64" where
  "lmb_phys_mem_size l = lr_size (lmb_memory l)"

definition lmb_end_of_DRAM :: "lmb \<Rightarrow> u64 option" where
  "lmb_end_of_DRAM l =
     (if lr_cnt (lmb_memory l) = 0 then None
      else do { p \<leftarrow> rd (lr_region (lmb_memory l)) (lr_cnt (lmb_memory l) - 1); Some (lp_base p + lp_size p) })"

function limit_memory :: "lmb_region \<Rightarrow> u64 \<Rightarrow> nat \<Rightarrow> lmb_region option" where
  "limit_memory rgn limit i =
     (if i < lr_cnt rgn then
        do { p \<leftarrow> rd (lr_region rgn) i;
             if limit > lp_size p then limit_memory rgn (limit - lp_size p) (i + 1)
             else do { rgn \<leftarrow> set_region rgn i (p \<lparr>lp_size := limit\<rparr>); Some (rgn \<lparr>lr_cnt := i + 1\<rparr>) } }
      else Some rgn)"
  by pat_completeness auto
termination by (relation "measure (\<lambda>(rgn, limit, i). lr_cnt rgn - i)") auto

text \<open>
  Removing entry \<open>i\<close> is followed by \<open>i--\<close> and the loop's \<open>i++\<close>, so the scan stays at \<open>i\<close>.
\<close>

partial_function (option) limit_reserved :: "u64 \<Rightarrow> lmb_region \<Rightarrow> nat \<Rightarrow> lmb_region option" where
  "limit_reserved memory_limit rgn i =
     (if i < lr_cnt rgn then
        do { p \<leftarrow> rd (lr_region rgn) i;
             let p = (if lp_base p > memory_limit then p \<lparr>lp_size := 0\<rparr>
                      else if lp_base p + lp_size p > memory_limit then p \<lparr>lp_size := memory_limit - lp_base p\<rparr>
                      else p);
             rgn \<leftarrow> set_region rgn i p;
             if lp_size p = 0 then do { rgn \<leftarrow> lmb_remove_region rgn i; limit_reserved memory_limit rgn i }
             else limit_reserved memory_limit rgn (i + 1) }
      else Some rgn)"
declare limit_reserved.simps [code]

definition lmb_enforce_memory_limit :: "lmb \<Rightarrow> u64 \<Rightarrow> lmb option" where
  "lmb_enforce_memory_limit l memory_limit =
     (if memory_limit = 0 then Some l
      else do { mem \<leftarrow> limit_memory (lmb_memory l) memory_limit 0;
                let l = l \<lparr>lmb_memory := mem\<rparr>;
                p0 \<leftarrow> rd (lr_region mem) 0;
                let l = (if lp_size p0 < lmb_rmo_size l then l \<lparr>lmb_rmo_size := lp_size p0\<rparr> else l);
                memory_limit \<leftarrow> lmb_end_of_DRAM l;
                res \<leftarrow> limit_reserved memory_limit (lmb_reserved l) 0;
                Some (l \<lparr>lmb_reserved := res\<rparr>) })"

definition lmb_is_reserved :: "lmb \<Rightarrow> u64 \<Rightarrow> bool option" where
  "lmb_is_reserved l addr =
     anyM (\<lambda>i. do { p \<leftarrow> rd (lr_region (lmb_reserved l)) i;
                    let upper = lp_base p + lp_size p - 1;
                    Some (addr \<ge> lp_base p \<and> addr \<le> upper) })
       [0 ..< lr_cnt (lmb_reserved l)]"

function lmb_find_from :: "lmb_region \<Rightarrow> u64 \<Rightarrow> u64 \<Rightarrow> nat \<Rightarrow> lmb_property option option" where
  "lmb_find_from rgn rstart rend i =
     (if i < lr_cnt rgn then
        do { p \<leftarrow> rd (lr_region rgn) i;
             let start = lp_base p;
             let end = start + lp_size p - 1;
             if start > rend then Some None
             else if end \<ge> rstart \<and> start < rend then
               do { let rstart = (if rstart < start then start else rstart);
                    let rend = (if rend > end then end else rend);
                    Some (Some \<lparr>lp_base = rstart, lp_size = rend - rstart + 1\<rparr>) }
             else lmb_find_from rgn rstart rend (i + 1) }
      else Some None)"
  by pat_completeness auto
termination by (relation "measure (\<lambda>(rgn, rstart, rend, i). lr_cnt rgn - i)") auto

definition lmb_find :: "lmb \<Rightarrow> lmb_property \<Rightarrow> (int \<times> lmb_property) option" where
  "lmb_find l res =
     do { r \<leftarrow> lmb_find_from (lmb_memory l) (lp_base res) (lp_base res + lp_size res - 1) 0;
          Some (case r of None \<Rightarrow> (-1, res) | Some res' \<Rightarrow> (0, res')) }"

declare lmb_add_scan.simps [simp del] lmb_remove_find.simps [simp del] lmb_overlaps_from.simps [simp del]
  alloc_nid_for.simps [simp del] limit_memory.simps [simp del] lmb_find_from.simps [simp del]

section \<open>Ranges and tables\<close>

abbreviation lp_start :: "lmb_property \<Rightarrow> nat" where "lp_start p \<equiv> unat (lp_base p)"

definition lp_end :: "lmb_property \<Rightarrow> nat" where "lp_end p = unat (lp_base p) + unat (lp_size p)"

definition range_of :: "lmb_property \<Rightarrow> nat set" where "range_of p = {lp_start p ..< lp_end p}"

definition lp_ok :: "lmb_property \<Rightarrow> bool" where "lp_ok p \<longleftrightarrow> lp_size p \<noteq> 0 \<and> lp_end p < 2 ^ 64"

text \<open>A table is sorted, and neighbours neither overlap nor touch.\<close>

definition table :: "lmb_property list \<Rightarrow> bool" where
  "table ps \<longleftrightarrow> sorted_wrt (\<lambda>p q. lp_end p < lp_start q) ps \<and> (\<forall>p \<in> set ps. lp_ok p)"

definition cover :: "lmb_property list \<Rightarrow> nat set" where "cover ps = (\<Union>p \<in> set ps. range_of p)"

definition entries :: "lmb_region \<Rightarrow> lmb_property list" where "entries rgn = take (lr_cnt rgn) (lr_region rgn)"

text \<open>A region table as the operations leave it: the sorted table, or the empty-sized entry of \<open>lmb_init\<close>.\<close>

definition lmb_wf :: "lmb_region \<Rightarrow> bool" where
  "lmb_wf rgn \<longleftrightarrow> length (lr_region rgn) = MAX_LMB_REGIONS + 1 \<and> lr_cnt rgn \<le> MAX_LMB_REGIONS \<and>
     (table (entries rgn) \<or> lr_cnt rgn = 1 \<and> lr_region rgn ! 0 = \<lparr>lp_base = 0, lp_size = 0\<rparr>)"

abbreviation covered :: "lmb_region \<Rightarrow> nat set" where "covered rgn \<equiv> cover (entries rgn)"

lemma lp_okD:
  assumes "lp_ok p"
  shows "lp_start p < lp_end p" "lp_end p < 2 ^ 64" "unat (lp_base p + lp_size p) = lp_end p" "0 < unat (lp_size p)"
  using assms by (auto simp: lp_ok_def lp_end_def unat_gt_0 intro!: unat_add_less)

lemma overlap_iff:
  assumes "lp_ok n" "lp_ok p"
  shows "lmb_addrs_overlap (lp_base n) (lp_size n) (lp_base p) (lp_size p) \<longleftrightarrow> range_of n \<inter> range_of p \<noteq> {}"
proof -
  have "range_of n \<inter> range_of p \<noteq> {} \<longleftrightarrow> lp_start n < lp_end p \<and> lp_start p < lp_end n"
  proof
    assume "lp_start n < lp_end p \<and> lp_start p < lp_end n"
    then have "max (lp_start n) (lp_start p) \<in> range_of n \<inter> range_of p"
      using lp_okD [OF assms(1)] lp_okD [OF assms(2)] by (simp add: range_of_def)
    then show "range_of n \<inter> range_of p \<noteq> {}" by blast
  qed (auto simp: range_of_def)
  then show ?thesis
    using lp_okD [OF assms(1)] lp_okD [OF assms(2)] by (simp add: lmb_addrs_overlap_def word_less_nat_alt)
qed

lemma adjacent_cases:
  assumes "lp_ok n" "lp_ok p"
  shows "lmb_addrs_adjacent (lp_base n) (lp_size n) (lp_base p) (lp_size p) =
     (if lp_start p = lp_end n then 1 else if lp_start n = lp_end p then -1 else 0)"
  using lp_okD [OF assms(1)] lp_okD [OF assms(2)] by (simp add: lmb_addrs_adjacent_def word_unat_eq_iff)

lemma table_split:
  "table (as @ p # bs) \<longleftrightarrow> table as \<and> table bs \<and> lp_ok p \<and> (\<forall>a \<in> set as. lp_end a < lp_start p \<and> (\<forall>b \<in> set bs. lp_end a < lp_start b)) \<and>
     (\<forall>b \<in> set bs. lp_end p < lp_start b)"
  by (auto simp: table_def sorted_wrt_append)

lemma cover_append [simp]: "cover (as @ bs) = cover as \<union> cover bs" "cover (p # bs) = range_of p \<union> cover bs" "cover [] = {}"
  by (auto simp: cover_def)

lemma set_region_eq: "i < length (lr_region rgn) \<Longrightarrow> set_region rgn i p = Some (rgn \<lparr>lr_region := (lr_region rgn)[i := p]\<rparr>)"
  by (simp add: set_region_def)

lemma entries_split:
  assumes "lr_cnt rgn \<le> length (lr_region rgn)" "i < lr_cnt rgn" "cs = drop (Suc i) (entries rgn)"
  shows "entries rgn = take i (lr_region rgn) @ lr_region rgn ! i # cs"
proof -
  have "i < length (entries rgn)" "entries rgn ! i = lr_region rgn ! i" "take i (entries rgn) = take i (lr_region rgn)"
    using assms by (simp_all add: entries_def min_def)
  then show ?thesis unfolding assms(3) by (metis id_take_nth_drop)
qed

lemma entries_update:
  assumes "lr_cnt rgn \<le> length (lr_region rgn)" "i < lr_cnt rgn"
  shows "entries (rgn \<lparr>lr_region := (lr_region rgn)[i := p]\<rparr>) = take i (lr_region rgn) @ p # drop (Suc i) (entries rgn)"
  using assms by (simp add: entries_def take_update_swap) (simp add: upd_conv_take_nth_drop min_def)

lemma remove_region_spec:
  assumes len: "lr_cnt rgn \<le> length (lr_region rgn)" and r: "r < lr_cnt rgn"
  shows "\<exists>rgn'. lmb_remove_region rgn r = Some rgn' \<and> length (lr_region rgn') = length (lr_region rgn) \<and>
    lr_cnt rgn' = lr_cnt rgn - 1 \<and> entries rgn' = take r (lr_region rgn) @ drop (Suc r) (entries rgn)"
proof -
  let ?I = "\<lambda>k (rgn' :: lmb_region). length (lr_region rgn') = length (lr_region rgn) \<and> lr_cnt rgn' = lr_cnt rgn \<and>
     (\<forall>j < length (lr_region rgn). lr_region rgn' ! j = (if r \<le> j \<and> j < k then lr_region rgn ! (j + 1) else lr_region rgn ! j))"
  have c: "cnt_minus_1 rgn = lr_cnt rgn - 1" using r by (simp add: cnt_minus_1_def)
  have "\<exists>rgn'. foldM (\<lambda>i rgn. do { p \<leftarrow> rd (lr_region rgn) (i + 1); set_region rgn i p }) [r ..< lr_cnt rgn - 1] rgn = Some rgn' \<and>
      ?I (lr_cnt rgn - 1) rgn'"
  proof (rule foldM_upt_total)
    fix k and s :: lmb_region assume k: "r \<le> k" "k < lr_cnt rgn - 1" and I: "?I k s"
    then have "k + 1 < length (lr_region s)" using len by simp
    moreover have "lr_region s ! (k + 1) = lr_region rgn ! (k + 1)" using I k len by simp
    ultimately show "\<exists>s'. do { p \<leftarrow> rd (lr_region s) (k + 1); set_region s k p } = Some s' \<and> ?I (Suc k) s'"
      using I k by (auto simp: set_region_eq nth_list_update less_Suc_eq)
  qed (use r in auto)
  then obtain r1 where r1: "foldM (\<lambda>i rgn. do { p \<leftarrow> rd (lr_region rgn) (i + 1); set_region rgn i p }) [r ..< lr_cnt rgn - 1] rgn = Some r1"
      "?I (lr_cnt rgn - 1) r1" by blast
  have "entries (r1 \<lparr>lr_cnt := lr_cnt rgn - 1\<rparr>) = take r (lr_region rgn) @ drop (Suc r) (entries rgn)"
    using r1(2) len r by (intro nth_equalityI) (auto simp: entries_def nth_append min_def split: if_splits)
  then show ?thesis using r1 r c by (simp add: lmb_remove_region_def cnt_minus_1_def)
qed

section \<open>Insertion\<close>

abbreviation touches :: "lmb_property \<Rightarrow> lmb_property \<Rightarrow> bool" where
  "touches n p \<equiv> n = p \<or> lp_start p = lp_end n \<or> lp_start n = lp_end p"

text \<open>Entry \<open>p\<close> extended by an adjacent range \<open>n\<close>.\<close>

definition extend :: "lmb_property \<Rightarrow> lmb_property \<Rightarrow> lmb_property" where
  "extend n p = (if lp_start p = lp_end n then \<lparr>lp_base = lp_base p - lp_size n, lp_size = lp_size p + lp_size n\<rparr>
                 else p \<lparr>lp_size := lp_size p + lp_size n\<rparr>)"

definition hit_at :: "lmb_region \<Rightarrow> lmb_property \<Rightarrow> nat \<Rightarrow> add_scan" where
  "hit_at rgn n k = (if n = lr_region rgn ! k then Already
     else Extended k (rgn \<lparr>lr_region := (lr_region rgn)[k := extend n (lr_region rgn ! k)]\<rparr>))"

lemma add_scan_spec:
  fixes rgn :: lmb_region
  assumes "lp_ok n" "\<forall>p \<in> set (entries rgn). lp_ok p" "lr_cnt rgn \<le> length (lr_region rgn)" "i \<le> lr_cnt rgn"
  shows "(\<exists>k. i \<le> k \<and> k < lr_cnt rgn \<and> touches n (lr_region rgn ! k) \<and> (\<forall>j. i \<le> j \<and> j < k \<longrightarrow> \<not> touches n (lr_region rgn ! j)) \<and>
            lmb_add_scan rgn (lp_base n) (lp_size n) i = Some (hit_at rgn n k)) \<or>
         (\<forall>j. i \<le> j \<and> j < lr_cnt rgn \<longrightarrow> \<not> touches n (lr_region rgn ! j)) \<and>
            lmb_add_scan rgn (lp_base n) (lp_size n) i = Some (NotFound (lr_cnt rgn))"
  using assms(4)
proof (induction "lr_cnt rgn - i" arbitrary: i)
  case 0
  then show ?case by (subst lmb_add_scan.simps) (auto simp: lmb_add_scan.simps)
next
  case (Suc d)
  then have i: "i < lr_cnt rgn" by simp
  let ?p = "lr_region rgn ! i"
  have "?p \<in> set (entries rgn)" using i assms(3) by (auto simp: entries_def in_set_conv_nth)
  then have ok: "lp_ok ?p" using assms(2) by blast
  have il: "i < length (lr_region rgn)" using i assms(3) by simp
  have same: "lp_base ?p = lp_base n \<and> lp_size ?p = lp_size n \<longleftrightarrow> n = ?p" by (metis lmb_property.equality unit.exhaust)
  show ?case
  proof (cases "touches n ?p")
    case True
    then have "lmb_add_scan rgn (lp_base n) (lp_size n) i = Some (hit_at rgn n i)"
      by (subst lmb_add_scan.simps)
         (auto simp: i il same hit_at_def extend_def Let_def adjacent_cases [OF assms(1) ok] set_region_eq)
    then show ?thesis using i True by (intro disjI1 exI [of _ i]) auto
  next
    case False
    then have step: "lmb_add_scan rgn (lp_base n) (lp_size n) i = lmb_add_scan rgn (lp_base n) (lp_size n) (Suc i)"
      by (subst lmb_add_scan.simps) (simp add: i il same Let_def adjacent_cases [OF assms(1) ok])
    have from_i: "(\<forall>j. i \<le> j \<and> Q j \<longrightarrow> \<not> touches n (lr_region rgn ! j)) \<longleftrightarrow>
        (\<forall>j. Suc i \<le> j \<and> Q j \<longrightarrow> \<not> touches n (lr_region rgn ! j))" for Q
      using False by (metis Suc_leD Suc_leI order_le_less)
    have "d = lr_cnt rgn - Suc i" "Suc i \<le> lr_cnt rgn" using Suc(2) i by simp_all
    from Suc(1) [OF this] show ?thesis unfolding step from_i
      by (rule disj_forward) (erule ex_forward, erule conj_forward, erule Suc_leD, assumption)
  qed
qed

text \<open>
  The insertion loop on a table whose entries split into those at or below the new base and those
  above it. When all are above it, slot 0 is left for the assignment after the loop.
\<close>

lemma add_shift_spec:
  assumes "lr_region rgn = as @ bs @ t # rest" "\<forall>b \<in> set bs. lp_base n < lp_base b"
    "as \<noteq> [] \<Longrightarrow> lp_base (last as) \<le> lp_base n"
  shows "lmb_add_shift (lp_base n) (lp_size n) (length (as @ bs)) rgn =
    Some (rgn \<lparr>lr_region := as @ (if as = [] then hd (bs @ [t]) else n) # bs @ rest\<rparr>)"
  using assms
proof (induction bs arbitrary: rgn t rest rule: rev_induct)
  case Nil
  show ?case
  proof (cases as rule: rev_cases)
    case Nil
    then show ?thesis using Nil.prems(1) \<open>lr_region rgn = as @ [] @ t # rest\<close> by simp
  next
    case (snoc as' a)
    then have "\<not> lp_base n < lp_base a" using Nil.prems(3) by (simp add: not_less)
    then show ?thesis using snoc Nil.prems(1) by (simp add: nth_append set_region_eq list_update_append)
  qed
next
  case (snoc b bs)
  let ?i = "length as + length bs"
  have b: "lr_region rgn ! ?i = b" "?i + 1 < length (lr_region rgn)" using snoc.prems(1) by (simp_all add: nth_append)
  have "(lr_region rgn)[?i + 1 := b] = as @ bs @ b # b # rest" using snoc.prems(1) by (simp add: list_update_append)
  then have "lmb_add_shift (lp_base n) (lp_size n) (length (as @ bs @ [b])) rgn =
      lmb_add_shift (lp_base n) (lp_size n) (length (as @ bs)) (rgn \<lparr>lr_region := as @ bs @ b # b # rest\<rparr>)"
    using b snoc.prems(2) by (simp add: set_region_eq)
  also have "\<dots> = Some (rgn \<lparr>lr_region := as @ (if as = [] then hd (bs @ [b]) else n) # bs @ b # rest\<rparr>)"
    using snoc.IH [of "rgn \<lparr>lr_region := as @ bs @ b # b # rest\<rparr>" b "b # rest"] snoc.prems by simp
  also have "hd (bs @ [b]) = hd ((bs @ [b]) @ [t])" by (cases bs) simp_all
  finally show ?case by simp
qed

lemma disjoint_order:
  assumes "lp_ok n" "lp_ok p" "range_of n \<inter> range_of p = {}"
  shows "lp_end n \<le> lp_start p \<or> lp_end p \<le> lp_start n" "n \<noteq> p"
proof -
  have "\<not> (lp_start n < lp_end p \<and> lp_start p < lp_end n)"
    using overlap_iff [OF assms(1,2)] assms(3) lp_okD [OF assms(1)] lp_okD [OF assms(2)]
    by (simp add: lmb_addrs_overlap_def word_less_nat_alt)
  then show "lp_end n \<le> lp_start p \<or> lp_end p \<le> lp_start n" by linarith
  then show "n \<noteq> p" using lp_okD(1) [OF assms(1)] by auto
qed

lemma extend_spec:
  assumes "lp_ok n" "lp_ok p" "lp_start p = lp_end n \<or> lp_start n = lp_end p"
  shows "lp_ok (extend n p)" "lp_start (extend n p) = min (lp_start n) (lp_start p)"
    "lp_end (extend n p) = max (lp_end n) (lp_end p)" "range_of (extend n p) = range_of n \<union> range_of p"
proof -
  note n = lp_okD [OF assms(1)] and p = lp_okD [OF assms(2)]
  have sz: "unat (lp_size p + lp_size n) = unat (lp_size p) + unat (lp_size n)"
    using n(2) p(2) assms(3) by (intro unat_add_less) (auto simp: lp_end_def)
  have dn: "unat (lp_base p - lp_size n) = lp_start n" if "lp_start p = lp_end n"
    using that by (subst unat_diff) (simp_all add: lp_end_def)
  show se: "lp_start (extend n p) = min (lp_start n) (lp_start p)"
    "lp_end (extend n p) = max (lp_end n) (lp_end p)"
    using assms(3) n(1,4) p(1,4) sz dn by (auto simp: extend_def lp_end_def)
  have "lp_size (extend n p) = lp_size p + lp_size n" by (simp add: extend_def)
  then have "0 < unat (lp_size (extend n p))" using sz n(4) by simp
  then show "lp_ok (extend n p)" using se(2) n(2) p(2) by (auto simp: lp_ok_def)
  show "range_of (extend n p) = range_of n \<union> range_of p"
    using assms(3) n(1) p(1) by (auto simp: range_of_def se)
qed

lemma hit_neighbours:
  assumes tab: "table (as @ p # bs)" and n: "lp_ok n" and disj: "range_of n \<inter> cover (as @ p # bs) = {}"
    and t: "touches n p" and before: "\<forall>a \<in> set as. \<not> touches n a"
  shows "lp_start p = lp_end n \<or> lp_start n = lp_end p" "n \<noteq> p" "\<forall>a \<in> set as. lp_end a < lp_start (extend n p)"
    "\<forall>b \<in> set bs. lp_end (extend n p) \<le> lp_start b"
proof -
  have ok: "lp_ok q" if "q \<in> set (as @ p # bs)" for q using tab that unfolding table_def by blast
  have dis: "lp_end n \<le> lp_start q \<or> lp_end q \<le> lp_start n" "n \<noteq> q" if "q \<in> set (as @ p # bs)" for q
    using disjoint_order [OF n ok [OF that]] disj that by (auto simp: cover_def)
  show "n \<noteq> p" using dis(2) by simp
  then show adj: "lp_start p = lp_end n \<or> lp_start n = lp_end p" using t by blast
  have okp: "lp_ok p" using ok by simp
  note e = extend_spec [OF n okp adj] and nb = lp_okD(1) [OF n] and pb = lp_okD(1) [OF okp]
  show "\<forall>a \<in> set as. lp_end a < lp_start (extend n p)"
  proof
    fix a assume a: "a \<in> set as"
    have "lp_end a < lp_start p" "lp_start a < lp_end a" using tab a ok by (auto simp: table_split lp_okD(1))
    moreover have "lp_end n \<le> lp_start a \<or> lp_end a \<le> lp_start n" "lp_end a \<noteq> lp_start n"
      using dis(1) [of a] before a by auto
    ultimately show "lp_end a < lp_start (extend n p)" unfolding e(2) using adj nb pb by linarith
  qed
  show "\<forall>b \<in> set bs. lp_end (extend n p) \<le> lp_start b"
  proof
    fix b assume b: "b \<in> set bs"
    have "lp_end p < lp_start b" using tab b by (simp add: table_split)
    moreover have "lp_start b < lp_end b" using ok b by (simp add: lp_okD(1))
    ultimately show "lp_end (extend n p) \<le> lp_start b" unfolding e(3) using adj nb pb dis(1) [of b] b by auto
  qed
qed

lemma table_extended:
  assumes "table (as @ p # bs)" "lp_ok e" "\<forall>a \<in> set as. lp_end a < lp_start e" "\<forall>b \<in> set bs. lp_end e < lp_start b"
  shows "table (as @ e # bs)"
  using assms by (auto simp: table_split)

lemma first_above:
  assumes "table (b # bs)" "x \<le> lp_start b" "x \<noteq> lp_start b"
  shows "\<forall>q \<in> set (b # bs). x < lp_start q"
  using assms lp_okD(1) by (fastforce simp: table_def)

lemma table_merged:
  assumes tab: "table (as @ p # b # bs)" and e: "lp_ok e" "\<forall>a \<in> set as. lp_end a < lp_start e" "lp_end e = lp_start b"
  shows "table (as @ e \<lparr>lp_size := lp_size e + lp_size b\<rparr> # bs)"
    "range_of (e \<lparr>lp_size := lp_size e + lp_size b\<rparr>) = range_of e \<union> range_of b"
proof -
  let ?m = "e \<lparr>lp_size := lp_size e + lp_size b\<rparr>"
  have b: "lp_ok b" "\<forall>q \<in> set bs. lp_end b < lp_start q" using tab by (auto simp: table_def sorted_wrt_append)
  have m: "?m = extend b e" using lp_okD(1) [OF b(1)] lp_okD(1) [OF e(1)] e(3) by (auto simp: extend_def)
  note x = extend_spec [OF b(1) e(1) disjI2 [OF e(3) [symmetric]]]
  show "range_of ?m = range_of e \<union> range_of b" unfolding m x by blast
  have "table as" "table bs" "\<forall>a \<in> set as. \<forall>q \<in> set bs. lp_end a < lp_start q"
    using tab by (auto simp: table_def sorted_wrt_append)
  moreover have "lp_start ?m = lp_start e" "lp_end ?m = lp_end b"
    unfolding m x using e(3) lp_okD(1) [OF b(1)] lp_okD(1) [OF e(1)] by simp_all
  ultimately show "table (as @ ?m # bs)"
    using x(1) e(2) b(2) unfolding table_split m by simp
qed

text \<open>What \<open>lmb_add_region\<close> promises about the table it leaves.\<close>

definition added :: "lmb_region \<Rightarrow> lmb_property \<Rightarrow> int \<Rightarrow> lmb_region \<Rightarrow> bool" where
  "added rgn n ret rgn' \<longleftrightarrow> length (lr_region rgn') = length (lr_region rgn) \<and> 1 \<le> lr_cnt rgn' \<and>
     lr_cnt rgn' \<le> MAX_LMB_REGIONS \<and> table (entries rgn') \<and> 0 \<le> ret \<and> covered rgn' = covered rgn \<union> range_of n"

lemma add_after_hit:
  fixes rgn :: lmb_region
  assumes len: "length (lr_region rgn) = MAX_LMB_REGIONS + 1" "lr_cnt rgn \<le> MAX_LMB_REGIONS" and k: "k < lr_cnt rgn"
    and tab: "table (entries rgn)" and n: "lp_ok n" and disj: "range_of n \<inter> covered rgn = {}"
    and t: "touches n (lr_region rgn ! k)" and before: "\<forall>j. j < k \<longrightarrow> \<not> touches n (lr_region rgn ! j)"
    and rgn1: "rgn1 = rgn \<lparr>lr_region := (lr_region rgn)[k := extend n (lr_region rgn ! k)]\<rparr>"
  shows "hit_at rgn n k = Extended k rgn1"
    "\<exists>adj rgn'. (if k < cnt_minus_1 rgn1 then lmb_regions_adjacent rgn1 k (k + 1) else Some 0) = Some adj \<and>
       (adj = 0 \<and> rgn' = rgn1 \<or> adj \<noteq> 0 \<and> lmb_coalesce_regions rgn1 k (k + 1) = Some rgn') \<and> added rgn n 1 rgn'"
proof -
  let ?as = "take k (lr_region rgn)" and ?p = "lr_region rgn ! k"
  let ?e = "extend n ?p"
  define cs where "cs = drop (Suc k) (entries rgn)"
  have l: "lr_cnt rgn \<le> length (lr_region rgn)" using len by simp
  have sp: "entries rgn = ?as @ ?p # cs" by (rule entries_split [OF l k cs_def])
  have bef: "\<forall>a \<in> set ?as. \<not> touches n a"
  proof
    fix a assume "a \<in> set ?as"
    then obtain j where "j < k" "a = lr_region rgn ! j" by (auto simp: in_set_conv_nth)
    then show "\<not> touches n a" using before by blast
  qed
  note h = hit_neighbours [OF tab [unfolded sp] n disj [unfolded sp] t bef]
  have okp: "lp_ok ?p" using tab unfolding sp table_split by blast
  note e = extend_spec [OF n okp h(1)]
  show "hit_at rgn n k = Extended k rgn1" using h(2) by (simp add: hit_at_def rgn1)
  have e1: "entries rgn1 = ?as @ ?e # cs" unfolding rgn1 cs_def by (rule entries_update [OF l k])
  have cov: "covered rgn \<union> range_of n = cover ?as \<union> range_of ?e \<union> cover cs" unfolding sp by (auto simp: e(4))
  have cnt: "cnt_minus_1 rgn1 = lr_cnt rgn - 1" "lr_cnt rgn1 = lr_cnt rgn" using k by (simp_all add: cnt_minus_1_def rgn1)
  have plain: "added rgn n 1 rgn1" if "table (entries rgn1)"
    using that cov len k cnt(2) by (simp add: added_def e1 Un_assoc) (simp add: rgn1)
  show "\<exists>adj rgn'. (if k < cnt_minus_1 rgn1 then lmb_regions_adjacent rgn1 k (k + 1) else Some 0) = Some adj \<and>
      (adj = 0 \<and> rgn' = rgn1 \<or> adj \<noteq> 0 \<and> lmb_coalesce_regions rgn1 k (k + 1) = Some rgn') \<and> added rgn n 1 rgn'"
  proof (cases cs)
    case Nil
    then have "\<not> k < lr_cnt rgn - 1" using l by (simp add: cs_def entries_def)
    moreover have "table (entries rgn1)" unfolding e1 using table_extended [OF tab [unfolded sp] e(1) h(3)] Nil by simp
    ultimately show ?thesis using plain unfolding cnt by (intro exI [of _ 0] exI [of _ rgn1]) simp
  next
    case (Cons b bs)
    have cs: "drop (Suc k) (take (lr_cnt rgn) (lr_region rgn)) = b # bs" using Cons by (simp add: cs_def entries_def)
    then have "k + 1 < lr_cnt rgn" by (cases "k + 1 < lr_cnt rgn") simp_all
    moreover from this have b: "lr_region rgn ! (k + 1) = b"
      using arg_cong [OF cs, of hd] l by (simp add: hd_drop_conv_nth)
    ultimately have kb: "k < lr_cnt rgn - 1" "k + 1 < length (lr_region rgn)" "lr_region rgn1 ! k = ?e" "lr_region rgn1 ! (k + 1) = b"
      "k + 1 < lr_cnt rgn1" using l by (simp_all add: rgn1)
    have tbs: "table (b # bs)" "lp_ok b" using tab unfolding sp Cons table_split by (auto simp: table_def)
    have be: "lp_end ?e \<le> lp_start b" using h(4) Cons by simp
    have adj: "lmb_regions_adjacent rgn1 k (k + 1) = Some (if lp_start b = lp_end ?e then 1 else 0)"
      using kb be adjacent_cases [OF e(1) tbs(2)] lp_okD(1) [OF e(1)] lp_okD(1) [OF tbs(2)]
      by (simp add: lmb_regions_adjacent_def rgn1)
    show ?thesis
    proof (cases "lp_start b = lp_end ?e")
      case False
      then have "table (entries rgn1)" unfolding e1
        using table_extended [OF tab [unfolded sp] e(1) h(3)] first_above [OF tbs(1) be] Cons by auto
      then show ?thesis using plain adj False kb(1) unfolding cnt by (intro exI [of _ 0] exI [of _ rgn1]) simp
    next
      case True
      let ?m = "?e \<lparr>lp_size := lp_size ?e + lp_size b\<rparr>"
      let ?r = "rgn1 \<lparr>lr_region := (lr_region rgn1)[k := ?m]\<rparr>"
      note m = table_merged [OF tab [unfolded sp Cons] e(1) h(3) True [symmetric]]
      have lr: "lr_cnt ?r \<le> length (lr_region ?r)" "k + 1 < lr_cnt ?r" "k < lr_cnt rgn1" "lr_cnt rgn1 \<le> length (lr_region rgn1)"
        using l kb cnt by (simp_all add: rgn1)
      obtain r' where r': "lmb_remove_region ?r (k + 1) = Some r'" "length (lr_region r') = length (lr_region ?r)"
          "lr_cnt r' = lr_cnt ?r - 1" "entries r' = take (k + 1) (lr_region ?r) @ drop (Suc (k + 1)) (entries ?r)"
        using remove_region_spec [OF lr(1,2)] by blast
      have "lmb_coalesce_regions rgn1 k (k + 1) = Some r'"
        using kb r'(1) by (simp add: lmb_coalesce_regions_def set_region_eq rgn1)
      moreover have "entries r' = ?as @ ?m # bs"
        unfolding r'(4) entries_update [OF lr(4,3)] e1 using l k Cons
        by (simp add: rgn1 take_Suc_conv_app_nth take_update_swap min_def list_update_append)
      moreover have "covered rgn \<union> range_of n = cover ?as \<union> range_of ?m \<union> cover bs" unfolding cov m(2) Cons by auto
      ultimately have "lmb_coalesce_regions rgn1 k (k + 1) = Some r'" "added rgn n 1 r'"
        using m(1) r'(2,3) len kb(5) cnt(2) by (auto simp: added_def rgn1)
      then show ?thesis using adj True kb(1) unfolding cnt by (intro exI [of _ 1] exI [of _ r']) simp
    qed
  qed
qed

lemma insert_position:
  assumes tab: "table ps" and n: "lp_ok n" and disj: "range_of n \<inter> cover ps = {}" and no: "\<forall>p \<in> set ps. \<not> touches n p"
  obtains as bs where "ps = as @ bs" "\<forall>a \<in> set as. lp_base a \<le> lp_base n" "\<forall>b \<in> set bs. lp_base n < lp_base b" "table (as @ n # bs)"
proof -
  define as where "as = takeWhile (\<lambda>p. lp_base p \<le> lp_base n) ps"
  define bs where "bs = dropWhile (\<lambda>p. lp_base p \<le> lp_base n) ps"
  have ps: "ps = as @ bs" by (simp add: as_def bs_def)
  have as: "\<forall>a \<in> set as. lp_base a \<le> lp_base n" unfolding as_def using set_takeWhileD by fastforce
  have t: "table as" "table bs" "\<forall>a \<in> set as. \<forall>b \<in> set bs. lp_end a < lp_start b"
    using tab unfolding ps by (auto simp: table_def sorted_wrt_append)
  have bs: "\<forall>b \<in> set bs. lp_base n < lp_base b"
  proof (cases bs)
    case (Cons b bs')
    then have "\<not> lp_base b \<le> lp_base n" unfolding bs_def by (simp add: dropWhile_eq_Cons_conv)
    then show ?thesis using first_above [of b bs' "unat (lp_base n)"] t(2) unfolding Cons
      by (simp add: word_less_nat_alt word_le_nat_alt)
  qed simp
  have dis: "lp_end n < lp_start p \<or> lp_end p < lp_start n" "lp_start p < lp_end p" if "p \<in> set ps" for p
  proof -
    have ok: "lp_ok p" using tab that by (simp add: table_def)
    then show "lp_start p < lp_end p" by (rule lp_okD)
    have "range_of n \<inter> range_of p = {}" using disj that by (auto simp: cover_def)
    from disjoint_order(1) [OF n ok this] no [rule_format, OF that]
    show "lp_end n < lp_start p \<or> lp_end p < lp_start n" by linarith
  qed
  have "lp_end a < lp_start n" if "a \<in> set as" for a
  proof -
    have "lp_start a \<le> lp_start n" "a \<in> set ps" using as that by (simp_all add: ps word_le_nat_alt)
    then show ?thesis using dis [of a] lp_okD(1) [OF n] by linarith
  qed
  moreover have "lp_end n < lp_start b" if "b \<in> set bs" for b
  proof -
    have "lp_start n < lp_start b" "b \<in> set ps" using bs that by (simp_all add: ps word_less_nat_alt)
    then show ?thesis using dis [of b] by linarith
  qed
  ultimately have "table (as @ n # bs)" using t n by (simp add: table_split)
  then show thesis by (rule that [OF ps as bs])
qed

lemma add_insert:
  fixes rgn :: lmb_region
  assumes len: "length (lr_region rgn) = MAX_LMB_REGIONS + 1" "lr_cnt rgn < MAX_LMB_REGIONS" "1 \<le> lr_cnt rgn"
    and tab: "table (entries rgn)" and n: "lp_ok n" and disj: "range_of n \<inter> covered rgn = {}"
    and no: "\<forall>j. j < lr_cnt rgn \<longrightarrow> \<not> touches n (lr_region rgn ! j)"
  shows "\<exists>rgn' p0 rgn''. lmb_add_shift (lp_base n) (lp_size n) (lr_cnt rgn) rgn = Some rgn' \<and> rd (lr_region rgn') 0 = Some p0 \<and>
     (if lp_base n < lp_base p0 then set_region rgn' 0 n else Some rgn') = Some rgn'' \<and>
     added rgn n 0 (rgn'' \<lparr>lr_cnt := lr_cnt rgn'' + 1\<rparr>)"
proof -
  have no': "\<forall>p \<in> set (entries rgn). \<not> touches n p"
  proof
    fix p assume "p \<in> set (entries rgn)"
    then obtain j where "j < lr_cnt rgn" "p = lr_region rgn ! j" by (auto simp: in_set_conv_nth entries_def)
    then show "\<not> touches n p" using no by blast
  qed
  obtain as bs where s: "entries rgn = as @ bs" "\<forall>a \<in> set as. lp_base a \<le> lp_base n" "\<forall>b \<in> set bs. lp_base n < lp_base b"
      "table (as @ n # bs)" by (rule insert_position [OF tab n disj no'])
  obtain t rest where r: "lr_region rgn = as @ bs @ t # rest"
  proof -
    have "drop (lr_cnt rgn) (lr_region rgn) \<noteq> []" using len by simp
    then obtain t rest where "drop (lr_cnt rgn) (lr_region rgn) = t # rest" by (meson list.exhaust)
    then show thesis using that [of t rest] s(1) append_take_drop_id [of "lr_cnt rgn" "lr_region rgn"] by (simp add: entries_def)
  qed
  have c: "length (as @ bs) = lr_cnt rgn" using len arg_cong [OF s(1), of length] by (simp add: entries_def)
  let ?x = "if as = [] then hd (bs @ [t]) else n"
  let ?r = "rgn \<lparr>lr_region := as @ ?x # bs @ rest\<rparr>" and ?f = "rgn \<lparr>lr_region := as @ n # bs @ rest\<rparr>"
  have sh: "lmb_add_shift (lp_base n) (lp_size n) (lr_cnt rgn) rgn = Some ?r"
    unfolding c [symmetric] by (rule add_shift_spec [OF r s(3)]) (use s(2) in auto)
  have "(if lp_base n < lp_base (hd (as @ [?x])) then set_region ?r 0 n else Some ?r) = Some ?f"
  proof (cases as)
    case Nil
    then have "bs \<noteq> []" using c len(3) by auto
    then show ?thesis using Nil s(3) by (cases bs) (simp_all add: set_region_eq)
  next
    case (Cons a as')
    then show ?thesis using s(2) by (auto dest: leD)
  qed
  moreover have "rd (lr_region ?r) 0 = Some (hd (as @ [?x]))" by (cases as) simp_all
  moreover have "entries (?f \<lparr>lr_cnt := lr_cnt ?f + 1\<rparr>) = as @ n # bs" using c [symmetric] by (simp add: entries_def)
  then have "added rgn n 0 (?f \<lparr>lr_cnt := lr_cnt ?f + 1\<rparr>)" using len s(1,4) r by (auto simp: added_def)
  ultimately show ?thesis using sh by blast
qed

lemma add_region_hit:
  assumes "\<not> (lr_cnt rgn = 1 \<and> lp_size (lr_region rgn ! 0) = 0)" "0 < length (lr_region rgn)"
    and "lmb_add_scan rgn base sz 0 = Some (Extended k rgn1)"
    and "(if k < cnt_minus_1 rgn1 then lmb_regions_adjacent rgn1 k (k + 1) else Some 0) = Some adj"
    and "adj = 0 \<and> rgn' = rgn1 \<or> adj \<noteq> 0 \<and> lmb_coalesce_regions rgn1 k (k + 1) = Some rgn'"
  shows "lmb_add_region rgn base sz = Some (if adj = 0 then 1 else 2, rgn')"
  using assms(1,2,3,5) by (auto simp: lmb_add_region_def assms(4) simp del: bind_split_Some)

lemma add_region_miss:
  assumes "\<not> (lr_cnt rgn = 1 \<and> lp_size (lr_region rgn ! 0) = 0)" "0 < length (lr_region rgn)" "1 \<le> lr_cnt rgn"
    and "lmb_add_scan rgn base sz 0 = Some (NotFound (lr_cnt rgn))"
  shows "lr_cnt rgn \<ge> MAX_LMB_REGIONS \<Longrightarrow> lmb_add_region rgn base sz = Some (-1, rgn)"
    and "lr_cnt rgn < MAX_LMB_REGIONS \<Longrightarrow> lmb_add_shift base sz (lr_cnt rgn) rgn = Some rgn' \<Longrightarrow> rd (lr_region rgn') 0 = Some p0 \<Longrightarrow>
      (if base < lp_base p0 then set_region rgn' 0 \<lparr>lp_base = base, lp_size = sz\<rparr> else Some rgn') = Some rgn'' \<Longrightarrow>
      lmb_add_region rgn base sz = Some (0, rgn'' \<lparr>lr_cnt := lr_cnt rgn'' + 1\<rparr>)"
proof -
  have c: "\<not> lr_cnt rgn < cnt_minus_1 rgn" using assms(3) by (simp add: cnt_minus_1_def)
  show "lr_cnt rgn \<ge> MAX_LMB_REGIONS \<Longrightarrow> lmb_add_region rgn base sz = Some (-1, rgn)"
    using assms c by (auto simp: lmb_add_region_def simp del: bind_split_Some)
  assume a: "lr_cnt rgn < MAX_LMB_REGIONS" "lmb_add_shift base sz (lr_cnt rgn) rgn = Some rgn'" "rd (lr_region rgn') 0 = Some p0"
    "(if base < lp_base p0 then set_region rgn' 0 \<lparr>lp_base = base, lp_size = sz\<rparr> else Some rgn') = Some rgn''"
  have "\<not> MAX_LMB_REGIONS \<le> lr_cnt rgn" using a(1) by simp
  then show "lmb_add_region rgn base sz = Some (0, rgn'' \<lparr>lr_cnt := lr_cnt rgn'' + 1\<rparr>)"
    using assms(1,2) by (auto simp: lmb_add_region_def assms(4) c a(2-4) simp del: bind_split_Some rd_eq_Some)
qed

lemma add_region_fresh:
  fixes rgn :: lmb_region
  assumes wf: "lmb_wf rgn" and cnt: "1 \<le> lr_cnt rgn" and n: "lp_ok n" and disj: "range_of n \<inter> covered rgn = {}"
  shows "\<exists>ret rgn'. lmb_add_region rgn (lp_base n) (lp_size n) = Some (ret, rgn') \<and>
    (added rgn n ret rgn' \<or> ret = -1 \<and> rgn' = rgn \<and> lr_cnt rgn = MAX_LMB_REGIONS)"
proof (cases "lr_cnt rgn = 1 \<and> lp_size (lr_region rgn ! 0) = 0")
  case True
  let ?r = "rgn \<lparr>lr_region := (lr_region rgn)[0 := n]\<rparr>"
  have len: "length (lr_region rgn) = 129" using wf by (simp add: lmb_wf_def MAX_LMB_REGIONS_def)
  then have "entries rgn = [lr_region rgn ! 0]" "entries ?r = [n]" using True by (auto simp: entries_def take_Suc_conv_app_nth)
  then have "added rgn n 0 ?r"
    using True n by (simp add: added_def table_def range_of_def lp_end_def MAX_LMB_REGIONS_def)
  moreover have "\<lparr>lp_base = lp_base n, lp_size = lp_size n\<rparr> = n" by simp
  note self = this
  ultimately show ?thesis using True len by (simp add: lmb_add_region_def set_region_eq self)
next
  case False
  have len: "length (lr_region rgn) = MAX_LMB_REGIONS + 1" "lr_cnt rgn \<le> MAX_LMB_REGIONS" and tab: "table (entries rgn)"
    using wf False by (auto simp: lmb_wf_def)
  have l: "lr_cnt rgn \<le> length (lr_region rgn)" and l0: "0 < length (lr_region rgn)" using len by simp_all
  have self: "\<lparr>lp_base = lp_base n, lp_size = lp_size n\<rparr> = n" by simp
  have oks: "\<forall>p \<in> set (entries rgn). lp_ok p" using tab by (simp add: table_def)
  from add_scan_spec [OF n this l le0] show ?thesis
  proof
    assume "\<exists>k. 0 \<le> k \<and> k < lr_cnt rgn \<and> touches n (lr_region rgn ! k) \<and> (\<forall>j. 0 \<le> j \<and> j < k \<longrightarrow> \<not> touches n (lr_region rgn ! j)) \<and>
      lmb_add_scan rgn (lp_base n) (lp_size n) 0 = Some (hit_at rgn n k)"
    then obtain k where k: "k < lr_cnt rgn" "touches n (lr_region rgn ! k)" "\<forall>j. j < k \<longrightarrow> \<not> touches n (lr_region rgn ! j)"
      "lmb_add_scan rgn (lp_base n) (lp_size n) 0 = Some (hit_at rgn n k)" by (metis zero_le)
    let ?r = "rgn \<lparr>lr_region := (lr_region rgn)[k := extend n (lr_region rgn ! k)]\<rparr>"
    note hit = add_after_hit [OF len k(1) tab n disj k(2,3) refl]
    obtain adj rgn' where a: "(if k < cnt_minus_1 ?r then lmb_regions_adjacent ?r k (k + 1) else Some 0) = Some adj"
        "adj = 0 \<and> rgn' = ?r \<or> adj \<noteq> 0 \<and> lmb_coalesce_regions ?r k (k + 1) = Some rgn'" "added rgn n 1 rgn'"
      using hit(2) by blast
    show ?thesis using add_region_hit [OF False l0 k(4) [unfolded hit(1)] a(1,2)] a(3) by (auto simp: added_def)
  next
    assume "(\<forall>j. 0 \<le> j \<and> j < lr_cnt rgn \<longrightarrow> \<not> touches n (lr_region rgn ! j)) \<and>
      lmb_add_scan rgn (lp_base n) (lp_size n) 0 = Some (NotFound (lr_cnt rgn))"
    then have no: "\<forall>j. j < lr_cnt rgn \<longrightarrow> \<not> touches n (lr_region rgn ! j)"
      "lmb_add_scan rgn (lp_base n) (lp_size n) 0 = Some (NotFound (lr_cnt rgn))" by (metis zero_le, blast)
    show ?thesis
    proof (cases "lr_cnt rgn < MAX_LMB_REGIONS")
      case True
      obtain rgn' p0 rgn'' where "lmb_add_shift (lp_base n) (lp_size n) (lr_cnt rgn) rgn = Some rgn'" "rd (lr_region rgn') 0 = Some p0"
          "(if lp_base n < lp_base p0 then set_region rgn' 0 n else Some rgn') = Some rgn''"
          "added rgn n 0 (rgn'' \<lparr>lr_cnt := lr_cnt rgn'' + 1\<rparr>)"
        using add_insert [OF len(1) True cnt tab n disj no(1)] by blast
      then show ?thesis using add_region_miss(2) [OF False l0 cnt no(2) True, unfolded self] by blast
    next
      case full: False
      then show ?thesis using add_region_miss(1) [OF False l0 cnt no(2)] len(2) by simp
    qed
  qed
qed

lemma add_region_present:
  fixes rgn :: lmb_region
  assumes len: "lr_cnt rgn \<le> length (lr_region rgn)" and tab: "table (entries rgn)" and n: "n \<in> set (entries rgn)"
  shows "lmb_add_region rgn (lp_base n) (lp_size n) = Some (0, rgn)"
proof -
  have oks: "\<forall>p \<in> set (entries rgn). lp_ok p" using tab by (simp add: table_def)
  obtain m where m: "m < lr_cnt rgn" "n = lr_region rgn ! m" using n by (auto simp: in_set_conv_nth entries_def)
  then have l0: "0 < length (lr_region rgn)" using len by linarith
  have sep: "lp_end (lr_region rgn ! i) < lp_start (lr_region rgn ! j)" if "i < j" "j < lr_cnt rgn" for i j
    using tab that len sorted_wrt_nth_less [of "\<lambda>p q. lp_end p < lp_start q" "entries rgn" i j] by (simp add: table_def entries_def)
  have nd: "lp_start n < lp_end n" using oks n lp_okD(1) by blast
  have "\<not> (lr_cnt rgn = 1 \<and> lp_size (lr_region rgn ! 0) = 0)" using m n oks by (auto simp: lp_ok_def)
  moreover have uniq: "k = m" if "k < lr_cnt rgn" "touches n (lr_region rgn ! k)" for k
  proof (rule ccontr)
    assume "k \<noteq> m"
    moreover have "lr_region rgn ! k \<in> set (entries rgn)" using that len by (auto simp: in_set_conv_nth entries_def)
    then have "lp_start (lr_region rgn ! k) < lp_end (lr_region rgn ! k)" using oks lp_okD(1) by blast
    ultimately show False using sep [of k m] sep [of m k] m that nd by (cases k m rule: linorder_cases) auto
  qed
  have "(\<exists>k. (k < lr_cnt rgn \<and> touches n (lr_region rgn ! k)) \<and> lmb_add_scan rgn (lp_base n) (lp_size n) 0 = Some (hit_at rgn n k)) \<or>
      \<not> touches n (lr_region rgn ! m)"
    by (rule disj_forward [OF add_scan_spec [OF oks [rule_format, OF n] oks len le0]])
       (elim ex_forward conjE, intro conjI, assumption+, use m(1) in simp)
  then have "lmb_add_scan rgn (lp_base n) (lp_size n) 0 = Some Already"
  proof
    assume "\<exists>k. (k < lr_cnt rgn \<and> touches n (lr_region rgn ! k)) \<and> lmb_add_scan rgn (lp_base n) (lp_size n) 0 = Some (hit_at rgn n k)"
    then obtain k where k: "k < lr_cnt rgn" "touches n (lr_region rgn ! k)"
      "lmb_add_scan rgn (lp_base n) (lp_size n) 0 = Some (hit_at rgn n k)" by (elim exE conjE)
    show ?thesis using k(3) m(2) uniq [OF k(1,2)] by (simp add: hit_at_def)
  qed (simp add: m(2))
  ultimately show ?thesis using l0 by (auto simp: lmb_add_region_def)
qed

lemma added_wf: "lmb_wf rgn \<Longrightarrow> added rgn n ret rgn' \<Longrightarrow> lmb_wf rgn'"
  by (simp add: lmb_wf_def added_def)

text \<open>
  C27: Adding a range that is disjoint from a non-empty table, or that is one of its entries,
  returns. The table stays sorted with its entries disjoint and coalesced, and covers the old
  addresses and the new ones; or the result is negative, the table is full and unchanged.
\<close>

theorem lmb_add_region_correct:
  assumes "lmb_wf rgn" "1 \<le> lr_cnt rgn" "sz \<noteq> 0" "unat base + unat sz < 2 ^ 64"
    and "{unat base ..< unat base + unat sz} \<inter> covered rgn = {} \<or>
         table (entries rgn) \<and> \<lparr>lp_base = base, lp_size = sz\<rparr> \<in> set (entries rgn)"
  shows "\<exists>ret rgn'. lmb_add_region rgn base sz = Some (ret, rgn') \<and> lmb_wf rgn' \<and> 1 \<le> lr_cnt rgn' \<and>
    (if ret < 0 then rgn' = rgn \<and> lr_cnt rgn = MAX_LMB_REGIONS
     else covered rgn' = covered rgn \<union> {unat base ..< unat base + unat sz})"
proof -
  let ?n = "\<lparr>lp_base = base, lp_size = sz\<rparr>"
  have n: "lp_ok ?n" "range_of ?n = {unat base ..< unat base + unat sz}"
    using assms(3,4) by (simp_all add: lp_ok_def range_of_def lp_end_def)
  from assms(5) show ?thesis
  proof
    assume d: "{unat base ..< unat base + unat sz} \<inter> covered rgn = {}"
    obtain ret rgn' where r: "lmb_add_region rgn base sz = Some (ret, rgn')"
        "added rgn ?n ret rgn' \<or> ret = -1 \<and> rgn' = rgn \<and> lr_cnt rgn = MAX_LMB_REGIONS"
      using add_region_fresh [OF assms(1,2) n(1)] d n(2) by auto
    have "?thesis" if a: "added rgn ?n ret rgn'"
      using r(1) added_wf [OF assms(1) a] n(2) a by (auto simp: added_def)
    then show ?thesis using r assms(1,2) by auto
  next
    assume p: "table (entries rgn) \<and> ?n \<in> set (entries rgn)"
    have "lmb_add_region rgn base sz = Some (0, rgn)"
      using add_region_present [of rgn ?n] p assms(1) by (simp add: lmb_wf_def)
    moreover have "range_of ?n \<subseteq> covered rgn" using p by (auto simp: cover_def)
    ultimately show ?thesis using assms(1,2) n(2) by auto
  qed
qed

definition empty_region :: lmb_region where
  "empty_region = \<lparr>lr_cnt = 1, lr_size = 0, lr_region = replicate 129 \<lparr>lp_base = 0, lp_size = 0\<rparr>\<rparr>"

lemma empty_region: "lmb_wf empty_region" "covered empty_region = {}" "lr_cnt empty_region = 1"
  by (simp_all add: empty_region_def lmb_wf_def MAX_LMB_REGIONS_def entries_def cover_def range_of_def lp_end_def)

theorem lmb_add_region_correct_witness:
  "\<exists>ret rgn'. lmb_add_region empty_region 4096 8192 = Some (ret, rgn') \<and> lmb_wf rgn' \<and> covered rgn' = {4096 ..< 12288}"
proof -
  have e: "{unat (4096 :: u64) ..< unat (4096 :: u64) + unat (8192 :: u64)} \<inter> covered empty_region = {}" "(8192 :: u64) \<noteq> 0"
    "unat (4096 :: u64) + unat (8192 :: u64) < 2 ^ 64" "1 \<le> lr_cnt empty_region" by (simp_all add: empty_region)
  show ?thesis
    using lmb_add_region_correct [OF empty_region(1) e(4,2,3) disjI1 [OF e(1)]] empty_region(2,3)
    by (auto simp: MAX_LMB_REGIONS_def split: if_splits)
qed

section \<open>Removal\<close>

lemma remove_find_spec:
  fixes rgn :: lmb_region
  assumes "n = \<lparr>lp_base = base, lp_size = sz\<rparr>" "lp_ok n" "\<forall>p \<in> set (entries rgn). lp_ok p" "lr_cnt rgn \<le> length (lr_region rgn)" "i \<le> lr_cnt rgn"
  shows "\<exists>k. lmb_remove_find rgn base (base + sz) i = Some k \<and> i \<le> k \<and> k \<le> lr_cnt rgn \<and>
    (k < lr_cnt rgn \<longrightarrow> range_of n \<subseteq> range_of (lr_region rgn ! k)) \<and>
    (\<forall>j. i \<le> j \<and> j < k \<longrightarrow> \<not> range_of n \<subseteq> range_of (lr_region rgn ! j))"
  using assms(5)
proof (induction "lr_cnt rgn - i" arbitrary: i)
  case 0
  then show ?case by (subst lmb_remove_find.simps) (auto simp: lmb_remove_find.simps)
next
  case (Suc d)
  then have i: "i < lr_cnt rgn" by simp
  let ?p = "lr_region rgn ! i"
  have "?p \<in> set (entries rgn)" using i assms(4) by (auto simp: entries_def in_set_conv_nth)
  then have ok: "lp_ok ?p" using assms(3) by blast
  have "unat (base + sz) = lp_end n" using lp_okD(3) [OF assms(2)] by (simp add: assms(1))
  then have iff: "lp_base ?p \<le> base \<and> base + sz \<le> lp_base ?p + lp_size ?p \<longleftrightarrow> range_of n \<subseteq> range_of ?p"
    using lp_okD [OF ok] lp_okD [OF assms(2)] by (auto simp: word_le_nat_alt range_of_def assms(1))
  show ?case
  proof (cases "range_of n \<subseteq> range_of ?p")
    case True
    then show ?thesis using i assms(4) iff by (subst lmb_remove_find.simps) auto
  next
    case False
    then have step: "lmb_remove_find rgn base (base + sz) i = lmb_remove_find rgn base (base + sz) (Suc i)"
      using i assms(4) iff by (subst lmb_remove_find.simps) (auto simp del: bind_split_Some)
    have "d = lr_cnt rgn - Suc i" "Suc i \<le> lr_cnt rgn" using Suc(2) i by simp_all
    from Suc(1) [OF this] obtain k where k: "lmb_remove_find rgn base (base + sz) (Suc i) = Some k" "Suc i \<le> k" "k \<le> lr_cnt rgn"
      "k < lr_cnt rgn \<longrightarrow> range_of n \<subseteq> range_of (lr_region rgn ! k)" "\<forall>j. Suc i \<le> j \<and> j < k \<longrightarrow> \<not> range_of n \<subseteq> range_of (lr_region rgn ! j)" by blast
    moreover have "\<not> range_of n \<subseteq> range_of (lr_region rgn ! j)" if "i \<le> j" "j < k" for j
      using k(5) that False by (cases "j = i") auto
    ultimately show ?thesis unfolding step by (metis Suc_leD)
  qed
qed

text \<open>The shape a removal gives to the entry that contains the range.\<close>

lemma remove_shape:
  assumes tab: "table (as @ p # bs)" and q: "lp_ok q" "range_of q \<subseteq> range_of p"
  shows "table (as @ q # bs)" "cover (as @ q # bs) = cover (as @ p # bs) - (range_of p - range_of q)"
proof -
  have p: "lp_ok p" using tab by (simp add: table_split)
  have "lp_start q \<in> range_of p" "lp_end q - 1 \<in> range_of p"
    using q lp_okD(1) [OF q(1)] by (auto simp: range_of_def)
  then have b: "lp_start p \<le> lp_start q" "lp_end q \<le> lp_end p" using lp_okD(1) [OF q(1)] by (auto simp: range_of_def)
  then show "table (as @ q # bs)" using tab q(1) by (fastforce simp: table_split)
  have "range_of a \<inter> range_of p = {}" if "a \<in> set as \<union> set bs" for a
    using that tab by (fastforce simp: table_split range_of_def)
  then show "cover (as @ q # bs) = cover (as @ p # bs) - (range_of p - range_of q)"
    using q(2) unfolding cover_def by auto
qed

lemma table_delete: "table (as @ p # bs) \<Longrightarrow> table (as @ bs) \<and> cover (as @ bs) = cover (as @ p # bs) - range_of p"
proof -
  assume tab: "table (as @ p # bs)"
  have "range_of a \<inter> range_of p = {}" if "a \<in> set as \<union> set bs" for a
    using that tab by (fastforce simp: table_split range_of_def)
  moreover have "table (as @ bs)" using tab by (auto simp: table_def sorted_wrt_append)
  ultimately show ?thesis unfolding cover_def by auto
qed

text \<open>The table after the entry holding the range has been replaced by \<open>q\<close>.\<close>

lemma remove_replace:
  fixes rgn :: lmb_region
  assumes "lmb_wf rgn" "table (entries rgn)" "k < lr_cnt rgn" "lp_ok q" "range_of q \<subseteq> range_of (lr_region rgn ! k)"
  shows "set_region rgn k q = Some (rgn \<lparr>lr_region := (lr_region rgn)[k := q]\<rparr>)"
    "lmb_wf (rgn \<lparr>lr_region := (lr_region rgn)[k := q]\<rparr>)" "table (entries (rgn \<lparr>lr_region := (lr_region rgn)[k := q]\<rparr>))"
    "covered (rgn \<lparr>lr_region := (lr_region rgn)[k := q]\<rparr>) = covered rgn - (range_of (lr_region rgn ! k) - range_of q)"
proof -
  have l: "lr_cnt rgn \<le> length (lr_region rgn)" "k < length (lr_region rgn)" using assms(1,3) by (simp_all add: lmb_wf_def)
  define cs where "cs = drop (Suc k) (entries rgn)"
  note sp = entries_split [OF l(1) assms(3) cs_def] and up = entries_update [OF l(1) assms(3), folded cs_def]
  note sh = remove_shape [OF assms(2) [unfolded sp] assms(4,5)]
  show "set_region rgn k q = Some (rgn \<lparr>lr_region := (lr_region rgn)[k := q]\<rparr>)" using l(2) by (rule set_region_eq)
  show t: "table (entries (rgn \<lparr>lr_region := (lr_region rgn)[k := q]\<rparr>))" unfolding up by (rule sh(1))
  then show "lmb_wf (rgn \<lparr>lr_region := (lr_region rgn)[k := q]\<rparr>)" using assms(1) by (simp add: lmb_wf_def)
  show "covered (rgn \<lparr>lr_region := (lr_region rgn)[k := q]\<rparr>) = covered rgn - (range_of (lr_region rgn ! k) - range_of q)"
    unfolding up sh(2) unfolding sp ..
qed

lemma remove_whole:
  fixes rgn :: lmb_region
  assumes "lmb_wf rgn" "table (entries rgn)" "k < lr_cnt rgn"
  shows "\<exists>rgn'. lmb_remove_region rgn k = Some rgn' \<and> lmb_wf rgn' \<and> covered rgn' = covered rgn - range_of (lr_region rgn ! k)"
proof -
  have l: "lr_cnt rgn \<le> length (lr_region rgn)" using assms(1) by (simp add: lmb_wf_def)
  define cs where "cs = drop (Suc k) (entries rgn)"
  note sp = entries_split [OF l assms(3) cs_def]
  obtain rgn' where r: "lmb_remove_region rgn k = Some rgn'" "length (lr_region rgn') = length (lr_region rgn)"
      "lr_cnt rgn' = lr_cnt rgn - 1" "entries rgn' = take k (lr_region rgn) @ cs"
    using remove_region_spec [OF l assms(3)] unfolding cs_def by blast
  note d = table_delete [OF assms(2) [unfolded sp]]
  have "covered rgn' = covered rgn - range_of (lr_region rgn ! k)" unfolding r(4) using d unfolding sp by blast
  moreover have "lmb_wf rgn'" unfolding lmb_wf_def r(4) using d r(2,3) assms(1) by (auto simp: lmb_wf_def)
  ultimately show ?thesis using r(1) by blast
qed

text \<open>The operation on the table once the entry has been found.\<close>

definition remove_op :: "lmb_region \<Rightarrow> nat \<Rightarrow> lmb_property \<Rightarrow> u64 \<Rightarrow> u64 \<Rightarrow> (int \<times> lmb_region) option" where
  "remove_op rgn k p base sz =
     (if lp_base p = base \<and> lp_base p + lp_size p = base + sz then do { rgn \<leftarrow> lmb_remove_region rgn k; Some (0, rgn) }
      else if lp_base p = base then
        do { rgn \<leftarrow> set_region rgn k \<lparr>lp_base = base + sz, lp_size = lp_size p - sz\<rparr>; Some (0, rgn) }
      else if lp_base p + lp_size p = base + sz then
        do { rgn \<leftarrow> set_region rgn k (p \<lparr>lp_size := lp_size p - sz\<rparr>); Some (0, rgn) }
      else do { rgn \<leftarrow> set_region rgn k (p \<lparr>lp_size := base - lp_base p\<rparr>);
                lmb_add_region rgn (base + sz) (lp_base p + lp_size p - (base + sz)) })"

lemma remove_found:
  fixes rgn :: lmb_region
  assumes wf: "lmb_wf rgn" "table (entries rgn)" and k: "k < lr_cnt rgn" "p = lr_region rgn ! k"
    and n: "n = \<lparr>lp_base = base, lp_size = sz\<rparr>" "lp_ok n" "range_of n \<subseteq> range_of p"
  shows "\<exists>ret rgn'. remove_op rgn k p base sz = Some (ret, rgn') \<and>
      lmb_wf rgn' \<and>
      (0 \<le> ret \<and> covered rgn' = covered rgn - range_of n \<or>
       ret = -1 \<and> lr_cnt rgn = MAX_LMB_REGIONS \<and> covered rgn' = covered rgn - {lp_start n ..< lp_end p})"
proof -
  have "p \<in> set (entries rgn)" using k wf(1) by (auto simp: entries_def in_set_conv_nth lmb_wf_def)
  then have p: "lp_ok p" "range_of p \<subseteq> covered rgn" using wf(2) by (auto simp: table_def cover_def)
  note dp = lp_okD [OF p(1)] and dn = lp_okD [OF n(2)]
  have b: "lp_start p \<le> lp_start n" "lp_end n \<le> lp_end p" using n(3) dn(1) by (auto simp: range_of_def)
  have w: "unat (base + sz) = lp_end n" "unat base = lp_start n" "unat sz = lp_end n - lp_start n"
    using dn(3) by (simp_all add: n(1) lp_end_def)
  have e1: "lp_base p = base \<longleftrightarrow> lp_start p = lp_start n" by (simp add: n(1) word_unat_eq_iff)
  have e2: "lp_base p + lp_size p = base + sz \<longleftrightarrow> lp_end p = lp_end n" using dp(3) w(1) by (simp add: word_unat_eq_iff)
  have usz: "unat (lp_size p) = lp_end p - lp_start p" by (simp add: lp_end_def)
  have us: "unat (lp_size p - sz) = lp_end p - lp_start p - (lp_end n - lp_start n)"
    using b dn(1) dp(1) by (subst unat_diff) (simp_all add: usz w(3))
  consider (whole) "lp_start p = lp_start n" "lp_end p = lp_end n" | (front) "lp_start p = lp_start n" "lp_end n < lp_end p"
    | (rear) "lp_start p < lp_start n" "lp_end p = lp_end n" | (split) "lp_start p < lp_start n" "lp_end n < lp_end p"
    using b by linarith
  then show ?thesis
  proof cases
    case whole
    then have "range_of p = range_of n" by (simp add: range_of_def)
    then show ?thesis using remove_whole [OF wf k(1)] k(2) unfolding remove_op_def e1 e2 using whole by auto
  next
    case front
    let ?q = "\<lparr>lp_base = base + sz, lp_size = lp_size p - sz\<rparr>"
    have q: "lp_start ?q = lp_end n" "lp_end ?q = lp_end p" using front dn(1) us w by (simp_all add: lp_end_def [of ?q])
    then have ok: "lp_ok ?q" using front dp(2) unfolding lp_ok_def lp_end_def [of ?q] by auto
    have "range_of ?q \<subseteq> range_of (lr_region rgn ! k)" "range_of (lr_region rgn ! k) - range_of ?q = range_of n"
      using q front dn(1) k(2) by (auto simp: range_of_def)
    with remove_replace [OF wf k(1) ok] show ?thesis unfolding remove_op_def e1 e2 using front by auto
  next
    case rear
    let ?q = "p \<lparr>lp_size := lp_size p - sz\<rparr>"
    have q: "lp_start ?q = lp_start p" "lp_end ?q = lp_start n" using rear dn(1) us w by (simp_all add: lp_end_def [of ?q])
    then have ok: "lp_ok ?q" using rear dp(2) dn unfolding lp_ok_def lp_end_def [of ?q] by auto
    have "range_of ?q \<subseteq> range_of (lr_region rgn ! k)" "range_of (lr_region rgn ! k) - range_of ?q = range_of n"
      using q rear dn(1) k(2) by (auto simp: range_of_def)
    with remove_replace [OF wf k(1) ok] show ?thesis unfolding remove_op_def e1 e2 using rear by auto
  next
    case split
    let ?q = "p \<lparr>lp_size := base - lp_base p\<rparr>" and ?r = "\<lparr>lp_base = base + sz, lp_size = lp_base p + lp_size p - (base + sz)\<rparr>"
    have "unat (base - lp_base p) = lp_start n - lp_start p" using split by (subst unat_diff) (simp_all add: w)
    then have q: "lp_start ?q = lp_start p" "lp_end ?q = lp_start n" using split by (simp_all add: lp_end_def [of ?q])
    then have ok: "lp_ok ?q" using split dp(2) dn unfolding lp_ok_def lp_end_def [of ?q] by auto
    have "unat (lp_base p + lp_size p - (base + sz)) = lp_end p - lp_end n" using split by (subst unat_diff) (simp_all add: w dp(3))
    then have r: "lp_start ?r = lp_end n" "lp_end ?r = lp_end p" using split w by (simp_all add: lp_end_def [of ?r])
    then have okr: "lp_ok ?r" using split dp(2) unfolding lp_ok_def lp_end_def [of ?r] by auto
    have sub: "range_of ?q \<subseteq> range_of (lr_region rgn ! k)" using q split dn(1) k(2) by (auto simp: range_of_def)
    let ?g = "rgn \<lparr>lr_region := (lr_region rgn)[k := ?q]\<rparr>"
    note rep = remove_replace [OF wf k(1) ok sub]
    have cov: "covered ?g = covered rgn - {lp_start n ..< lp_end p}"
      unfolding rep(4) using q split dn(1) k(2) by (auto simp: range_of_def)
    have "range_of ?r \<inter> covered ?g = {}" unfolding cov using r split dn(1) by (auto simp: range_of_def)
    then obtain ret rgn' where a: "lmb_add_region ?g (lp_base ?r) (lp_size ?r) = Some (ret, rgn')"
        "added ?g ?r ret rgn' \<or> ret = -1 \<and> rgn' = ?g \<and> lr_cnt ?g = MAX_LMB_REGIONS"
      using add_region_fresh [OF rep(2) _ okr] k(1) by auto
    have op: "remove_op rgn k p base sz = Some (ret, rgn')" unfolding remove_op_def e1 e2 using split rep(1) a(1) by auto
    have "covered ?g \<union> range_of ?r = covered rgn - range_of n"
      unfolding cov using p(2) r split dn(1) by (auto simp: range_of_def)
    moreover have "lmb_wf rgn'" using a(2) added_wf [OF rep(2)] rep(2) by blast
    ultimately show ?thesis using op a(2) cov by (auto simp: added_def)
  qed
qed

text \<open>
  C28: Removing a range that lies within one entry of the memory table leaves a well-formed table
  that covers the old addresses without the range. If no entry contains the range the result is
  -1 and nothing changes. When the removal would split an entry of a full table, the result is -1 and
  the part of the entry above the range is lost as well.
\<close>

theorem lmb_remove_correct:
  assumes wf: "lmb_wf (lmb_memory l)" "table (entries (lmb_memory l))" and sz: "sz \<noteq> 0" "unat base + unat sz < 2 ^ 64"
  shows "\<exists>ret l'. lmb_remove l base sz = Some (ret, l') \<and> lmb_wf (lmb_memory l') \<and> lmb_reserved l' = lmb_reserved l \<and>
    (if \<exists>p \<in> set (entries (lmb_memory l)). {unat base ..< unat base + unat sz} \<subseteq> range_of p
     then 0 \<le> ret \<and> covered (lmb_memory l') = covered (lmb_memory l) - {unat base ..< unat base + unat sz} \<or>
          ret = -1 \<and> lr_cnt (lmb_memory l) = MAX_LMB_REGIONS \<and>
          (\<exists>p \<in> set (entries (lmb_memory l)). {unat base ..< unat base + unat sz} \<subseteq> range_of p \<and>
             covered (lmb_memory l') = covered (lmb_memory l) - {unat base ..< lp_end p})
     else ret = -1 \<and> l' = l)"
proof -
  let ?n = "\<lparr>lp_base = base, lp_size = sz\<rparr>" and ?m = "lmb_memory l"
  have n: "lp_ok ?n" "range_of ?n = {unat base ..< unat base + unat sz}" "lp_start ?n = unat base"
    using sz by (simp_all add: lp_ok_def range_of_def lp_end_def)
  have len: "lr_cnt ?m \<le> length (lr_region ?m)" using wf(1) by (simp add: lmb_wf_def)
  have oks: "\<forall>p \<in> set (entries ?m). lp_ok p" using wf(2) by (simp add: table_def)
  obtain k where k: "lmb_remove_find ?m base (base + sz) 0 = Some k" "k \<le> lr_cnt ?m"
      "k < lr_cnt ?m \<longrightarrow> range_of ?n \<subseteq> range_of (lr_region ?m ! k)" "\<forall>j. j < k \<longrightarrow> \<not> range_of ?n \<subseteq> range_of (lr_region ?m ! j)"
    using remove_find_spec [OF refl n(1) oks len le0] by auto
  show ?thesis
  proof (cases "k = lr_cnt ?m")
    case True
    then have "\<not> (\<exists>p \<in> set (entries ?m). range_of ?n \<subseteq> range_of p)" using k(4) by (auto simp: entries_def in_set_conv_nth)
    then show ?thesis using True k(1) wf(1) n(2) by (simp add: lmb_remove_def Let_def)
  next
    case False
    then have kl: "k < lr_cnt ?m" "k < length (lr_region ?m)" using k(2) len by simp_all
    let ?p = "lr_region ?m ! k"
    have p: "?p \<in> set (entries ?m)" "range_of ?n \<subseteq> range_of ?p" using kl k(3) by (auto simp: entries_def in_set_conv_nth)
    note found = remove_found [OF wf kl(1) refl refl n(1) p(2)]
    obtain ret rgn' where r: "lmb_remove l base sz = Some (ret, l \<lparr>lmb_memory := rgn'\<rparr>)" "lmb_wf rgn'"
        "0 \<le> ret \<and> covered rgn' = covered ?m - range_of ?n \<or>
         ret = -1 \<and> lr_cnt ?m = MAX_LMB_REGIONS \<and> covered rgn' = covered ?m - {lp_start ?n ..< lp_end ?p}"
    proof -
      obtain ret rgn' where f: "remove_op ?m k ?p base sz = Some (ret, rgn')" "lmb_wf rgn'"
        "0 \<le> ret \<and> covered rgn' = covered ?m - range_of ?n \<or>
         ret = -1 \<and> lr_cnt ?m = MAX_LMB_REGIONS \<and> covered rgn' = covered ?m - {lp_start ?n ..< lp_end ?p}"
        using found by blast
      have "lmb_remove l base sz = Some (ret, l \<lparr>lmb_memory := rgn'\<rparr>)"
        unfolding lmb_remove_def Let_def k(1) bind.simps if_not_P [OF False] rd_in [OF kl(2)] f(1) [unfolded remove_op_def] by simp
      then show thesis using that f(2,3) by blast
    qed
    moreover have "\<exists>p \<in> set (entries ?m). {unat base ..< unat base + unat sz} \<subseteq> range_of p" using p n(2) by auto
    ultimately show ?thesis using p unfolding n(2,3) by auto
  qed
qed

definition example_lmb :: lmb where
  "example_lmb = \<lparr>lmb_debug = 0, lmb_rmo_size = 0,
     lmb_memory = empty_region \<lparr>lr_region := (replicate 129 \<lparr>lp_base = 0, lp_size = 0\<rparr>)[0 := \<lparr>lp_base = 0, lp_size = 65536\<rparr>]\<rparr>,
     lmb_reserved = empty_region\<rparr>"

lemma example_lmb:
  "entries (lmb_memory example_lmb) = [\<lparr>lp_base = 0, lp_size = 65536\<rparr>]" "lmb_reserved example_lmb = empty_region"
  "lr_cnt (lmb_memory example_lmb) = 1" "length (lr_region (lmb_memory example_lmb)) = 129"
  by (simp_all add: example_lmb_def empty_region_def entries_def numeral_eq_Suc)

lemma example_lmb_wf: "lmb_wf (lmb_memory example_lmb)" "table (entries (lmb_memory example_lmb))"
  by (simp_all add: lmb_wf_def example_lmb MAX_LMB_REGIONS_def table_def lp_ok_def lp_end_def)

theorem lmb_remove_correct_witness:
  "\<exists>ret l'. lmb_remove example_lmb 4096 4096 = Some (ret, l') \<and> covered (lmb_memory l') = {0 ..< 65536} - {4096 ..< 8192}"
proof -
  have "(4096 :: u64) \<noteq> 0" "unat (4096 :: u64) + unat (4096 :: u64) < 2 ^ 64" by simp_all
  from lmb_remove_correct [OF example_lmb_wf this] show ?thesis
    by (auto simp: example_lmb range_of_def lp_end_def MAX_LMB_REGIONS_def split: if_splits)
qed

section \<open>Allocation\<close>

lemma overlaps_from_spec:
  fixes rgn :: lmb_region
  assumes wf: "lmb_wf rgn" and n: "lp_ok n" and i: "i \<le> lr_cnt rgn"
  shows "\<exists>k. lmb_overlaps_from rgn (lp_base n) (lp_size n) i = Some k \<and> i \<le> k \<and> k \<le> lr_cnt rgn \<and>
    (k < lr_cnt rgn \<longrightarrow> lp_ok (lr_region rgn ! k) \<and> range_of n \<inter> range_of (lr_region rgn ! k) \<noteq> {}) \<and>
    (\<forall>j. i \<le> j \<and> j < k \<longrightarrow> range_of n \<inter> range_of (lr_region rgn ! j) = {})"
  using i
proof (induction "lr_cnt rgn - i" arbitrary: i)
  case 0
  then show ?case by (subst lmb_overlaps_from.simps) (auto simp: lmb_overlaps_from.simps)
next
  case (Suc d)
  then have i: "i < lr_cnt rgn" "i < length (lr_region rgn)" using wf by (simp_all add: lmb_wf_def)
  let ?p = "lr_region rgn ! i"
  have iff: "lmb_addrs_overlap (lp_base n) (lp_size n) (lp_base ?p) (lp_size ?p) \<longleftrightarrow> lp_ok ?p \<and> range_of n \<inter> range_of ?p \<noteq> {}"
  proof (cases "lp_ok ?p")
    case True
    then show ?thesis using overlap_iff [OF n True] by simp
  next
    case False
    have "?p \<in> set (entries rgn)" using i by (auto simp: entries_def in_set_conv_nth)
    then have "\<not> table (entries rgn)" using False by (auto simp: table_def)
    then have "?p = \<lparr>lp_base = 0, lp_size = 0\<rparr>" using wf i by (auto simp: lmb_wf_def)
    then show ?thesis using False by (simp add: lmb_addrs_overlap_def)
  qed
  have emp: "range_of n \<inter> range_of ?p = {}" if "\<not> lp_ok ?p"
  proof -
    have "?p \<in> set (entries rgn)" using i by (auto simp: entries_def in_set_conv_nth)
    then have "\<not> table (entries rgn)" using that by (auto simp: table_def)
    then have "?p = \<lparr>lp_base = 0, lp_size = 0\<rparr>" using wf i by (auto simp: lmb_wf_def)
    then show ?thesis by (simp add: range_of_def lp_end_def)
  qed
  show ?case
  proof (cases "lp_ok ?p \<and> range_of n \<inter> range_of ?p \<noteq> {}")
    case True
    then show ?thesis using i iff by (subst lmb_overlaps_from.simps) auto
  next
    case False
    then have step: "lmb_overlaps_from rgn (lp_base n) (lp_size n) i = lmb_overlaps_from rgn (lp_base n) (lp_size n) (Suc i)"
      using i iff by (subst lmb_overlaps_from.simps) (auto simp del: bind_split_Some)
    have "d = lr_cnt rgn - Suc i" "Suc i \<le> lr_cnt rgn" using Suc(2) i by simp_all
    from Suc(1) [OF this] obtain k where k: "lmb_overlaps_from rgn (lp_base n) (lp_size n) (Suc i) = Some k" "Suc i \<le> k" "k \<le> lr_cnt rgn"
      "k < lr_cnt rgn \<longrightarrow> lp_ok (lr_region rgn ! k) \<and> range_of n \<inter> range_of (lr_region rgn ! k) \<noteq> {}"
      "\<forall>j. Suc i \<le> j \<and> j < k \<longrightarrow> range_of n \<inter> range_of (lr_region rgn ! j) = {}" by blast
    moreover have "range_of n \<inter> range_of (lr_region rgn ! j) = {}" if "i \<le> j" "j < k" for j
      using k(5) that False emp by (cases "j = i") auto
    ultimately show ?thesis unfolding step by (metis Suc_leD)
  qed
qed

lemma overlaps_region_spec:
  fixes rgn :: lmb_region
  assumes wf: "lmb_wf rgn" and n: "lp_ok n"
  obtains (free) "lmb_overlaps_region rgn (lp_base n) (lp_size n) = Some (-1)" "range_of n \<inter> covered rgn = {}"
  | (taken) j where "lmb_overlaps_region rgn (lp_base n) (lp_size n) = Some (int j)" "j < length (lr_region rgn)"
      "lp_ok (lr_region rgn ! j)" "range_of n \<inter> range_of (lr_region rgn ! j) \<noteq> {}" "range_of (lr_region rgn ! j) \<subseteq> covered rgn"
proof -
  obtain k where k: "lmb_overlaps_from rgn (lp_base n) (lp_size n) 0 = Some k" "k \<le> lr_cnt rgn"
    "k < lr_cnt rgn \<longrightarrow> lp_ok (lr_region rgn ! k) \<and> range_of n \<inter> range_of (lr_region rgn ! k) \<noteq> {}"
    "\<forall>j. j < k \<longrightarrow> range_of n \<inter> range_of (lr_region rgn ! j) = {}"
    using overlaps_from_spec [OF wf n le0] by auto
  show thesis
  proof (cases "k < lr_cnt rgn")
    case True
    have len: "k < length (lr_region rgn)" using True wf by (simp add: lmb_wf_def)
    then have "lr_region rgn ! k \<in> set (entries rgn)" using True by (auto simp: entries_def in_set_conv_nth)
    then have "range_of (lr_region rgn ! k) \<subseteq> covered rgn" by (auto simp: cover_def)
    then show thesis using taken [of k] k(1,3) True len by (simp add: lmb_overlaps_region_def)
  next
    case False
    have "\<forall>p \<in> set (entries rgn). range_of n \<inter> range_of p = {}"
    proof
      fix p assume "p \<in> set (entries rgn)"
      then obtain i where "i < lr_cnt rgn" "p = lr_region rgn ! i" by (auto simp: entries_def in_set_conv_nth)
      then show "range_of n \<inter> range_of p = {}" using k(2,4) False by simp
    qed
    then have "range_of n \<inter> covered rgn = {}" unfolding cover_def by blast
    then show thesis using free k(1) False by (simp add: lmb_overlaps_region_def)
  qed
qed

lemma align_down_spec:
  assumes "k < 64"
  shows "2 ^ k dvd unat (lmb_align_down a (2 ^ k))" "unat (lmb_align_down a (2 ^ k)) \<le> unat a"
    "2 ^ k dvd x \<Longrightarrow> x \<le> unat a \<Longrightarrow> x \<le> unat (lmb_align_down a (2 ^ k))"
proof -
  have e: "unat (lmb_align_down a (2 ^ k)) = unat a div 2 ^ k * 2 ^ k"
    unfolding lmb_align_down_def by (simp only: mask_eq_exp_minus_1 [symmetric] unat_and_not_mask)
  show "2 ^ k dvd unat (lmb_align_down a (2 ^ k))" "unat (lmb_align_down a (2 ^ k)) \<le> unat a"
    unfolding e by (simp_all add: div_times_less_eq_dividend)
  assume "2 ^ k dvd x" "x \<le> unat a"
  then have "x div 2 ^ k * 2 ^ k = x" "x div 2 ^ k \<le> unat a div 2 ^ k" by (simp_all add: div_le_mono)
  then show "x \<le> unat (lmb_align_down a (2 ^ k))" unfolding e by (metis mult_le_mono1)
qed

text \<open>Blocks of \<open>sz\<close> bytes at \<open>x\<close> that the allocator may hand out.\<close>

definition unreserved :: "lmb \<Rightarrow> nat \<Rightarrow> nat \<Rightarrow> nat \<Rightarrow> bool" where
  "unreserved l a sz x \<longleftrightarrow> 0 < x \<and> a dvd x \<and> {x ..< x + sz} \<inter> covered (lmb_reserved l) = {}"

text \<open>The answer of a search among the candidates \<open>C\<close>: the highest one, reserved, or a full table.\<close>

definition allocated :: "lmb \<Rightarrow> nat \<Rightarrow> (nat \<Rightarrow> bool) \<Rightarrow> u64 \<Rightarrow> lmb \<Rightarrow> bool" where
  "allocated l sz C r l' \<longleftrightarrow> lmb_memory l' = lmb_memory l \<and> lmb_rmo_size l' = lmb_rmo_size l \<and> lmb_wf (lmb_reserved l') \<and>
     1 \<le> lr_cnt (lmb_reserved l') \<and>
     (C (unat r) \<and> (\<forall>x. C x \<longrightarrow> x \<le> unat r) \<and>
        covered (lmb_reserved l') = covered (lmb_reserved l) \<union> {unat r ..< unat r + sz} \<or>
      r = 0 \<and> (\<exists>x. C x) \<and> l' = l \<and> lr_cnt (lmb_reserved l) = MAX_LMB_REGIONS)"

lemma alloc_base_while_spec:
  assumes wf: "lmb_wf (lmb_reserved l)" "1 \<le> lr_cnt (lmb_reserved l)" and k: "k < 64" and sz: "sz \<noteq> 0"
    and base: "2 ^ k dvd unat base" "unat base + unat sz < 2 ^ 64"
    and C: "C = (\<lambda>x. unreserved l (2 ^ k) (unat sz) x \<and> unat lmbbase \<le> x \<and> x \<le> unat base)"
  shows "alloc_base_while lmbbase sz (2 ^ k) l base = Some None \<and> (\<forall>x. \<not> C x) \<or>
    (\<exists>r l'. alloc_base_while lmbbase sz (2 ^ k) l base = Some (Some (r, l')) \<and> allocated l (unat sz) C r l')"
  using base C
proof (induction "unat base" arbitrary: base C rule: less_induct)
  case less
  show ?case
  proof (cases "base \<noteq> 0 \<and> lmbbase \<le> base")
    case False
    then have "\<not> C x" for x unfolding less.prems(3) unreserved_def by (auto simp: word_le_nat_alt)
    then show ?thesis using False by (subst alloc_base_while.simps) auto
  next
    case True
    let ?n = "\<lparr>lp_base = base, lp_size = sz\<rparr>"
    have n: "lp_ok ?n" "range_of ?n = {unat base ..< unat base + unat sz}"
      using sz less.prems(2) by (simp_all add: lp_ok_def range_of_def lp_end_def)
    from wf(1) n(1) show ?thesis
    proof (cases rule: overlaps_region_spec)
      case free
      then obtain ret rgn' where a: "lmb_add_region (lmb_reserved l) base sz = Some (ret, rgn')"
          "added (lmb_reserved l) ?n ret rgn' \<or> ret = -1 \<and> rgn' = lmb_reserved l \<and> lr_cnt (lmb_reserved l) = MAX_LMB_REGIONS"
        using add_region_fresh [OF wf n(1)] by auto
      have run: "alloc_base_while lmbbase sz (2 ^ k) l base = Some (Some (if ret < 0 then 0 else base, l \<lparr>lmb_reserved := rgn'\<rparr>))"
        using True free(1) a(1) by (subst alloc_base_while.simps) simp
      have Cb: "C (unat base)" using True free(2) less.prems n(2) by (auto simp: unreserved_def word_le_nat_alt unat_gt_0)
      have "\<forall>x. C x \<longrightarrow> x \<le> unat base" using less.prems(3) by simp
      moreover have "lmb_wf rgn'" "1 \<le> lr_cnt rgn'" using a(2) added_wf [OF wf(1)] wf by (blast, auto simp: added_def)
      ultimately have "allocated l (unat sz) C (if ret < 0 then 0 else base) (l \<lparr>lmb_reserved := rgn'\<rparr>)"
        using a(2) Cb n(2) by (auto simp: allocated_def added_def)
      then show ?thesis using run by blast
    next
      case (taken j)
      let ?p = "lr_region (lmb_reserved l) ! j"
      have ov: "unat base < lp_end ?p" "lp_start ?p < unat base + unat sz" using taken(4) n(2) by (auto simp: range_of_def)
      have below: "x + unat sz \<le> lp_start ?p" if "C x" for x
      proof -
        have "{x ..< x + unat sz} \<inter> range_of ?p = {}" "x \<le> unat base"
          using that taken(5) unfolding less.prems(3) unreserved_def by blast+
        moreover have "x \<in> {x ..< x + unat sz}" "lp_start ?p \<in> range_of ?p"
          using sz lp_okD(1) [OF taken(3)] by (simp_all add: range_of_def unat_gt_0)
        ultimately have "x \<notin> range_of ?p" "lp_start ?p \<notin> {x ..< x + unat sz}" by blast+
        then show ?thesis using ov(1) \<open>x \<le> unat base\<close> lp_okD(1) [OF taken(3)] by (auto simp: range_of_def)
      qed
      have step: "alloc_base_while lmbbase sz (2 ^ k) l base =
          (if lp_base ?p < sz then Some None else alloc_base_while lmbbase sz (2 ^ k) l (lmb_align_down (lp_base ?p - sz) (2 ^ k)))"
        using True taken(1,2) by (subst alloc_base_while.simps) simp
      show ?thesis
      proof (cases "lp_base ?p < sz")
        case True
        then have "\<not> C x" for x using below [of x] by (auto simp: word_less_nat_alt)
        then show ?thesis using True step by simp
      next
        case False
        let ?b = "lmb_align_down (lp_base ?p - sz) (2 ^ k)"
        have d: "unat (lp_base ?p - sz) = lp_start ?p - unat sz" using False by (intro unat_diff) (simp add: word_less_nat_alt)
        note al = align_down_spec [OF k, where a = "lp_base ?p - sz"]
        have le: "unat ?b + unat sz \<le> lp_start ?p" using al(2) d False by (simp add: word_less_nat_alt)
        then have lt: "unat ?b < unat base" "unat ?b + unat sz < 2 ^ 64" using ov(2) lp_okD(1,2) [OF taken(3)] by linarith+
        have "C = (\<lambda>x. unreserved l (2 ^ k) (unat sz) x \<and> unat lmbbase \<le> x \<and> x \<le> unat ?b)"
        proof
          fix x
          have "x \<le> unat ?b" if "C x"
            using below [OF that] that d by (intro al(3)) (auto simp: less.prems(3) unreserved_def)
          then show "C x = (unreserved l (2 ^ k) (unat sz) x \<and> unat lmbbase \<le> x \<and> x \<le> unat ?b)"
            using lt(1) unfolding less.prems(3) by auto
        qed
        from less.hyps [OF lt(1) al(1) lt(2) this] show ?thesis using False step by simp
      qed
    qed
  qed
qed

text \<open>The candidates of \<open>raw_lmb_alloc_base\<close> within the first \<open>i\<close> memory entries.\<close>

definition candidate :: "lmb \<Rightarrow> nat \<Rightarrow> nat \<Rightarrow> nat \<Rightarrow> nat \<Rightarrow> nat \<Rightarrow> bool" where
  "candidate l a sz m i x \<longleftrightarrow> unreserved l a sz x \<and> (m = 0 \<or> x + sz \<le> m) \<and>
     (\<exists>p \<in> set (take i (lr_region (lmb_memory l))). lp_start p \<le> x \<and> x + sz \<le> lp_end p)"

lemma candidate_Suc:
  assumes "i < length (lr_region (lmb_memory l))"
  shows "candidate l a sz m (Suc i) x \<longleftrightarrow> candidate l a sz m i x \<or>
    unreserved l a sz x \<and> (m = 0 \<or> x + sz \<le> m) \<and> lp_start (lr_region (lmb_memory l) ! i) \<le> x \<and> x + sz \<le> lp_end (lr_region (lmb_memory l) ! i)"
  using assms by (auto simp: candidate_def take_Suc_conv_app_nth)

lemma alloc_base_for_spec:
  assumes res: "lmb_wf (lmb_reserved l)" "1 \<le> lr_cnt (lmb_reserved l)" and k: "k < 64" and sz: "sz \<noteq> 0"
    and m: "m = 0 \<or> unat sz \<le> unat m" and mem: "table (take i (lr_region (lmb_memory l)))" "i \<le> length (lr_region (lmb_memory l))"
  shows "alloc_base_for sz (2 ^ k) m l i = Some (0, l) \<and> (\<forall>x. \<not> candidate l (2 ^ k) (unat sz) (unat m) i x) \<or>
    (\<exists>r l'. alloc_base_for sz (2 ^ k) m l i = Some (r, l') \<and> allocated l (unat sz) (candidate l (2 ^ k) (unat sz) (unat m) i) r l')"
  using mem
proof (induction i)
  case 0
  then show ?case by (simp add: candidate_def)
next
  case (Suc i)
  let ?p = "lr_region (lmb_memory l) ! i" and ?C = "candidate l (2 ^ k) (unat sz) (unat m)"
  have i: "i < length (lr_region (lmb_memory l))" using Suc.prems(2) by simp
  note tk = take_Suc_conv_app_nth [OF i]
  have p: "lp_ok ?p" and below: "table (take i (lr_region (lmb_memory l)))"
    "\<forall>q \<in> set (take i (lr_region (lmb_memory l))). lp_end q < lp_start ?p"
    using Suc.prems(1) unfolding tk by (auto simp: table_def sorted_wrt_append)
  note IH = Suc.IH [OF below(1)]
  define D where "D x \<longleftrightarrow> unreserved l (2 ^ k) (unat sz) x \<and> (unat m = 0 \<or> x + unat sz \<le> unat m) \<and>
    lp_start ?p \<le> x \<and> x + unat sz \<le> lp_end ?p" for x
  have CS: "?C (Suc i) x \<longleftrightarrow> ?C i x \<or> D x" for x unfolding D_def by (rule candidate_Suc [OF i])
  have szp: "0 < unat sz" using sz by (simp add: unat_gt_0)
  show ?case
  proof (cases "lp_size ?p < sz \<or> m \<noteq> LMB_ALLOC_ANYWHERE \<and> \<not> lp_base ?p < m")
    case True
    then have "\<not> D x" for x using szp
      by (auto simp: D_def LMB_ALLOC_ANYWHERE_def word_less_nat_alt lp_end_def unat_eq_0)
    then have "?C (Suc i) = ?C i" using CS by blast
    moreover have "alloc_base_for sz (2 ^ k) m l (Suc i) = alloc_base_for sz (2 ^ k) m l i" using True i by simp
    ultimately show ?thesis using IH i by simp
  next
    case False
    define lim where "lim = (if m = 0 then lp_base ?p + lp_size ?p else min (lp_base ?p + lp_size ?p) m)"
    have ul: "unat lim = (if m = 0 then lp_end ?p else min (lp_end ?p) (unat m))"
      using lp_okD(3) [OF p] by (simp add: lim_def min_def word_le_nat_alt)
    have "unat sz \<le> unat lim" using False m by (auto simp: ul lp_end_def word_less_nat_alt not_less)
    then have ud: "unat (lim - sz) = unat lim - unat sz" by (rule unat_diff)
    let ?b = "lmb_align_down (lim - sz) (2 ^ k)"
    note al = align_down_spec [OF k, where a = "lim - sz"]
    have bz: "unat ?b + unat sz < 2 ^ 64" using al(2) ud \<open>unat sz \<le> unat lim\<close> unat_lt [of lim] by simp
    have DC: "D = (\<lambda>x. unreserved l (2 ^ k) (unat sz) x \<and> unat (lp_base ?p) \<le> x \<and> x \<le> unat ?b)"
    proof
      fix x
      have "x \<le> unat ?b \<longleftrightarrow> x + unat sz \<le> unat lim" if "2 ^ k dvd x"
        using al(2) al(3) [OF that] ud \<open>unat sz \<le> unat lim\<close> by linarith
      then show "D x = (unreserved l (2 ^ k) (unat sz) x \<and> unat (lp_base ?p) \<le> x \<and> x \<le> unat ?b)"
        by (cases "m = 0") (auto simp: D_def unreserved_def ul unat_eq_0)
    qed
    have run: "alloc_base_for sz (2 ^ k) m l (Suc i) = do { r \<leftarrow> alloc_base_while (lp_base ?p) sz (2 ^ k) l ?b;
        case r of Some res \<Rightarrow> Some res | None \<Rightarrow> alloc_base_for sz (2 ^ k) m l i }"
      using False i by (cases "m = 0") (auto simp: lim_def LMB_ALLOC_ANYWHERE_def Let_def simp del: bind_split_Some)
    from alloc_base_while_spec [OF res k sz al(1) bz DC] show ?thesis
    proof
      assume w: "alloc_base_while (lp_base ?p) sz (2 ^ k) l ?b = Some None \<and> (\<forall>x. \<not> D x)"
      then have "?C (Suc i) = ?C i" using CS by blast
      then show ?thesis using w run IH i by simp
    next
      assume "\<exists>r l'. alloc_base_while (lp_base ?p) sz (2 ^ k) l ?b = Some (Some (r, l')) \<and> allocated l (unat sz) D r l'"
      then obtain r l' where w: "alloc_base_while (lp_base ?p) sz (2 ^ k) l ?b = Some (Some (r, l'))" "allocated l (unat sz) D r l'" by blast
      have lower: "x < y" if "?C i x" "D y" for x y
        using that below(2) szp by (fastforce simp: candidate_def D_def)
      have "allocated l (unat sz) (?C (Suc i)) r l'"
        using w(2) CS lower unfolding allocated_def by (metis nat_less_le)
      then show ?thesis using run w(1) by simp
    qed
  qed
qed

text \<open>
  A limit that is not zero and lies below the size. The insertion of a range that wraps around the top
  of the address space completes inside the table all the same.
\<close>

lemma add_scan_total:
  assumes "lr_cnt rgn \<le> length (lr_region rgn)" "i \<le> lr_cnt rgn"
  shows "lmb_add_scan rgn base sz i = Some Already \<or> lmb_add_scan rgn base sz i = Some (NotFound (lr_cnt rgn)) \<or>
    (\<exists>k p. k < lr_cnt rgn \<and> lmb_add_scan rgn base sz i = Some (Extended k (rgn \<lparr>lr_region := (lr_region rgn)[k := p]\<rparr>)))"
  using assms(2)
proof (induction "lr_cnt rgn - i" arbitrary: i)
  case 0
  then show ?case by (subst (1 2 3) lmb_add_scan.simps) simp
next
  case (Suc d)
  then have i: "i < lr_cnt rgn" "i < length (lr_region rgn)" using assms(1) by simp_all
  have "d = lr_cnt rgn - Suc i" "Suc i \<le> lr_cnt rgn" using Suc(2) i by simp_all
  from Suc(1) [OF this] show ?case using i
    by (subst (1 2 3) lmb_add_scan.simps) (auto simp: set_region_eq Let_def)
qed

lemma add_shift_total:
  "n < length (lr_region rgn) \<Longrightarrow> \<exists>rgn'. lmb_add_shift base sz n rgn = Some rgn' \<and> length (lr_region rgn') = length (lr_region rgn) \<and> lr_cnt rgn' = lr_cnt rgn"
proof (induction n arbitrary: rgn)
  case (Suc n)
  let ?r = "rgn \<lparr>lr_region := (lr_region rgn)[Suc n := lr_region rgn ! n]\<rparr>"
  have "\<exists>rgn'. lmb_add_shift base sz n ?r = Some rgn' \<and> length (lr_region rgn') = length (lr_region rgn) \<and> lr_cnt rgn' = lr_cnt rgn"
    using Suc.IH [of ?r] Suc.prems by simp
  then show ?case using Suc.prems by (auto simp: set_region_eq)
qed simp

lemma coalesce_total:
  assumes "lr_cnt rgn \<le> length (lr_region rgn)" "i < cnt_minus_1 rgn" "1 \<le> lr_cnt rgn"
  shows "\<exists>rgn'. lmb_coalesce_regions rgn i (i + 1) = Some rgn'"
proof -
  have i: "i + 1 < lr_cnt rgn" using assms by (simp add: cnt_minus_1_def)
  then have l: "i < length (lr_region rgn)" "i + 1 < length (lr_region rgn)" using assms(1) by linarith+
  let ?r = "rgn \<lparr>lr_region := (lr_region rgn)[i := (lr_region rgn ! i) \<lparr>lp_size := lp_size (lr_region rgn ! i) + lp_size (lr_region rgn ! (i + 1))\<rparr>]\<rparr>"
  have "\<exists>rgn'. lmb_remove_region ?r (i + 1) = Some rgn'"
    using remove_region_spec [of ?r "i + 1"] i assms(1) by auto
  then show ?thesis using l by (auto simp: lmb_coalesce_regions_def set_region_eq)
qed

lemma add_region_total:
  assumes "lmb_wf rgn" "1 \<le> lr_cnt rgn"
  shows "\<exists>ret rgn'. lmb_add_region rgn base sz = Some (ret, rgn') \<and> (ret < 0 \<longrightarrow> rgn' = rgn \<and> lr_cnt rgn = MAX_LMB_REGIONS)"
proof -
  have len: "lr_cnt rgn \<le> length (lr_region rgn)" "lr_cnt rgn < length (lr_region rgn)" "0 < length (lr_region rgn)" "lr_cnt rgn \<le> MAX_LMB_REGIONS"
    using assms(1) by (simp_all add: lmb_wf_def)
  let ?p0 = "lr_region rgn ! 0"
  show ?thesis
  proof (cases "lr_cnt rgn = 1 \<and> lp_size ?p0 = 0")
    case True
    then show ?thesis using len(3) by (simp add: lmb_add_region_def set_region_eq)
  next
    case False
    from add_scan_total [OF len(1) le0] consider "lmb_add_scan rgn base sz 0 = Some Already"
      | "lmb_add_scan rgn base sz 0 = Some (NotFound (lr_cnt rgn))"
      | k p where "k < lr_cnt rgn" "lmb_add_scan rgn base sz 0 = Some (Extended k (rgn \<lparr>lr_region := (lr_region rgn)[k := p]\<rparr>))" by blast
    then show ?thesis
    proof cases
      case 1
      then show ?thesis using False len(3) by (auto simp: lmb_add_region_def)
    next
      case 2
      obtain r1 where r1: "lmb_add_shift base sz (lr_cnt rgn) rgn = Some r1" "length (lr_region r1) = length (lr_region rgn)"
        using add_shift_total [OF len(2)] by blast
      have "\<not> lr_cnt rgn < cnt_minus_1 rgn" using assms(2) by (simp add: cnt_minus_1_def)
      then show ?thesis using 2 False len(3,4) r1 by (auto simp: lmb_add_region_def Let_def set_region_eq)
    next
      case 3
      let ?r = "rgn \<lparr>lr_region := (lr_region rgn)[k := p]\<rparr>"
      have c: "\<exists>r'. lmb_coalesce_regions ?r k (k + 1) = Some r'" if "k < cnt_minus_1 ?r"
        using coalesce_total [of ?r k] that len(1) assms(2) by simp
      have a: "\<exists>a. lmb_regions_adjacent ?r k (k + 1) = Some a" if "k < cnt_minus_1 ?r"
        using that len(1) assms(2) by (simp add: lmb_regions_adjacent_def cnt_minus_1_def)
      show ?thesis
      proof (cases "k < cnt_minus_1 ?r")
        case True
        then obtain b r' where "lmb_regions_adjacent ?r k (k + 1) = Some b" "lmb_coalesce_regions ?r k (k + 1) = Some r'" using a c by blast
        then show ?thesis using 3 False len(3) True by (cases "b = 0") (auto simp: lmb_add_region_def Let_def)
      next
        case no: False
        then show ?thesis using 3 False len(3) by (auto simp: lmb_add_region_def Let_def)
      qed
    qed
  qed
qed

lemma overlaps_region_cases:
  fixes rgn :: lmb_region
  assumes "lr_cnt rgn \<le> length (lr_region rgn)"
  shows "if \<exists>q \<in> set (entries rgn). lmb_addrs_overlap base sz (lp_base q) (lp_size q)
    then \<exists>j < lr_cnt rgn. lmb_overlaps_region rgn base sz = Some (int j) \<and>
      lmb_addrs_overlap base sz (lp_base (lr_region rgn ! j)) (lp_size (lr_region rgn ! j))
    else lmb_overlaps_region rgn base sz = Some (-1)"
proof -
  let ?o = "\<lambda>j. lmb_addrs_overlap base sz (lp_base (lr_region rgn ! j)) (lp_size (lr_region rgn ! j))"
  have "\<exists>k. lmb_overlaps_from rgn base sz i = Some k \<and> k \<le> lr_cnt rgn \<and> (k < lr_cnt rgn \<longrightarrow> ?o k) \<and> (\<forall>j. i \<le> j \<and> j < k \<longrightarrow> \<not> ?o j)"
    if "i \<le> lr_cnt rgn" for i
    using that
  proof (induction "lr_cnt rgn - i" arbitrary: i)
    case 0
    then show ?case by (subst lmb_overlaps_from.simps) auto
  next
    case (Suc d)
    then have i: "i < lr_cnt rgn" "i < length (lr_region rgn)" using assms by simp_all
    have "d = lr_cnt rgn - Suc i" "Suc i \<le> lr_cnt rgn" using Suc(2) i by simp_all
    from Suc(1) [OF this] obtain k where k: "lmb_overlaps_from rgn base sz (Suc i) = Some k" "k \<le> lr_cnt rgn" "k < lr_cnt rgn \<longrightarrow> ?o k"
      "\<forall>j. Suc i \<le> j \<and> j < k \<longrightarrow> \<not> ?o j" by blast
    show ?case
    proof (cases "?o i")
      case True
      then have "lmb_overlaps_from rgn base sz i = Some i" using i by (subst lmb_overlaps_from.simps) simp
      then show ?thesis using i True by auto
    next
      case False
      have "lmb_overlaps_from rgn base sz i = Some k" using False i k(1) by (subst lmb_overlaps_from.simps) simp
      moreover have "\<not> ?o j" if "i \<le> j" "j < k" for j using that k(4) False by (cases "j = i") auto
      ultimately show ?thesis using k(2,3) by blast
    qed
  qed
  from this [OF le0] obtain k where k: "lmb_overlaps_from rgn base sz 0 = Some k" "k \<le> lr_cnt rgn" "k < lr_cnt rgn \<longrightarrow> ?o k"
    "\<forall>j. j < k \<longrightarrow> \<not> ?o j" by auto
  have "(\<exists>q \<in> set (entries rgn). lmb_addrs_overlap base sz (lp_base q) (lp_size q)) \<longleftrightarrow> (\<exists>j < lr_cnt rgn. ?o j)"
    using nth_image [OF assms, symmetric] unfolding entries_def by force
  then show ?thesis using k by (cases "k < lr_cnt rgn") (auto simp: lmb_overlaps_region_def)
qed

text \<open>Where the wrapped candidate lies, and the reservations that the code takes to overlap it.\<close>

definition wrap_base :: "nat \<Rightarrow> nat \<Rightarrow> nat \<Rightarrow> nat" where
  "wrap_base a S m = (2 ^ 64 - (S - m)) div a * a"

definition wrap_blocked :: "lmb \<Rightarrow> nat \<Rightarrow> nat \<Rightarrow> bool" where
  "wrap_blocked l W S \<longleftrightarrow> (\<exists>q \<in> set (entries (lmb_reserved l)). W < lp_end q \<and> lp_start q + 2 ^ 64 < W + S)"

lemma wrap_base_spec:
  fixes m sz :: u64
  assumes k: "k < 64" and m: "0 < unat m" "unat m < unat sz" and d: "2 ^ k dvd unat sz"
  defines "b \<equiv> lmb_align_down (m - sz) (2 ^ k)"
  shows "unat b = wrap_base (2 ^ k) (unat sz) (unat m)" "2 ^ 64 - unat sz \<le> unat b" "unat (b + sz) + 2 ^ 64 = unat b + unat sz"
    "unat (b + sz) \<le> unat m"
proof -
  have u: "unat (m - sz) = 2 ^ 64 - (unat sz - unat m)"
  proof -
    have d: "unat (sz - m) = unat sz - unat m" using m by (intro unat_diff) simp
    have "(unat (m - sz) + unat (sz - m)) mod 2 ^ 64 = unat ((m - sz) + (sz - m))" by (simp only: unat_word_ariths) simp
    also have "\<dots> = 0" by simp
    finally obtain c where "unat (m - sz) + unat (sz - m) = 2 ^ 64 * c" by (auto simp: mod_eq_0_iff_dvd elim!: dvdE)
    moreover have "unat (m - sz) < 2 ^ 64" "unat (sz - m) < 2 ^ 64" "0 < unat (sz - m)"
      using unat_lt [of "m - sz"] unat_lt [of "sz - m"] d m by simp_all
    ultimately have "0 < 2 ^ 64 * c" "2 ^ 64 * c < 2 ^ 64 * 2" by linarith+
    then have "c = 1" by simp
    then show ?thesis using \<open>unat (m - sz) + unat (sz - m) = 2 ^ 64 * c\<close> d by simp
  qed
  have "unat b = unat (m - sz) div 2 ^ k * 2 ^ k"
    unfolding b_def lmb_align_down_def by (simp only: mask_eq_exp_minus_1 [symmetric] unat_and_not_mask)
  then show "unat b = wrap_base (2 ^ k) (unat sz) (unat m)" by (simp only: u wrap_base_def)
  have "(2 :: nat) ^ k dvd 2 ^ 64" using k by (intro le_imp_power_dvd) simp
  from dvd_diff_nat [OF this d] have "2 ^ k dvd (2 ^ 64 :: nat) - unat sz" .
  then show lo: "2 ^ 64 - unat sz \<le> unat b"
    unfolding b_def using align_down_spec(3) [OF k, of "2 ^ 64 - unat sz" "m - sz"] u m(2) by simp
  have hi: "unat b \<le> 2 ^ 64 - (unat sz - unat m)" unfolding b_def using align_down_spec(2) [OF k, of "m - sz"] u by simp
  have "unat sz < 2 ^ 64" "unat b < 2 ^ 64" using unat_lt [of sz] unat_lt [of b] by simp_all
  moreover from this have sum: "2 ^ 64 \<le> unat b + unat sz" using lo by linarith
  ultimately have "(unat b + unat sz) mod 2 ^ 64 = unat b + unat sz - 2 ^ 64" by (simp add: le_mod_geq)
  then show e: "unat (b + sz) + 2 ^ 64 = unat b + unat sz" using sum by (simp add: unat_word_ariths)
  have "unat b + (unat sz - unat m) \<le> 2 ^ 64" using hi unat_lt [of sz] by simp
  then show "unat (b + sz) \<le> unat m" using e m by linarith
qed

lemma wf_entry_end:
  assumes "lmb_wf rgn" "q \<in> set (entries rgn)"
  shows "unat (lp_base q + lp_size q) = lp_end q"
proof (cases "table (entries rgn)")
  case True
  then show ?thesis using assms(2) lp_okD(3) by (auto simp: table_def)
next
  case False
  then have "lr_cnt rgn = 1" "lr_region rgn ! 0 = \<lparr>lp_base = 0, lp_size = 0\<rparr>" "lr_region rgn \<noteq> []"
    using assms(1) by (auto simp: lmb_wf_def)
  then have "q = \<lparr>lp_base = 0, lp_size = 0\<rparr>" using assms(2) by (cases "lr_region rgn") (auto simp: entries_def)
  then show ?thesis by (simp add: lp_end_def)
qed

lemma alloc_base_while_wrapped:
  fixes m sz :: u64
  assumes wf: "lmb_wf (lmb_reserved l)" "1 \<le> lr_cnt (lmb_reserved l)" and k: "k < 64"
    and m: "0 < unat m" "unat m < unat sz" and d: "2 ^ k dvd unat sz" and base: "unat lmbbase + unat sz < 2 ^ 64"
  defines "W \<equiv> wrap_base (2 ^ k) (unat sz) (unat m)"
  shows "if wrap_blocked l W (unat sz) then alloc_base_while lmbbase sz (2 ^ k) l (lmb_align_down (m - sz) (2 ^ k)) = Some None
    else \<exists>r l'. alloc_base_while lmbbase sz (2 ^ k) l (lmb_align_down (m - sz) (2 ^ k)) = Some (Some (r, l')) \<and> lmb_memory l' = lmb_memory l \<and>
      (unat r = W \<or> r = 0 \<and> l' = l \<and> lr_cnt (lmb_reserved l) = MAX_LMB_REGIONS)"
proof -
  let ?b = "lmb_align_down (m - sz) (2 ^ k)"
  note w = wrap_base_spec [OF k m d, folded W_def]
  have len: "lr_cnt (lmb_reserved l) \<le> length (lr_region (lmb_reserved l))" using wf(1) by (simp add: lmb_wf_def)
  have ov: "lmb_addrs_overlap ?b sz (lp_base q) (lp_size q) \<longleftrightarrow> W < lp_end q \<and> lp_start q + 2 ^ 64 < W + unat sz"
    if "q \<in> set (entries (lmb_reserved l))" for q
    using wf_entry_end [OF wf(1) that] w(1,3) by (auto simp: lmb_addrs_overlap_def word_less_nat_alt)
  have blk: "(\<exists>q \<in> set (entries (lmb_reserved l)). lmb_addrs_overlap ?b sz (lp_base q) (lp_size q)) \<longleftrightarrow> wrap_blocked l W (unat sz)"
    unfolding wrap_blocked_def using ov by blast
  note cases = overlaps_region_cases [OF len, of ?b sz, unfolded blk]
  have "0 < unat ?b" "unat lmbbase \<le> unat ?b" using w(2) base unat_lt [of sz] by simp_all
  then have go: "?b \<noteq> 0 \<and> lmbbase \<le> ?b" by (auto simp: word_le_nat_alt)
  show ?thesis
  proof (cases "wrap_blocked l W (unat sz)")
    case True
    then obtain j where j: "j < lr_cnt (lmb_reserved l)" "lmb_overlaps_region (lmb_reserved l) ?b sz = Some (int j)"
        "lmb_addrs_overlap ?b sz (lp_base (lr_region (lmb_reserved l) ! j)) (lp_size (lr_region (lmb_reserved l) ! j))"
      using cases by auto
    have "lp_base (lr_region (lmb_reserved l) ! j) < sz"
      using j(3) w(4) m by (auto simp: lmb_addrs_overlap_def word_less_nat_alt)
    then show ?thesis using True go j(1,2) len by (subst alloc_base_while.simps) simp
  next
    case False
    obtain ret rgn' where a: "lmb_add_region (lmb_reserved l) ?b sz = Some (ret, rgn')"
        "ret < 0 \<longrightarrow> rgn' = lmb_reserved l \<and> lr_cnt (lmb_reserved l) = MAX_LMB_REGIONS"
      using add_region_total [OF wf] by blast
    have "alloc_base_while lmbbase sz (2 ^ k) l ?b = Some (Some (if ret < 0 then 0 else ?b, l \<lparr>lmb_reserved := rgn'\<rparr>))"
      using False cases go a(1) by (subst alloc_base_while.simps) simp
    then show ?thesis using False a(2) w(1) by auto
  qed
qed

lemma alloc_base_for_wrapped:
  fixes m sz :: u64
  assumes wf: "lmb_wf (lmb_reserved l)" "1 \<le> lr_cnt (lmb_reserved l)" and k: "k < 64"
    and m: "0 < unat m" "unat m < unat sz" and d: "2 ^ k dvd unat sz"
    and mem: "table (take i (lr_region (lmb_memory l)))" "i \<le> length (lr_region (lmb_memory l))"
  defines "W \<equiv> wrap_base (2 ^ k) (unat sz) (unat m)"
  shows "\<exists>r l'. alloc_base_for sz (2 ^ k) m l i = Some (r, l') \<and> lmb_memory l' = lmb_memory l \<and>
    (if (\<exists>p \<in> set (take i (lr_region (lmb_memory l))). lp_start p < unat m \<and> unat sz \<le> unat (lp_size p)) \<and> \<not> wrap_blocked l W (unat sz)
     then unat r = W \<or> r = 0 \<and> l' = l \<and> lr_cnt (lmb_reserved l) = MAX_LMB_REGIONS else r = 0 \<and> l' = l)"
  using mem
proof (induction i)
  case (Suc i)
  let ?p = "lr_region (lmb_memory l) ! i"
  have i: "i < length (lr_region (lmb_memory l))" using Suc.prems(2) by simp
  note tk = take_Suc_conv_app_nth [OF i]
  have p: "lp_ok ?p" and below: "table (take i (lr_region (lmb_memory l)))"
    using Suc.prems(1) unfolding tk by (auto simp: table_def sorted_wrt_append)
  note IH = Suc.IH [OF below] i
  have m0: "m \<noteq> LMB_ALLOC_ANYWHERE" using m(1) by (auto simp: LMB_ALLOC_ANYWHERE_def)
  show ?case
  proof (cases "lp_start ?p < unat m \<and> unat sz \<le> unat (lp_size ?p)")
    case True
    have e: "unat (lp_base ?p + lp_size ?p) = lp_end ?p" "lp_end ?p < 2 ^ 64" using lp_okD [OF p] by simp_all
    have mn: "min (lp_base ?p + lp_size ?p) m = m" using e True m(2) by (simp add: min_def word_le_nat_alt lp_end_def)
    have run: "alloc_base_for sz (2 ^ k) m l (Suc i) = do { r \<leftarrow> alloc_base_while (lp_base ?p) sz (2 ^ k) l (lmb_align_down (m - sz) (2 ^ k));
        case r of Some res \<Rightarrow> Some res | None \<Rightarrow> alloc_base_for sz (2 ^ k) m l i }"
      using True i m0 mn by (simp add: word_less_nat_alt not_less Let_def del: bind_split_Some)
    have "lp_start ?p + unat sz < 2 ^ 64" using e(2) True by (simp add: lp_end_def)
    from alloc_base_while_wrapped [OF wf k m d this, folded W_def] show ?thesis
      using run IH True by (cases "wrap_blocked l W (unat sz)") (auto simp: tk)
  next
    case False
    then have "alloc_base_for sz (2 ^ k) m l (Suc i) = alloc_base_for sz (2 ^ k) m l i"
      using i m0 by (auto simp: word_less_nat_alt)
    moreover have "(\<exists>p \<in> set (take (Suc i) (lr_region (lmb_memory l))). lp_start p < unat m \<and> unat sz \<le> unat (lp_size p)) \<longleftrightarrow>
        (\<exists>p \<in> set (take i (lr_region (lmb_memory l))). lp_start p < unat m \<and> unat sz \<le> unat (lp_size p))"
      using False by (auto simp: tk)
    ultimately show ?thesis using IH by simp
  qed
qed simp

text \<open>
  C25: The boot allocator, called with well-formed tables, a non-zero size, a power-of-two alignment
  and a size whose rounding to the alignment does not overflow, terminates. Let \<open>S\<close> be the rounded size
  and \<open>m\<close> the effective address limit. When there is no limit (\<open>m = 0\<close>) or the limit is at least \<open>S\<close>,
  it returns the highest aligned address, other than 0, at which \<open>S\<close> bytes lie inside one memory
  entry, below the limit and clear of every reservation, and it reserves exactly these bytes; it
  returns 0 and changes nothing when there is no such address or the reservation table is full. When
  the limit is below \<open>S\<close>, where no address can fit, the subtraction of the size from the limit wraps:
  the allocator still returns 0 and changes nothing if no memory entry of at least \<open>S\<close> bytes starts
  below the limit, if a reservation stands in the way or if the table is full, but otherwise it returns
  the wrapped address, the highest multiple of the alignment not above \<open>2 ^ 64 - (S - m)\<close>.
\<close>

theorem lmb_alloc_base_correct:
  assumes res: "lmb_wf (lmb_reserved l)" "1 \<le> lr_cnt (lmb_reserved l)" and mem: "lmb_wf (lmb_memory l)" "table (entries (lmb_memory l))"
    and sz: "sz \<noteq> 0" "k < 64" "unat sz + (2 ^ k - 1) < 2 ^ 64"
    and m: "m = (if max_addr = LMB_ALLOC_ANYWHERE then real_limit else max_addr)" "S = round_up (unat sz) (2 ^ k)"
    and V: "V = (\<lambda>x. 0 < x \<and> 2 ^ k dvd x \<and> {x ..< x + S} \<inter> covered (lmb_reserved l) = {} \<and> (unat m = 0 \<or> x + S \<le> unat m) \<and>
                (\<exists>p \<in> set (entries (lmb_memory l)). lp_start p \<le> x \<and> x + S \<le> lp_end p))"
    and W: "W = (2 ^ 64 - (S - unat m)) div 2 ^ k * 2 ^ k"
  shows "\<exists>r l'. raw_lmb_alloc_base real_limit l sz (2 ^ k) max_addr = Some (r, l') \<and> lmb_memory l' = lmb_memory l \<and>
     (if m = 0 \<or> S \<le> unat m
      then lmb_wf (lmb_reserved l') \<and> 1 \<le> lr_cnt (lmb_reserved l') \<and>
        (if (\<exists>x. V x) \<and> (r \<noteq> 0 \<or> lr_cnt (lmb_reserved l) < MAX_LMB_REGIONS)
         then V (unat r) \<and> (\<forall>x. V x \<longrightarrow> x \<le> unat r) \<and>
              covered (lmb_reserved l') = covered (lmb_reserved l) \<union> {unat r ..< unat r + S}
         else r = 0 \<and> l' = l)
      else if (\<exists>p \<in> set (entries (lmb_memory l)). lp_start p < unat m \<and> S \<le> unat (lp_size p)) \<and>
          \<not> (\<exists>q \<in> set (entries (lmb_reserved l)). W < lp_end q \<and> lp_start q + 2 ^ 64 < W + S) \<and>
          (r \<noteq> 0 \<or> lr_cnt (lmb_reserved l) < MAX_LMB_REGIONS)
      then unat r = W \<and> (\<forall>x. \<not> V x)
      else r = 0 \<and> l' = l)"
proof -
  have S: "unat (lmb_align_up sz (2 ^ k)) = S"
    using unat_round_up [of k sz] sz m(2) by (simp add: lmb_align_up_def mask_eq_exp_minus_1)
  have "0 < unat sz" using sz(1) by (simp add: unat_gt_0)
  then have "0 < S" using round_up(2) [of "2 ^ k" "unat sz"] m(2) by simp
  then have nz: "lmb_align_up sz (2 ^ k) \<noteq> 0" using S by (auto simp: unat_eq_0 [symmetric])
  have run: "raw_lmb_alloc_base real_limit l sz (2 ^ k) max_addr = alloc_base_for (lmb_align_up sz (2 ^ k)) (2 ^ k) m l (lr_cnt (lmb_memory l))"
    using sz(1) m(1) by (simp add: raw_lmb_alloc_base_def Let_def)
  have len: "lr_cnt (lmb_memory l) \<le> length (lr_region (lmb_memory l))" using mem(1) by (simp add: lmb_wf_def)
  show ?thesis
  proof (cases "m = 0 \<or> S \<le> unat m")
    case True
    have C: "candidate l (2 ^ k) S (unat m) (lr_cnt (lmb_memory l)) = V"
      unfolding V candidate_def unreserved_def entries_def by auto
    note spec = alloc_base_for_spec [OF res sz(2) nz True [folded S] mem(2) [unfolded entries_def] len, unfolded S C, folded run]
    from spec show ?thesis
    proof
      assume "raw_lmb_alloc_base real_limit l sz (2 ^ k) max_addr = Some (0, l) \<and> (\<forall>x. \<not> V x)"
      then show ?thesis using res True by auto
    next
      assume "\<exists>r l'. raw_lmb_alloc_base real_limit l sz (2 ^ k) max_addr = Some (r, l') \<and> allocated l S V r l'"
      then obtain r l' where a: "raw_lmb_alloc_base real_limit l sz (2 ^ k) max_addr = Some (r, l')" "allocated l S V r l'" by blast
      have "V (unat r) \<Longrightarrow> r \<noteq> 0" unfolding V by auto
      then show ?thesis using a True unfolding allocated_def by (intro exI [of _ r] exI [of _ l']) auto
    qed
  next
    case False
    then have lim: "0 < unat m" "unat m < unat (lmb_align_up sz (2 ^ k))" unfolding S by (auto simp: unat_gt_0)
    have d: "2 ^ k dvd unat (lmb_align_up sz (2 ^ k))" unfolding S m(2) by (rule round_up(1)) simp
    have none: "\<not> V x" for x using False lim unfolding V by auto
    have W': "wrap_base (2 ^ k) S (unat m) = W" by (simp only: wrap_base_def W)
    have "0 < W" using wrap_base_spec(1,2) [OF sz(2) lim d, unfolded S W'] unat_lt [of "lmb_align_up sz (2 ^ k)"] S by simp
    then have nzW: "\<And>r :: u64. unat r = W \<Longrightarrow> r \<noteq> 0" by auto
    obtain r l' where r: "raw_lmb_alloc_base real_limit l sz (2 ^ k) max_addr = Some (r, l')" "lmb_memory l' = lmb_memory l"
      "if (\<exists>p \<in> set (entries (lmb_memory l)). lp_start p < unat m \<and> S \<le> unat (lp_size p)) \<and> \<not> wrap_blocked l W S
       then unat r = W \<or> r = 0 \<and> l' = l \<and> lr_cnt (lmb_reserved l) = MAX_LMB_REGIONS else r = 0 \<and> l' = l"
      using alloc_base_for_wrapped [OF res sz(2) lim d mem(2) [unfolded entries_def] len, unfolded S W', folded run entries_def] by blast
    show ?thesis unfolding wrap_blocked_def [symmetric] if_not_P [OF False]
      using r none nzW [of r] by (intro exI [of _ r] exI [of _ l'] conjI) (auto split: if_splits)
  qed
qed

theorem lmb_alloc_base_correct_witness:
  "(\<exists>r l'. raw_lmb_alloc_base 0 example_lmb 8192 (2 ^ 12) 0 = Some (r, l') \<and> unat r = 57344 \<and> covered (lmb_reserved l') = {57344 ..< 65536}) \<and>
   (\<exists>r l'. raw_lmb_alloc_base 0 example_lmb 8192 (2 ^ 12) 4096 = Some (r, l') \<and> unat r = 2 ^ 64 - 4096)"
proof
  let ?V = "\<lambda>x. 0 < x \<and> 2 ^ 12 dvd x \<and> {x ..< x + 8192} \<inter> covered (lmb_reserved example_lmb) = {} \<and> (unat (0 :: u64) = 0 \<or> x + 8192 \<le> unat (0 :: u64)) \<and>
     (\<exists>p \<in> set (entries (lmb_memory example_lmb)). lp_start p \<le> x \<and> x + 8192 \<le> lp_end p)"
  have r: "lmb_wf (lmb_reserved example_lmb)" "1 \<le> lr_cnt (lmb_reserved example_lmb)" "lr_cnt (lmb_reserved example_lmb) < MAX_LMB_REGIONS"
    by (simp_all add: example_lmb empty_region MAX_LMB_REGIONS_def)
  have p: "(8192 :: u64) \<noteq> 0" "(12 :: nat) < 64" "unat (8192 :: u64) + (2 ^ 12 - 1) < 2 ^ 64"
    and q: "(8192 :: nat) = round_up (unat (8192 :: u64)) (2 ^ 12)" by (simp_all add: round_up_def)
  have l0: "(0 :: u64) = (if (0 :: u64) = LMB_ALLOC_ANYWHERE then 0 else 0)" by simp
  have V: "?V x \<longleftrightarrow> 0 < x \<and> 2 ^ 12 dvd x \<and> x \<le> 57344" for x
    by (auto simp: example_lmb empty_region lp_end_def)
  have top: "?V 57344" unfolding V by simp
  obtain r l' where c: "raw_lmb_alloc_base 0 example_lmb 8192 (2 ^ 12) 0 = Some (r, l')" "?V (unat r)" "\<forall>x. ?V x \<longrightarrow> x \<le> unat r"
     "covered (lmb_reserved l') = covered (lmb_reserved example_lmb) \<union> {unat r ..< unat r + 8192}"
    using lmb_alloc_base_correct [OF r(1,2) example_lmb_wf p l0 q refl refl] top r(3)
    by (simp only: simp_thms if_True) (metis (no_types, lifting))
  have "unat r = 57344" using c(2,3) top V by (meson antisym)
  then show "\<exists>r l'. raw_lmb_alloc_base 0 example_lmb 8192 (2 ^ 12) 0 = Some (r, l') \<and> unat r = 57344 \<and> covered (lmb_reserved l') = {57344 ..< 65536}"
    using c(1,4) by (auto simp: example_lmb empty_region)
  have l1: "(4096 :: u64) = (if (4096 :: u64) = LMB_ALLOC_ANYWHERE then 0 else 4096)" by (simp add: LMB_ALLOC_ANYWHERE_def)
  have w: "(2 ^ 64 - 4096 :: nat) = (2 ^ 64 - (8192 - unat (4096 :: u64))) div 2 ^ 12 * 2 ^ 12" by simp
  have e: "\<exists>p \<in> set (entries (lmb_memory example_lmb)). lp_start p < unat (4096 :: u64) \<and> 8192 \<le> unat (lp_size p)"
    "\<not> (\<exists>q \<in> set (entries (lmb_reserved example_lmb)). 2 ^ 64 - 4096 < lp_end q \<and> lp_start q + 2 ^ 64 < (2 ^ 64 - 4096) + 8192)"
    by (simp add: example_lmb) (simp add: example_lmb empty_region_def entries_def lp_end_def)
  show "\<exists>r l'. raw_lmb_alloc_base 0 example_lmb 8192 (2 ^ 12) 4096 = Some (r, l') \<and> unat r = 2 ^ 64 - 4096"
    using lmb_alloc_base_correct [OF r(1,2) example_lmb_wf p l1 q refl w] e r(3) by auto
qed

section \<open>The memory limit\<close>

fun cut :: "u64 \<Rightarrow> lmb_property list \<Rightarrow> lmb_property list" where
  "cut limit [] = []"
| "cut limit (p # ps) = (if limit > lp_size p then p # cut (limit - lp_size p) ps else [p \<lparr>lp_size := limit\<rparr>])"

lemma limit_memory_spec:
  fixes rgn :: lmb_region
  assumes "lr_region rgn = ds @ ps @ rest" "lr_cnt rgn = length (ds @ ps)"
  shows "\<exists>rgn'. limit_memory rgn limit (length ds) = Some rgn' \<and> length (lr_region rgn') = length (lr_region rgn) \<and>
    lr_cnt rgn' \<le> lr_cnt rgn \<and> entries rgn' = ds @ cut limit ps"
  using assms
proof (induction ps arbitrary: ds limit)
  case Nil
  then show ?case by (subst limit_memory.simps) (simp add: entries_def)
next
  case (Cons p ps)
  show ?case
  proof (cases "limit > lp_size p")
    case True
    then have "limit_memory rgn limit (length ds) = limit_memory rgn (limit - lp_size p) (length (ds @ [p]))"
      using Cons.prems by (subst limit_memory.simps) (simp add: nth_append)
    then show ?thesis using Cons.IH [of "ds @ [p]" "limit - lp_size p"] Cons.prems True by simp
  next
    case False
    then show ?thesis
      using Cons.prems by (subst limit_memory.simps) (simp add: set_region_eq entries_def list_update_append nth_append)
  qed
qed

lemma cover_above: "table (p # ps) \<Longrightarrow> x \<in> cover ps \<Longrightarrow> lp_end p < x"
  by (fastforce simp: table_def cover_def range_of_def)

lemma finite_cover [simp]: "finite (cover ps)"
  by (simp add: cover_def range_of_def)

lemma cut_spec:
  assumes "table ps" "limit \<noteq> 0"
  shows "table (cut limit ps) \<and> cover (cut limit ps) \<subseteq> cover ps \<and> (\<forall>p \<in> set (cut limit ps). \<exists>q \<in> set ps. lp_start p = lp_start q) \<and>
    (\<forall>x \<in> cover (cut limit ps). \<forall>y \<in> cover ps - cover (cut limit ps). x < y) \<and>
    card (cover (cut limit ps)) = min (unat limit) (card (cover ps))"
  using assms
proof (induction ps arbitrary: limit)
  case (Cons p ps)
  have p: "lp_ok p" and t: "table ps" and s: "\<forall>q \<in> set ps. lp_end p < lp_start q" using Cons.prems(1) by (auto simp: table_def)
  note b = lp_okD [OF p]
  have cr: "card (range_of p) = unat (lp_size p)" by (simp add: range_of_def lp_end_def)
  have dis: "range_of p \<inter> cover qs = {}" if "cover qs \<subseteq> cover ps" for qs
    using cover_above [OF Cons.prems(1)] that by (fastforce simp: range_of_def)
  have cc: "card (range_of p \<union> cover qs) = unat (lp_size p) + card (cover qs)" if "cover qs \<subseteq> cover ps" for qs
    using dis [OF that] cr by (subst card_Un_disjoint) (simp_all add: range_of_def)
  show ?case
  proof (cases "limit > lp_size p")
    case True
    let ?c = "cut (limit - lp_size p) ps"
    have u: "unat (limit - lp_size p) = unat limit - unat (lp_size p)" "unat (lp_size p) \<le> unat limit"
      using True by (simp_all add: unat_diff word_less_nat_alt)
    have "limit - lp_size p \<noteq> 0" using True by auto
    note IH = Cons.IH [OF t this]
    have "table (p # ?c)" using IH p s by (fastforce simp: table_def)
    moreover have "\<forall>x \<in> cover (p # ?c). \<forall>y \<in> cover (p # ps) - cover (p # ?c). x < y"
    proof (intro ballI)
      fix x y assume x: "x \<in> cover (p # ?c)" and y: "y \<in> cover (p # ps) - cover (p # ?c)"
      have "y \<in> cover ps - cover ?c" using y by auto
      then show "x < y" using x IH cover_above [OF Cons.prems(1), of y] by (auto simp: range_of_def)
    qed
    moreover have "card (cover (p # ?c)) = min (unat limit) (card (cover (p # ps)))"
      using IH cc [of ?c] cc [of ps] u by simp
    ultimately show ?thesis using True IH by auto
  next
    case False
    let ?q = "p \<lparr>lp_size := limit\<rparr>"
    have u: "unat limit \<le> unat (lp_size p)" "0 < unat limit" using False Cons.prems(2) by (simp_all add: word_less_nat_alt unat_gt_0 not_less)
    have q: "lp_start ?q = lp_start p" "lp_end ?q = lp_start p + unat limit" by (simp_all add: lp_end_def)
    have "lp_ok ?q" using u b(2) Cons.prems(2) q(2) by (simp add: lp_ok_def) (simp add: lp_end_def)
    moreover have "range_of ?q \<subseteq> range_of p" using u q by (auto simp: range_of_def lp_end_def)
    moreover have "x < y" if "x \<in> range_of ?q" "y \<in> cover (p # ps) - range_of ?q" for x y
    proof -
      have "x < lp_end ?q" "lp_end ?q \<le> lp_end p" using that(1) u(1) q by (auto simp: range_of_def lp_end_def)
      moreover have "lp_end ?q \<le> y" if "y \<in> range_of p" using that \<open>y \<in> cover (p # ps) - range_of ?q\<close> by (auto simp: range_of_def q)
      moreover have "lp_end p < y" if "y \<in> cover ps" by (rule cover_above [OF Cons.prems(1) that])
      ultimately show "x < y" using that(2) by force
    qed
    moreover have "card (range_of ?q) = unat limit" by (simp add: range_of_def lp_end_def)
    ultimately show ?thesis using False cc [of ps] u(1) by (auto simp: table_def)
  qed
qed (simp add: table_def)

definition clip :: "u64 \<Rightarrow> lmb_property \<Rightarrow> lmb_property list" where
  "clip lim p = (if lp_start p \<ge> unat lim then [] else if lp_end p > unat lim then [p \<lparr>lp_size := lim - lp_base p\<rparr>] else [p])"

lemma clip_spec:
  assumes "lp_ok p"
  shows "q \<in> set (clip lim p) \<Longrightarrow> lp_ok q \<and> lp_start q = lp_start p \<and> lp_end q \<le> lp_end p"
    "cover (clip lim p) = range_of p \<inter> {..< unat lim}"
proof -
  note b = lp_okD [OF assms]
  have e: "lp_end (p \<lparr>lp_size := lim - lp_base p\<rparr>) = unat lim" if "lp_start p < unat lim"
    using that by (simp add: lp_end_def unat_diff)
  show "q \<in> set (clip lim p) \<Longrightarrow> lp_ok q \<and> lp_start q = lp_start p \<and> lp_end q \<le> lp_end p"
    using assms e b(2) by (auto simp: clip_def lp_ok_def split: if_splits)
  show "cover (clip lim p) = range_of p \<inter> {..< unat lim}"
    using e b(1) by (auto simp: clip_def range_of_def)
qed

lemma clip_table:
  assumes "table ps"
  shows "table (concat (map (clip lim) ps)) \<and> cover (concat (map (clip lim) ps)) = cover ps \<inter> {..< unat lim}"
  using assms
proof (induction ps)
  case (Cons p ps)
  have p: "lp_ok p" and t: "table ps" and s: "\<forall>q \<in> set ps. lp_end p < lp_start q" "\<forall>q \<in> set ps. lp_ok q"
    using Cons.prems by (auto simp: table_def)
  have "lp_end q < lp_start r" if q: "q \<in> set (clip lim p)" and r: "r \<in> set (concat (map (clip lim) ps))" for q r
  proof -
    obtain r' where r': "r' \<in> set ps" "r \<in> set (clip lim r')" using r by auto
    have ok: "lp_ok r'" "lp_end p < lp_start r'" using s r'(1) by blast+
    have "lp_end q \<le> lp_end p" "lp_start r = lp_start r'" using clip_spec(1) [OF p q] clip_spec(1) [OF ok(1) r'(2)] by blast+
    then show ?thesis using ok(2) by linarith
  qed
  moreover have "sorted_wrt (\<lambda>p q. lp_end p < lp_start q) (clip lim p)" by (simp add: clip_def)
  moreover have "\<forall>q \<in> set (clip lim p). lp_ok q" using clip_spec(1) [OF p] by blast
  ultimately have "table (clip lim p @ concat (map (clip lim) ps))"
    using Cons.IH [OF t] unfolding table_def sorted_wrt_append by (simp add: ball_Un)
  then show ?case using Cons.IH [OF t] clip_spec(2) [OF p, of lim] by (simp add: Int_Un_distrib2)
qed (simp add: table_def)

lemma limit_reserved_spec:
  fixes rgn :: lmb_region
  assumes "entries rgn = ds @ ps" "lr_cnt rgn = length (ds @ ps)" "lr_cnt rgn \<le> length (lr_region rgn)" "\<forall>p \<in> set ps. lp_ok p"
  shows "\<exists>rgn'. limit_reserved lim rgn (length ds) = Some rgn' \<and> length (lr_region rgn') = length (lr_region rgn) \<and>
    lr_cnt rgn' \<le> lr_cnt rgn \<and> entries rgn' = ds @ concat (map (clip lim) ps)"
  using assms
proof (induction ps arbitrary: rgn ds)
  case Nil
  then show ?case by (subst limit_reserved.simps) simp
next
  case (Cons p qs)
  let ?i = "length ds"
  have i: "?i < lr_cnt rgn" "?i < length (lr_region rgn)" using Cons.prems(2,3) by simp_all
  have p: "lp_ok p" and r: "lr_region rgn ! ?i = p" "take ?i (lr_region rgn) = ds" "drop (Suc ?i) (entries rgn) = qs"
  proof -
    have "entries rgn ! ?i = p" "take ?i (entries rgn) = ds" "drop (Suc ?i) (entries rgn) = qs" using Cons.prems(1) by simp_all
    then show "lr_region rgn ! ?i = p" "take ?i (lr_region rgn) = ds" "drop (Suc ?i) (entries rgn) = qs"
      using i by (simp_all add: entries_def)
    show "lp_ok p" using Cons.prems(4) by simp
  qed
  note b = lp_okD [OF p]
  define q where "q = (if lp_base p > lim then p \<lparr>lp_size := 0\<rparr> else if lp_base p + lp_size p > lim then p \<lparr>lp_size := lim - lp_base p\<rparr> else p)"
  have q: "if lp_size q = 0 then clip lim p = [] else clip lim p = [q]"
  proof (cases "lp_start p" "unat lim" rule: linorder_cases)
    case less
    moreover from less have "lp_base p \<noteq> lim" "\<not> lim < lp_base p" by (auto simp: word_less_nat_alt)
    ultimately show ?thesis using p b(3) by (auto simp: q_def clip_def lp_ok_def word_less_nat_alt)
  next
    case equal
    then have "lp_base p = lim" by (simp add: word_unat_eq_iff)
    then show ?thesis using b(1,3) by (auto simp: q_def clip_def word_less_nat_alt)
  next
    case greater
    then show ?thesis by (simp add: q_def clip_def word_less_nat_alt)
  qed
  let ?r = "rgn \<lparr>lr_region := (lr_region rgn)[?i := q]\<rparr>"
  have er: "entries ?r = ds @ q # qs" using entries_update [OF Cons.prems(3) i(1), of q] r by simp
  have run: "limit_reserved lim rgn ?i = (if lp_size q = 0 then do { rgn \<leftarrow> lmb_remove_region ?r ?i; limit_reserved lim rgn ?i }
      else limit_reserved lim ?r (?i + 1))"
    using i r(1) by (subst limit_reserved.simps) (simp add: q_def set_region_eq Let_def)
  show ?case
  proof (cases "lp_size q = 0")
    case True
    have "lr_cnt ?r \<le> length (lr_region ?r)" "?i < lr_cnt ?r" using Cons.prems(3) i by simp_all
    from remove_region_spec [OF this] obtain r' where r': "lmb_remove_region ?r ?i = Some r'" "length (lr_region r') = length (lr_region rgn)"
        "lr_cnt r' = lr_cnt rgn - 1" "entries r' = ds @ qs" using er r(2) by auto
    then show ?thesis using Cons.IH [of r' ds] Cons.prems True run q by auto
  next
    case False
    then show ?thesis using Cons.IH [of ?r "ds @ [q]"] Cons.prems run q er by simp
  qed
qed

lemma table_last:
  assumes "table ps" "ps \<noteq> []"
  shows "lp_end (last ps) = Suc (Max (cover ps))"
proof -
  obtain qs p where ps: "ps = qs @ [p]" using assms(2) by (cases ps rule: rev_cases) auto
  have p: "lp_ok p" "\<forall>q \<in> set qs. lp_end q < lp_start p" using assms(1) ps by (auto simp: table_def sorted_wrt_append)
  have "lp_end p - 1 \<in> cover ps" using lp_okD(1) [OF p(1)] by (auto simp: ps range_of_def)
  moreover have "x \<le> lp_end p - 1" if x: "x \<in> cover ps" for x
    using x p(2) lp_okD(1) [OF p(1)] by (fastforce simp: ps cover_def range_of_def)
  ultimately have "Max (cover ps) = lp_end p - 1" by (intro Max_eqI) auto
  then show ?thesis using lp_okD(1) [OF p(1)] by (simp add: ps)
qed

text \<open>
  C26: Enforcing a non-zero memory limit on a sorted table with at least one memory entry and a sorted
  table of reservations (one that is past the empty entry of \<open>lmb_init\<close>) completes. It keeps exactly the
  lowest \<open>limit\<close> bytes of the memory (all of it when there are fewer), and cuts the reservations at
  the end of the remaining memory. Both tables stay well formed.
\<close>

theorem lmb_enforce_memory_limit_correct:
  assumes mem: "lmb_wf (lmb_memory l)" "table (entries (lmb_memory l))" "1 \<le> lr_cnt (lmb_memory l)"
    and res: "lmb_wf (lmb_reserved l)" "table (entries (lmb_reserved l))" and limit: "limit \<noteq> 0"
  shows "\<exists>l'. lmb_enforce_memory_limit l limit = Some l' \<and> lmb_wf (lmb_memory l') \<and> lmb_wf (lmb_reserved l') \<and>
    covered (lmb_memory l') \<subseteq> covered (lmb_memory l) \<and>
    (\<forall>x \<in> covered (lmb_memory l'). \<forall>y \<in> covered (lmb_memory l) - covered (lmb_memory l'). x < y) \<and>
    card (covered (lmb_memory l')) = min (unat limit) (card (covered (lmb_memory l))) \<and>
    covered (lmb_reserved l') = covered (lmb_reserved l) \<inter> {..< Suc (Max (covered (lmb_memory l')))}"
proof -
  let ?m = "lmb_memory l" and ?r = "lmb_reserved l"
  have len: "lr_cnt ?m \<le> length (lr_region ?m)" "lr_cnt ?r \<le> length (lr_region ?r)" using mem(1) res(1) by (simp_all add: lmb_wf_def)
  have "lr_region ?m = [] @ entries ?m @ drop (lr_cnt ?m) (lr_region ?m)" "lr_cnt ?m = length ([] @ entries ?m)"
    using len(1) by (simp_all add: entries_def)
  from limit_memory_spec [OF this, of limit] obtain m' where m': "limit_memory ?m limit 0 = Some m'"
      "length (lr_region m') = length (lr_region ?m)" "lr_cnt m' \<le> lr_cnt ?m" "entries m' = cut limit (entries ?m)" by auto
  note c = cut_spec [OF mem(2) limit, folded m'(4)]
  have "entries ?m \<noteq> []" using mem(3) len(1) by (auto simp: entries_def)
  then have ne: "entries m' \<noteq> []" unfolding m'(4) by (cases "entries ?m") simp_all
  then have cnt: "0 < lr_cnt m'" "lr_cnt m' \<le> length (lr_region m')" using m'(2,3) len(1) by (auto simp: entries_def)
  then have last: "last (entries m') = lr_region m' ! (lr_cnt m' - 1)" using ne by (simp add: last_conv_nth entries_def min_def)
  have "lp_ok (last (entries m'))" using c ne by (simp add: table_def)
  then obtain e where e: "unat e = Suc (Max (covered m'))" "e = lp_base (lr_region m' ! (lr_cnt m' - 1)) + lp_size (lr_region m' ! (lr_cnt m' - 1))"
    using table_last [OF conjunct1 [OF c] ne] lp_okD(3) unfolding last by metis
  have "entries ?r = [] @ entries ?r" "lr_cnt ?r = length ([] @ entries ?r)" "\<forall>p \<in> set (entries ?r). lp_ok p"
    using len(2) res(2) by (simp_all add: entries_def table_def)
  from limit_reserved_spec [OF this(1,2) len(2) this(3), of e] obtain r' where r': "limit_reserved e ?r 0 = Some r'"
      "length (lr_region r') = length (lr_region ?r)" "lr_cnt r' \<le> lr_cnt ?r" "entries r' = concat (map (clip e) (entries ?r))" by auto
  note d = clip_table [OF res(2), of e, folded r'(4)]
  let ?l = "\<lparr>lmb_debug = lmb_debug l, lmb_rmo_size = min (lmb_rmo_size l) (lp_size (lr_region m' ! 0)), lmb_memory = m', lmb_reserved = r'\<rparr>"
  have "0 < length (lr_region m')" using cnt by linarith
  then have "lmb_enforce_memory_limit l limit = Some ?l"
    using limit m'(1) cnt e(2) r'(1) by (auto simp: lmb_enforce_memory_limit_def lmb_end_of_DRAM_def Let_def min_def not_less)
  moreover have "lmb_wf m'" "lmb_wf r'" using c d m'(2,3) r'(2,3) mem(1) res(1) by (auto simp: lmb_wf_def)
  ultimately show ?thesis using c d e(1) by (intro exI [of _ ?l]) (simp add: m'(4))
qed

theorem lmb_enforce_memory_limit_correct_witness:
  "\<exists>l'. lmb_enforce_memory_limit (example_lmb \<lparr>lmb_reserved := lmb_memory example_lmb\<rparr>) 4096 = Some l' \<and> card (covered (lmb_memory l')) = 4096"
proof -
  let ?l = "example_lmb \<lparr>lmb_reserved := lmb_memory example_lmb\<rparr>"
  have "lmb_wf (lmb_memory ?l)" "table (entries (lmb_memory ?l))" "1 \<le> lr_cnt (lmb_memory ?l)" "lmb_wf (lmb_reserved ?l)"
    "table (entries (lmb_reserved ?l))" "(4096 :: u64) \<noteq> 0" using example_lmb_wf by (simp_all add: example_lmb)
  from lmb_enforce_memory_limit_correct [OF this] show ?thesis by (auto simp: example_lmb range_of_def lp_end_def)
qed

section \<open>Queries\<close>

lemma is_reserved_entry:
  assumes "lp_ok p"
  shows "lp_base p \<le> addr \<and> addr \<le> lp_base p + lp_size p - 1 \<longleftrightarrow> unat addr \<in> range_of p"
proof -
  note b = lp_okD [OF assms]
  have "lp_base p + lp_size p \<noteq> 0" using b(1,3) by auto
  then have "unat (lp_base p + lp_size p - 1) = lp_end p - 1" using b(3) by (simp add: unat_pred)
  then show ?thesis using b(1) by (auto simp: range_of_def word_le_nat_alt)
qed

text \<open>
  On a table with at least one reservation made, \<open>lmb_is_reserved\<close> decides membership in the
  reserved addresses.
\<close>

theorem lmb_is_reserved_correct:
  assumes "lmb_wf (lmb_reserved l)" "table (entries (lmb_reserved l))"
  shows "lmb_is_reserved l addr = Some (unat addr \<in> covered (lmb_reserved l))"
proof -
  let ?r = "lmb_reserved l"
  have len: "lr_cnt ?r \<le> length (lr_region ?r)" using assms(1) by (simp add: lmb_wf_def)
  have nth: "entries ?r ! i = lr_region ?r ! i" "i < length (entries ?r)" if "i < lr_cnt ?r" for i using that len by (simp_all add: entries_def)
  have "lmb_is_reserved l addr = Some (\<exists>i \<in> set [0 ..< lr_cnt ?r]. unat addr \<in> range_of (lr_region ?r ! i))"
    unfolding lmb_is_reserved_def
  proof (rule anyM_total)
    fix i assume "i \<in> set [0 ..< lr_cnt ?r]"
    then have i: "i < lr_cnt ?r" by simp
    then have "lp_ok (lr_region ?r ! i)" using assms(2) nth [OF i] by (metis nth_mem table_def)
    from is_reserved_entry [OF this, of addr] show "do { p \<leftarrow> rd (lr_region ?r) i; let upper = lp_base p + lp_size p - 1;
        Some (addr \<ge> lp_base p \<and> addr \<le> upper) } = Some (unat addr \<in> range_of (lr_region ?r ! i))"
      using i len by simp
  qed
  moreover have "(\<exists>i \<in> set [0 ..< lr_cnt ?r]. unat addr \<in> range_of (lr_region ?r ! i)) \<longleftrightarrow> unat addr \<in> covered ?r"
    unfolding cover_def entries_def nth_image [OF len, symmetric] by simp
  ultimately show ?thesis by simp
qed

theorem lmb_is_reserved_correct_witness:
  "lmb_is_reserved (example_lmb \<lparr>lmb_reserved := lmb_memory example_lmb\<rparr>) 65535 = Some True"
proof -
  let ?l = "example_lmb \<lparr>lmb_reserved := lmb_memory example_lmb\<rparr>"
  have "lmb_wf (lmb_reserved ?l)" "table (entries (lmb_reserved ?l))" using example_lmb_wf by simp_all
  from lmb_is_reserved_correct [OF this, of 65535] show ?thesis by (simp add: example_lmb range_of_def lp_end_def)
qed

text \<open>Before the first reservation the empty entry of \<open>lmb_init\<close> makes every address reserved.\<close>

lemma lmb_is_reserved_initial: "lmb_reserved l = empty_region \<Longrightarrow> lmb_is_reserved l addr = Some True"
  by (simp add: lmb_is_reserved_def empty_region_def Let_def)

text \<open>
  A case of the wrapped subtraction: with an address limit below the size the allocator hands out a
  block at the top of the address space.
\<close>

lemma lmb_alloc_base_wraps:
  "map_option fst (raw_lmb_alloc_base 0 example_lmb 8192 4096 4096) = Some (- 4096)"
  by code_simp

text \<open>
  Removing the last entry leaves an empty table in which the next insertion is lost: the stale entry
  0 comes back instead.
\<close>

definition readded_after_removal :: "(int \<times> lmb_property list) option" where
  "readded_after_removal =
     do { (ret, l) \<leftarrow> lmb_remove (example_lmb \<lparr>lmb_memory := empty_region \<lparr>lr_region := (lr_region empty_region)[0 := \<lparr>lp_base = 65536, lp_size = 65536\<rparr>]\<rparr>\<rparr>) 65536 65536;
          (ret, l) \<leftarrow> lmb_add l 262144 4096; Some (ret, entries (lmb_memory l)) }"

lemma lmb_add_after_last_remove: "readded_after_removal = Some (0, [\<lparr>lp_base = 65536, lp_size = 65536\<rparr>])"
  by (simp add: readded_after_removal_def lmb_remove_def lmb_remove_find.simps example_lmb_def empty_region_def
      lmb_remove_region_def cnt_minus_1_def lmb_add_def lmb_add_region_def lmb_add_scan.simps lmb_regions_adjacent_def
      lmb_addrs_adjacent_def MAX_LMB_REGIONS_def entries_def Let_def take_Suc_conv_app_nth)

end
