(* ===== verification/Resource.thy ===== *)
theory Resource
  imports KPrelude
begin

text \<open>
  The resource tree of \<open>kernel/resource.c\<close>: address ranges that drivers and buses claim, linked by
  \<open>parent\<close>, \<open>child\<close> and \<open>sibling\<close> pointers. The memory holding the descriptors is a partial map from
  addresses to records, and following a null or dangling pointer is \<open>None\<close>. The
  pointer to a pointer of the list walks, \<open>struct resource **p\<close>, is a \<open>link\<close>: the \<open>child\<close> or the
  \<open>sibling\<close> field of a descriptor. \<open>resource_lock\<close> makes each operation atomic. The lemmas show that
  the children of every node stay sorted, disjoint and inside their parent.
\<close>

section \<open>Descriptors\<close>

record resource =
  r_start :: u64
  r_end :: u64
  r_name :: string
  r_flags :: ulong
  r_parent :: "nat option"
  r_sibling :: "nat option"
  r_child :: "nat option"

type_synonym rheap = "nat \<Rightarrow> resource option"

definition IORESOURCE_MEM :: ulong where "IORESOURCE_MEM = 0x200"
definition IORESOURCE_SIZEALIGN :: ulong where "IORESOURCE_SIZEALIGN = 0x20000"
definition IORESOURCE_STARTALIGN :: ulong where "IORESOURCE_STARTALIGN = 0x40000"
definition IORESOURCE_BUSY :: ulong where "IORESOURCE_BUSY = 0x80000000"

datatype link = Child nat | Sibling nat

fun get_link :: "rheap \<Rightarrow> link \<Rightarrow> nat option option" where
  "get_link st (Child a) = map_option r_child (st a)"
| "get_link st (Sibling a) = map_option r_sibling (st a)"

fun set_link :: "rheap \<Rightarrow> link \<Rightarrow> nat option \<Rightarrow> rheap option" where
  "set_link st (Child a) v = map_option (\<lambda>r. st(a \<mapsto> r \<lparr>r_child := v\<rparr>)) (st a)"
| "set_link st (Sibling a) v = map_option (\<lambda>r. st(a \<mapsto> r \<lparr>r_sibling := v\<rparr>)) (st a)"

definition upd :: "rheap \<Rightarrow> nat \<Rightarrow> (resource \<Rightarrow> resource) \<Rightarrow> rheap option" where
  "upd st a f = map_option (\<lambda>r. st(a \<mapsto> f r)) (st a)"

text \<open>\<open>kzalloc\<close> returns a zeroed descriptor at a free address, or null; \<open>alloc\<close> chooses the address.\<close>

definition kzalloc :: "(rheap \<Rightarrow> nat option) \<Rightarrow> rheap \<Rightarrow> (nat \<times> rheap) option" where
  "kzalloc alloc st = map_option (\<lambda>a. (a, st(a \<mapsto> \<lparr>r_start = 0, r_end = 0, r_name = [], r_flags = 0,
      r_parent = None, r_sibling = None, r_child = None\<rparr>))) (alloc st)"

section \<open>Requesting and releasing\<close>

partial_function (option) request_loop ::
  "nat \<Rightarrow> nat \<Rightarrow> u64 \<Rightarrow> u64 \<Rightarrow> rheap \<Rightarrow> link \<Rightarrow> (nat option \<times> rheap) option" where
  "request_loop root new start end st p =
     do { tmp \<leftarrow> get_link st p;
          past \<leftarrow> (case tmp of None \<Rightarrow> Some True | Some t \<Rightarrow> do { rt \<leftarrow> st t; Some (r_start rt > end) });
          if past then
            do { st \<leftarrow> upd st new (\<lambda>r. r \<lparr>r_sibling := tmp\<rparr>);
                 st \<leftarrow> set_link st p (Some new);
                 st \<leftarrow> upd st new (\<lambda>r. r \<lparr>r_parent := Some root\<rparr>);
                 Some (None, st) }
          else
            do { t \<leftarrow> tmp; rt \<leftarrow> st t;
                 if r_end rt < start then request_loop root new start end st (Sibling t)
                 else Some (Some t, st) } }"

declare request_loop.simps [code]

text \<open>The first component is the conflicting resource, null on success.\<close>

definition raw_request_resource :: "rheap \<Rightarrow> nat \<Rightarrow> nat \<Rightarrow> (nat option \<times> rheap) option" where
  "raw_request_resource st root new =
     do { rn \<leftarrow> st new; rr \<leftarrow> st root;
          let start = r_start rn;
          let end = r_end rn;
          if end < start then Some (Some root, st)
          else if start < r_start rr then Some (Some root, st)
          else if end > r_end rr then Some (Some root, st)
          else request_loop root new start end st (Child root) }"

partial_function (option) release_loop :: "nat \<Rightarrow> rheap \<Rightarrow> link \<Rightarrow> (int \<times> rheap) option" where
  "release_loop old st p =
     do { tmp \<leftarrow> get_link st p;
          case tmp of
            None \<Rightarrow> Some (- EINVAL, st)
          | Some t \<Rightarrow>
              if t = old then
                do { rt \<leftarrow> st t; st \<leftarrow> set_link st p (r_sibling rt);
                     st \<leftarrow> upd st old (\<lambda>r. r \<lparr>r_parent := None\<rparr>); Some (0, st) }
              else release_loop old st (Sibling t) }"

declare release_loop.simps [code]

definition raw_release_resource :: "rheap \<Rightarrow> nat \<Rightarrow> (int \<times> rheap) option" where
  "raw_release_resource st old = do { ro \<leftarrow> st old; parent \<leftarrow> r_parent ro; release_loop old st (Child parent) }"

definition request_resource :: "rheap \<Rightarrow> nat \<Rightarrow> nat \<Rightarrow> (int \<times> rheap) option" where
  "request_resource st root new =
     do { (conflict, st) \<leftarrow> raw_request_resource st root new;
          Some (case conflict of None \<Rightarrow> 0 | Some _ \<Rightarrow> - EBUSY, st) }"

definition release_resource :: "rheap \<Rightarrow> nat \<Rightarrow> (int \<times> rheap) option" where
  "release_resource st old = raw_release_resource st old"

section \<open>System memory ranges\<close>

partial_function (option) find_ram_loop ::
  "rheap \<Rightarrow> ulong \<Rightarrow> string option \<Rightarrow> u64 \<Rightarrow> u64 \<Rightarrow> nat option \<Rightarrow> nat option option" where
  "find_ram_loop st flags name start end p =
     (case p of
        None \<Rightarrow> Some None
      | Some a \<Rightarrow>
          do { r \<leftarrow> st a;
               if r_flags r \<noteq> flags then find_ram_loop st flags name start end (r_sibling r)
               else if name \<noteq> None \<and> Some (r_name r) \<noteq> name then find_ram_loop st flags name start end (r_sibling r)
               else if r_start r > end then Some None
               else if r_end r \<ge> start \<and> r_start r < end then Some (Some a)
               else find_ram_loop st flags name start end (r_sibling r) })"

declare find_ram_loop.simps [code]

definition find_next_system_ram :: "rheap \<Rightarrow> nat \<Rightarrow> u64 \<Rightarrow> u64 \<Rightarrow> ulong \<Rightarrow> string option \<Rightarrow> (int \<times> u64 \<times> u64) option" where
  "find_next_system_ram st iomem start end flags name =
     (if start \<ge> end then None
      else do { ri \<leftarrow> st iomem;
                p \<leftarrow> find_ram_loop st flags name start end (r_child ri);
                case p of
                  None \<Rightarrow> Some (-1, start, end)
                | Some a \<Rightarrow> do { r \<leftarrow> st a;
                                Some (0, if start < r_start r then r_start r else start,
                                         if end > r_end r then r_end r else end) } })"

partial_function (option) walk_ram_loop ::
  "rheap \<Rightarrow> nat \<Rightarrow> (ulong \<Rightarrow> ulong \<Rightarrow> 's \<Rightarrow> int \<times> 's) \<Rightarrow> u64 \<Rightarrow> int \<Rightarrow> u64 \<Rightarrow> u64 \<Rightarrow> 's \<Rightarrow> (int \<times> 's) option" where
  "walk_ram_loop st iomem func orig_end ret start end arg =
     (if start < end then
        do { (found, start, end) \<leftarrow> find_next_system_ram st iomem start end (IORESOURCE_MEM OR IORESOURCE_BUSY) (Some ''System RAM'');
             if found \<ge> 0 then
               let pfn = drop_bit 12 start; len = drop_bit 12 (end + 1 - start); (ret, arg) = func pfn len arg in
               if ret \<noteq> 0 then Some (ret, arg)
               else walk_ram_loop st iomem func orig_end ret (end + 1) orig_end arg
             else Some (ret, arg) }
      else Some (ret, arg))"

declare walk_ram_loop.simps [code]

definition walk_system_ram_range ::
  "rheap \<Rightarrow> nat \<Rightarrow> ulong \<Rightarrow> ulong \<Rightarrow> (ulong \<Rightarrow> ulong \<Rightarrow> 's \<Rightarrow> int \<times> 's) \<Rightarrow> 's \<Rightarrow> (int \<times> 's) option" where
  "walk_system_ram_range st iomem start_pfn nr_pages func arg =
     (let start = push_bit 12 start_pfn; end = push_bit 12 (start_pfn + nr_pages) - 1 in
      walk_ram_loop st iomem func end (-1) start end arg)"

section \<open>Allocation\<close>

definition ALIGN :: "u64 \<Rightarrow> u64 \<Rightarrow> u64" where "ALIGN x a = (x + (a - 1)) AND NOT (a - 1)"

text \<open>The candidate between two children, cut to the limits and aligned.\<close>

definition clamp_candidate :: "resource \<Rightarrow> u64 \<Rightarrow> u64 \<Rightarrow> u64 \<Rightarrow> u64 \<Rightarrow> resource" where
  "clamp_candidate n e mn mx align =
     (let n = n \<lparr>r_end := e\<rparr>;
          n = (if r_start n < mn then n \<lparr>r_start := mn\<rparr> else n);
          n = (if r_end n > mx then n \<lparr>r_end := mx\<rparr> else n)
      in n \<lparr>r_start := ALIGN (r_start n) align\<rparr>)"

text \<open>\<open>alignf\<close> is the caller's optional adjustment of the candidate.\<close>

partial_function (option) find_resource_loop ::
  "nat \<Rightarrow> nat \<Rightarrow> u64 \<Rightarrow> u64 \<Rightarrow> u64 \<Rightarrow> u64 \<Rightarrow> (resource \<Rightarrow> u64 \<Rightarrow> u64 \<Rightarrow> resource) option \<Rightarrow> rheap \<Rightarrow> nat option \<Rightarrow> (int \<times> rheap) option" where
  "find_resource_loop root new sz mn mx align alignf st this =
     do { e \<leftarrow> (case this of Some t \<Rightarrow> do { rt \<leftarrow> st t; Some (r_start rt - 1) }
                           | None \<Rightarrow> do { rr \<leftarrow> st root; Some (r_end rr) });
          n \<leftarrow> st new;
          let n = clamp_candidate n e mn mx align;
          let n = (case alignf of None \<Rightarrow> n | Some f \<Rightarrow> f n sz align);
          if r_start n < r_end n \<and> r_end n - r_start n \<ge> sz - 1
          then Some (0, st(new \<mapsto> n \<lparr>r_end := r_start n + sz - 1\<rparr>))
          else case this of
              None \<Rightarrow> Some (- EBUSY, st(new \<mapsto> n))
            | Some t \<Rightarrow> do { rt \<leftarrow> (st(new \<mapsto> n)) t;
                            find_resource_loop root new sz mn mx align alignf (st(new \<mapsto> n \<lparr>r_start := r_end rt + 1\<rparr>)) (r_sibling rt) } }"

declare find_resource_loop.simps [code]

definition find_resource ::
  "rheap \<Rightarrow> nat \<Rightarrow> nat \<Rightarrow> u64 \<Rightarrow> u64 \<Rightarrow> u64 \<Rightarrow> u64 \<Rightarrow> (resource \<Rightarrow> u64 \<Rightarrow> u64 \<Rightarrow> resource) option \<Rightarrow> (int \<times> rheap) option" where
  "find_resource st root new sz mn mx align alignf =
     do { rr \<leftarrow> st root;
          st \<leftarrow> upd st new (\<lambda>r. r \<lparr>r_start := r_start rr\<rparr>);
          case r_child rr of
            None \<Rightarrow> find_resource_loop root new sz mn mx align alignf st None
          | Some t \<Rightarrow>
              do { rt \<leftarrow> st t;
                   if r_start rt = 0 then
                     do { st \<leftarrow> upd st new (\<lambda>r. r \<lparr>r_start := r_end rt + 1\<rparr>);
                          find_resource_loop root new sz mn mx align alignf st (r_sibling rt) }
                   else find_resource_loop root new sz mn mx align alignf st (Some t) } }"

definition allocate_resource ::
  "rheap \<Rightarrow> nat \<Rightarrow> nat \<Rightarrow> u64 \<Rightarrow> u64 \<Rightarrow> u64 \<Rightarrow> u64 \<Rightarrow> (resource \<Rightarrow> u64 \<Rightarrow> u64 \<Rightarrow> resource) option \<Rightarrow> (int \<times> rheap) option" where
  "allocate_resource st root new sz mn mx align alignf =
     do { (err, st) \<leftarrow> find_resource st root new sz mn mx align alignf;
          if err \<ge> 0 then
            do { (conflict, st) \<leftarrow> raw_request_resource st root new;
                 Some (case conflict of None \<Rightarrow> err | Some _ \<Rightarrow> - EBUSY, st) }
          else Some (err, st) }"

section \<open>Inserting between existing levels\<close>

text \<open>
  The descent ends with a return, when the request succeeds or fails at the parent itself, or with a
  \<open>break\<close> at the first conflicting child.
\<close>

datatype descent = Returned "nat option" | Stopped nat nat

partial_function (option) insert_descend :: "nat \<Rightarrow> rheap \<Rightarrow> nat \<Rightarrow> (descent \<times> rheap) option" where
  "insert_descend new st parent =
     do { (conflict, st) \<leftarrow> raw_request_resource st parent new;
          case conflict of
            None \<Rightarrow> Some (Returned None, st)
          | Some first \<Rightarrow>
              if first = parent then Some (Returned (Some first), st)
              else do { rf \<leftarrow> st first; rn \<leftarrow> st new;
                        if r_start rf > r_start rn \<or> r_end rf < r_end rn then Some (Stopped parent first, st)
                        else if r_start rf = r_start rn \<and> r_end rf = r_end rn then Some (Stopped parent first, st)
                        else insert_descend new st first } }"

declare insert_descend.simps [code]

text \<open>The last child inside the new range, or the partially overlapping one.\<close>

partial_function (option) insert_span :: "rheap \<Rightarrow> u64 \<Rightarrow> u64 \<Rightarrow> nat \<Rightarrow> (bool \<times> nat) option" where
  "insert_span st start end nxt =
     do { r \<leftarrow> st nxt;
          if r_start r < start \<or> r_end r > end then Some (False, nxt)
          else case r_sibling r of
              None \<Rightarrow> Some (True, nxt)
            | Some s \<Rightarrow> do { rs \<leftarrow> st s; if r_start rs > end then Some (True, nxt) else insert_span st start end s } }"

declare insert_span.simps [code]

partial_function (option) set_parents :: "nat \<Rightarrow> rheap \<Rightarrow> nat option \<Rightarrow> rheap option" where
  "set_parents new st nxt =
     (case nxt of
        None \<Rightarrow> Some st
      | Some a \<Rightarrow> do { r \<leftarrow> st a; set_parents new (st(a \<mapsto> r \<lparr>r_parent := Some new\<rparr>)) (r_sibling r) })"

declare set_parents.simps [code]

partial_function (option) find_previous :: "rheap \<Rightarrow> nat \<Rightarrow> nat \<Rightarrow> nat option" where
  "find_previous st first nxt =
     do { r \<leftarrow> st nxt;
          if r_sibling r = Some first then Some nxt
          else do { s \<leftarrow> r_sibling r; find_previous st first s } }"

declare find_previous.simps [code]

definition raw_insert_resource :: "rheap \<Rightarrow> nat \<Rightarrow> nat \<Rightarrow> (nat option \<times> rheap) option" where
  "raw_insert_resource st parent new =
     do { (d, st) \<leftarrow> insert_descend new st parent;
          case d of
            Returned c \<Rightarrow> Some (c, st)
          | Stopped parent first \<Rightarrow>
              do { rn \<leftarrow> st new;
                   (inside, nxt) \<leftarrow> insert_span st (r_start rn) (r_end rn) first;
                   if \<not> inside then Some (Some nxt, st)
                   else do { r \<leftarrow> st nxt;
                             st \<leftarrow> upd st new (\<lambda>rn. rn \<lparr>r_parent := Some parent, r_sibling := r_sibling r, r_child := Some first\<rparr>);
                             st \<leftarrow> upd st nxt (\<lambda>r. r \<lparr>r_sibling := None\<rparr>);
                             st \<leftarrow> set_parents new st (Some first);
                             rp \<leftarrow> st parent;
                             st \<leftarrow> (if r_child rp = Some first then upd st parent (\<lambda>r. r \<lparr>r_child := Some new\<rparr>)
                                    else do { c \<leftarrow> r_child rp; prev \<leftarrow> find_previous st first c;
                                              upd st prev (\<lambda>r. r \<lparr>r_sibling := Some new\<rparr>) });
                             Some (None, st) } } }"

definition insert_resource :: "rheap \<Rightarrow> nat \<Rightarrow> nat \<Rightarrow> (int \<times> rheap) option" where
  "insert_resource st parent new =
     do { (conflict, st) \<leftarrow> raw_insert_resource st parent new;
          Some (case conflict of None \<Rightarrow> 0 | Some _ \<Rightarrow> - EBUSY, st) }"

partial_function (option) expand_to_fit :: "nat \<Rightarrow> nat \<Rightarrow> rheap \<Rightarrow> rheap option" where
  "expand_to_fit root new st =
     do { (conflict, st) \<leftarrow> raw_insert_resource st root new;
          case conflict of
            None \<Rightarrow> Some st
          | Some c \<Rightarrow>
              if c = root then Some st
              else do { rc \<leftarrow> st c;
                        st \<leftarrow> upd st new (\<lambda>r. if r_start rc < r_start r then r \<lparr>r_start := r_start rc\<rparr> else r);
                        st \<leftarrow> upd st new (\<lambda>r. if r_end rc > r_end r then r \<lparr>r_end := r_end rc\<rparr> else r);
                        expand_to_fit root new st } }"

declare expand_to_fit.simps [code]

definition insert_resource_expand_to_fit :: "rheap \<Rightarrow> nat \<Rightarrow> nat \<Rightarrow> rheap option" where
  "insert_resource_expand_to_fit st root new =
     do { rn \<leftarrow> st new; if r_parent rn \<noteq> None then Some st else expand_to_fit root new st }"

section \<open>Adjusting\<close>

partial_function (option) children_within :: "rheap \<Rightarrow> u64 \<Rightarrow> u64 \<Rightarrow> nat option \<Rightarrow> bool option" where
  "children_within st start end tmp =
     (if tmp = None then Some True
      else do { t \<leftarrow> tmp; rt \<leftarrow> st t;
                if r_start rt < start \<or> r_end rt > end then Some False
                else children_within st start end (r_sibling rt) })"

declare children_within.simps [code]

definition adjust_resource :: "rheap \<Rightarrow> nat \<Rightarrow> u64 \<Rightarrow> u64 \<Rightarrow> (int \<times> rheap) option" where
  "adjust_resource st res start sz =
     do { r \<leftarrow> st res; parent \<leftarrow> r_parent r; rp \<leftarrow> st parent;
          let end = start + sz - 1;
          if start < r_start rp \<or> end > r_end rp then Some (- EBUSY, st)
          else do { inside \<leftarrow> children_within st start end (r_child r);
                    if \<not> inside then Some (- EBUSY, st)
                    else do { hit \<leftarrow> (case r_sibling r of None \<Rightarrow> Some False | Some s \<Rightarrow> do { rs \<leftarrow> st s; Some (r_start rs \<le> end) });
                              if hit then Some (- EBUSY, st)
                              else do { tmp \<leftarrow> r_child rp;
                                        hit \<leftarrow> (if tmp \<noteq> res then do { prev \<leftarrow> find_previous st res tmp; rt \<leftarrow> st prev; Some (start \<le> r_end rt) }
                                               else Some False);
                                        if hit then Some (- EBUSY, st)
                                        else do { st \<leftarrow> upd st res (\<lambda>r. r \<lparr>r_start := start, r_end := end\<rparr>); Some (0, st) } } } } }"

section \<open>Reserving around existing resources\<close>

partial_function (option) raw_reserve_region_with_split ::
  "(rheap \<Rightarrow> nat option) \<Rightarrow> nat \<Rightarrow> string \<Rightarrow> rheap \<Rightarrow> u64 \<Rightarrow> u64 \<Rightarrow> rheap option" where
  "raw_reserve_region_with_split alloc root name st start end =
     (case kzalloc alloc st of
        None \<Rightarrow> Some st
      | Some (res, st) \<Rightarrow>
          do { st \<leftarrow> upd st res (\<lambda>r. r \<lparr>r_name := name, r_start := start, r_end := end, r_flags := IORESOURCE_BUSY\<rparr>);
               (conflict, st) \<leftarrow> raw_request_resource st root res;
               case conflict of
                 None \<Rightarrow> Some st
               | Some c \<Rightarrow>
                   do { let st = st(res := None);
                        rc \<leftarrow> st c;
                        if r_start rc \<le> start \<and> r_end rc \<ge> end then Some st
                        else do { st \<leftarrow> (if r_start rc > start then raw_reserve_region_with_split alloc root name st start (r_start rc - 1) else Some st);
                                  rc \<leftarrow> st c;
                                  if r_end rc < end then raw_reserve_region_with_split alloc root name st (r_end rc + 1) end
                                  else Some st } } })"

declare raw_reserve_region_with_split.simps [code]

definition reserve_region_with_split :: "(rheap \<Rightarrow> nat option) \<Rightarrow> rheap \<Rightarrow> nat \<Rightarrow> u64 \<Rightarrow> u64 \<Rightarrow> string \<Rightarrow> rheap option" where
  "reserve_region_with_split alloc st root start end name = raw_reserve_region_with_split alloc root name st start end"

section \<open>Alignment and regions\<close>

definition resource_size :: "resource \<Rightarrow> u64" where "resource_size res = r_end res - r_start res + 1"

definition resource_alignment :: "resource \<Rightarrow> u64" where
  "resource_alignment res =
     (let f = r_flags res AND (IORESOURCE_SIZEALIGN OR IORESOURCE_STARTALIGN) in
      if f = IORESOURCE_SIZEALIGN then resource_size res else if f = IORESOURCE_STARTALIGN then r_start res else 0)"

text \<open>\<open>None\<close> inside is the null pointer.\<close>

partial_function (option) request_region_loop :: "nat \<Rightarrow> rheap \<Rightarrow> nat \<Rightarrow> (nat option \<times> rheap) option" where
  "request_region_loop res st parent =
     do { (conflict, st) \<leftarrow> raw_request_resource st parent res;
          case conflict of
            None \<Rightarrow> Some (Some res, st)
          | Some c \<Rightarrow>
              if c \<noteq> parent then
                do { rc \<leftarrow> st c;
                     if r_flags rc AND IORESOURCE_BUSY = 0 then request_region_loop res st c
                     else Some (None, st(res := None)) }
              else Some (None, st(res := None)) }"

declare request_region_loop.simps [code]

definition raw_request_region ::
  "(rheap \<Rightarrow> nat option) \<Rightarrow> rheap \<Rightarrow> nat \<Rightarrow> u64 \<Rightarrow> u64 \<Rightarrow> string \<Rightarrow> ulong \<Rightarrow> (nat option \<times> rheap) option" where
  "raw_request_region alloc st parent start n name flags =
     (case kzalloc alloc st of
        None \<Rightarrow> Some (None, st)
      | Some (res, st) \<Rightarrow>
          do { st \<leftarrow> upd st res (\<lambda>r. r \<lparr>r_name := name, r_start := start, r_end := start + n - 1, r_flags := IORESOURCE_BUSY OR flags\<rparr>);
               request_region_loop res st parent })"

definition raw_check_region :: "(rheap \<Rightarrow> nat option) \<Rightarrow> rheap \<Rightarrow> nat \<Rightarrow> u64 \<Rightarrow> u64 \<Rightarrow> (int \<times> rheap) option" where
  "raw_check_region alloc st parent start n =
     do { (res, st) \<leftarrow> raw_request_region alloc st parent start n ''check-region'' 0;
          case res of
            None \<Rightarrow> Some (- EBUSY, st)
          | Some a \<Rightarrow> do { (ret, st) \<leftarrow> release_resource st a; Some (0, st(a := None)) } }"

text \<open>The Boolean says whether a matching busy region was found; otherwise the code only warns.\<close>

partial_function (option) release_region_loop :: "u64 \<Rightarrow> u64 \<Rightarrow> rheap \<Rightarrow> link \<Rightarrow> (bool \<times> rheap) option" where
  "release_region_loop start end st p =
     do { tmp \<leftarrow> get_link st p;
          case tmp of
            None \<Rightarrow> Some (False, st)
          | Some a \<Rightarrow>
              do { r \<leftarrow> st a;
                   if r_start r \<le> start \<and> r_end r \<ge> end then
                     if r_flags r AND IORESOURCE_BUSY = 0 then release_region_loop start end st (Child a)
                     else if r_start r \<noteq> start \<or> r_end r \<noteq> end then Some (False, st)
                     else do { st \<leftarrow> set_link st p (r_sibling r); Some (True, st(a := None)) }
                   else release_region_loop start end st (Sibling a) } }"

declare release_region_loop.simps [code]

definition raw_release_region :: "rheap \<Rightarrow> nat \<Rightarrow> u64 \<Rightarrow> u64 \<Rightarrow> (bool \<times> rheap) option" where
  "raw_release_region st parent start n = release_region_loop start (start + n - 1) st (Child parent)"

section \<open>Sibling lists\<close>

text \<open>\<open>rseg st c xs d\<close>: from pointer \<open>c\<close> the sibling links lead through \<open>xs\<close> to pointer \<open>d\<close>.\<close>

fun rseg :: "rheap \<Rightarrow> nat option \<Rightarrow> nat list \<Rightarrow> nat option \<Rightarrow> bool" where
  "rseg st c [] d \<longleftrightarrow> c = d"
| "rseg st c (a # as) d \<longleftrightarrow> c = Some a \<and> (\<exists>r. st a = Some r \<and> rseg st (r_sibling r) as d)"

definition start_of :: "rheap \<Rightarrow> nat \<Rightarrow> u64" where "start_of st x = r_start (the (st x))"

definition end_of :: "rheap \<Rightarrow> nat \<Rightarrow> u64" where "end_of st x = r_end (the (st x))"

definition has_parent :: "rheap \<Rightarrow> nat \<Rightarrow> nat \<Rightarrow> bool" where
  "has_parent st x a \<longleftrightarrow> (\<exists>r. st x = Some r \<and> r_parent r = Some a)"

lemma rseg_append: "rseg st c (xs @ ys) d \<longleftrightarrow> (\<exists>e. rseg st c xs e \<and> rseg st e ys d)"
  by (induction xs arbitrary: c) auto

lemma rseg_dom: "rseg st c xs d \<Longrightarrow> x \<in> set xs \<Longrightarrow> \<exists>r. st x = Some r"
  by (induction xs arbitrary: c) auto

lemma rseg_frame:
  "rseg st c xs d \<Longrightarrow> (\<And>x. x \<in> set xs \<Longrightarrow> map_option r_sibling (st' x) = map_option r_sibling (st x)) \<Longrightarrow> rseg st' c xs d"
proof (induction xs arbitrary: c)
  case (Cons a xs)
  obtain r where r: "c = Some a" "st a = Some r" "rseg st (r_sibling r) xs d" using Cons.prems(1) by auto
  obtain r' where "st' a = Some r'" "r_sibling r' = r_sibling r" using Cons.prems(2) [of a] r(2) by auto
  then show ?case using Cons.IH [OF r(3)] Cons.prems(2) r(1) by auto
qed simp

lemma rseg_unique: "rseg st c xs None \<Longrightarrow> rseg st c ys None \<Longrightarrow> xs = ys"
proof (induction xs arbitrary: c ys)
  case Nil
  then show ?case by (cases ys) auto
next
  case (Cons a xs)
  then show ?case by (cases ys) auto
qed

text \<open>The link that a walk over \<open>as\<close> from the first child of \<open>root\<close> arrives at.\<close>

definition endlink :: "nat \<Rightarrow> nat list \<Rightarrow> link" where
  "endlink root as = (if as = [] then Child root else Sibling (last as))"

definition head :: "nat list \<Rightarrow> nat option" where "head xs = (case xs of [] \<Rightarrow> None | x # _ \<Rightarrow> Some x)"

lemma head_simps [simp]: "head [] = None" "head (x # xs) = Some x"
  by (simp_all add: head_def)

lemma rseg_head: "rseg st c xs None \<Longrightarrow> c = head xs"
  by (cases xs) auto

lemma get_endlink:
  assumes "st root = Some rr" "rseg st (r_child rr) (as @ bs) None"
  shows "get_link st (endlink root as) = Some (head bs)"
proof (cases as rule: rev_cases)
  case Nil
  then show ?thesis using assms rseg_head [of st _ bs] by (simp add: endlink_def)
next
  case (snoc as' a)
  then show ?thesis using assms(2) rseg_head [of st _ bs] by (auto simp: endlink_def rseg_append)
qed

text \<open>The heap after linking \<open>new\<close> into the child list of \<open>root\<close> behind \<open>as\<close>.\<close>

definition linked :: "rheap \<Rightarrow> nat \<Rightarrow> nat \<Rightarrow> nat list \<Rightarrow> nat list \<Rightarrow> rheap" where
  "linked st root new as bs =
     (case endlink root as of
        Child a \<Rightarrow> st(a \<mapsto> (the (st a)) \<lparr>r_child := Some new\<rparr>)
      | Sibling a \<Rightarrow> st(a \<mapsto> (the (st a)) \<lparr>r_sibling := Some new\<rparr>))
     (new \<mapsto> (the (st new)) \<lparr>r_sibling := head bs, r_parent := Some root\<rparr>)"

lemma link_steps:
  assumes "st root = Some rr" "rseg st (r_child rr) (as @ bs) None" "st new = Some rn" "new \<noteq> root" "new \<notin> set as"
  shows "do { st \<leftarrow> upd st new (\<lambda>r. r \<lparr>r_sibling := head bs\<rparr>); st \<leftarrow> set_link st (endlink root as) (Some new);
              st \<leftarrow> upd st new (\<lambda>r. r \<lparr>r_parent := Some root\<rparr>); Some (None :: nat option, st) } = Some (None, linked st root new as bs)"
proof (cases as rule: rev_cases)
  case Nil
  then show ?thesis using assms by (simp add: linked_def endlink_def upd_def fun_upd_twist)
next
  case (snoc as' a)
  then obtain ra where "st a = Some ra" using assms(2) by (auto simp: rseg_append)
  then show ?thesis using assms snoc by (simp add: linked_def endlink_def upd_def fun_upd_twist)
qed

lemma request_loop_spec:
  assumes "st root = Some rr" "rseg st (r_child rr) (as @ bs) None" "st new = Some rn" "new \<noteq> root" "new \<notin> set (as @ bs)"
  shows "\<exists>cs ds. bs = cs @ ds \<and> (\<forall>x \<in> set cs. end_of st x < start) \<and>
    (if ds = [] \<or> start_of st (hd ds) > end
     then request_loop root new start end st (endlink root as) = Some (None, linked st root new (as @ cs) ds)
     else end_of st (hd ds) \<ge> start \<and> request_loop root new start end st (endlink root as) = Some (Some (hd ds), st))"
  using assms(2,5)
proof (induction bs arbitrary: as)
  case Nil
  have "request_loop root new start end st (endlink root as) = Some (None, linked st root new as [])"
    using link_steps [OF assms(1) Nil(1) assms(3,4)] Nil(2) get_endlink [OF assms(1) Nil(1)]
    by (subst request_loop.simps) (simp del: bind_split_Some)
  then show ?case by (intro exI [of _ "[]"]) simp
next
  case (Cons b bs)
  obtain rb where rb: "st b = Some rb" using rseg_dom [OF Cons.prems(1)] by auto
  note gl = get_endlink [OF assms(1) Cons.prems(1)]
  show ?case
  proof (cases "r_start rb > end")
    case True
    then have "request_loop root new start end st (endlink root as) = Some (None, linked st root new as (b # bs))"
      using link_steps [OF assms(1) Cons.prems(1) assms(3,4)] Cons.prems(2) gl rb
      by (subst request_loop.simps) (simp del: bind_split_Some)
    then show ?thesis using True rb by (intro exI [of _ "[]"] exI [of _ "b # bs"]) (simp add: start_of_def)
  next
    case low: False
    show ?thesis
    proof (cases "r_end rb < start")
      case True
      have e: "endlink root (as @ [b]) = Sibling b" by (simp add: endlink_def)
      have "request_loop root new start end st (endlink root as) = request_loop root new start end st (endlink root (as @ [b]))"
        unfolding e using low True gl rb by (subst request_loop.simps) (simp del: bind_split_Some)
      moreover obtain cs ds where "bs = cs @ ds" "\<forall>x \<in> set cs. end_of st x < start"
        "if ds = [] \<or> start_of st (hd ds) > end
         then request_loop root new start end st (endlink root (as @ [b])) = Some (None, linked st root new ((as @ [b]) @ cs) ds)
         else end_of st (hd ds) \<ge> start \<and> request_loop root new start end st (endlink root (as @ [b])) = Some (Some (hd ds), st)"
        using Cons.IH [of "as @ [b]"] Cons.prems by auto
      moreover have "end_of st b < start" using True rb by (simp add: end_of_def)
      ultimately show ?thesis by (intro exI [of _ "b # cs"] exI [of _ ds]) simp
    next
      case False
      then have "request_loop root new start end st (endlink root as) = Some (Some b, st)"
        using low gl rb by (subst request_loop.simps) (simp del: bind_split_Some)
      then show ?thesis using low False rb by (intro exI [of _ "[]"] exI [of _ "b # bs"]) (simp add: start_of_def end_of_def not_less)
    qed
  qed
qed

section \<open>The tree invariant\<close>

text \<open>
  \<open>node_ok st a xs\<close>: the child list of \<open>a\<close> is \<open>xs\<close>, it holds exactly the nodes whose parent is \<open>a\<close>, and
  their ranges are non-empty, ascending, disjoint and inside the range of \<open>a\<close>.
\<close>

definition ascending :: "rheap \<Rightarrow> nat list \<Rightarrow> bool" where
  "ascending st xs \<longleftrightarrow> sorted_wrt (\<lambda>x y. end_of st x < start_of st y) xs"

definition node_ok :: "rheap \<Rightarrow> nat \<Rightarrow> nat list \<Rightarrow> bool" where
  "node_ok st a xs \<longleftrightarrow> (\<exists>r. st a = Some r \<and> rseg st (r_child r) xs None) \<and> distinct xs \<and> (\<forall>x. x \<in> set xs \<longleftrightarrow> has_parent st x a) \<and>
     ascending st xs \<and> (\<forall>x \<in> set xs. start_of st a \<le> start_of st x \<and> start_of st x \<le> end_of st x \<and> end_of st x \<le> end_of st a)"

definition tree_ok :: "rheap \<Rightarrow> bool" where
  "tree_ok st \<longleftrightarrow> (\<forall>a \<in> dom st. \<exists>xs. node_ok st a xs) \<and> (\<forall>x a. has_parent st x a \<longrightarrow> a \<in> dom st) \<and>
     (\<exists>h :: nat \<Rightarrow> nat. \<forall>x a. has_parent st x a \<longrightarrow> h x < h a)"

lemma node_ok_frame:
  assumes ok: "node_ok st a xs" and a: "map_option r_child (st' a) = map_option r_child (st a)"
    "start_of st' a = start_of st a" "end_of st' a = end_of st a"
    and xs: "\<And>x. x \<in> set xs \<Longrightarrow> map_option r_sibling (st' x) = map_option r_sibling (st x) \<and>
       start_of st' x = start_of st x \<and> end_of st' x = end_of st x"
    and par: "\<And>x. has_parent st' x a \<longleftrightarrow> has_parent st x a"
  shows "node_ok st' a xs"
proof -
  obtain r where r: "st a = Some r" "rseg st (r_child r) xs None" using ok by (auto simp: node_ok_def)
  obtain r' where r': "st' a = Some r'" "r_child r' = r_child r" using a(1) r(1) by auto
  have "rseg st' (r_child r') xs None" unfolding r'(2) by (rule rseg_frame [OF r(2)]) (use xs in blast)
  moreover have "ascending st' xs"
    using ok xs unfolding node_ok_def ascending_def by (auto intro: sorted_wrt_mono_rel [rotated])
  ultimately show ?thesis using ok r' a(2,3) xs par unfolding node_ok_def by auto
qed

lemma linked_eq:
  assumes "st root = Some rr" "st new = Some rn" "new \<noteq> root" "\<forall>x \<in> set as. \<exists>r. st x = Some r" "new \<notin> set as"
  shows "linked st root new as bs x = map_option (\<lambda>r. r \<lparr>r_child := if x = root \<and> as = [] then Some new else r_child r,
       r_sibling := if x = new then head bs else if as \<noteq> [] \<and> x = last as then Some new else r_sibling r,
       r_parent := if x = new then Some root else r_parent r\<rparr>) (st x)"
proof (cases "as = []")
  case True
  then show ?thesis using assms(1-3) by (cases "st x") (auto simp: linked_def endlink_def)
next
  case False
  then obtain rl where "st (last as) = Some rl" "last as \<noteq> new" using assms(4,5) last_in_set by metis
  then show ?thesis using assms(2) False by (cases "st x") (auto simp: linked_def endlink_def)
qed

lemma linked_fields:
  assumes "st root = Some rr" "st new = Some rn" "new \<noteq> root" "\<forall>x \<in> set as. \<exists>r. st x = Some r" "new \<notin> set as"
  shows "start_of (linked st root new as bs) x = start_of st x" "end_of (linked st root new as bs) x = end_of st x"
    "x \<noteq> new \<Longrightarrow> has_parent (linked st root new as bs) x a \<longleftrightarrow> has_parent st x a"
    "has_parent (linked st root new as bs) new a \<longleftrightarrow> a = root"
    "x \<noteq> root \<Longrightarrow> map_option r_child (linked st root new as bs x) = map_option r_child (st x)"
    "x \<noteq> new \<Longrightarrow> x \<noteq> last as \<or> as = [] \<Longrightarrow> map_option r_sibling (linked st root new as bs x) = map_option r_sibling (st x)"
    "linked st root new as bs x = None \<longleftrightarrow> st x = None" "map_option r_flags (linked st root new as bs x) = map_option r_flags (st x)"
proof -
  note e = linked_eq [where st = st and new = new and bs = bs, OF assms]
  show "start_of (linked st root new as bs) x = start_of st x" "end_of (linked st root new as bs) x = end_of st x"
    "linked st root new as bs x = None \<longleftrightarrow> st x = None" "map_option r_flags (linked st root new as bs x) = map_option r_flags (st x)"
    unfolding start_of_def end_of_def e by (cases "st x"; simp)+
  show "x \<noteq> new \<Longrightarrow> has_parent (linked st root new as bs) x a \<longleftrightarrow> has_parent st x a"
    unfolding has_parent_def e by (cases "st x"; simp)
  show "has_parent (linked st root new as bs) new a \<longleftrightarrow> a = root"
    unfolding has_parent_def e assms(2) by auto
  show "x \<noteq> root \<Longrightarrow> map_option r_child (linked st root new as bs x) = map_option r_child (st x)"
    "x \<noteq> new \<Longrightarrow> x \<noteq> last as \<or> as = [] \<Longrightarrow> map_option r_sibling (linked st root new as bs x) = map_option r_sibling (st x)"
    unfolding e by (cases "st x"; auto)+
qed

lemma linked_children:
  assumes r: "st root = Some rr" "rseg st (r_child rr) (as @ bs) None" and new: "st new = Some rn" "new \<noteq> root" "new \<notin> set (as @ bs)"
    and d: "distinct (as @ bs)" and root: "root \<notin> set (as @ bs)"
  shows "\<exists>r'. linked st root new as bs root = Some r' \<and> rseg (linked st root new as bs) (r_child r') (as @ new # bs) None"
proof -
  have ex: "\<forall>x \<in> set as. \<exists>r. st x = Some r" using rseg_dom [OF r(2)] by auto
  have nas: "new \<notin> set as" using new(3) by simp
  note f = linked_fields [where st = st, OF r(1) new(1,2) ex nas]
  let ?st = "linked st root new as bs"
  have bs: "rseg ?st (head bs) bs None"
  proof -
    obtain e where e: "rseg st e bs None" using r(2) by (auto simp: rseg_append)
    then have "rseg st (head bs) bs None" using rseg_head by metis
    moreover have "x \<noteq> new \<and> (x \<noteq> last as \<or> as = [])" if "x \<in> set bs" for x
      using that new(3) d last_in_set by fastforce
    ultimately show ?thesis using f(6) by (metis rseg_frame)
  qed
  have n: "?st new = Some (rn \<lparr>r_sibling := head bs, r_parent := Some root\<rparr>)" using new(1) by (simp add: linked_def)
  show ?thesis
  proof (cases as rule: rev_cases)
    case Nil
    then have "?st root = Some (rr \<lparr>r_child := Some new\<rparr>)" using r(1) new(2) by (simp add: linked_def endlink_def)
    then show ?thesis using Nil n bs by auto
  next
    case (snoc as' a)
    obtain e ra where e: "rseg st (r_child rr) as' e" "e = Some a" "st a = Some ra" using r(2) snoc by (auto simp: rseg_append)
    have "x \<noteq> new \<and> x \<noteq> last as" if "x \<in> set as'" for x using that new(3) d snoc by auto
    then have "rseg ?st (r_child rr) as' (Some a)" using e(1,2) f(6) rseg_frame by metis
    moreover have "?st a = Some (ra \<lparr>r_sibling := Some new\<rparr>)" "?st root = Some rr"
      using e(3) snoc new(3) r(1) new(2) root by (auto simp: linked_def endlink_def)
    ultimately show ?thesis using n bs by (auto simp: snoc rseg_append)
  qed
qed

lemma tree_okD:
  assumes "tree_ok st"
  shows "st a = Some r \<Longrightarrow> \<exists>xs. node_ok st a xs" "has_parent st x a \<Longrightarrow> x \<noteq> a" "has_parent st x a \<Longrightarrow> \<exists>r. st a = Some r"
  using assms unfolding tree_ok_def by (blast, fastforce, blast)

lemma node_ok_unique: "node_ok st a xs \<Longrightarrow> node_ok st a ys \<Longrightarrow> xs = ys"
  unfolding node_ok_def using rseg_unique by fastforce

lemma node_ok_parent: "node_ok st a xs \<Longrightarrow> x \<in> set xs \<longleftrightarrow> has_parent st x a"
  by (simp add: node_ok_def)

lemma linked_tree:
  assumes tree: "tree_ok st" and root: "node_ok st root (as @ bs)" and new: "st new = Some rn" "r_parent rn = None" "r_child rn = None" "new \<noteq> root"
    and inside: "r_start rn \<le> r_end rn" "start_of st root \<le> r_start rn" "r_end rn \<le> end_of st root"
    and place: "\<forall>x \<in> set as. end_of st x < r_start rn" "bs = [] \<or> r_end rn < start_of st (hd bs)"
  shows "node_ok (linked st root new as bs) root (as @ new # bs)" "tree_ok (linked st root new as bs)"
proof -
  let ?st = "linked st root new as bs"
  obtain rr where rr: "st root = Some rr" "rseg st (r_child rr) (as @ bs) None" using root by (auto simp: node_ok_def)
  have np: "\<not> has_parent st new a" for a using new(1,2) by (simp add: has_parent_def)
  have nin: "new \<notin> set (as @ bs)" using node_ok_parent [OF root] np by blast
  have rin: "root \<notin> set (as @ bs)" using node_ok_parent [OF root] tree_okD(2) [OF tree] by blast
  have d: "distinct (as @ bs)" using root by (simp add: node_ok_def)
  have ex: "\<forall>x \<in> set as. \<exists>r. st x = Some r" using rseg_dom [OF rr(2)] by auto
  have nas: "new \<notin> set as" using nin by simp
  note f = linked_fields [where st = st, OF rr(1) new(1,4) ex nas]
  have sn: "start_of st new = r_start rn" "end_of st new = r_end rn" using new(1) by (simp_all add: start_of_def end_of_def)
  have asc: "ascending st (as @ new # bs)"
  proof -
    have "ascending st (as @ bs)" using root by (simp add: node_ok_def)
    moreover have "\<forall>y \<in> set bs. r_end rn < start_of st y"
    proof (cases bs)
      case (Cons b bs')
      have "end_of st b < start_of st y" if "y \<in> set bs'" for y
        using \<open>ascending st (as @ bs)\<close> that Cons by (simp add: ascending_def sorted_wrt_append)
      moreover have "start_of st b \<le> end_of st b" using root Cons by (simp add: node_ok_def)
      ultimately show ?thesis using place(2) Cons by fastforce
    qed simp
    ultimately show ?thesis using place(1) by (auto simp: ascending_def sorted_wrt_append sn)
  qed
  have hp: "has_parent ?st x root \<longleftrightarrow> x = new \<or> has_parent st x root" for x using f(3,4) by metis
  show r: "node_ok ?st root (as @ new # bs)"
    using linked_children [where st = st, OF rr new(1,4) nin d rin] d nin node_ok_parent [OF root] asc inside root
    unfolding node_ok_def ascending_def f(1,2) hp by (auto simp: sn)
  have n0: "node_ok st new []"
  proof -
    obtain ys where ys: "node_ok st new ys" using tree_okD(1) [OF tree new(1)] by blast
    then have "rseg st None ys None" using new(1,3) by (auto simp: node_ok_def)
    then show ?thesis using ys by (cases ys) auto
  qed
  have nodes: "\<exists>xs. node_ok ?st a xs" if ne: "?st a \<noteq> None" for a
  proof (cases "a = root")
    case False
    obtain ra where "st a = Some ra" using ne f(7) [of bs a] by (cases "st a") auto
    then obtain ys where ys: "node_ok st a ys" using tree_okD(1) [OF tree] by blast
    have "node_ok ?st a ys"
    proof (rule node_ok_frame [OF ys])
      show "map_option r_child (?st a) = map_option r_child (st a)" using f(5) [OF False] .
      show "start_of ?st a = start_of st a" "end_of ?st a = end_of st a" by (rule f(1), rule f(2))
      show "has_parent ?st x a \<longleftrightarrow> has_parent st x a" for x using f(3) [of x] f(4) np False by (cases "x = new") auto
      fix y assume "y \<in> set ys"
      then have "has_parent st y a" using node_ok_parent [OF ys] by simp
      then have "y \<noteq> new" "y \<noteq> last as \<or> as = []" using np node_ok_parent [OF root] False last_in_set
        by (blast, metis Un_iff has_parent_def option.inject set_append)
      then show "map_option r_sibling (?st y) = map_option r_sibling (st y) \<and> start_of ?st y = start_of st y \<and> end_of ?st y = end_of st y"
        using f(1,2,6) by simp
    qed
    then show ?thesis by blast
  qed (use r in blast)
  obtain h :: "nat \<Rightarrow> nat" where h: "\<forall>x a. has_parent st x a \<longrightarrow> h x < h a" using tree by (auto simp: tree_ok_def)
  have "(if x = new then 0 else Suc (h x)) < (if a = new then 0 else Suc (h a))" if "has_parent ?st x a" for x a
  proof (cases "x = new")
    case True
    then show ?thesis using that f(4) new(4) by simp
  next
    case False
    then have "has_parent st x a" using that f(3) by blast
    moreover from this have "a \<noteq> new" using node_ok_parent [OF n0] by auto
    ultimately show ?thesis using False h by simp
  qed
  then have "\<exists>h :: nat \<Rightarrow> nat. \<forall>x a. has_parent ?st x a \<longrightarrow> h x < h a"
    by (intro exI [of _ "\<lambda>x. if x = new then 0 else Suc (h x)"]) simp
  moreover have "?st a \<noteq> None" if "has_parent ?st x a" for x a
    using that f(3,4,7) tree_okD(3) [OF tree] rr(1) by (metis option.distinct(1))
  ultimately show "tree_ok ?st" using nodes unfolding tree_ok_def by blast
qed

definition overlaps :: "rheap \<Rightarrow> nat \<Rightarrow> nat \<Rightarrow> bool" where
  "overlaps st x y \<longleftrightarrow> start_of st x \<le> end_of st y \<and> start_of st y \<le> end_of st x"

text \<open>Descriptors a caller may request: not in the tree, no children.\<close>

definition loose :: "rheap \<Rightarrow> nat \<Rightarrow> bool" where
  "loose st new \<longleftrightarrow> (\<exists>r. st new = Some r \<and> r_parent r = None \<and> r_child r = None)"

definition fits_in :: "rheap \<Rightarrow> nat \<Rightarrow> nat \<Rightarrow> bool" where
  "fits_in st root new \<longleftrightarrow> start_of st new \<le> end_of st new \<and> start_of st root \<le> start_of st new \<and> end_of st new \<le> end_of st root"

text \<open>The possible outcomes of a request.\<close>

lemma request_cases:
  assumes tree: "tree_ok st" and root: "node_ok st root xs" and new: "loose st new" "new \<noteq> root"
  obtains (outside) "\<not> fits_in st root new" "raw_request_resource st root new = Some (Some root, st)"
  | (free) as bs where "xs = as @ bs" "fits_in st root new" "\<forall>x \<in> set xs. \<not> overlaps st new x"
      "raw_request_resource st root new = Some (None, linked st root new as bs)"
      "node_ok (linked st root new as bs) root (as @ new # bs)" "tree_ok (linked st root new as bs)"
  | (conflict) as c bs where "xs = as @ c # bs" "fits_in st root new" "overlaps st new c" "\<forall>x \<in> set as. \<not> overlaps st new x"
      "raw_request_resource st root new = Some (Some c, st)"
proof -
  obtain rr where rr: "st root = Some rr" "rseg st (r_child rr) xs None" using root by (auto simp: node_ok_def)
  obtain rn where rn: "st new = Some rn" "r_parent rn = None" "r_child rn = None" using new(1) by (auto simp: loose_def)
  have nin: "new \<notin> set xs" using node_ok_parent [OF root] rn by (auto simp: has_parent_def)
  have so: "start_of st new = r_start rn" "end_of st new = r_end rn" "start_of st root = r_start rr" "end_of st root = r_end rr"
    using rn(1) rr(1) by (simp_all add: start_of_def end_of_def)
  show thesis
  proof (cases "fits_in st root new")
    case False
    then show thesis using outside rn(1) rr(1) by (auto simp: raw_request_resource_def fits_in_def so Let_def not_le)
  next
    case fit: True
    then have run: "raw_request_resource st root new = request_loop root new (r_start rn) (r_end rn) st (Child root)"
      using rn(1) rr(1) by (auto simp: raw_request_resource_def fits_in_def so Let_def not_le [symmetric])
    have "rseg st (r_child rr) ([] @ xs) None" "new \<notin> set ([] @ xs)" using rr(2) nin by simp_all
    moreover have el: "endlink root [] = Child root" by (simp add: endlink_def)
    moreover note request_loop_spec [where st = st, OF rr(1) calculation(1) rn(1) new(2) calculation(2), of "r_start rn" "r_end rn",
        unfolded el append_Nil]
    ultimately obtain cs ds where l: "xs = cs @ ds" "\<forall>x \<in> set cs. end_of st x < r_start rn"
      "if ds = [] \<or> start_of st (hd ds) > r_end rn
       then request_loop root new (r_start rn) (r_end rn) st (Child root) = Some (None, linked st root new cs ds)
       else end_of st (hd ds) \<ge> r_start rn \<and> request_loop root new (r_start rn) (r_end rn) st (Child root) = Some (Some (hd ds), st)"
      by blast
    have low: "\<forall>x \<in> set cs. \<not> overlaps st new x" using l(2) by (auto simp: overlaps_def so not_le)
    show thesis
    proof (cases "ds = [] \<or> start_of st (hd ds) > r_end rn")
      case True
      have in': "r_start rn \<le> r_end rn" "start_of st root \<le> r_start rn" "r_end rn \<le> end_of st root"
        using fit so by (simp_all add: fits_in_def)
      have pl: "ds = [] \<or> r_end rn < start_of st (hd ds)" using True by simp
      note lt = linked_tree [where st = st, OF tree root [unfolded l(1)] rn new(2) in' l(2) pl]
      have "\<not> overlaps st new x" if x: "x \<in> set ds" for x
      proof -
        have ex: "\<forall>x \<in> set cs. \<exists>r. st x = Some r" "new \<notin> set cs" using rseg_dom [OF rr(2)] l(1) nin by auto
        have "ascending st (cs @ new # ds)"
          using lt(1) unfolding node_ok_def ascending_def linked_fields(1,2) [where st = st, OF rr(1) rn(1) new(2) ex] by blast
        then have "end_of st new < start_of st x" using x by (simp add: ascending_def sorted_wrt_append)
        then show ?thesis by (simp add: overlaps_def not_le)
      qed
      then show thesis using free [OF l(1) fit _ _ lt] low run l(1,3) True by auto
    next
      case False
      then obtain c ds' where ds: "ds = c # ds'" by (cases ds) auto
      note c = l(3) [unfolded if_not_P [OF False], unfolded ds list.sel]
      have "overlaps st new c" using False c by (simp add: overlaps_def so not_less ds)
      then show thesis using conflict [of cs c ds'] l(1) c ds fit low run by auto
    qed
  qed
qed

text \<open>
  C22: On a well-formed tree \<open>request_resource\<close> returns. It succeeds exactly when the new range is
  non-empty, lies inside the parent and overlaps none of its children; then the new node is a child of
  the parent, no other parent link changes, and the tree is well formed again, with the children of
  each node sorted, disjoint and inside it. Otherwise it returns \<open>-EBUSY\<close> and changes nothing.
\<close>

theorem request_resource_correct:
  assumes tree: "tree_ok st" and root: "st root \<noteq> None" and new: "loose st new" "new \<noteq> root"
  shows "\<exists>ret st'. request_resource st root new = Some (ret, st') \<and> tree_ok st' \<and>
    (if fits_in st root new \<and> (\<forall>x. has_parent st x root \<longrightarrow> \<not> overlaps st new x)
     then ret = 0 \<and> (\<forall>x a. has_parent st' x a \<longleftrightarrow> has_parent st x a \<or> x = new \<and> a = root) \<and>
          (\<forall>x. start_of st' x = start_of st x \<and> end_of st' x = end_of st x)
     else ret = - EBUSY \<and> st' = st)"
proof -
  obtain xs where xs: "node_ok st root xs" using tree_okD(1) [OF tree] root by blast
  note kids = node_ok_parent [OF xs]
  from tree xs new show ?thesis
  proof (cases rule: request_cases)
    case outside
    then show ?thesis using tree by (simp add: request_resource_def)
  next
    case (free as bs)
    obtain rr rn where r: "st root = Some rr" "rseg st (r_child rr) (as @ bs) None" "st new = Some rn" "r_parent rn = None"
      using xs new(1) free(1) by (auto simp: node_ok_def loose_def)
    have "\<not> has_parent st new root" using r(3,4) by (simp add: has_parent_def)
    then have ex: "\<forall>x \<in> set as. \<exists>r. st x = Some r" "new \<notin> set as" using rseg_dom [OF r(2)] kids [of new] free(1) by auto
    note f = linked_fields [where st = st, OF r(1,3) new(2) ex]
    have "has_parent (linked st root new as bs) x a \<longleftrightarrow> has_parent st x a \<or> x = new \<and> a = root" for x a
      using f(3,4) r(3,4) by (cases "x = new") (auto simp: has_parent_def)
    then show ?thesis using free f(1,2) kids by (simp add: request_resource_def)
  next
    case (conflict as c bs)
    then have "has_parent st c root" using kids [of c] by simp
    then show ?thesis using conflict tree by (auto simp: request_resource_def)
  qed
qed

definition zeroed :: "u64 \<Rightarrow> u64 \<Rightarrow> ulong \<Rightarrow> resource" where
  "zeroed s e f = \<lparr>r_start = s, r_end = e, r_name = [], r_flags = f, r_parent = None, r_sibling = None, r_child = None\<rparr>"

lemma flat_tree:
  assumes "\<And>a r. st a = Some r \<Longrightarrow> r_parent r = None \<and> r_child r = None"
  shows "tree_ok st" "st a \<noteq> None \<Longrightarrow> node_ok st a []"
proof -
  have np: "\<not> has_parent st x a" for x a using assms by (auto simp: has_parent_def)
  show n: "st a \<noteq> None \<Longrightarrow> node_ok st a []" for a using np assms by (auto simp: node_ok_def ascending_def)
  show "tree_ok st" using n np by (auto simp: tree_ok_def)
qed

definition example_heap :: rheap where "example_heap = [0 \<mapsto> zeroed 0 1000 0, 1 \<mapsto> zeroed 100 199 0]"

lemma example_heap_ok: "tree_ok example_heap" "loose example_heap 1" "example_heap 0 \<noteq> None"
  by (auto intro!: flat_tree(1) simp: example_heap_def zeroed_def loose_def split: if_splits)

theorem request_resource_correct_witness:
  "\<exists>st'. request_resource example_heap 0 1 = Some (0, st') \<and> has_parent st' 1 0 \<and> tree_ok st'"
proof -
  have "fits_in example_heap 0 1" "\<not> has_parent example_heap x 0" for x
    by (simp_all add: fits_in_def start_of_def end_of_def example_heap_def zeroed_def has_parent_def)
  then show ?thesis
    using request_resource_correct [OF example_heap_ok(1,3,2), of] by auto
qed

section \<open>Release\<close>

lemma release_loop_spec:
  assumes "st root = Some rr" "rseg st (r_child rr) (as @ bs @ old # cs) None" "old \<notin> set (as @ bs)" "st old = Some ro"
  shows "release_loop old st (endlink root as) =
    do { st \<leftarrow> set_link st (endlink root (as @ bs)) (r_sibling ro); st \<leftarrow> upd st old (\<lambda>r. r \<lparr>r_parent := None\<rparr>); Some (0, st) }"
  using assms(2,3)
proof (induction bs arbitrary: as)
  case Nil
  have "get_link st (endlink root as) = Some (Some old)" using get_endlink [where st = st, OF assms(1), of as "old # cs"] Nil(1) by simp
  then show ?case using assms(4) by (subst release_loop.simps) (simp del: bind_split_Some)
next
  case (Cons b bs)
  have g: "get_link st (endlink root as) = Some (Some b)" using get_endlink [where st = st, OF assms(1), of as "b # bs @ old # cs"] Cons.prems(1) by simp
  have "release_loop old st (endlink root as) = release_loop old st (endlink root (as @ [b]))"
    using g Cons.prems(2) by (subst release_loop.simps) (simp add: endlink_def del: bind_split_Some)
  then show ?case using Cons.IH [of "as @ [b]"] Cons.prems by simp
qed

lemma release_linked:
  assumes "node_ok st' root (as @ new # bs)" "st' new = Some r'"
  shows "release_resource st' new =
    do { st \<leftarrow> set_link st' (endlink root as) (r_sibling r'); st \<leftarrow> upd st new (\<lambda>r. r \<lparr>r_parent := None\<rparr>); Some (0, st) }"
proof -
  obtain rr where rr: "st' root = Some rr" "rseg st' (r_child rr) ([] @ as @ new # bs) None" using assms(1) by (auto simp: node_ok_def)
  have "has_parent st' new root" using node_ok_parent [OF assms(1), of new] by simp
  then have p: "r_parent r' = Some root" using assms(2) by (auto simp: has_parent_def)
  have "new \<notin> set ([] @ as)" using assms(1) by (simp add: node_ok_def)
  from release_loop_spec [where st = st', OF rr this assms(2)] show ?thesis
    using p assms(2) by (simp add: release_resource_def raw_release_resource_def endlink_def del: bind_split_Some)
qed

text \<open>
  C24: Releasing a resource right after requesting it succeeds and restores the whole
  tree: every descriptor is as it was before the request, except that the sibling field of the
  released one keeps its last value.
\<close>

theorem request_release_roundtrip:
  assumes tree: "tree_ok st" and root: "st root \<noteq> None" and new: "st new = Some rn" "r_parent rn = None" "r_child rn = None" "new \<noteq> root"
    and req: "request_resource st root new = Some (0, st')"
  shows "\<exists>s. release_resource st' new = Some (0, st(new \<mapsto> rn \<lparr>r_sibling := s\<rparr>))"
proof -
  obtain xs where xs: "node_ok st root xs" using tree_okD(1) [OF tree] root by blast
  have l: "loose st new" using new by (simp add: loose_def)
  have eb: "- EBUSY \<noteq> 0" by (simp add: errno_defs)
  from tree xs l new(4) show ?thesis
  proof (cases rule: request_cases)
    case outside
    then show ?thesis using req eb by (simp add: request_resource_def)
  next
    case (conflict as c bs)
    then show ?thesis using req eb by (simp add: request_resource_def)
  next
    case (free as bs)
    have st': "st' = linked st root new as bs" using free(4) req by (simp add: request_resource_def)
    obtain rr where rr: "st root = Some rr" "rseg st (r_child rr) (as @ bs) None" using xs free(1) by (auto simp: node_ok_def)
    have nn: "new \<notin> set as" using free(5) by (simp add: node_ok_def)
    have sn: "st' new = Some (rn \<lparr>r_sibling := head bs, r_parent := Some root\<rparr>)" using new(1) by (simp add: st' linked_def)
    note rel = release_linked [OF free(5) [folded st'] sn]
    have undo: "rn \<lparr>r_sibling := head bs, r_parent := None\<rparr> = rn \<lparr>r_sibling := head bs\<rparr>" using new(2) by simp
    obtain q rq rq' where q: "q \<noteq> new" "st q = Some rq" "st' = st(q \<mapsto> rq', new \<mapsto> rn \<lparr>r_sibling := head bs, r_parent := Some root\<rparr>)"
      "set_link st' (endlink root as) (head bs) = Some (st'(q \<mapsto> rq))"
    proof (cases as rule: rev_cases)
      case Nil
      have "r_child rr = head bs" using rseg_head [of st _ bs] rr(2) Nil by auto
      then have "rr \<lparr>r_child := head bs\<rparr> = rr" by simp
      then show thesis using that [of root rr "rr \<lparr>r_child := Some new\<rparr>"] Nil rr(1) new by (simp add: st' linked_def endlink_def)
    next
      case (snoc as' a)
      obtain ra where ra: "st a = Some ra" "r_sibling ra = head bs" using rr(2) snoc rseg_head [of st _ bs] by (auto simp: rseg_append)
      then have "ra \<lparr>r_sibling := head bs\<rparr> = ra" by simp
      then show thesis using that [of a ra "ra \<lparr>r_sibling := Some new\<rparr>"] snoc ra(1) new nn by (simp add: st' linked_def endlink_def)
    qed
    have "release_resource st' new = Some (0, st'(q \<mapsto> rq, new \<mapsto> rn \<lparr>r_sibling := head bs\<rparr>))"
      using rel q(1,4) sn by (simp add: upd_def undo)
    moreover have "st'(q \<mapsto> rq, new \<mapsto> rn \<lparr>r_sibling := head bs\<rparr>) = st(new \<mapsto> rn \<lparr>r_sibling := head bs\<rparr>)"
      unfolding q(3) by (rule ext) (use q(2) in simp)
    ultimately have "release_resource st' new = Some (0, st(new \<mapsto> rn \<lparr>r_sibling := head bs\<rparr>))" by simp
    then show ?thesis by blast
  qed
qed

theorem request_release_roundtrip_witness:
  "\<exists>st' s. request_resource example_heap 0 1 = Some (0, st') \<and>
     release_resource st' 1 = Some (0, example_heap(1 \<mapsto> (zeroed 100 199 0) \<lparr>r_sibling := s\<rparr>))"
proof -
  have "map_option fst (request_resource example_heap 0 1) = Some 0" by code_simp
  then obtain st' where r: "request_resource example_heap 0 1 = Some (0, st')" by auto
  have n: "example_heap 1 = Some (zeroed 100 199 0)" "r_parent (zeroed 100 199 0) = None" "r_child (zeroed 100 199 0) = None"
    by (simp_all add: example_heap_def zeroed_def)
  from request_release_roundtrip [where st = example_heap, OF example_heap_ok(1,3) n _ r] r show ?thesis by auto
qed

section \<open>Regions\<close>

text \<open>\<open>below st a x\<close>: \<open>x\<close> is \<open>a\<close> or lies below it.\<close>

definition below :: "rheap \<Rightarrow> nat \<Rightarrow> nat \<Rightarrow> bool" where
  "below st a x \<longleftrightarrow> (has_parent st)\<^sup>*\<^sup>* x a"

definition busy :: "rheap \<Rightarrow> nat \<Rightarrow> bool" where
  "busy st x \<longleftrightarrow> (\<exists>r. st x = Some r \<and> r_flags r AND IORESOURCE_BUSY \<noteq> 0)"

lemma below_refl [simp]: "below st a a"
  by (simp add: below_def)

lemma below_step: "below st a x \<Longrightarrow> x = a \<or> (\<exists>k. has_parent st k a \<and> below st k x)"
  unfolding below_def by (induction rule: converse_rtranclp_induct) (auto intro: converse_rtranclp_into_rtranclp)

lemma below_trans: "has_parent st k a \<Longrightarrow> below st k x \<Longrightarrow> below st a x"
  unfolding below_def by auto

lemma parent_range:
  assumes "tree_ok st" "has_parent st x a"
  shows "start_of st a \<le> start_of st x" "start_of st x \<le> end_of st x" "end_of st x \<le> end_of st a"
proof -
  obtain xs where xs: "node_ok st a xs" using tree_okD(1,3) [OF assms(1)] assms(2) by blast
  then have "x \<in> set xs" using node_ok_parent assms(2) by blast
  then show "start_of st a \<le> start_of st x" "start_of st x \<le> end_of st x" "end_of st x \<le> end_of st a"
    using xs by (auto simp: node_ok_def)
qed

lemma below_range:
  assumes "tree_ok st" "below st a x"
  shows "start_of st a \<le> start_of st x \<and> end_of st x \<le> end_of st a"
  using assms(2) unfolding below_def
proof (induction rule: converse_rtranclp_induct)
  case (step y z)
  then show ?case using parent_range [OF assms(1)] order_trans by blast
qed simp

lemma siblings_apart:
  assumes "tree_ok st" "has_parent st x a" "has_parent st y a" "x \<noteq> y"
  shows "end_of st x < start_of st y \<or> end_of st y < start_of st x"
proof -
  obtain xs where xs: "node_ok st a xs" using tree_okD(1,3) [OF assms(1)] assms(2) by blast
  then have "x \<in> set xs" "y \<in> set xs" using node_ok_parent assms(2,3) by blast+
  then obtain i j where ij: "i < length xs" "j < length xs" "xs ! i = x" "xs ! j = y" by (auto simp: in_set_conv_nth)
  have "ascending st xs" using xs by (simp add: node_ok_def)
  then show ?thesis using ij assms(4) sorted_wrt_nth_less [of "\<lambda>x y. end_of st x < start_of st y" xs]
    unfolding ascending_def by (metis nat_neq_iff)
qed

lemma request_region_loop_spec:
  fixes st :: rheap
  assumes tree: "tree_ok st" and res: "loose st res" and p: "st p \<noteq> None" "p \<noteq> res"
  shows "request_region_loop res st p = Some (None, st(res := None)) \<or>
    (\<exists>q as bs. request_region_loop res st p = Some (Some res, linked st q res as bs) \<and> below st p q \<and> fits_in st q res \<and>
       node_ok st q (as @ bs) \<and> node_ok (linked st q res as bs) q (as @ res # bs) \<and> tree_ok (linked st q res as bs) \<and> q \<noteq> res \<and>
       (\<forall>x. below st p x \<and> x \<noteq> p \<and> overlaps st res x \<longrightarrow> \<not> busy st x))"
proof -
  obtain h :: "nat \<Rightarrow> nat" where h: "\<forall>x a. has_parent st x a \<longrightarrow> h x < h a" using tree by (auto simp: tree_ok_def)
  show ?thesis using p
  proof (induction "h p" arbitrary: p rule: less_induct)
    case less
    obtain xs where xs: "node_ok st p xs" using tree_okD(1) [OF tree] less.prems(1) by blast
    have np: "res \<noteq> p" using less.prems(2) by simp
    from tree xs res np show ?case
    proof (cases rule: request_cases)
      case outside
      then have "request_region_loop res st p = Some (None, st(res := None))" by (subst request_region_loop.simps) simp
      then show ?thesis by blast
    next
      case (free as bs)
      have run: "request_region_loop res st p = Some (Some res, linked st p res as bs)"
        using free(4) by (subst request_region_loop.simps) simp
      have "\<not> overlaps st res x" if x: "below st p x" "x \<noteq> p" for x
      proof -
        obtain k where k: "has_parent st k p" "below st k x" using below_step x by blast
        then have "\<not> overlaps st res k" using free(3) node_ok_parent [OF xs] by blast
        then show ?thesis using below_range [OF tree k(2)] unfolding overlaps_def by (meson order_trans)
      qed
      then show ?thesis using run free(1,2,5,6) xs np by (intro disjI2 exI [of _ p] exI [of _ as] exI [of _ bs]) auto
    next
      case (conflict as c bs)
      have c: "has_parent st c p" using node_ok_parent [OF xs, of c] conflict(1) by simp
      then obtain rc where rc: "st c = Some rc" by (auto simp: has_parent_def)
      have cp: "c \<noteq> p" using tree_okD(2) [OF tree c] .
      have run: "request_region_loop res st p = (if r_flags rc AND IORESOURCE_BUSY = 0 then request_region_loop res st c else Some (None, st(res := None)))"
        using conflict(5) cp rc by (subst request_region_loop.simps) simp
      show ?thesis
      proof (cases "r_flags rc AND IORESOURCE_BUSY = 0")
        case False
        then show ?thesis using run by simp
      next
        case True
        have lt: "h c < h p" using h c by blast
        have nr: "c \<noteq> res" using c res by (auto simp: loose_def has_parent_def)
        have "st c \<noteq> None" using rc by simp
        from less.hyps [OF lt this nr] show ?thesis
        proof
          assume "request_region_loop res st c = Some (None, st(res := None))"
          then show ?thesis using run True by simp
        next
          assume "\<exists>q as bs. request_region_loop res st c = Some (Some res, linked st q res as bs) \<and> below st c q \<and> fits_in st q res \<and>
            node_ok st q (as @ bs) \<and> node_ok (linked st q res as bs) q (as @ res # bs) \<and> tree_ok (linked st q res as bs) \<and> q \<noteq> res \<and>
            (\<forall>x. below st c x \<and> x \<noteq> c \<and> overlaps st res x \<longrightarrow> \<not> busy st x)"
          then obtain q as bs where q: "request_region_loop res st c = Some (Some res, linked st q res as bs)" "below st c q" "fits_in st q res"
            "node_ok st q (as @ bs)" "node_ok (linked st q res as bs) q (as @ res # bs)" "tree_ok (linked st q res as bs)" "q \<noteq> res"
            "\<forall>x. below st c x \<and> x \<noteq> c \<and> overlaps st res x \<longrightarrow> \<not> busy st x" by blast
          have inc: "start_of st c \<le> start_of st res" "end_of st res \<le> end_of st c"
            using below_range [OF tree q(2)] q(3) order_trans unfolding fits_in_def by blast+
          have "\<not> busy st x" if x: "below st p x" "x \<noteq> p" "overlaps st res x" for x
          proof -
            obtain k where k: "has_parent st k p" "below st k x" using below_step x(1,2) by blast
            have "k = c"
            proof (rule ccontr)
              assume "k \<noteq> c"
              from siblings_apart [OF tree k(1) c this] below_range [OF tree k(2)] x(3) inc show False
                unfolding overlaps_def by (meson leD le_less_trans less_le_trans order_trans)
            qed
            then show ?thesis using q(8) k(2) x(3) True rc by (cases "x = c") (auto simp: busy_def)
          qed
          then show ?thesis using run True q below_trans [OF c q(2)] by auto
        qed
      qed
    qed
  qed
qed

text \<open>Storing a descriptor that is not in the tree, at an address no node refers to.\<close>

lemma set_loose:
  assumes tree: "tree_ok st" and a: "\<And>b. \<not> has_parent st a b" "\<And>x. \<not> has_parent st x a" and r: "r_parent r = None" "r_child r = None"
  shows "tree_ok (st(a \<mapsto> r))" "has_parent (st(a \<mapsto> r)) x b \<longleftrightarrow> has_parent st x b" "loose (st(a \<mapsto> r)) a"
    "below (st(a \<mapsto> r)) b x \<longleftrightarrow> below st b x"
proof -
  let ?st = "st(a \<mapsto> r)"
  have hp: "has_parent ?st x b \<longleftrightarrow> has_parent st x b" for x b using a(1) r by (cases "x = a") (auto simp: has_parent_def)
  then have "has_parent ?st = has_parent st" by blast
  then show "below ?st b x \<longleftrightarrow> below st b x" by (simp add: below_def)
  show "has_parent ?st x b \<longleftrightarrow> has_parent st x b" by (rule hp)
  show "loose ?st a" using r by (simp add: loose_def)
  have "\<exists>xs. node_ok ?st b xs" if b: "b \<in> dom ?st" for b
  proof (cases "b = a")
    case True
    then show ?thesis using r hp a(2) by (intro exI [of _ "[]"]) (simp add: node_ok_def ascending_def)
  next
    case False
    then obtain xs where xs: "node_ok st b xs" using b tree_okD(1) [OF tree] by auto
    have "x \<noteq> a" if "x \<in> set xs" for x using that node_ok_parent [OF xs] a(1) by auto
    then have "node_ok ?st b xs" using False hp by (intro node_ok_frame [OF xs]) (auto simp: start_of_def end_of_def)
    then show ?thesis by blast
  qed
  moreover have "b \<in> dom ?st" if "has_parent ?st x b" for x b using that hp tree_okD(3) [OF tree] by auto
  moreover have "\<exists>h :: nat \<Rightarrow> nat. \<forall>x a. has_parent ?st x a \<longrightarrow> h x < h a" using tree hp by (simp add: tree_ok_def)
  ultimately show "tree_ok ?st" by (simp add: tree_ok_def)
qed

lemma fresh_unlinked:
  assumes "tree_ok st" "st a = None"
  shows "\<not> has_parent st a b" "\<not> has_parent st x a"
  using tree_okD(3) [OF assms(1), of x a] assms(2) by (auto simp: has_parent_def)

lemma loose_unlinked:
  assumes "tree_ok st" "loose st a"
  shows "\<not> has_parent st a b" "\<not> has_parent st x a"
proof -
  obtain r where r: "st a = Some r" "r_parent r = None" "r_child r = None" using assms(2) by (auto simp: loose_def)
  then show "\<not> has_parent st a b" by (simp add: has_parent_def)
  obtain xs where xs: "node_ok st a xs" using tree_okD(1) [OF assms(1) r(1)] by blast
  then have "xs = []" using r by (cases xs) (auto simp: node_ok_def)
  then show "\<not> has_parent st x a" using node_ok_parent [OF xs] by simp
qed

text \<open>
  C21: On a well-formed tree and with a fresh descriptor from \<open>kzalloc\<close>, \<open>request_region\<close> terminates. On
  success the region becomes a node below the given parent, the tree is well formed, and no busy
  node below the parent overlaps the region. On failure it returns null and memory is as before.
\<close>

theorem request_region_exclusive:
  assumes tree: "tree_ok st" and parent: "st parent \<noteq> None" and alloc: "alloc st = Some a" "st a = None"
  shows "\<exists>out st'. raw_request_region alloc st parent start n name flags = Some (out, st') \<and>
    (case out of
       None \<Rightarrow> st' = st
     | Some res \<Rightarrow> res = a \<and> tree_ok st' \<and> start_of st' a = start \<and> end_of st' a = start + n - 1 \<and> start \<le> start + n - 1 \<and>
         (\<exists>q. has_parent st' a q \<and> below st parent q) \<and>
         (\<forall>x. below st parent x \<and> x \<noteq> parent \<and> busy st x \<longrightarrow> end_of st x < start \<or> start + n - 1 < start_of st x))"
proof -
  define r where "r = \<lparr>r_start = start, r_end = start + n - 1, r_name = name, r_flags = IORESOURCE_BUSY OR flags,
    r_parent = None, r_sibling = None, r_child = None\<rparr>"
  let ?st = "st(a \<mapsto> r)"
  have rr: "r_parent r = None" "r_child r = None" by (simp_all add: r_def)
  note al = set_loose [where st = st, OF tree fresh_unlinked [where st = st, OF tree alloc(2)] rr]
  have pa: "?st parent \<noteq> None" "parent \<noteq> a" using parent alloc(2) by auto
  have run: "raw_request_region alloc st parent start n name flags = request_region_loop a ?st parent"
    using alloc by (simp add: raw_request_region_def kzalloc_def upd_def r_def)
  have sa: "start_of ?st a = start" "end_of ?st a = start + n - 1" by (simp_all add: start_of_def end_of_def r_def)
  from request_region_loop_spec [OF al(1,3) pa] show ?thesis
  proof
    assume "request_region_loop a ?st parent = Some (None, ?st(a := None))"
    moreover have "?st(a := None) = st" using alloc(2) by auto
    ultimately show ?thesis using run by simp
  next
    assume "\<exists>q as bs. request_region_loop a ?st parent = Some (Some a, linked ?st q a as bs) \<and> below ?st parent q \<and> fits_in ?st q a \<and>
       node_ok ?st q (as @ bs) \<and> node_ok (linked ?st q a as bs) q (as @ a # bs) \<and> tree_ok (linked ?st q a as bs) \<and> q \<noteq> a \<and>
       (\<forall>x. below ?st parent x \<and> x \<noteq> parent \<and> overlaps ?st a x \<longrightarrow> \<not> busy ?st x)"
    then obtain q as bs where q: "request_region_loop a ?st parent = Some (Some a, linked ?st q a as bs)" "below st parent q" "fits_in ?st q a"
       "node_ok ?st q (as @ bs)" "node_ok (linked ?st q a as bs) q (as @ a # bs)" "tree_ok (linked ?st q a as bs)" "q \<noteq> a"
       "\<forall>x. below st parent x \<and> x \<noteq> parent \<and> overlaps ?st a x \<longrightarrow> \<not> busy ?st x" unfolding al(4) by blast
    obtain rq where rq: "?st q = Some rq" "rseg ?st (r_child rq) (as @ bs) None" using q(4) by (auto simp: node_ok_def)
    have ra: "?st a = Some r" by simp
    have ex: "\<forall>x \<in> set as. \<exists>r. ?st x = Some r" using rseg_dom [OF rq(2)] by auto
    have nas: "a \<notin> set as" using q(5) by (simp add: node_ok_def)
    note f = linked_fields [where st = ?st, OF rq(1) ra q(7) [symmetric] ex nas]
    have "end_of st x < start \<or> start + n - 1 < start_of st x" if x: "below st parent x" "x \<noteq> parent" "busy st x" for x
    proof -
      have xa: "x \<noteq> a" using x(3) alloc(2) by (auto simp: busy_def)
      then have "busy ?st x" "start_of ?st x = start_of st x" "end_of ?st x = end_of st x"
        using x(3) by (auto simp: busy_def start_of_def end_of_def)
      then show ?thesis using q(8) x(1,2) sa by (auto simp: overlaps_def not_le)
    qed
    moreover have "has_parent (linked ?st q a as bs) a q" using f(4) by simp
    moreover have "start \<le> start + n - 1" using q(3) sa by (simp add: fits_in_def)
    ultimately show ?thesis using run q(1,2,6) f(1,2) sa
      by (intro exI [of _ "Some a"] exI [of _ "linked ?st q a as bs"]) auto
  qed
qed

theorem request_region_exclusive_witness:
  "\<exists>out st'. raw_request_region (\<lambda>_. Some 7) example_heap 0 300 10 ''uart'' 0 = Some (out, st') \<and> (out = Some 7 \<longleftrightarrow> st' 7 \<noteq> None)"
proof -
  have n: "(\<lambda>_. Some 7) example_heap = Some 7" "example_heap 7 = None" by (simp_all add: example_heap_def)
  obtain out st' where o: "raw_request_region (\<lambda>_. Some 7) example_heap 0 300 10 ''uart'' 0 = Some (out, st')"
    "case out of None \<Rightarrow> st' = example_heap | Some res \<Rightarrow> res = 7 \<and> (\<exists>q. has_parent st' 7 q)"
    using request_region_exclusive [where st = example_heap, OF example_heap_ok(1,3) n, of 300 10 "''uart''" 0] by (fastforce split: option.splits)
  then show ?thesis using n(2) by (cases out) (auto simp: has_parent_def)
qed

section \<open>Allocation\<close>

lemma ALIGN_spec:
  assumes "k < 64" "unat x + (2 ^ k - 1) < 2 ^ 64"
  shows "2 ^ k dvd unat (ALIGN x (2 ^ k))" "x \<le> ALIGN x (2 ^ k)"
proof -
  have e: "unat (ALIGN x (2 ^ k)) = round_up (unat x) (2 ^ k)"
    using unat_round_up [of k x] assms by (simp add: ALIGN_def mask_eq_exp_minus_1)
  show "2 ^ k dvd unat (ALIGN x (2 ^ k))" "x \<le> ALIGN x (2 ^ k)"
    using round_up(1,2) [of "2 ^ k" "unat x"] by (simp_all add: e word_le_nat_alt)
qed

text \<open>What a successful search promises of the candidate.\<close>

definition slot :: "nat \<Rightarrow> u64 \<Rightarrow> u64 \<Rightarrow> u64 \<Rightarrow> u64 \<Rightarrow> u64 \<Rightarrow> bool" where
  "slot k sz mn mx s e \<longleftrightarrow> 2 ^ k dvd unat s \<and> mn \<le> s \<and> s \<le> e \<and> e \<le> mx \<and> e - s + 1 = sz"

lemma slot_end:
  fixes sz s e :: u64
  assumes "sz \<noteq> 0" "s < e" "e - s \<ge> sz - 1"
  shows "s \<le> s + sz - 1" "s + sz - 1 \<le> e" "s + sz - 1 - s + 1 = sz"
proof -
  have u: "unat (e - s) = unat e - unat s" "unat (sz - 1) = unat sz - 1" using assms by (simp_all add: unat_diff unat_pred word_less_nat_alt)
  have "unat (s + (sz - 1)) = unat s + unat (sz - 1)"
    using assms(2,3) u unat_lt [of e] by (intro unat_add_less) (simp add: word_le_nat_alt word_less_nat_alt)
  then have us: "unat (s + sz - 1) = unat s + (unat sz - 1)" unfolding u(2) by (simp add: add_diff_eq)
  show "s \<le> s + sz - 1" using us by (simp add: word_le_nat_alt)
  show "s + sz - 1 \<le> e" using us u assms(2,3) by (simp add: word_le_nat_alt word_less_nat_alt)
qed simp

lemma unat_succ_pow:
  assumes "unat (m :: u64) + 2 ^ k < 2 ^ 64"
  shows "unat (m + 1) = unat m + 1"
proof -
  have "(1 :: nat) \<le> 2 ^ k" by simp
  then have "unat m + unat (1 :: u64) < 2 ^ 64" using assms unfolding unsigned_1 by linarith
  then show ?thesis using unat_add_less [of m 1] by simp
qed

lemma unat_succ_le: "unat (x + 1 :: u64) \<le> unat x + 1"
  using mod_less_eq_dividend [of "unat x + 1" "2 ^ 64"] by (simp add: unat_word_ariths)

lemma resource_upd_comm: "n \<lparr>r_end := e, r_start := s\<rparr> = (n \<lparr>r_start := s, r_end := e\<rparr> :: resource)"
  by simp

lemma find_resource_step:
  assumes "st new = Some n" "(case this of Some t \<Rightarrow> do { rt \<leftarrow> st t; Some (r_start rt - 1) } | None \<Rightarrow> do { rr \<leftarrow> st root; Some (r_end rr) }) = Some lim"
    and s: "s = ALIGN (if r_start n < mn then mn else r_start n) align" and e: "e = (if lim > mx then mx else lim)"
  shows "find_resource_loop root new sz mn mx align None st this =
    (if s < e \<and> e - s \<ge> sz - 1 then Some (0, st(new \<mapsto> n \<lparr>r_start := s, r_end := s + sz - 1\<rparr>))
     else case this of
         None \<Rightarrow> Some (- EBUSY, st(new \<mapsto> n \<lparr>r_start := s, r_end := e\<rparr>))
       | Some t \<Rightarrow> do { rt \<leftarrow> (st(new \<mapsto> n \<lparr>r_start := s, r_end := e\<rparr>)) t;
                       find_resource_loop root new sz mn mx align None (st(new \<mapsto> n \<lparr>r_start := r_end rt + 1, r_end := e\<rparr>)) (r_sibling rt) })"
proof -
  have c: "clamp_candidate n lim mn mx align = n \<lparr>r_start := s, r_end := e\<rparr>" unfolding s e clamp_candidate_def Let_def by simp
  show ?thesis by (subst find_resource_loop.simps, unfold assms(1,2)) (cases this, simp_all add: c Let_def resource_upd_comm del: bind_split_Some)
qed

lemma slot_try:
  assumes "sz \<noteq> 0" "k < 64" "unat mn + 2 ^ k < 2 ^ 64" "unat m + 2 ^ k < 2 ^ 64" "s0 \<le> m + 1"
    and s: "s = ALIGN (if s0 < mn then mn else s0) (2 ^ k)" and e: "e \<le> mx" "s < e \<and> e - s \<ge> sz - 1"
  shows "slot k sz mn mx s (s + sz - 1)"
proof -
  have "unat s0 \<le> unat m + 1" using assms(5) unat_succ_pow [OF assms(4)] by (simp add: word_le_nat_alt)
  moreover have "(1 :: nat) \<le> 2 ^ k" by simp
  ultimately have "unat mn + (2 ^ k - 1) < 2 ^ 64" "unat s0 + (2 ^ k - 1) < 2 ^ 64" using assms(3,4) by linarith+
  then have "unat (if s0 < mn then mn else s0) + (2 ^ k - 1) < 2 ^ 64" by simp
  note al = ALIGN_spec [OF assms(2) this, folded s]
  have "mn \<le> (if s0 < mn then mn else s0)" by (simp add: not_less)
  then have "mn \<le> s" using al(2) order_trans by blast
  then show ?thesis using slot_end [OF assms(1), of s e] e al(1) by (auto simp: slot_def intro: order_trans)
qed

lemma find_resource_loop_spec:
  fixes st :: rheap
  assumes rr: "st root = Some rr" "root \<noteq> new" and sz: "sz \<noteq> 0" "k < 64" "unat mn + 2 ^ k < 2 ^ 64" "unat (r_end rr) + 2 ^ k < 2 ^ 64"
    and bs: "rseg st (head bs) bs None" "new \<notin> set bs" "\<forall>x \<in> set bs. end_of st x \<le> r_end rr"
    and n: "st new = Some n" "r_start n \<le> r_end rr + 1"
  shows "\<exists>ret s e. find_resource_loop root new sz mn mx (2 ^ k) None st (head bs) = Some (ret, st(new \<mapsto> n \<lparr>r_start := s, r_end := e\<rparr>)) \<and>
    (ret = 0 \<and> slot k sz mn mx s e \<or> ret = - EBUSY)"
  using rr(1) bs n
proof (induction bs arbitrary: st n)
  case Nil
  define s e where "s = ALIGN (if r_start n < mn then mn else r_start n) (2 ^ k)" and "e = (if r_end rr > mx then mx else r_end rr)"
  have lim: "(case None of Some t \<Rightarrow> do { rt \<leftarrow> st t; Some (r_start rt - 1) } | None \<Rightarrow> do { rr \<leftarrow> st root; Some (r_end rr) }) = Some (r_end rr)"
    using Nil(1) by simp
  note step = find_resource_step [where st = st and new = new, OF Nil(5) lim s_def e_def, of sz, unfolded option.case, folded head_simps(1)]
  show ?case
  proof (cases "s < e \<and> e - s \<ge> sz - 1")
    case True
    have "slot k sz mn mx s (s + sz - 1)" by (rule slot_try [OF sz Nil(6) s_def _ True]) (simp add: e_def not_less)
    then have "(0 :: int) = 0 \<and> slot k sz mn mx s (s + sz - 1) \<or> (0 :: int) = - EBUSY" by simp
    with step [unfolded if_P [OF True]] show ?thesis by (intro exI conjI)
  next
    case False
    have "- EBUSY = 0 \<and> slot k sz mn mx s e \<or> - EBUSY = - EBUSY" by simp
    with step [unfolded if_not_P [OF False]] show ?thesis by (intro exI conjI)
  qed
next
  case (Cons b bs)
  obtain rb where rb: "st b = Some rb" "rseg st (r_sibling rb) bs None" using Cons.prems(2) by auto
  have bn: "b \<noteq> new" using Cons.prems(3) by auto
  define s e where "s = ALIGN (if r_start n < mn then mn else r_start n) (2 ^ k)" and "e = (if r_start rb - 1 > mx then mx else r_start rb - 1)"
  have lim: "(case Some b of Some t \<Rightarrow> do { rt \<leftarrow> st t; Some (r_start rt - 1) } | None \<Rightarrow> do { rr \<leftarrow> st root; Some (r_end rr) }) = Some (r_start rb - 1)"
    using rb(1) by simp
  note step = find_resource_step [where st = st and new = new, OF Cons.prems(5) lim s_def e_def, of sz, unfolded option.case, folded head_simps(2) [of b bs]]
  show ?case
  proof (cases "s < e \<and> e - s \<ge> sz - 1")
    case True
    have "slot k sz mn mx s (s + sz - 1)" by (rule slot_try [OF sz Cons.prems(6) s_def _ True]) (simp add: e_def not_less)
    then have "(0 :: int) = 0 \<and> slot k sz mn mx s (s + sz - 1) \<or> (0 :: int) = - EBUSY" by simp
    with step [unfolded if_P [OF True]] show ?thesis by (intro exI conjI)
  next
    case False
    let ?n = "n \<lparr>r_start := r_end rb + 1, r_end := e\<rparr>" and ?st = "st(new \<mapsto> n \<lparr>r_start := r_end rb + 1, r_end := e\<rparr>)"
    have hb: "r_sibling rb = head bs" using rseg_head rb(2) by blast
    have run: "find_resource_loop root new sz mn mx (2 ^ k) None st (head (b # bs)) = find_resource_loop root new sz mn mx (2 ^ k) None ?st (head bs)"
      unfolding step [unfolded if_not_P [OF False]] using rb(1) bn hb by simp
    have "r_end rb \<le> r_end rr" using Cons.prems(4) rb(1) by (simp add: end_of_def)
    moreover have "unat (r_end rr + 1) = unat (r_end rr) + 1" using unat_succ_pow [OF sz(4)] .
    moreover note unat_succ_le [of "r_end rb"]
    ultimately have v: "r_start ?n \<le> r_end rr + 1" by (simp add: word_le_nat_alt)
    have sg: "rseg ?st (head bs) bs None" using Cons.prems(3) by (intro rseg_frame [where st = st, OF rb(2) [unfolded hb]]) auto
    have en: "\<forall>x \<in> set bs. end_of ?st x \<le> r_end rr" using Cons.prems(3,4) by (auto simp: end_of_def)
    have o: "?st root = Some rr" "new \<notin> set bs" "?st new = Some ?n" using Cons.prems(1,3) rr(2) by simp_all
    have "\<exists>ret s e. find_resource_loop root new sz mn mx (2 ^ k) None ?st (head bs) = Some (ret, ?st(new \<mapsto> ?n \<lparr>r_start := s, r_end := e\<rparr>)) \<and>
        (ret = 0 \<and> slot k sz mn mx s e \<or> ret = - EBUSY)" by (rule Cons.IH [of ?st ?n, OF o(1) sg o(2) en o(3) v])
    moreover have "?st(new \<mapsto> ?n \<lparr>r_start := s', r_end := e'\<rparr>) = st(new \<mapsto> n \<lparr>r_start := s', r_end := e'\<rparr>)" for s' e' by simp
    ultimately show ?thesis unfolding run by (simp only:)
  qed
qed

lemma find_resource_spec:
  fixes st :: rheap
  assumes tree: "tree_ok st" and rr: "st root = Some rr" "r_start rr \<le> r_end rr" and new: "loose st new" "st new = Some n" "root \<noteq> new"
    and sz: "sz \<noteq> 0" "k < 64" "unat mn + 2 ^ k < 2 ^ 64" "unat (r_end rr) + 2 ^ k < 2 ^ 64"
  shows "\<exists>ret s e. find_resource st root new sz mn mx (2 ^ k) None = Some (ret, st(new \<mapsto> n \<lparr>r_start := s, r_end := e\<rparr>)) \<and>
    (ret = 0 \<and> slot k sz mn mx s e \<or> ret = - EBUSY)"
proof -
  obtain xs where xs: "node_ok st root xs" using tree_okD(1) [OF tree rr(1)] by blast
  have l: "rseg st (head xs) xs None" "r_child rr = head xs" using xs rr(1) rseg_head by (auto simp: node_ok_def)
  have nin: "new \<notin> set xs" using node_ok_parent [OF xs] loose_unlinked(1) [OF tree new(1)] by blast
  have en: "\<forall>x \<in> set xs. end_of st x \<le> r_end rr" using xs rr(1) by (auto simp: node_ok_def end_of_def)
  have u1: "unat (r_end rr + 1) = unat (r_end rr) + 1" using unat_succ_pow [OF sz(4)] .
  have go: "\<exists>ret s e. find_resource_loop root new sz mn mx (2 ^ k) None (st(new \<mapsto> n \<lparr>r_start := v\<rparr>)) (head ys) =
      Some (ret, st(new \<mapsto> n \<lparr>r_start := s, r_end := e\<rparr>)) \<and> (ret = 0 \<and> slot k sz mn mx s e \<or> ret = - EBUSY)"
    if ys: "rseg st (head ys) ys None" "set ys \<subseteq> set xs" "v \<le> r_end rr + 1" for v ys
  proof -
    let ?st = "st(new \<mapsto> n \<lparr>r_start := v\<rparr>)" and ?n = "n \<lparr>r_start := v\<rparr>"
    have o: "?st root = Some rr" "?st new = Some ?n" "r_start ?n \<le> r_end rr + 1" "new \<notin> set ys" using rr(1) new(3) ys nin by auto
    have sg: "rseg ?st (head ys) ys None" using ys(2) nin by (intro rseg_frame [where st = st, OF ys(1)]) auto
    have "\<forall>x \<in> set ys. end_of ?st x \<le> r_end rr" using ys(2) nin en by (auto simp: end_of_def)
    note spec = find_resource_loop_spec [of ?st root rr new sz k mn ys ?n mx, OF o(1) new(3) sz sg o(4) this o(2,3)]
    moreover have "?st(new \<mapsto> ?n \<lparr>r_start := s', r_end := e'\<rparr>) = st(new \<mapsto> n \<lparr>r_start := s', r_end := e'\<rparr>)" for s' e' by simp
    ultimately show ?thesis by (simp only:)
  qed
  show ?thesis
  proof (cases xs)
    case Nil
    have "r_start rr \<le> r_end rr + 1" using rr(2) u1 by (simp add: word_le_nat_alt)
    then show ?thesis using go [of "[]" "r_start rr"] rr(1) new(2) l(2) Nil by (simp add: find_resource_def upd_def)
  next
    case (Cons t ts)
    obtain rt where rt: "st t = Some rt" "rseg st (r_sibling rt) ts None" using l(1) Cons by auto
    have ht: "r_sibling rt = head ts" using rt(2) rseg_head by blast
    have tn: "t \<noteq> new" using nin Cons by auto
    have "r_end rt \<le> r_end rr" using en Cons rt(1) by (simp add: end_of_def)
    then have e1: "r_end rt + 1 \<le> r_end rr + 1" using u1 unat_succ_le [of "r_end rt"] by (simp add: word_le_nat_alt)
    have s1: "r_start rr \<le> r_end rr + 1" using rr(2) u1 by (simp add: word_le_nat_alt)
    show ?thesis
      using go [of ts "r_end rt + 1"] go [of "t # ts" "r_start rr"] e1 s1 rt ht rr(1) new(2) l Cons tn
      by (auto simp: find_resource_def upd_def)
  qed
qed

text \<open>
  C23: With a power-of-two alignment, no caller-supplied adjustment and limits far enough from the top of the
  address space for the alignment not to wrap, \<open>allocate_resource\<close> terminates. When it returns 0 the new
  resource is a child of the parent, has the requested size, is aligned, lies within the limits and inside the
  parent, overlaps no other child, and the tree is well formed. Otherwise it returns
  \<open>-EBUSY\<close> and no link of the tree has changed.
\<close>

theorem allocate_resource_sound:
  fixes st :: rheap
  assumes tree: "tree_ok st" and root: "st root = Some rr" "r_start rr \<le> r_end rr" and new: "loose st new" "new \<noteq> root"
    and sz: "sz \<noteq> 0" "k < 64" "unat mn + 2 ^ k < 2 ^ 64" "unat (r_end rr) + 2 ^ k < 2 ^ 64"
  shows "\<exists>ret st'. allocate_resource st root new sz mn mx (2 ^ k) None = Some (ret, st') \<and> tree_ok st' \<and>
    (\<forall>x. x \<noteq> new \<longrightarrow> start_of st' x = start_of st x \<and> end_of st' x = end_of st x) \<and>
    (ret = 0 \<and> slot k sz mn mx (start_of st' new) (end_of st' new) \<and> r_start rr \<le> start_of st' new \<and> end_of st' new \<le> r_end rr \<and>
       (\<forall>x a. has_parent st' x a \<longleftrightarrow> has_parent st x a \<or> x = new \<and> a = root) \<and>
       (\<forall>x. has_parent st x root \<longrightarrow> end_of st x < start_of st' new \<or> end_of st' new < start_of st x) \<or>
     ret = - EBUSY \<and> (\<forall>x a. has_parent st' x a \<longleftrightarrow> has_parent st x a))"
proof -
  obtain n where n: "st new = Some n" "r_parent n = None" "r_child n = None" using new(1) by (auto simp: loose_def)
  obtain ret s e where f: "find_resource st root new sz mn mx (2 ^ k) None = Some (ret, st(new \<mapsto> n \<lparr>r_start := s, r_end := e\<rparr>))"
      "ret = 0 \<and> slot k sz mn mx s e \<or> ret = - EBUSY"
    using find_resource_spec [where st = st, OF tree root new(1) n(1) new(2) [symmetric] sz, of mx] by blast
  define st1 where "st1 = st(new \<mapsto> n \<lparr>r_start := s, r_end := e\<rparr>)"
  have nn: "r_parent (n \<lparr>r_start := s, r_end := e\<rparr>) = None" "r_child (n \<lparr>r_start := s, r_end := e\<rparr>) = None" using n by simp_all
  note sl = set_loose [where st = st, OF tree loose_unlinked [where st = st, OF tree new(1)] nn, folded st1_def]
  have o: "start_of st1 x = start_of st x" "end_of st1 x = end_of st x" if "x \<noteq> new" for x
    using that by (simp_all add: st1_def start_of_def end_of_def)
  have sn: "start_of st1 new = s" "end_of st1 new = e" by (simp_all add: st1_def start_of_def end_of_def)
  have r1: "st1 root = Some rr" using root(1) new(2) by (simp add: st1_def)
  have ro: "start_of st1 root = r_start rr" "end_of st1 root = r_end rr" using r1 by (simp_all add: start_of_def end_of_def)
  have eb: "- EBUSY < 0" by (simp add: errno_defs)
  show ?thesis
  proof (cases "ret = 0")
    case False
    then have "allocate_resource st root new sz mn mx (2 ^ k) None = Some (- EBUSY, st1)"
      using f eb by (simp add: allocate_resource_def st1_def)
    then show ?thesis using sl(1,2) o by auto
  next
    case True
    have slot: "slot k sz mn mx s e" using True f(2) eb by auto
    have run: "allocate_resource st root new sz mn mx (2 ^ k) None =
        do { (conflict, st) \<leftarrow> raw_request_resource st1 root new; Some (case conflict of None \<Rightarrow> 0 | Some _ \<Rightarrow> - EBUSY, st) }"
      using f(1) True by (simp add: allocate_resource_def st1_def del: bind_split_Some)
    obtain xs where xs: "node_ok st1 root xs" using tree_okD(1) [OF sl(1) r1] by blast
    from sl(1) xs sl(3) new(2) show ?thesis
    proof (cases rule: request_cases)
      case outside
      then show ?thesis using run sl(1,2) o by auto
    next
      case (conflict as c bs)
      then show ?thesis using run sl(1,2) o by auto
    next
      case (free as bs)
      obtain c where r0: "rseg st1 c (as @ bs) None" using xs free(1) by (auto simp: node_ok_def)
      obtain rn where r: "st1 new = Some rn" "r_parent rn = None" using sl(3) by (auto simp: loose_def)
      have "\<not> has_parent st1 new root" using r by (simp add: has_parent_def)
      then have ex: "\<forall>x \<in> set as. \<exists>r. st1 x = Some r" "new \<notin> set as"
        using rseg_dom [OF r0] node_ok_parent [OF xs, of new] free(1) by auto
      note g = linked_fields [where st = st1, OF r1 r(1) new(2) ex]
      have hp: "has_parent (linked st1 root new as bs) x a \<longleftrightarrow> has_parent st x a \<or> x = new \<and> a = root" for x a
        using g(3) [of x] g(4) [of bs a] sl(2) loose_unlinked(1) [OF tree new(1)] by (cases "x = new") auto
      have ap: "end_of st x < s \<or> e < start_of st x" if x: "has_parent st x root" for x
      proof -
        have "x \<noteq> new" using x loose_unlinked(1) [OF tree new(1)] by blast
        moreover have "\<not> overlaps st1 new x" using free(3) node_ok_parent [OF xs, of x] x sl(2) by blast
        ultimately show ?thesis using o sn by (auto simp: overlaps_def not_le)
      qed
      have fit: "r_start rr \<le> s" "e \<le> r_end rr" using free(2) sn ro by (simp_all add: fits_in_def)
      show ?thesis
        unfolding run free(4) by (intro exI [of _ 0] exI [of _ "linked st1 root new as bs"]) (simp add: free(6) g(1,2) o sn slot fit hp ap)
    qed
  qed
qed

theorem allocate_resource_sound_witness:
  "\<exists>ret st'. allocate_resource example_heap 0 1 64 200 900 (2 ^ 5) None = Some (ret, st') \<and> ret = 0 \<and> slot 5 64 200 900 (start_of st' 1) (end_of st' 1)"
proof -
  have e: "example_heap 0 = Some (zeroed 0 1000 0)" "r_start (zeroed 0 1000 0) \<le> r_end (zeroed 0 1000 0)" "(1 :: nat) \<noteq> 0" "(64 :: u64) \<noteq> 0" "(5 :: nat) < 64"
    "unat (200 :: u64) + 2 ^ 5 < 2 ^ 64" "unat (r_end (zeroed 0 1000 0)) + 2 ^ 5 < 2 ^ 64" by (simp_all add: example_heap_def zeroed_def)
  have "map_option fst (allocate_resource example_heap 0 1 64 200 900 (2 ^ 5) None) = Some 0" by code_simp
  then obtain st' where a: "allocate_resource example_heap 0 1 64 200 900 (2 ^ 5) None = Some (0, st')" by auto
  moreover have "(0 :: int) \<noteq> - EBUSY" by (simp add: errno_defs)
  ultimately show ?thesis
    using allocate_resource_sound [where st = example_heap, OF example_heap_ok(1) e(1,2) example_heap_ok(2) e(3-7), of 900] by auto
qed

text \<open>Requests for a single address are refused although there is room: the candidate must have start below end.\<close>

lemma allocate_single_address: "map_option fst (allocate_resource [0 \<mapsto> zeroed 5 5 0, 1 \<mapsto> zeroed 0 0 0] 0 1 1 0 100 1 None) = Some (- EBUSY)"
  by code_simp

text \<open>Without the limit on the addresses, the alignment wraps and the result may lie below the minimum.\<close>

definition wrapped_allocation :: "(int \<times> u64) option" where
  "wrapped_allocation = map_option (\<lambda>(ret, st). (ret, start_of st 1))
     (allocate_resource [0 \<mapsto> zeroed 0 (- 1) 0, 1 \<mapsto> zeroed 0 0 0] 0 1 16 (- 16) (- 1) 4096 None)"

lemma allocate_wraps: "wrapped_allocation = Some (0, 0)"
  by code_simp

end
