(* ===== verification/Byteorder.thy ===== *)
theory Byteorder
  imports KPrelude
begin

text \<open>
  32-bit words in byte buffers. The kernel is configured big-endian, so a \<open>u32\<close> load takes the
  first byte as the most significant one; \<open>be32_to_cpu\<close> is then the identity and
  \<open>le32_to_cpu\<close> the byte swap of \<open>include/linux/swab.h\<close>
  (see \<open>include/linux/byteorder/big_endian.h\<close>). The lemmas show that loads and stores are inverse
  and what a little-endian load reads.
\<close>

definition u32_of_bytes :: "u8 \<Rightarrow> u8 \<Rightarrow> u8 \<Rightarrow> u8 \<Rightarrow> u32" where
  "u32_of_bytes a b c d =
     push_bit 24 (ucast a) OR push_bit 16 (ucast b) OR push_bit 8 (ucast c) OR ucast d"

definition bytes_of_u32 :: "u32 \<Rightarrow> bytes" where
  "bytes_of_u32 w = [ucast (drop_bit 24 w), ucast (drop_bit 16 w), ucast (drop_bit 8 w), ucast w]"

definition load_u32 :: "bytes \<Rightarrow> nat \<Rightarrow> u32 option" where
  "load_u32 xs i = do {
     a \<leftarrow> rd xs i; b \<leftarrow> rd xs (i + 1); c \<leftarrow> rd xs (i + 2); d \<leftarrow> rd xs (i + 3);
     Some (u32_of_bytes a b c d) }"

definition store_u32 :: "bytes \<Rightarrow> nat \<Rightarrow> u32 \<Rightarrow> bytes option" where
  "store_u32 xs i w = memcpy xs i (bytes_of_u32 w) 0 4"

definition swab32 :: "u32 \<Rightarrow> u32" where
  "swab32 x =
     push_bit 24 (x AND 0x000000ff) OR push_bit 8 (x AND 0x0000ff00) OR
     drop_bit 8 (x AND 0x00ff0000) OR drop_bit 24 (x AND 0xff000000)"

definition le32_to_cpu :: "u32 \<Rightarrow> u32" where "le32_to_cpu x = swab32 x"
definition cpu_to_le32 :: "u32 \<Rightarrow> u32" where "cpu_to_le32 x = swab32 x"
definition be32_to_cpu :: "u32 \<Rightarrow> u32" where "be32_to_cpu x = x"
definition cpu_to_be32 :: "u32 \<Rightarrow> u32" where "cpu_to_be32 x = x"

lemma length_bytes_of_u32 [simp]: "length (bytes_of_u32 w) = 4"
  by (simp add: bytes_of_u32_def)

lemma bit_u32_of_bytes:
  "bit (u32_of_bytes a b c d) n \<longleftrightarrow>
     (if n < 8 then bit d n else if n < 16 then bit c (n - 8)
      else if n < 24 then bit b (n - 16) else bit a (n - 24))"
proof -
  have out: "\<not> bit x k" if "8 \<le> k" for x :: u8 and k using that by (auto dest: bit_imp_le_length)
  consider "n < 8" | "8 \<le> n" "n < 16" | "16 \<le> n" "n < 24" | "24 \<le> n" "n < 32" | "32 \<le> n" by linarith
  then show ?thesis
    by cases (auto simp: u32_of_bytes_def bit_simps out)
qed

lemma bytes_of_u32_of_bytes [simp]: "bytes_of_u32 (u32_of_bytes a b c d) = [a, b, c, d]"
proof -
  have "ucast (drop_bit 24 (u32_of_bytes a b c d)) = a" "ucast (drop_bit 16 (u32_of_bytes a b c d)) = b"
    "ucast (drop_bit 8 (u32_of_bytes a b c d)) = c" "ucast (u32_of_bytes a b c d) = d"
    by (rule bit_word_eqI; simp add: bit_u32_of_bytes bit_simps)+
  then show ?thesis by (simp add: bytes_of_u32_def)
qed

lemma u32_of_bytes_of_u32 [simp]:
  "u32_of_bytes (ucast (drop_bit 24 w)) (ucast (drop_bit 16 w)) (ucast (drop_bit 8 w)) (ucast w) = w"
  by (rule bit_word_eqI) (auto simp: bit_u32_of_bytes bit_simps)

lemma load_bytes_of_u32: "load_u32 (bytes_of_u32 w @ xs) 0 = Some w"
  by (simp add: load_u32_def bytes_of_u32_def)

lemma swab32_masks:
  "(0x000000ff :: u32) = mask 8" "(0x0000ff00 :: u32) = push_bit 8 (mask 8)"
  "(0x00ff0000 :: u32) = push_bit 16 (mask 8)" "(0xff000000 :: u32) = push_bit 24 (mask 8)"
  by (simp_all add: mask_eq_exp_minus_1 push_bit_eq_mult)

lemma swab32_u32_of_bytes [simp]: "swab32 (u32_of_bytes a b c d) = u32_of_bytes d c b a"
proof (rule bit_word_eqI)
  fix n assume "n < LENGTH(32)"
  define q r where "q = n div 8" and "r = n mod 8"
  have n: "n = 8 * q + r" "r < 8" "q = 0 \<or> q = 1 \<or> q = 2 \<or> q = 3"
    using \<open>n < LENGTH(32)\<close> by (auto simp: q_def r_def)
  show "bit (swab32 (u32_of_bytes a b c d)) n = bit (u32_of_bytes d c b a) n"
    unfolding swab32_def swab32_masks bit_or_iff bit_push_bit_iff bit_drop_bit_eq bit_and_iff bit_mask_iff
      possible_bit_def o_def bit_u32_of_bytes n(1)
    using n(3,2) by (elim disjE) (auto simp: add.commute)
qed

lemma swab32_swab32 [simp]: "swab32 (swab32 w) = w"
proof -
  obtain a b c d where "w = u32_of_bytes a b c d" using u32_of_bytes_of_u32 [of w] by metis
  then show ?thesis by simp
qed

lemma le32_inverse [simp]: "le32_to_cpu (cpu_to_le32 w) = w" "cpu_to_le32 (le32_to_cpu w) = w"
  by (simp_all add: le32_to_cpu_def cpu_to_le32_def)

lemma load_u32_total: "i + 4 \<le> length xs \<Longrightarrow> \<exists>w. load_u32 xs i = Some w"
  by (simp add: load_u32_def)

lemma load_u32_at: "load_u32 (p @ a # b # c # d # q) (length p) = Some (u32_of_bytes a b c d)"
  by (simp add: load_u32_def nth_append)

lemma store_u32_at: "store_u32 (p @ a # b # c # d # q) (length p) w = Some (p @ bytes_of_u32 w @ q)"
  by (simp add: store_u32_def memcpy_def)

lemma u32_of_bytes_xor:
  "u32_of_bytes a b c d XOR u32_of_bytes a' b' c' d' =
   u32_of_bytes (a XOR a') (b XOR b') (c XOR c') (d XOR d')"
  by (rule bit_word_eqI) (simp add: bit_u32_of_bytes bit_simps)

lemma or_push_bit_add:
  "(push_bit n w :: u32) OR v = push_bit n w + v" if "\<And>i. bit v i \<Longrightarrow> i < n"
  by (rule disjunctive_add [symmetric]) (use that in \<open>force simp: bit_simps\<close>)

lemma unat_u32_of_bytes:
  "unat (u32_of_bytes a b c d) = ((unat a * 256 + unat b) * 256 + unat c) * 256 + unat d"
proof -
  have a: "unat a < 256" "unat b < 256" "unat c < 256" "unat d < 256" using unat_lt [where 'a = 8] by auto
  have 1: "push_bit 8 (ucast c) OR ucast d = push_bit 8 (ucast c) + (ucast d :: u32)"
    by (rule or_push_bit_add) (auto simp: bit_simps dest: bit_imp_le_length)
  have 2: "push_bit 16 (ucast b) OR (push_bit 8 (ucast c) OR ucast d) =
      push_bit 16 (ucast b) + (push_bit 8 (ucast c) OR ucast d :: u32)"
    by (rule or_push_bit_add) (auto simp: bit_simps dest: bit_imp_le_length)
  have 3: "push_bit 24 (ucast a) OR (push_bit 16 (ucast b) OR (push_bit 8 (ucast c) OR ucast d)) =
      push_bit 24 (ucast a) + (push_bit 16 (ucast b) OR (push_bit 8 (ucast c) OR ucast d) :: u32)"
    by (rule or_push_bit_add) (auto simp: bit_simps dest: bit_imp_le_length)
  have "u32_of_bytes a b c d = push_bit 24 (ucast a) + (push_bit 16 (ucast b) + (push_bit 8 (ucast c) + ucast d))"
    unfolding u32_of_bytes_def or.assoc by (simp only: 3) (simp only: 2, simp only: 1)
  also have "\<dots> = of_nat (((unat a * 256 + unat b) * 256 + unat c) * 256 + unat d)"
    by (simp add: push_bit_eq_mult algebra_simps)
  finally show ?thesis
    by (rule trans [OF arg_cong [of _ _ unat]]) (unfold unat_of_nat, rule mod_less, use a in simp)
qed

end
