(* ===== verification/Algapi.thy ===== *)
theory Algapi
  imports Byteorder
begin

text \<open>
  The byte helpers of \<open>crypto/algapi.c\<close>: \<open>crypto_xor\<close> works on 32-bit words and finishes byte by byte,
  \<open>crypto_inc\<close> increments a big-endian counter the same way. A pointer is a buffer and an offset; the
  two operands of \<open>crypto_xor\<close> may be disjoint parts of one buffer, which is then given twice. The
  lemmas show that the word-wise routines are the byte-wise XOR and the increment modulo
  \<open>256 ^ size\<close>.
\<close>

fun crypto_inc_byte :: "bytes \<Rightarrow> nat \<Rightarrow> bytes option" where
  "crypto_inc_byte a 0 = Some a"
| "crypto_inc_byte a (Suc n) = do {
     c \<leftarrow> rd a n;
     let c = c + 1;
     a \<leftarrow> wr a n c;
     if c \<noteq> 0 then Some a else crypto_inc_byte a n }"

fun crypto_inc :: "bytes \<Rightarrow> nat \<Rightarrow> bytes option" where
  "crypto_inc a n =
    (if n \<ge> 4 then do {
       w \<leftarrow> load_u32 a (n - 4);
       let c = be32_to_cpu w + 1;
       a \<leftarrow> store_u32 a (n - 4) (cpu_to_be32 c);
       if c \<noteq> 0 then Some a else crypto_inc a (n - 4) }
     else crypto_inc_byte a n)"

fun crypto_xor_byte :: "bytes \<Rightarrow> nat \<Rightarrow> bytes \<Rightarrow> nat \<Rightarrow> nat \<Rightarrow> bytes option" where
  "crypto_xor_byte a i b j 0 = Some a"
| "crypto_xor_byte a i b j (Suc n) = do {
     x \<leftarrow> rd a i; y \<leftarrow> rd b j;
     a \<leftarrow> wr a i (x XOR y);
     crypto_xor_byte a (i + 1) b (j + 1) n }"

fun crypto_xor :: "bytes \<Rightarrow> nat \<Rightarrow> bytes \<Rightarrow> nat \<Rightarrow> nat \<Rightarrow> bytes option" where
  "crypto_xor a i b j n =
    (if n \<ge> 4 then do {
       x \<leftarrow> load_u32 a i; y \<leftarrow> load_u32 b j;
       a \<leftarrow> store_u32 a i (x XOR y);
       crypto_xor a (i + 4) b (j + 4) (n - 4) }
     else crypto_xor_byte a i b j n)"

declare crypto_inc.simps [simp del] crypto_xor.simps [simp del]

section \<open>XOR\<close>

definition xorb :: "bytes \<Rightarrow> bytes \<Rightarrow> bytes" where
  "xorb a b = map2 (XOR) a b"

lemma xorb_simps [simp]:
  "xorb [] b = []" "xorb (x # a) (y # b) = (x XOR y) # xorb a b"
  "length (xorb a b) = min (length a) (length b)"
  by (simp_all add: xorb_def)

lemma xor_left_cancel: "x XOR (x XOR y) = (y :: u8)"
  by (simp flip: xor.assoc)

lemma xorb_cancel [simp]:
  "length a = length b \<Longrightarrow> xorb (xorb a b) b = a" "length a = length b \<Longrightarrow> xorb b (xorb b a) = a"
  "length a = length b \<Longrightarrow> xorb b (xorb a b) = a" "length a = length b \<Longrightarrow> xorb (xorb b a) b = a"
  by (induction a b rule: list_induct2)
     (simp_all add: xor.assoc xor.commute xor.left_commute xor_left_cancel)

lemma xorb_commute: "xorb a b = xorb b a"
  by (simp add: xorb_def zip_commute [of a] xor.commute case_prod_unfold comp_def)

lemma list_split4:
  assumes "4 \<le> length a"
  obtains a0 a1 a2 a3 as where "a = a0 # a1 # a2 # a3 # as"
  using assms by (auto simp: eval_nat_numeral Suc_le_length_iff)

lemma crypto_xor_byte_at:
  assumes "length a = length b"
  shows "crypto_xor_byte (p @ a @ q) (length p) (p' @ b @ q') (length p') (length a) = Some (p @ xorb a b @ q)"
  using assms
proof (induction a b arbitrary: p p' rule: list_induct2)
  case (Cons x a y b)
  then show ?case using Cons.IH [of "p @ [x XOR y]" "p' @ [y]"] by (simp add: nth_append list_update_append)
qed simp

lemma crypto_xor_at:
  assumes "length a = n" and "length b = n" and "i = length p" and "j = length p'"
  shows "crypto_xor (p @ a @ q) i (p' @ b @ q') j n = Some (p @ xorb a b @ q)"
  using assms
proof (induction n arbitrary: a b p p' i j rule: less_induct)
  case (less n)
  show ?case
  proof (cases "n \<ge> 4")
    case True
    have l: "4 \<le> length a" "4 \<le> length b" using True less.prems by simp_all
    obtain a0 a1 a2 a3 as where a: "a = a0 # a1 # a2 # a3 # as" using l(1) by (rule list_split4)
    obtain b0 b1 b2 b3 bs where b: "b = b0 # b1 # b2 # b3 # bs" using l(2) by (rule list_split4)
    let ?x = "[a0 XOR b0, a1 XOR b1, a2 XOR b2, a3 XOR b3]"
    have "crypto_xor ((p @ ?x) @ as @ q) (i + 4) ((p' @ [b0, b1, b2, b3]) @ bs @ q') (j + 4) (n - 4) =
        Some ((p @ ?x) @ xorb as bs @ q)"
      using less.prems True by (intro less.IH) (simp_all add: a b)
    then show ?thesis using True less.prems
      by (subst crypto_xor.simps) (simp add: a b load_u32_at store_u32_at u32_of_bytes_xor)
  next
    case False
    then show ?thesis using crypto_xor_byte_at [of a b p q p' q'] less.prems by (subst crypto_xor.simps) simp
  qed
qed

section \<open>Increment\<close>

definition be_val :: "bytes \<Rightarrow> nat" where
  "be_val xs = foldl (\<lambda>v b. v * 256 + unat b) 0 xs"

lemma be_val_simps [simp]: "be_val [] = 0" "be_val (xs @ [b]) = be_val xs * 256 + unat b"
  by (simp_all add: be_val_def)

lemma unat_u8_less [simp]: "unat (b :: u8) < 256" using unat_lt [of b] by simp

lemma be_val_less: "be_val xs < 256 ^ length xs"
proof (induction xs rule: rev_induct)
  case (snoc b xs)
  have "be_val xs * 256 + unat b < (be_val xs + 1) * 256" by simp
  also have "\<dots> \<le> 256 ^ length xs * 256" using snoc by (intro mult_le_mono1) simp
  finally show ?case by simp
qed simp

lemma be_val_inj: "length xs = length ys \<Longrightarrow> be_val xs = be_val ys \<Longrightarrow> xs = ys"
proof (induction xs arbitrary: ys rule: rev_induct)
  case (snoc b xs)
  obtain c zs where ys: "ys = zs @ [c]" "length zs = length xs"
    using snoc.prems(1) by (cases ys rule: rev_cases) auto
  have e: "be_val xs * 256 + unat b = be_val zs * 256 + unat c" using snoc.prems(2) ys by simp
  have "be_val xs = be_val zs" using arg_cong [OF e, of "\<lambda>x. x div 256"] by (simp add: div_mult_self3)
  moreover from this have "unat b = unat c" using e by simp
  ultimately have "be_val xs = be_val zs" "b = c" by (simp_all add: word_unat_eq_iff [THEN iffD2])
  then show ?case using snoc.IH [of zs] ys by simp
qed simp

definition inc_spec :: "bytes \<Rightarrow> bytes \<Rightarrow> bool" where
  "inc_spec a a' \<longleftrightarrow> length a' = length a \<and> be_val a' = (be_val a + 1) mod 256 ^ length a"

lemma inc_spec_carry:
  assumes "inc_spec xs xs'" and "n = length ys" and "be_val (xs @ ys) = be_val xs * 256 ^ n + (256 ^ n - 1)"
    and "be_val (xs' @ zs) = be_val xs' * 256 ^ n" and "length zs = n"
  shows "inc_spec (xs @ ys) (xs' @ zs)"
proof -
  have "(be_val (xs @ ys) + 1) mod 256 ^ (length xs + n) = ((be_val xs + 1) * 256 ^ n) mod (256 ^ length xs * 256 ^ n)"
    unfolding assms(3) by (simp add: power_add algebra_simps)
  also have "\<dots> = be_val xs' * 256 ^ n" using assms(1) by (simp add: mult_mod_left inc_spec_def)
  finally show ?thesis using assms by (simp add: inc_spec_def)
qed

lemma unat_succ: "(w :: 'a::len word) + 1 \<noteq> 0 \<Longrightarrow> unat (w + 1) = unat w + 1"
  using unat_pred [of "w + 1"] by (metis One_nat_def Suc_eq_plus1 Suc_pred add_diff_cancel_right' unat_gt_0)

lemma unat_before_wrap: "(w :: 'a::len word) + 1 = 0 \<Longrightarrow> unat w = 2 ^ LENGTH('a) - 1"
  by (simp add: unsigned_minus_1_eq_mask mask_eq_exp_minus_1 flip: eq_neg_iff_add_eq_0)

lemma inc_spec_step:
  assumes "length zs = length ys" and "be_val zs = be_val ys + 1"
  shows "inc_spec ys zs"
  using assms be_val_less [of zs] by (simp add: inc_spec_def)

lemma crypto_inc_byte_at:
  "\<exists>a'. crypto_inc_byte (a @ q) (length a) = Some (a' @ q) \<and> inc_spec a a'"
proof (induction a arbitrary: q rule: rev_induct)
  case Nil
  then show ?case by (simp add: inc_spec_def)
next
  case (snoc b a)
  show ?case
  proof (cases "b + 1 = 0")
    case True
    then have b: "unat b = 255" using unat_before_wrap [of b] by simp
    obtain a' where a': "crypto_inc_byte (a @ 0 # q) (length a) = Some (a' @ 0 # q)" "inc_spec a a'"
      using snoc.IH by blast
    have "inc_spec (a @ [b]) (a' @ [0])" using a'(2) b by (intro inc_spec_carry [of _ _ 1]) simp_all
    then show ?thesis using a'(1) True by (intro exI [of _ "a' @ [0]"]) (simp add: nth_append)
  next
    case False
    then have "unat (b + 1) = unat b + 1" by (rule unat_succ)
    then have "inc_spec (a @ [b]) (a @ [b + 1])" by (intro inc_spec_step) simp_all
    then show ?thesis using False by (intro exI [of _ "a @ [b + 1]"]) (simp add: nth_append)
  qed
qed

lemma be_val_u32: "be_val (xs @ bytes_of_u32 w) = be_val xs * 256 ^ 4 + unat w"
proof -
  have "w = u32_of_bytes (ucast (drop_bit 24 w)) (ucast (drop_bit 16 w)) (ucast (drop_bit 8 w)) (ucast w)" by simp
  then obtain a b c d where w: "w = u32_of_bytes a b c d" by blast
  have "be_val (xs @ [a, b, c, d]) = be_val ((((xs @ [a]) @ [b]) @ [c]) @ [d])" by simp
  then show ?thesis unfolding w unat_u32_of_bytes bytes_of_u32_of_bytes by (simp only: be_val_simps) simp
qed

lemma last_word:
  assumes "4 \<le> length a"
  obtains xs w where "a = xs @ bytes_of_u32 w" "length xs = length a - 4"
proof -
  have "4 \<le> length (rev a)" using assms by simp
  then obtain d c b x xs where r: "rev a = d # c # b # x # xs" by (rule list_split4)
  have "rev (rev a) = rev xs @ [x, b, c, d]" unfolding r by simp
  then have "a = rev xs @ bytes_of_u32 (u32_of_bytes x b c d)" by simp
  moreover have "length (rev xs) = length a - 4" unfolding length_rev [of a, symmetric] r by simp
  ultimately show ?thesis by (rule that)
qed

lemma load_last: "load_u32 (xs @ bytes_of_u32 w @ q) (length xs) = Some w"
  by (simp add: load_u32_def bytes_of_u32_def nth_append)

lemma store_last: "store_u32 (xs @ bytes_of_u32 w @ q) (length xs) v = Some (xs @ bytes_of_u32 v @ q)"
  by (simp add: store_u32_def memcpy_def)

lemma crypto_inc_at:
  "length a = n \<Longrightarrow> \<exists>a'. crypto_inc (a @ q) n = Some (a' @ q) \<and> inc_spec a a'"
proof (induction n arbitrary: a q rule: less_induct)
  case (less n)
  show ?case
  proof (cases "n \<ge> 4")
    case True
    then have "4 \<le> length a" using less.prems by simp
    then obtain xs w where a: "a = xs @ bytes_of_u32 w" "length xs = length a - 4" by (rule last_word)
    then have a: "a = xs @ bytes_of_u32 w" "length xs = n - 4" using less.prems by simp_all
    have s: "crypto_inc (a @ q) n = (if w + 1 \<noteq> 0 then Some (xs @ bytes_of_u32 (w + 1) @ q)
        else crypto_inc (xs @ bytes_of_u32 (w + 1) @ q) (n - 4))"
      using True a(2) load_last [of xs w q] store_last [of xs w q]
      by (subst crypto_inc.simps) (simp add: a(1) be32_to_cpu_def cpu_to_be32_def Let_def)
    show ?thesis
    proof (cases "w + 1 = 0")
      case wrap: True
      then have w: "unat w = 256 ^ 4 - 1" using unat_before_wrap [of w] by simp
      obtain xs' where xs': "crypto_inc (xs @ bytes_of_u32 0 @ q) (n - 4) = Some (xs' @ bytes_of_u32 0 @ q)"
        "inc_spec xs xs'"
        using less.IH [of "n - 4" xs "bytes_of_u32 0 @ q"] True a(2) by force
      have "inc_spec (xs @ bytes_of_u32 w) (xs' @ bytes_of_u32 0)"
        by (rule inc_spec_carry [OF xs'(2), of 4]) (simp_all add: be_val_u32 w)
      then show ?thesis using xs'(1) s wrap by (intro exI [of _ "xs' @ bytes_of_u32 0"]) (simp add: a(1))
    next
      case False
      then have "unat (w + 1) = unat w + 1" by (rule unat_succ)
      then have "inc_spec (xs @ bytes_of_u32 w) (xs @ bytes_of_u32 (w + 1))"
        by (intro inc_spec_step) (simp_all add: be_val_u32)
      then show ?thesis using s False by (intro exI [of _ "xs @ bytes_of_u32 (w + 1)"]) (simp add: a(1))
    qed
  next
    case False
    then show ?thesis using crypto_inc_byte_at [of a q] less.prems by (subst crypto_inc.simps) simp
  qed
qed

end
