(* ===== verification/Block_Modes.thy ===== *)
theory Block_Modes
  imports Algapi
begin

text \<open>
  The block modes of \<open>crypto/ecb.c\<close>, \<open>crypto/cbc.c\<close>, \<open>crypto/pcbc.c\<close> and \<open>crypto/ctr.c\<close>: the
  functions that process one step of a scatter-list walk, out of place (source and destination are two
  buffers) and in place (one buffer, the field \<open>src_addr\<close>; \<open>dst_addr\<close> is not used). The cipher is the
  function pointer the code calls; it reads a block of \<open>bsize\<close> bytes and returns the block it stores.
  A pointer into a buffer is an offset. The loops subtract \<open>bsize\<close> from the 32-bit \<open>nbytes\<close> with
  wrap-around and are partial functions.

  The locale \<open>block_cipher\<close> states what a mode needs of a cipher. Its lemmas show that every function
  returns on a chunk of at least one block, leaves the incomplete last block untouched, computes the
  textbook recursion of its mode on blocks, and that decryption inverts encryption.
\<close>

section \<open>Walks and cipher calls\<close>

record blkcipher_walk =
  src_addr :: bytes
  dst_addr :: bytes
  walk_iv :: bytes
  walk_nbytes :: u32

type_synonym cia = "bytes \<Rightarrow> bytes option"

definition rd_bytes :: "bytes \<Rightarrow> nat \<Rightarrow> nat \<Rightarrow> bytes option" where
  "rd_bytes xs i n = (if i + n \<le> length xs then Some (take n (drop i xs)) else None)"

definition call_cia :: "cia \<Rightarrow> nat \<Rightarrow> bytes \<Rightarrow> nat \<Rightarrow> bytes \<Rightarrow> nat \<Rightarrow> bytes option" where
  "call_cia fn bsize dst d src s = do {
     blk \<leftarrow> rd_bytes src s bsize;
     out \<leftarrow> fn blk;
     memcpy dst d out 0 bsize }"

text \<open>\<open>do { body } while ((nbytes -= bsize) >= bsize)\<close>, with the final \<open>nbytes\<close>.\<close>

partial_function (option) do_blocks :: "('s \<Rightarrow> 's option) \<Rightarrow> nat \<Rightarrow> u32 \<Rightarrow> 's \<Rightarrow> (u32 \<times> 's) option" where
  "do_blocks body bsize nbytes st = do {
     st \<leftarrow> body st;
     let nbytes = nbytes - of_nat bsize;
     if nbytes \<ge> of_nat bsize then do_blocks body bsize nbytes st else Some (nbytes, st) }"

declare do_blocks.simps [code]

section \<open>ECB\<close>

text \<open>One pass of the outer loop of \<open>crypto_ecb_crypt\<close>.\<close>

definition ecb_crypt_do :: "cia \<Rightarrow> nat \<Rightarrow> nat \<times> nat \<times> blkcipher_walk \<Rightarrow> (nat \<times> nat \<times> blkcipher_walk) option" where
  "ecb_crypt_do fn bsize = (\<lambda>(wsrc, wdst, walk). do {
     d \<leftarrow> call_cia fn bsize (dst_addr walk) wdst (src_addr walk) wsrc;
     Some (wsrc + bsize, wdst + bsize, walk\<lparr>dst_addr := d\<rparr>) })"

definition ecb_crypt_pass :: "cia \<Rightarrow> nat \<Rightarrow> blkcipher_walk \<Rightarrow> (u32 \<times> blkcipher_walk) option" where
  "ecb_crypt_pass fn bsize walk = do {
     (nbytes, _, _, walk) \<leftarrow> do_blocks (ecb_crypt_do fn bsize) bsize (walk_nbytes walk) (0, 0, walk);
     Some (nbytes, walk) }"

section \<open>CBC\<close>

definition cbc_encrypt_segment_do :: "cia \<Rightarrow> nat \<Rightarrow> nat \<times> nat \<times> blkcipher_walk \<Rightarrow> (nat \<times> nat \<times> blkcipher_walk) option" where
  "cbc_encrypt_segment_do fn bsize = (\<lambda>(src, dst, walk). do {
     iv \<leftarrow> crypto_xor (walk_iv walk) 0 (src_addr walk) src bsize;
     d \<leftarrow> call_cia fn bsize (dst_addr walk) dst iv 0;
     iv \<leftarrow> memcpy iv 0 d dst bsize;
     Some (src + bsize, dst + bsize, walk\<lparr>dst_addr := d, walk_iv := iv\<rparr>) })"

definition crypto_cbc_encrypt_segment :: "cia \<Rightarrow> nat \<Rightarrow> blkcipher_walk \<Rightarrow> (u32 \<times> blkcipher_walk) option" where
  "crypto_cbc_encrypt_segment fn bsize walk = do {
     (nbytes, _, _, walk) \<leftarrow> do_blocks (cbc_encrypt_segment_do fn bsize) bsize (walk_nbytes walk) (0, 0, walk);
     Some (nbytes, walk) }"

text \<open>
  Where the code moves the pointer \<open>iv\<close> from \<open>walk->iv\<close> into the source buffer, the pointer is
  \<open>None\<close> for \<open>walk->iv\<close> and an offset for a place in the buffer.
\<close>

definition iv_deref :: "blkcipher_walk \<Rightarrow> nat option \<Rightarrow> bytes \<times> nat" where
  "iv_deref walk iv = (case iv of None \<Rightarrow> (walk_iv walk, 0) | Some off \<Rightarrow> (src_addr walk, off))"

definition cbc_encrypt_inplace_do :: "cia \<Rightarrow> nat \<Rightarrow> nat \<times> nat option \<times> blkcipher_walk \<Rightarrow> (nat \<times> nat option \<times> blkcipher_walk) option" where
  "cbc_encrypt_inplace_do fn bsize = (\<lambda>(src, iv, walk). do {
     let (ivb, ivo) = iv_deref walk iv;
     s \<leftarrow> crypto_xor (src_addr walk) src ivb ivo bsize;
     s \<leftarrow> call_cia fn bsize s src s src;
     Some (src + bsize, Some src, walk\<lparr>src_addr := s\<rparr>) })"

definition crypto_cbc_encrypt_inplace :: "cia \<Rightarrow> nat \<Rightarrow> blkcipher_walk \<Rightarrow> (u32 \<times> blkcipher_walk) option" where
  "crypto_cbc_encrypt_inplace fn bsize walk = do {
     (nbytes, _, iv, walk) \<leftarrow> do_blocks (cbc_encrypt_inplace_do fn bsize) bsize (walk_nbytes walk) (0, None, walk);
     let (ivb, ivo) = iv_deref walk iv;
     w \<leftarrow> memcpy (walk_iv walk) 0 ivb ivo bsize;
     Some (nbytes, walk\<lparr>walk_iv := w\<rparr>) }"

definition cbc_decrypt_segment_do :: "cia \<Rightarrow> nat \<Rightarrow> nat \<times> nat \<times> nat option \<times> blkcipher_walk \<Rightarrow> (nat \<times> nat \<times> nat option \<times> blkcipher_walk) option" where
  "cbc_decrypt_segment_do fn bsize = (\<lambda>(src, dst, iv, walk). do {
     d \<leftarrow> call_cia fn bsize (dst_addr walk) dst (src_addr walk) src;
     let (ivb, ivo) = iv_deref walk iv;
     d \<leftarrow> crypto_xor d dst ivb ivo bsize;
     Some (src + bsize, dst + bsize, Some src, walk\<lparr>dst_addr := d\<rparr>) })"

definition crypto_cbc_decrypt_segment :: "cia \<Rightarrow> nat \<Rightarrow> blkcipher_walk \<Rightarrow> (u32 \<times> blkcipher_walk) option" where
  "crypto_cbc_decrypt_segment fn bsize walk = do {
     (nbytes, _, _, iv, walk) \<leftarrow> do_blocks (cbc_decrypt_segment_do fn bsize) bsize (walk_nbytes walk) (0, 0, None, walk);
     let (ivb, ivo) = iv_deref walk iv;
     w \<leftarrow> memcpy (walk_iv walk) 0 ivb ivo bsize;
     Some (nbytes, walk\<lparr>walk_iv := w\<rparr>) }"

partial_function (option) cbc_decrypt_inplace_for ::
  "cia \<Rightarrow> nat \<Rightarrow> bytes \<Rightarrow> nat \<Rightarrow> u32 \<Rightarrow> (bytes \<times> nat \<times> u32) option" where
  "cbc_decrypt_inplace_for fn bsize s src nbytes = do {
     s \<leftarrow> call_cia fn bsize s src s src;
     let nbytes = nbytes - of_nat bsize;
     if nbytes < of_nat bsize then Some (s, src, nbytes)
     else if src < bsize then None
     else do {
       s \<leftarrow> crypto_xor s src s (src - bsize) bsize;
       cbc_decrypt_inplace_for fn bsize s (src - bsize) nbytes } }"

declare cbc_decrypt_inplace_for.simps [code]

definition crypto_cbc_decrypt_inplace :: "cia \<Rightarrow> nat \<Rightarrow> blkcipher_walk \<Rightarrow> (u32 \<times> blkcipher_walk) option" where
  "crypto_cbc_decrypt_inplace fn bsize walk = do {
     let nbytes = walk_nbytes walk;
     let src = unat (nbytes - (nbytes AND (of_nat bsize - 1)) - of_nat bsize);
     last_iv \<leftarrow> rd_bytes (src_addr walk) src bsize;
     (s, src, nbytes) \<leftarrow> cbc_decrypt_inplace_for fn bsize (src_addr walk) src nbytes;
     s \<leftarrow> crypto_xor s src (walk_iv walk) 0 bsize;
     iv \<leftarrow> memcpy (walk_iv walk) 0 last_iv 0 bsize;
     Some (nbytes, walk\<lparr>src_addr := s, walk_iv := iv\<rparr>) }"

section \<open>PCBC\<close>

definition pcbc_encrypt_segment_do :: "cia \<Rightarrow> nat \<Rightarrow> nat \<times> nat \<times> blkcipher_walk \<Rightarrow> (nat \<times> nat \<times> blkcipher_walk) option" where
  "pcbc_encrypt_segment_do fn bsize = (\<lambda>(src, dst, walk). do {
     iv \<leftarrow> crypto_xor (walk_iv walk) 0 (src_addr walk) src bsize;
     d \<leftarrow> call_cia fn bsize (dst_addr walk) dst iv 0;
     iv \<leftarrow> memcpy iv 0 d dst bsize;
     iv \<leftarrow> crypto_xor iv 0 (src_addr walk) src bsize;
     Some (src + bsize, dst + bsize, walk\<lparr>dst_addr := d, walk_iv := iv\<rparr>) })"

definition crypto_pcbc_encrypt_segment :: "cia \<Rightarrow> nat \<Rightarrow> blkcipher_walk \<Rightarrow> (u32 \<times> blkcipher_walk) option" where
  "crypto_pcbc_encrypt_segment fn bsize walk = do {
     (nbytes, _, _, walk) \<leftarrow> do_blocks (pcbc_encrypt_segment_do fn bsize) bsize (walk_nbytes walk) (0, 0, walk);
     Some (nbytes, walk) }"

text \<open>The closing \<open>memcpy(walk->iv, iv, bsize)\<close> of the next functions copies \<open>walk->iv\<close> onto itself.\<close>

definition pcbc_encrypt_inplace_do :: "cia \<Rightarrow> nat \<Rightarrow> nat \<times> blkcipher_walk \<Rightarrow> (nat \<times> blkcipher_walk) option" where
  "pcbc_encrypt_inplace_do fn bsize = (\<lambda>(src, walk). do {
     tmpbuf \<leftarrow> rd_bytes (src_addr walk) src bsize;
     iv \<leftarrow> crypto_xor (walk_iv walk) 0 (src_addr walk) src bsize;
     s \<leftarrow> call_cia fn bsize (src_addr walk) src iv 0;
     iv \<leftarrow> memcpy iv 0 tmpbuf 0 bsize;
     iv \<leftarrow> crypto_xor iv 0 s src bsize;
     Some (src + bsize, walk\<lparr>src_addr := s, walk_iv := iv\<rparr>) })"

definition crypto_pcbc_encrypt_inplace :: "cia \<Rightarrow> nat \<Rightarrow> blkcipher_walk \<Rightarrow> (u32 \<times> blkcipher_walk) option" where
  "crypto_pcbc_encrypt_inplace fn bsize walk = do {
     (nbytes, _, walk) \<leftarrow> do_blocks (pcbc_encrypt_inplace_do fn bsize) bsize (walk_nbytes walk) (0, walk);
     w \<leftarrow> memcpy (walk_iv walk) 0 (walk_iv walk) 0 bsize;
     Some (nbytes, walk\<lparr>walk_iv := w\<rparr>) }"

definition pcbc_decrypt_segment_do :: "cia \<Rightarrow> nat \<Rightarrow> nat \<times> nat \<times> blkcipher_walk \<Rightarrow> (nat \<times> nat \<times> blkcipher_walk) option" where
  "pcbc_decrypt_segment_do fn bsize = (\<lambda>(src, dst, walk). do {
     d \<leftarrow> call_cia fn bsize (dst_addr walk) dst (src_addr walk) src;
     d \<leftarrow> crypto_xor d dst (walk_iv walk) 0 bsize;
     iv \<leftarrow> memcpy (walk_iv walk) 0 (src_addr walk) src bsize;
     iv \<leftarrow> crypto_xor iv 0 d dst bsize;
     Some (src + bsize, dst + bsize, walk\<lparr>dst_addr := d, walk_iv := iv\<rparr>) })"

definition crypto_pcbc_decrypt_segment :: "cia \<Rightarrow> nat \<Rightarrow> blkcipher_walk \<Rightarrow> (u32 \<times> blkcipher_walk) option" where
  "crypto_pcbc_decrypt_segment fn bsize walk = do {
     (nbytes, _, _, walk) \<leftarrow> do_blocks (pcbc_decrypt_segment_do fn bsize) bsize (walk_nbytes walk) (0, 0, walk);
     w \<leftarrow> memcpy (walk_iv walk) 0 (walk_iv walk) 0 bsize;
     Some (nbytes, walk\<lparr>walk_iv := w\<rparr>) }"

definition pcbc_decrypt_inplace_do :: "cia \<Rightarrow> nat \<Rightarrow> nat \<times> blkcipher_walk \<Rightarrow> (nat \<times> blkcipher_walk) option" where
  "pcbc_decrypt_inplace_do fn bsize = (\<lambda>(src, walk). do {
     tmpbuf \<leftarrow> rd_bytes (src_addr walk) src bsize;
     s \<leftarrow> call_cia fn bsize (src_addr walk) src (src_addr walk) src;
     s \<leftarrow> crypto_xor s src (walk_iv walk) 0 bsize;
     iv \<leftarrow> memcpy (walk_iv walk) 0 tmpbuf 0 bsize;
     iv \<leftarrow> crypto_xor iv 0 s src bsize;
     Some (src + bsize, walk\<lparr>src_addr := s, walk_iv := iv\<rparr>) })"

definition crypto_pcbc_decrypt_inplace :: "cia \<Rightarrow> nat \<Rightarrow> blkcipher_walk \<Rightarrow> (u32 \<times> blkcipher_walk) option" where
  "crypto_pcbc_decrypt_inplace fn bsize walk = do {
     (nbytes, _, walk) \<leftarrow> do_blocks (pcbc_decrypt_inplace_do fn bsize) bsize (walk_nbytes walk) (0, walk);
     w \<leftarrow> memcpy (walk_iv walk) 0 (walk_iv walk) 0 bsize;
     Some (nbytes, walk\<lparr>walk_iv := w\<rparr>) }"

section \<open>CTR\<close>

text \<open>The buffer \<open>tmp\<close> for the keystream is overwritten before it is read; its initial bytes are zero here.\<close>

definition crypto_ctr_crypt_final :: "cia \<Rightarrow> nat \<Rightarrow> blkcipher_walk \<Rightarrow> blkcipher_walk option" where
  "crypto_ctr_crypt_final fn bsize walk = do {
     let nbytes = unat (walk_nbytes walk);
     keystream \<leftarrow> call_cia fn bsize (replicate bsize 0) 0 (walk_iv walk) 0;
     keystream \<leftarrow> crypto_xor keystream 0 (src_addr walk) 0 nbytes;
     d \<leftarrow> memcpy (dst_addr walk) 0 keystream 0 nbytes;
     iv \<leftarrow> crypto_inc (walk_iv walk) bsize;
     Some (walk\<lparr>dst_addr := d, walk_iv := iv\<rparr>) }"

definition ctr_crypt_segment_do :: "cia \<Rightarrow> nat \<Rightarrow> nat \<times> nat \<times> blkcipher_walk \<Rightarrow> (nat \<times> nat \<times> blkcipher_walk) option" where
  "ctr_crypt_segment_do fn bsize = (\<lambda>(src, dst, walk). do {
     d \<leftarrow> call_cia fn bsize (dst_addr walk) dst (walk_iv walk) 0;
     d \<leftarrow> crypto_xor d dst (src_addr walk) src bsize;
     iv \<leftarrow> crypto_inc (walk_iv walk) bsize;
     Some (src + bsize, dst + bsize, walk\<lparr>dst_addr := d, walk_iv := iv\<rparr>) })"

definition crypto_ctr_crypt_segment :: "cia \<Rightarrow> nat \<Rightarrow> blkcipher_walk \<Rightarrow> (u32 \<times> blkcipher_walk) option" where
  "crypto_ctr_crypt_segment fn bsize walk = do {
     (nbytes, _, _, walk) \<leftarrow> do_blocks (ctr_crypt_segment_do fn bsize) bsize (walk_nbytes walk) (0, 0, walk);
     Some (nbytes, walk) }"

definition ctr_crypt_inplace_do :: "cia \<Rightarrow> nat \<Rightarrow> nat \<times> bytes \<times> blkcipher_walk \<Rightarrow> (nat \<times> bytes \<times> blkcipher_walk) option" where
  "ctr_crypt_inplace_do fn bsize = (\<lambda>(src, keystream, walk). do {
     keystream \<leftarrow> call_cia fn bsize keystream 0 (walk_iv walk) 0;
     s \<leftarrow> crypto_xor (src_addr walk) src keystream 0 bsize;
     iv \<leftarrow> crypto_inc (walk_iv walk) bsize;
     Some (src + bsize, keystream, walk\<lparr>src_addr := s, walk_iv := iv\<rparr>) })"

definition crypto_ctr_crypt_inplace :: "cia \<Rightarrow> nat \<Rightarrow> blkcipher_walk \<Rightarrow> (u32 \<times> blkcipher_walk) option" where
  "crypto_ctr_crypt_inplace fn bsize walk = do {
     (nbytes, _, _, walk) \<leftarrow> do_blocks (ctr_crypt_inplace_do fn bsize) bsize (walk_nbytes walk) (0, replicate bsize 0, walk);
     Some (nbytes, walk) }"

section \<open>Textbook recursions\<close>

fun cbc_enc :: "(bytes \<Rightarrow> bytes) \<Rightarrow> bytes \<Rightarrow> bytes list \<Rightarrow> bytes list" where
  "cbc_enc E iv [] = []"
| "cbc_enc E iv (b # bs) = (let c = E (xorb iv b) in c # cbc_enc E c bs)"

fun cbc_dec :: "(bytes \<Rightarrow> bytes) \<Rightarrow> bytes \<Rightarrow> bytes list \<Rightarrow> bytes list" where
  "cbc_dec D iv [] = []"
| "cbc_dec D iv (c # cs) = xorb (D c) iv # cbc_dec D c cs"

fun pcbc_enc :: "(bytes \<Rightarrow> bytes) \<Rightarrow> bytes \<Rightarrow> bytes list \<Rightarrow> bytes list" where
  "pcbc_enc E iv [] = []"
| "pcbc_enc E iv (b # bs) = (let c = E (xorb iv b) in c # pcbc_enc E (xorb c b) bs)"

fun pcbc_dec :: "(bytes \<Rightarrow> bytes) \<Rightarrow> bytes \<Rightarrow> bytes list \<Rightarrow> bytes list" where
  "pcbc_dec D iv [] = []"
| "pcbc_dec D iv (c # cs) = (let b = xorb (D c) iv in b # pcbc_dec D (xorb c b) cs)"

fun pcbc_iv :: "bytes \<Rightarrow> bytes list \<Rightarrow> bytes list \<Rightarrow> bytes" where
  "pcbc_iv iv (b # bs) (c # cs) = pcbc_iv (xorb c b) bs cs"
| "pcbc_iv iv _ _ = iv"

fun ctr_stream :: "(bytes \<Rightarrow> bytes) \<Rightarrow> (bytes \<Rightarrow> bytes) \<Rightarrow> bytes \<Rightarrow> bytes list \<Rightarrow> bytes list" where
  "ctr_stream E inc ctr [] = []"
| "ctr_stream E inc ctr (b # bs) = xorb (E ctr) b # ctr_stream E inc (inc ctr) bs"

abbreviation is_blocks :: "nat \<Rightarrow> bytes list \<Rightarrow> bool" where
  "is_blocks n bs \<equiv> list_all (\<lambda>b. length b = n) bs"

lemma length_modes [simp]:
  "length (cbc_enc E iv bs) = length bs" "length (cbc_dec D iv bs) = length bs"
  "length (pcbc_enc E iv bs) = length bs" "length (pcbc_dec D iv bs) = length bs"
  "length (ctr_stream E inc ctr bs) = length bs"
  by (induction bs arbitrary: iv ctr) (simp_all add: Let_def)

section \<open>Loops and buffers\<close>

fun iterM :: "('s \<Rightarrow> 's option) \<Rightarrow> nat \<Rightarrow> 's \<Rightarrow> 's option" where
  "iterM body 0 st = Some st"
| "iterM body (Suc n) st = do { st \<leftarrow> body st; iterM body n st }"

lemma do_blocks_iter:
  assumes "0 < bsize" and "r < bsize" and "unat nbytes = Suc n * bsize + r"
  shows "do_blocks body bsize nbytes st = do { st \<leftarrow> iterM body (Suc n) st; Some (of_nat r, st) }"
  using assms(3)
proof (induction n arbitrary: nbytes st)
  case (0 nbytes)
  have b: "unat (of_nat bsize :: u32) = bsize"
    using 0 unat_lt [of nbytes] by (simp add: unat_of_nat)
  have "of_nat (unat (nbytes - of_nat bsize)) = nbytes - of_nat bsize" by simp
  moreover have "unat (nbytes - of_nat bsize) = r" using 0 b by (simp add: unat_diff)
  ultimately have "nbytes - of_nat bsize = of_nat r" by simp
  moreover have "\<not> of_nat bsize \<le> (of_nat r :: u32)"
    using b assms(2) 0 unat_lt [of nbytes] by (simp add: word_le_nat_alt unat_of_nat)
  ultimately show ?case by (subst do_blocks.simps) (simp add: Let_def)
next
  case (Suc n nbytes)
  have b: "unat (of_nat bsize :: u32) = bsize"
    using Suc.prems unat_lt [of nbytes] by (simp add: unat_of_nat)
  have d: "unat (nbytes - of_nat bsize) = Suc n * bsize + r"
    using Suc.prems b by (simp add: unat_diff)
  then have "of_nat bsize \<le> nbytes - of_nat bsize" using b by (simp add: word_le_nat_alt)
  then show ?case using Suc.IH [OF d] by (subst do_blocks.simps) (simp add: Let_def)
qed

lemma rd_bytes_at: "length b = n \<Longrightarrow> i = length p \<Longrightarrow> rd_bytes (p @ b @ q) i n = Some b"
  by (simp add: rd_bytes_def)

lemma memcpy_at:
  "length b = n \<Longrightarrow> length d = n \<Longrightarrow> i = length p \<Longrightarrow> j = length p' \<Longrightarrow>
   memcpy (p @ d @ q) i (p' @ b @ q') j n = Some (p @ b @ q)"
  by (simp add: memcpy_def)

lemma call_cia_at:
  assumes "\<not> Option.is_none (fn b)" and "length b = n" "length (the (fn b)) = n" "length d = n"
    and "i = length p" "j = length p'"
  shows "call_cia fn n (p @ d @ q) i (p' @ b @ q') j = Some (p @ the (fn b) @ q)"
  using assms memcpy_at [of "the (fn b)" n d i p 0 "[]" q "[]"]
  by (auto simp: call_cia_def rd_bytes_at Option.is_none_def)

lemmas whole_at =
  crypto_xor_at [where p = "[]" and q = "[]" and i = 0, simplified]
  crypto_xor_at [where p' = "[]" and q' = "[]" and j = 0, simplified]
  crypto_xor_at [where p = "[]" and q = "[]" and i = 0 and p' = "[]" and q' = "[]" and j = 0, simplified]
  memcpy_at [where p = "[]" and q = "[]" and i = 0, simplified]
  memcpy_at [where p' = "[]" and q' = "[]" and j = 0, simplified]
  memcpy_at [where p = "[]" and q = "[]" and i = 0 and p' = "[]" and q' = "[]" and j = 0, simplified]
  call_cia_at [where p = "[]" and q = "[]" and i = 0, simplified]
  call_cia_at [where p' = "[]" and q' = "[]" and j = 0, simplified]
  call_cia_at [where p = "[]" and q = "[]" and i = 0 and p' = "[]" and q' = "[]" and j = 0, simplified]

lemmas head_at =
  rd_bytes_at [where p = "[]" and i = 0, simplified]
  crypto_xor_at [where p = "[]" and i = 0 and p' = "[]" and q' = "[]" and j = 0, simplified]
  crypto_xor_at [where p = "[]" and q = "[]" and i = 0 and p' = "[]" and j = 0, simplified]
  memcpy_at [where p = "[]" and q = "[]" and i = 0 and p' = "[]" and j = 0, simplified]
  memcpy_at [where p = "[]" and i = 0 and p' = "[]" and j = 0, simplified]
  call_cia_at [where p = "[]" and i = 0 and p' = "[]" and j = 0, simplified]

lemmas buffer_at = head_at rd_bytes_at memcpy_at call_cia_at crypto_xor_at whole_at

lemma length_concat_blocks [simp]: "is_blocks n bs \<Longrightarrow> length (concat bs) = length bs * n"
  by (induction bs) simp_all

lemma split_block:
  assumes "length d = n + m"
  obtains d1 d2 where "d = d1 @ d2" "length d1 = n" "length d2 = m"
  using assms by (intro that [of "take n d" "drop n d"]) simp_all

text \<open>The block a moving \<open>iv\<close> pointer denotes, when the first part \<open>p\<close> of the buffer has been passed.\<close>

definition iv_is :: "nat option \<Rightarrow> bytes \<Rightarrow> bytes \<Rightarrow> bytes \<Rightarrow> bool" where
  "iv_is ivp p iv0 iv = (case ivp of None \<Rightarrow> iv0 = iv | Some off \<Rightarrow> take off p @ iv = p \<and> off \<le> length p)"

lemma last_step: "last (a # b # bs) = last (b # bs)" by simp

lemma iv_is_next: "iv_is (Some (length p)) (p @ c) iv0 c" by (simp add: iv_is_def)

lemma iv_is_deref:
  assumes "iv_is ivp p iv0 iv"
  obtains p1 q1 where
    "\<And>d nb. iv_deref \<lparr>src_addr = p @ x, dst_addr = d, walk_iv = iv0, walk_nbytes = nb\<rparr> ivp = (p1 @ iv @ q1, length p1)"
proof (cases ivp)
  case None
  then show ?thesis using assms by (intro that [of "[]" "[]"]) (simp add: iv_is_def iv_deref_def)
next
  case (Some off)
  then have "take off p @ iv = p" "off = length (take off p)" using assms(1) by (simp_all add: iv_is_def)
  then show ?thesis using Some by (intro that [of "take off p" x]) (simp add: iv_deref_def flip: append.assoc)
qed

section \<open>The contract of a cipher\<close>

locale block_cipher =
  fixes bsize :: nat and enc dec :: cia
  assumes block_size: "\<exists>k < 32. bsize = 2 ^ k"
    and enc_block: "length b = bsize \<Longrightarrow> \<exists>c. enc b = Some c \<and> length c = bsize \<and> dec c = Some b"
    and dec_block: "length c = bsize \<Longrightarrow> \<exists>b. dec c = Some b \<and> length b = bsize"
begin

lemma bsize_pos [simp]: "0 < bsize" using block_size by auto

lemma enc_total [simp]: "length b = bsize \<Longrightarrow> \<not> Option.is_none (enc b)" "length b = bsize \<Longrightarrow> length (the (enc b)) = bsize"
  using enc_block [of b] by auto

lemma dec_total [simp]: "length b = bsize \<Longrightarrow> \<not> Option.is_none (dec b)" "length b = bsize \<Longrightarrow> length (the (dec b)) = bsize"
  using dec_block [of b] by auto

lemma dec_enc [simp]: "length b = bsize \<Longrightarrow> the (dec (the (enc b))) = b"
  using enc_block [of b] by auto

lemma is_blocks_modes [simp]:
  "is_blocks bsize bs \<Longrightarrow> length iv = bsize \<Longrightarrow> is_blocks bsize (cbc_enc (the \<circ> enc) iv bs)"
  "is_blocks bsize bs \<Longrightarrow> length iv = bsize \<Longrightarrow> is_blocks bsize (cbc_dec (the \<circ> dec) iv bs)"
  "is_blocks bsize bs \<Longrightarrow> length iv = bsize \<Longrightarrow> is_blocks bsize (pcbc_enc (the \<circ> enc) iv bs)"
  "is_blocks bsize bs \<Longrightarrow> length iv = bsize \<Longrightarrow> is_blocks bsize (pcbc_dec (the \<circ> dec) iv bs)"
  by (induction bs arbitrary: iv) (simp_all add: Let_def)

lemma cbc_dec_enc: "is_blocks bsize bs \<Longrightarrow> length iv = bsize \<Longrightarrow>
    cbc_dec (the \<circ> dec) iv (cbc_enc (the \<circ> enc) iv bs) = bs"
  by (induction bs arbitrary: iv) (simp_all add: Let_def)

lemma pcbc_dec_enc: "is_blocks bsize bs \<Longrightarrow> length iv = bsize \<Longrightarrow>
    pcbc_dec (the \<circ> dec) iv (pcbc_enc (the \<circ> enc) iv bs) = bs"
  by (induction bs arbitrary: iv) (simp_all add: Let_def)

paragraph \<open>ECB\<close>

lemma ecb_iter:
  assumes "is_blocks bsize bs" and "length d = length bs * bsize"
    and "\<And>b. length b = bsize \<Longrightarrow> \<not> Option.is_none (fn b) \<and> length (the (fn b)) = bsize"
  shows "iterM (ecb_crypt_do fn bsize) (length bs)
      (length p, length p', \<lparr>src_addr = p @ concat bs @ q, dst_addr = p' @ d @ q', walk_iv = iv, walk_nbytes = nb\<rparr>) =
    Some (length p + length bs * bsize, length p' + length bs * bsize,
      \<lparr>src_addr = p @ concat bs @ q, dst_addr = p' @ concat (map (the \<circ> fn) bs) @ q',
       walk_iv = iv, walk_nbytes = nb\<rparr>)"
  using assms(1,2)
proof (induction bs arbitrary: p p' d)
  case (Cons b bs)
  obtain d1 d2 where d: "d = d1 @ d2" "length d1 = bsize" "length d2 = length bs * bsize"
    using Cons.prems(2) by (auto elim: split_block)
  show ?case using Cons.prems Cons.IH [of d2 "p @ b" "p' @ the (fn b)"] d(2,3) assms(3) [of b]
    by (simp add: ecb_crypt_do_def d(1) buffer_at)
qed simp

paragraph \<open>CBC\<close>

lemma cbc_encrypt_segment_iter:
  assumes "is_blocks bsize bs" and "length d = length bs * bsize" and "length iv = bsize"
  shows "iterM (cbc_encrypt_segment_do enc bsize) (length bs)
      (length p, length p', \<lparr>src_addr = p @ concat bs @ q, dst_addr = p' @ d @ q', walk_iv = iv, walk_nbytes = nb\<rparr>) =
    Some (length p + length bs * bsize, length p' + length bs * bsize,
      \<lparr>src_addr = p @ concat bs @ q, dst_addr = p' @ concat (cbc_enc (the \<circ> enc) iv bs) @ q',
       walk_iv = last (iv # cbc_enc (the \<circ> enc) iv bs), walk_nbytes = nb\<rparr>)"
  using assms
proof (induction bs arbitrary: p p' d iv)
  case (Cons b bs)
  obtain d1 d2 where d: "d = d1 @ d2" "length d1 = bsize" "length d2 = length bs * bsize"
    using Cons.prems(2) by (auto elim: split_block)
  show ?case using Cons.prems Cons.IH [of d2 "the (enc (xorb iv b))" "p @ b" "p' @ the (enc (xorb iv b))"] d(2,3)
    by (simp add: cbc_encrypt_segment_do_def d(1) buffer_at Let_def)
qed simp

lemma cbc_encrypt_inplace_iter:
  assumes "is_blocks bsize bs" and "length iv = bsize" and "iv_is ivp p iv0 iv"
  shows "\<exists>ivp'. iterM (cbc_encrypt_inplace_do enc bsize) (length bs)
      (length p, ivp, \<lparr>src_addr = p @ concat bs @ q, dst_addr = d, walk_iv = iv0, walk_nbytes = nb\<rparr>) =
    Some (length p + length bs * bsize, ivp',
      \<lparr>src_addr = p @ concat (cbc_enc (the \<circ> enc) iv bs) @ q, dst_addr = d, walk_iv = iv0, walk_nbytes = nb\<rparr>) \<and>
    iv_is ivp' (p @ concat (cbc_enc (the \<circ> enc) iv bs)) iv0 (last (iv # cbc_enc (the \<circ> enc) iv bs))"
  using assms
proof (induction bs arbitrary: p iv ivp)
  case (Cons b bs)
  obtain p1 q1 where iv: "\<And>d nb. iv_deref \<lparr>src_addr = p @ b @ concat bs @ q, dst_addr = d, walk_iv = iv0,
      walk_nbytes = nb\<rparr> ivp = (p1 @ iv @ q1, length p1)"
    using iv_is_deref [OF Cons.prems(3), of "b @ concat bs @ q"] by blast
  show ?case using Cons.prems iv
      Cons.IH [of "the (enc (xorb iv b))" "Some (length p)" "p @ the (enc (xorb iv b))", OF _ _ iv_is_next]
    by (simp add: cbc_encrypt_inplace_do_def buffer_at Let_def xorb_commute [of b iv] last_step add.assoc del: last.simps)
qed simp

lemma cbc_decrypt_segment_iter:
  assumes "is_blocks bsize bs" and "length d = length bs * bsize" and "length iv = bsize" and "iv_is ivp p iv0 iv"
  shows "\<exists>ivp'. iterM (cbc_decrypt_segment_do dec bsize) (length bs)
      (length p, length p', ivp, \<lparr>src_addr = p @ concat bs @ q, dst_addr = p' @ d @ q', walk_iv = iv0, walk_nbytes = nb\<rparr>) =
    Some (length p + length bs * bsize, length p' + length bs * bsize, ivp',
      \<lparr>src_addr = p @ concat bs @ q, dst_addr = p' @ concat (cbc_dec (the \<circ> dec) iv bs) @ q',
       walk_iv = iv0, walk_nbytes = nb\<rparr>) \<and>
    iv_is ivp' (p @ concat bs) iv0 (last (iv # bs))"
  using assms
proof (induction bs arbitrary: p p' d iv ivp)
  case (Cons b bs)
  obtain d1 d2 where d: "d = d1 @ d2" "length d1 = bsize" "length d2 = length bs * bsize"
    using Cons.prems(2) by (auto elim: split_block)
  obtain p1 q1 where iv: "\<And>d nb. iv_deref \<lparr>src_addr = p @ b @ concat bs @ q, dst_addr = d, walk_iv = iv0,
      walk_nbytes = nb\<rparr> ivp = (p1 @ iv @ q1, length p1)"
    using iv_is_deref [OF Cons.prems(4), of "b @ concat bs @ q"] by blast
  show ?case using Cons.prems iv d(2,3)
      Cons.IH [of d2 b "Some (length p)" "p @ b" "p' @ xorb (the (dec b)) iv", OF _ _ _ iv_is_next]
    by (simp add: cbc_decrypt_segment_do_def d(1) buffer_at Let_def last_step add.assoc del: last.simps)
qed simp

lemma cbc_dec_snoc: "cbc_dec D iv (cs @ [c]) = cbc_dec D iv cs @ [xorb (D c) (last (iv # cs))]"
  by (induction cs arbitrary: iv) simp_all

lemma cbc_decrypt_inplace_for_at:
  assumes "is_blocks bsize cs" and "length c0 = bsize" and "unat nb = Suc (length cs) * bsize + r" and "r < bsize"
  shows "cbc_decrypt_inplace_for dec bsize (c0 @ concat cs @ q) (length cs * bsize) nb =
    Some (the (dec c0) @ concat (cbc_dec (the \<circ> dec) c0 cs) @ q, 0, of_nat r)"
  using assms(1,3)
proof (induction cs arbitrary: q nb rule: rev_induct)
  case Nil
  have b: "unat (of_nat bsize :: u32) = bsize" using Nil unat_lt [of nb] by (simp add: unat_of_nat)
  have "of_nat (unat (nb - of_nat bsize)) = nb - of_nat bsize" by simp
  moreover have r: "unat (nb - of_nat bsize) = r" using Nil b by (simp add: unat_diff)
  ultimately have "nb - of_nat bsize = of_nat r" by simp
  moreover have "nb - of_nat bsize < of_nat bsize" using r b assms(4) by (simp add: word_less_nat_alt)
  ultimately show ?case using assms(2)
    by (subst cbc_decrypt_inplace_for.simps) (simp add: buffer_at Let_def)
next
  case (snoc c cs)
  have b: "unat (of_nat bsize :: u32) = bsize" using snoc.prems unat_lt [of nb] by (simp add: unat_of_nat)
  have d: "unat (nb - of_nat bsize) = Suc (length cs) * bsize + r" using snoc.prems b by (simp add: unat_diff)
  then have nb: "\<not> nb - of_nat bsize < of_nat bsize" using b by (simp add: word_less_nat_alt)
  define p l where "p = concat (butlast (c0 # cs))" and "l = last (c0 # cs)"
  have "is_blocks bsize (butlast (c0 # cs))"
    using snoc.prems(1) assms(2) by (auto simp: list_all_iff dest: in_set_butlastD)
  then have "length p = length (butlast (c0 # cs)) * bsize" unfolding p_def by (rule length_concat_blocks)
  then have p: "length p = length cs * bsize" by simp
  have "concat (butlast (c0 # cs) @ [last (c0 # cs)]) = concat (c0 # cs)" by (subst append_butlast_last_id) simp_all
  then have pl: "p @ l = c0 @ concat cs"
    unfolding p_def l_def by (simp only: concat_append concat.simps append_Nil2)
  have l: "length l = bsize" "length c = bsize" using snoc.prems(1) assms(2) by (auto simp: l_def list_all_iff)
  have buf: "c0 @ concat cs @ x = p @ l @ x" for x using pl by (metis append_assoc)
  have off: "bsize + length cs * bsize = length (p @ l)" using p l by simp
  have "call_cia dec bsize ((p @ l) @ c @ q) (length (p @ l)) ((p @ l) @ c @ q) (length (p @ l)) =
      Some ((p @ l) @ the (dec c) @ q)" using l by (intro call_cia_at) simp_all
  then have s1: "call_cia dec bsize (c0 @ concat cs @ c @ q) (bsize + length cs * bsize) (c0 @ concat cs @ c @ q)
      (bsize + length cs * bsize) = Some (p @ l @ the (dec c) @ q)" unfolding buf off by simp
  have "crypto_xor ((p @ l) @ the (dec c) @ q) (length (p @ l)) (p @ l @ (the (dec c) @ q)) (length p) bsize =
      Some ((p @ l) @ xorb (the (dec c)) l @ q)" using l by (intro crypto_xor_at) simp_all
  then have s2: "crypto_xor (p @ l @ the (dec c) @ q) (bsize + length cs * bsize) (p @ l @ the (dec c) @ q)
      (length cs * bsize) bsize = Some (c0 @ concat cs @ xorb (the (dec c)) l @ q)"
    unfolding buf off p [symmetric] by (simp add: l add.commute)
  show ?case using s1 s2 nb snoc.IH [OF _ d, of "xorb (the (dec c)) l @ q"] snoc.prems(1)
    by (subst cbc_decrypt_inplace_for.simps) (simp add: Let_def cbc_dec_snoc l_def comp_def del: last.simps)
qed

paragraph \<open>PCBC\<close>

lemma pcbc_encrypt_segment_iter:
  assumes "is_blocks bsize bs" and "length d = length bs * bsize" and "length iv = bsize"
  shows "iterM (pcbc_encrypt_segment_do enc bsize) (length bs)
      (length p, length p', \<lparr>src_addr = p @ concat bs @ q, dst_addr = p' @ d @ q', walk_iv = iv, walk_nbytes = nb\<rparr>) =
    Some (length p + length bs * bsize, length p' + length bs * bsize,
      \<lparr>src_addr = p @ concat bs @ q, dst_addr = p' @ concat (pcbc_enc (the \<circ> enc) iv bs) @ q',
       walk_iv = pcbc_iv iv bs (pcbc_enc (the \<circ> enc) iv bs), walk_nbytes = nb\<rparr>)"
  using assms
proof (induction bs arbitrary: p p' d iv)
  case (Cons b bs)
  let ?c = "the (enc (xorb iv b))"
  obtain d1 d2 where d: "d = d1 @ d2" "length d1 = bsize" "length d2 = length bs * bsize"
    using Cons.prems(2) by (auto elim: split_block)
  show ?case using Cons.prems Cons.IH [of d2 "xorb ?c b" "p @ b" "p' @ ?c"] d(2,3)
    by (simp add: pcbc_encrypt_segment_do_def d(1) buffer_at Let_def)
qed simp

lemma pcbc_encrypt_inplace_iter:
  assumes "is_blocks bsize bs" and "length iv = bsize"
  shows "iterM (pcbc_encrypt_inplace_do enc bsize) (length bs)
      (length p, \<lparr>src_addr = p @ concat bs @ q, dst_addr = d, walk_iv = iv, walk_nbytes = nb\<rparr>) =
    Some (length p + length bs * bsize,
      \<lparr>src_addr = p @ concat (pcbc_enc (the \<circ> enc) iv bs) @ q, dst_addr = d,
       walk_iv = pcbc_iv iv bs (pcbc_enc (the \<circ> enc) iv bs), walk_nbytes = nb\<rparr>)"
  using assms
proof (induction bs arbitrary: p iv)
  case (Cons b bs)
  let ?c = "the (enc (xorb iv b))"
  show ?case using Cons.prems Cons.IH [of "xorb ?c b" "p @ ?c"]
    by (simp add: pcbc_encrypt_inplace_do_def buffer_at Let_def xorb_commute [of b ?c])
qed simp

lemma pcbc_decrypt_segment_iter:
  assumes "is_blocks bsize bs" and "length d = length bs * bsize" and "length iv = bsize"
  shows "iterM (pcbc_decrypt_segment_do dec bsize) (length bs)
      (length p, length p', \<lparr>src_addr = p @ concat bs @ q, dst_addr = p' @ d @ q', walk_iv = iv, walk_nbytes = nb\<rparr>) =
    Some (length p + length bs * bsize, length p' + length bs * bsize,
      \<lparr>src_addr = p @ concat bs @ q, dst_addr = p' @ concat (pcbc_dec (the \<circ> dec) iv bs) @ q',
       walk_iv = pcbc_iv iv (pcbc_dec (the \<circ> dec) iv bs) bs, walk_nbytes = nb\<rparr>)"
  using assms
proof (induction bs arbitrary: p p' d iv)
  case (Cons b bs)
  let ?m = "xorb (the (dec b)) iv"
  obtain d1 d2 where d: "d = d1 @ d2" "length d1 = bsize" "length d2 = length bs * bsize"
    using Cons.prems(2) by (auto elim: split_block)
  show ?case using Cons.prems Cons.IH [of d2 "xorb b ?m" "p @ b" "p' @ ?m"] d(2,3)
    by (simp add: pcbc_decrypt_segment_do_def d(1) buffer_at Let_def)
qed simp

lemma pcbc_decrypt_inplace_iter:
  assumes "is_blocks bsize bs" and "length iv = bsize"
  shows "iterM (pcbc_decrypt_inplace_do dec bsize) (length bs)
      (length p, \<lparr>src_addr = p @ concat bs @ q, dst_addr = d, walk_iv = iv, walk_nbytes = nb\<rparr>) =
    Some (length p + length bs * bsize,
      \<lparr>src_addr = p @ concat (pcbc_dec (the \<circ> dec) iv bs) @ q, dst_addr = d,
       walk_iv = pcbc_iv iv (pcbc_dec (the \<circ> dec) iv bs) bs, walk_nbytes = nb\<rparr>)"
  using assms
proof (induction bs arbitrary: p iv)
  case (Cons b bs)
  let ?m = "xorb (the (dec b)) iv"
  show ?case using Cons.prems Cons.IH [of "xorb b ?m" "p @ ?m"]
    by (simp add: pcbc_decrypt_inplace_do_def buffer_at Let_def)
qed simp

paragraph \<open>CTR\<close>

abbreviation next_ctr :: "bytes \<Rightarrow> bytes" where
  "next_ctr a \<equiv> the (crypto_inc a bsize)"

lemma next_ctr: "length a = bsize \<Longrightarrow> crypto_inc a bsize = Some (next_ctr a) \<and> length (next_ctr a) = bsize"
  using crypto_inc_at [of a bsize "[]"] by (auto simp: inc_spec_def)

lemma ctr_crypt_segment_iter:
  assumes "is_blocks bsize bs" and "length d = length bs * bsize" and "length iv = bsize"
  shows "iterM (ctr_crypt_segment_do enc bsize) (length bs)
      (length p, length p', \<lparr>src_addr = p @ concat bs @ q, dst_addr = p' @ d @ q', walk_iv = iv, walk_nbytes = nb\<rparr>) =
    Some (length p + length bs * bsize, length p' + length bs * bsize,
      \<lparr>src_addr = p @ concat bs @ q, dst_addr = p' @ concat (ctr_stream (the \<circ> enc) next_ctr iv bs) @ q',
       walk_iv = (next_ctr ^^ length bs) iv, walk_nbytes = nb\<rparr>)"
  using assms
proof (induction bs arbitrary: p p' d iv)
  case (Cons b bs)
  let ?c = "xorb (the (enc iv)) b"
  obtain d1 d2 where d: "d = d1 @ d2" "length d1 = bsize" "length d2 = length bs * bsize"
    using Cons.prems(2) by (auto elim: split_block)
  obtain iv' where iv': "crypto_inc iv bsize = Some iv'" "length iv' = bsize" using next_ctr [OF Cons.prems(3)] by blast
  show ?case using Cons.prems Cons.IH [of d2 iv' "p @ b" "p' @ ?c"] d(2,3) iv'
    by (simp add: ctr_crypt_segment_do_def d(1) buffer_at Let_def funpow_Suc_right del: funpow.simps)
qed simp

lemma ctr_crypt_inplace_iter:
  assumes "is_blocks bsize bs" and "length iv = bsize" and "length k = bsize"
  shows "\<exists>k'. iterM (ctr_crypt_inplace_do enc bsize) (length bs)
      (length p, k, \<lparr>src_addr = p @ concat bs @ q, dst_addr = d, walk_iv = iv, walk_nbytes = nb\<rparr>) =
    Some (length p + length bs * bsize, k',
      \<lparr>src_addr = p @ concat (ctr_stream (the \<circ> enc) next_ctr iv bs) @ q, dst_addr = d,
       walk_iv = (next_ctr ^^ length bs) iv, walk_nbytes = nb\<rparr>)"
  using assms
proof (induction bs arbitrary: p iv k)
  case (Cons b bs)
  let ?c = "xorb (the (enc iv)) b"
  obtain iv' where iv': "crypto_inc iv bsize = Some iv'" "length iv' = bsize" using next_ctr [OF Cons.prems(2)] by blast
  show ?case using Cons.prems Cons.IH [of iv' "the (enc iv)" "p @ ?c"] iv'
    by (simp add: ctr_crypt_inplace_do_def buffer_at Let_def funpow_Suc_right xorb_commute [of b] add.assoc del: funpow.simps)
qed simp

paragraph \<open>The functions on a chunk of at least one block\<close>

lemma do_chunk:
  assumes "bs \<noteq> []" and "unat nb = length bs * bsize + r" and "r < bsize"
  shows "do_blocks body bsize nb st = do { st \<leftarrow> iterM body (length bs) st; Some (of_nat r, st) }"
  using assms do_blocks_iter [of bsize r nb "length bs - 1"] by simp

lemma ecb_crypt_at:
  assumes "bs \<noteq> []" "is_blocks bsize bs" "unat nb = length bs * bsize + r" "r < bsize" and "length d = length bs * bsize"
    and "\<And>b. length b = bsize \<Longrightarrow> \<not> Option.is_none (fn b) \<and> length (the (fn b)) = bsize"
  shows "ecb_crypt_pass fn bsize \<lparr>src_addr = concat bs @ q, dst_addr = d @ q', walk_iv = iv, walk_nbytes = nb\<rparr> =
    Some (of_nat r, \<lparr>src_addr = concat bs @ q, dst_addr = concat (map (the \<circ> fn) bs) @ q', walk_iv = iv, walk_nbytes = nb\<rparr>)"
  using assms ecb_iter [of bs d fn "[]" "[]"] by (simp add: ecb_crypt_pass_def do_chunk [OF assms(1,3,4)])

lemma cbc_encrypt_segment_at:
  assumes "bs \<noteq> []" "is_blocks bsize bs" "unat nb = length bs * bsize + r" "r < bsize" and "length d = length bs * bsize" "length iv = bsize"
  shows "crypto_cbc_encrypt_segment enc bsize \<lparr>src_addr = concat bs @ q, dst_addr = d @ q', walk_iv = iv, walk_nbytes = nb\<rparr> =
    Some (of_nat r, \<lparr>src_addr = concat bs @ q, dst_addr = concat (cbc_enc (the \<circ> enc) iv bs) @ q',
      walk_iv = last (iv # cbc_enc (the \<circ> enc) iv bs), walk_nbytes = nb\<rparr>)"
  using assms cbc_encrypt_segment_iter [of bs d iv "[]" "[]"]
  by (simp add: crypto_cbc_encrypt_segment_def do_chunk [OF assms(1,3,4)] del: last.simps)

lemma cbc_encrypt_inplace_at:
  assumes "bs \<noteq> []" "is_blocks bsize bs" "unat nb = length bs * bsize + r" "r < bsize" and "length iv = bsize"
  shows "crypto_cbc_encrypt_inplace enc bsize \<lparr>src_addr = concat bs @ q, dst_addr = d, walk_iv = iv, walk_nbytes = nb\<rparr> =
    Some (of_nat r, \<lparr>src_addr = concat (cbc_enc (the \<circ> enc) iv bs) @ q, dst_addr = d,
      walk_iv = last (iv # cbc_enc (the \<circ> enc) iv bs), walk_nbytes = nb\<rparr>)"
proof -
  let ?cs = "cbc_enc (the \<circ> enc) iv bs"
  obtain ivp where it: "iterM (cbc_encrypt_inplace_do enc bsize) (length bs)
      (0, None, \<lparr>src_addr = concat bs @ q, dst_addr = d, walk_iv = iv, walk_nbytes = nb\<rparr>) =
      Some (length bs * bsize, ivp, \<lparr>src_addr = concat ?cs @ q, dst_addr = d, walk_iv = iv, walk_nbytes = nb\<rparr>)"
    and ivp: "iv_is ivp (concat ?cs) iv (last (iv # ?cs))"
    using cbc_encrypt_inplace_iter [of bs iv None "[]" iv q d nb] assms by (auto simp: iv_is_def simp del: last.simps)
  obtain p1 q1 where "\<And>d nb. iv_deref \<lparr>src_addr = concat ?cs @ q, dst_addr = d, walk_iv = iv, walk_nbytes = nb\<rparr> ivp =
      (p1 @ last (iv # ?cs) @ q1, length p1)" using iv_is_deref [OF ivp, of q] by blast
  moreover have "length (last (iv # ?cs)) = bsize"
    using is_blocks_modes(1) [OF assms(2,5)] assms(5) by (auto simp: list_all_iff)
  ultimately show ?thesis using it assms(5)
    by (simp add: crypto_cbc_encrypt_inplace_def do_chunk [OF assms(1,3,4)] buffer_at del: last.simps)
qed

lemma cbc_decrypt_segment_at:
  assumes "bs \<noteq> []" "is_blocks bsize bs" "unat nb = length bs * bsize + r" "r < bsize" and "length d = length bs * bsize" "length iv = bsize"
  shows "crypto_cbc_decrypt_segment dec bsize \<lparr>src_addr = concat bs @ q, dst_addr = d @ q', walk_iv = iv, walk_nbytes = nb\<rparr> =
    Some (of_nat r, \<lparr>src_addr = concat bs @ q, dst_addr = concat (cbc_dec (the \<circ> dec) iv bs) @ q',
      walk_iv = last bs, walk_nbytes = nb\<rparr>)"
proof -
  let ?ps = "cbc_dec (the \<circ> dec) iv bs"
  obtain ivp where it: "iterM (cbc_decrypt_segment_do dec bsize) (length bs)
      (0, 0, None, \<lparr>src_addr = concat bs @ q, dst_addr = d @ q', walk_iv = iv, walk_nbytes = nb\<rparr>) =
      Some (length bs * bsize, length bs * bsize, ivp,
        \<lparr>src_addr = concat bs @ q, dst_addr = concat ?ps @ q', walk_iv = iv, walk_nbytes = nb\<rparr>)"
    and ivp: "iv_is ivp (concat bs) iv (last bs)"
    using cbc_decrypt_segment_iter [of bs d iv None "[]" iv "[]" q q' nb] assms by (auto simp: iv_is_def)
  obtain p1 q1 where "\<And>d nb. iv_deref \<lparr>src_addr = concat bs @ q, dst_addr = d, walk_iv = iv, walk_nbytes = nb\<rparr> ivp =
      (p1 @ last bs @ q1, length p1)" using iv_is_deref [OF ivp, of q] by blast
  moreover have "length (last bs) = bsize" using assms(1,2) by (auto simp: list_all_iff)
  ultimately show ?thesis using it assms(6)
    by (simp add: crypto_cbc_decrypt_segment_def do_chunk [OF assms(1,3,4)] buffer_at)
qed

lemma last_block_offset:
  fixes nb :: u32
  assumes "unat nb = Suc n * bsize + r" and "r < bsize"
  shows "unat (nb - (nb AND (of_nat bsize - 1)) - of_nat bsize) = n * bsize"
proof -
  obtain k where k: "k < 32" "bsize = 2 ^ k" using block_size by blast
  have mk: "of_nat bsize - 1 = (mask k :: u32)" by (simp add: k(2) mask_eq_exp_minus_1)
  have "unat (nb AND (of_nat bsize - 1)) = unat nb mod bsize" unfolding mk unat_and_mask by (simp only: k(2))
  also have "\<dots> = (r + Suc n * bsize) mod bsize" by (simp only: assms(1) add.commute)
  also have "\<dots> = r" using assms(2) by (simp only: mod_mult_self1 mod_less)
  finally have m: "unat (nb AND (of_nat bsize - 1)) = r" .
  have b: "unat (of_nat bsize :: u32) = bsize" using assms unat_lt [of nb] by (simp add: unat_of_nat)
  have 1: "unat (nb - (nb AND (of_nat bsize - 1))) = Suc n * bsize" using assms m by (subst unat_diff) simp_all
  show ?thesis using 1 b by (subst unat_diff) simp_all
qed

lemma cbc_decrypt_inplace_at:
  assumes "bs \<noteq> []" "is_blocks bsize bs" "unat nb = length bs * bsize + r" "r < bsize" and "length iv = bsize"
  shows "crypto_cbc_decrypt_inplace dec bsize \<lparr>src_addr = concat bs @ q, dst_addr = d, walk_iv = iv, walk_nbytes = nb\<rparr> =
    Some (of_nat r, \<lparr>src_addr = concat (cbc_dec (the \<circ> dec) iv bs) @ q, dst_addr = d,
      walk_iv = last bs, walk_nbytes = nb\<rparr>)"
proof -
  obtain c0 cs where bs: "bs = c0 # cs" using assms(1) by (cases bs) auto
  have c: "length c0 = bsize" "is_blocks bsize cs" and nb: "unat nb = Suc (length cs) * bsize + r"
    using assms(2,3) by (simp_all add: bs)
  have len: "length (last bs) = bsize" using assms(1,2) by (auto simp: list_all_iff)
  have bl: "is_blocks bsize (butlast bs)" using assms(2) by (auto simp: list_all_iff dest: in_set_butlastD)
  have "concat bs = concat (butlast bs) @ last bs"
    using append_butlast_last_id [OF assms(1)] by (metis concat.simps concat_append append_Nil2)
  moreover have "length cs * bsize = length (concat (butlast bs))"
    unfolding length_concat_blocks [OF bl] by (simp add: bs)
  ultimately have "rd_bytes (concat bs @ q) (length cs * bsize) bsize = Some (last bs)"
    using rd_bytes_at [OF len, of _ "concat (butlast bs)" q] by simp
  then show ?thesis
    using cbc_decrypt_inplace_for_at [OF c(2,1) nb assms(4), of q] c(1) len assms(5)
    unfolding crypto_cbc_decrypt_inplace_def
    by (simp add: last_block_offset [OF nb assms(4)] Let_def bs buffer_at del: last.simps)
qed

lemma pcbc_encrypt_segment_at:
  assumes "bs \<noteq> []" "is_blocks bsize bs" "unat nb = length bs * bsize + r" "r < bsize" and "length d = length bs * bsize" "length iv = bsize"
  shows "crypto_pcbc_encrypt_segment enc bsize \<lparr>src_addr = concat bs @ q, dst_addr = d @ q', walk_iv = iv, walk_nbytes = nb\<rparr> =
    Some (of_nat r, \<lparr>src_addr = concat bs @ q, dst_addr = concat (pcbc_enc (the \<circ> enc) iv bs) @ q',
      walk_iv = pcbc_iv iv bs (pcbc_enc (the \<circ> enc) iv bs), walk_nbytes = nb\<rparr>)"
  using assms pcbc_encrypt_segment_iter [of bs d iv "[]" "[]"]
  by (simp add: crypto_pcbc_encrypt_segment_def do_chunk [OF assms(1,3,4)])

lemma pcbc_iv_length [simp]:
  "is_blocks bsize bs \<Longrightarrow> is_blocks bsize cs \<Longrightarrow> length iv = bsize \<Longrightarrow> length (pcbc_iv iv bs cs) = bsize"
  by (induction iv bs cs rule: pcbc_iv.induct) simp_all

lemma pcbc_encrypt_inplace_at:
  assumes "bs \<noteq> []" "is_blocks bsize bs" "unat nb = length bs * bsize + r" "r < bsize" and "length iv = bsize"
  shows "crypto_pcbc_encrypt_inplace enc bsize \<lparr>src_addr = concat bs @ q, dst_addr = d, walk_iv = iv, walk_nbytes = nb\<rparr> =
    Some (of_nat r, \<lparr>src_addr = concat (pcbc_enc (the \<circ> enc) iv bs) @ q, dst_addr = d,
      walk_iv = pcbc_iv iv bs (pcbc_enc (the \<circ> enc) iv bs), walk_nbytes = nb\<rparr>)"
  using assms pcbc_encrypt_inplace_iter [of bs iv "[]"]
  by (simp add: crypto_pcbc_encrypt_inplace_def do_chunk [OF assms(1,3,4)] whole_at)

lemma pcbc_decrypt_segment_at:
  assumes "bs \<noteq> []" "is_blocks bsize bs" "unat nb = length bs * bsize + r" "r < bsize" and "length d = length bs * bsize" "length iv = bsize"
  shows "crypto_pcbc_decrypt_segment dec bsize \<lparr>src_addr = concat bs @ q, dst_addr = d @ q', walk_iv = iv, walk_nbytes = nb\<rparr> =
    Some (of_nat r, \<lparr>src_addr = concat bs @ q, dst_addr = concat (pcbc_dec (the \<circ> dec) iv bs) @ q',
      walk_iv = pcbc_iv iv (pcbc_dec (the \<circ> dec) iv bs) bs, walk_nbytes = nb\<rparr>)"
  using assms pcbc_decrypt_segment_iter [of bs d iv "[]" "[]"]
  by (simp add: crypto_pcbc_decrypt_segment_def do_chunk [OF assms(1,3,4)] whole_at)

lemma pcbc_decrypt_inplace_at:
  assumes "bs \<noteq> []" "is_blocks bsize bs" "unat nb = length bs * bsize + r" "r < bsize" and "length iv = bsize"
  shows "crypto_pcbc_decrypt_inplace dec bsize \<lparr>src_addr = concat bs @ q, dst_addr = d, walk_iv = iv, walk_nbytes = nb\<rparr> =
    Some (of_nat r, \<lparr>src_addr = concat (pcbc_dec (the \<circ> dec) iv bs) @ q, dst_addr = d,
      walk_iv = pcbc_iv iv (pcbc_dec (the \<circ> dec) iv bs) bs, walk_nbytes = nb\<rparr>)"
  using assms pcbc_decrypt_inplace_iter [of bs iv "[]"]
  by (simp add: crypto_pcbc_decrypt_inplace_def do_chunk [OF assms(1,3,4)] whole_at)

lemma ctr_crypt_segment_at:
  assumes "bs \<noteq> []" "is_blocks bsize bs" "unat nb = length bs * bsize + r" "r < bsize" and "length d = length bs * bsize" "length iv = bsize"
  shows "crypto_ctr_crypt_segment enc bsize \<lparr>src_addr = concat bs @ q, dst_addr = d @ q', walk_iv = iv, walk_nbytes = nb\<rparr> =
    Some (of_nat r, \<lparr>src_addr = concat bs @ q, dst_addr = concat (ctr_stream (the \<circ> enc) next_ctr iv bs) @ q',
      walk_iv = (next_ctr ^^ length bs) iv, walk_nbytes = nb\<rparr>)"
  using assms ctr_crypt_segment_iter [of bs d iv "[]" "[]"]
  by (simp add: crypto_ctr_crypt_segment_def do_chunk [OF assms(1,3,4)])

lemma ctr_crypt_inplace_at:
  assumes "bs \<noteq> []" "is_blocks bsize bs" "unat nb = length bs * bsize + r" "r < bsize" and "length iv = bsize"
  shows "crypto_ctr_crypt_inplace enc bsize \<lparr>src_addr = concat bs @ q, dst_addr = d, walk_iv = iv, walk_nbytes = nb\<rparr> =
    Some (of_nat r, \<lparr>src_addr = concat (ctr_stream (the \<circ> enc) next_ctr iv bs) @ q, dst_addr = d,
      walk_iv = (next_ctr ^^ length bs) iv, walk_nbytes = nb\<rparr>)"
  using assms ctr_crypt_inplace_iter [of bs iv "replicate bsize 0" "[]" q d nb]
  by (auto simp: crypto_ctr_crypt_inplace_def do_chunk [OF assms(1,3,4)])

lemma ctr_crypt_final_at:
  assumes "length b = unat nb" "unat nb < bsize" "length d = unat nb" "length iv = bsize"
  shows "crypto_ctr_crypt_final enc bsize \<lparr>src_addr = b @ q, dst_addr = d @ q', walk_iv = iv, walk_nbytes = nb\<rparr> =
    Some \<lparr>src_addr = b @ q, dst_addr = xorb (take (unat nb) (the (enc iv))) b @ q', walk_iv = next_ctr iv, walk_nbytes = nb\<rparr>"
proof -
  define k where "k = the (enc iv)"
  have k: "length k = bsize" using assms(4) by (simp add: k_def)
  have 1: "call_cia enc bsize (replicate bsize 0) 0 iv 0 = Some k" using assms(4) by (simp add: whole_at k_def)
  have "crypto_xor ([] @ take (unat nb) k @ drop (unat nb) k) 0 ([] @ b @ q) 0 (unat nb) =
      Some ([] @ xorb (take (unat nb) k) b @ drop (unat nb) k)"
    using assms(1,2) k by (intro crypto_xor_at) simp_all
  then have 2: "crypto_xor k 0 (b @ q) 0 (unat nb) = Some (xorb (take (unat nb) k) b @ drop (unat nb) k)" by simp
  have 3: "memcpy (d @ q') 0 (xorb (take (unat nb) k) b @ drop (unat nb) k) 0 (unat nb) = Some (xorb (take (unat nb) k) b @ q')"
    using assms(1-3) k by (intro head_at) simp_all
  show ?thesis using 1 2 3 next_ctr [OF assms(4)] by (simp add: crypto_ctr_crypt_final_def Let_def k_def)
qed

paragraph \<open>Chaining\<close>

lemma last_cbc_enc: "length (last (iv # cbc_enc (the \<circ> enc) iv bs)) = bsize"
  if "is_blocks bsize bs" "length iv = bsize"
  using is_blocks_modes(1) [OF that] that(2) by (auto simp: list_all_iff)

lemma cbc_enc_append:
  "cbc_enc E iv (bs @ bs') = cbc_enc E iv bs @ cbc_enc E (last (iv # cbc_enc E iv bs)) bs'"
  by (induction bs arbitrary: iv) (simp_all add: Let_def)

lemma pcbc_iv_sym: "length bs = length cs \<Longrightarrow> pcbc_iv iv bs cs = pcbc_iv iv cs bs"
  by (induction bs cs arbitrary: iv rule: list_induct2) (simp_all add: xorb_commute)

lemma ctr_stream_involution:
  "is_blocks bsize bs \<Longrightarrow> length ctr = bsize \<Longrightarrow>
   ctr_stream (the \<circ> enc) next_ctr ctr (ctr_stream (the \<circ> enc) next_ctr ctr bs) = bs \<and>
   is_blocks bsize (ctr_stream (the \<circ> enc) next_ctr ctr bs)"
  by (induction bs arbitrary: ctr) (simp_all add: next_ctr [THEN conjunct2])

lemma ctr_value:
  assumes "length ctr = bsize"
  shows "length ((next_ctr ^^ i) ctr) = bsize \<and> be_val ((next_ctr ^^ i) ctr) = (be_val ctr + i) mod 256 ^ bsize"
proof (induction i)
  case 0
  then show ?case using assms be_val_less [of ctr] by simp
next
  case (Suc i)
  then have l: "length ((next_ctr ^^ i) ctr) = bsize" by simp
  have "inc_spec ((next_ctr ^^ i) ctr) (next_ctr ((next_ctr ^^ i) ctr))"
    using crypto_inc_at [OF l, of "[]"] by auto
  then show ?case using Suc l by (simp add: inc_spec_def mod_Suc_eq)
qed

lemma ctr_distinct:
  assumes "length ctr = bsize" and "i < j" and "j < 256 ^ bsize"
  shows "(next_ctr ^^ i) ctr \<noteq> (next_ctr ^^ j) ctr"
proof (rule notI)
  assume e: "(next_ctr ^^ i) ctr = (next_ctr ^^ j) ctr"
  define M :: nat where "M = 256 ^ bsize"
  have v: "be_val ((next_ctr ^^ k) ctr) = (be_val ctr + k) mod M" for k
    unfolding M_def by (rule ctr_value [OF assms(1), THEN conjunct2])
  have "(be_val ctr + j) mod M = (be_val ctr + i) mod M" unfolding v [symmetric] e ..
  moreover have "be_val ctr + i \<le> be_val ctr + j" using assms(2) by simp
  ultimately have "M dvd (be_val ctr + j) - (be_val ctr + i)" by (simp only: mod_eq_dvd_iff_nat)
  then have "M dvd j - i" by simp
  moreover have "j - i < M" unfolding M_def by (rule less_imp_diff_less [OF assms(3)])
  moreover have "0 < j - i" using assms(2) by simp
  ultimately show False using nat_dvd_not_less by blast
qed

end

end
