(* ===== verification/Tea.thy ===== *)
theory Tea
  imports Block_Modes
begin

text \<open>
  The block ciphers of \<open>crypto/tea.c\<close>: TEA, XTEA and the kernel's historical XETA variant.
  A cipher operation reads one block of eight bytes at \<open>src\<close> and returns the eight bytes it stores at
  \<open>dst\<close>; it reads the block before it writes, so the two pointers may be equal. The counted loop of TEA
  is a recursion on the counter; the loops of XTEA and XETA run until \<open>sum\<close> hits a limit, with
  wrapping 32-bit addition, and are partial functions that are shown to return.
\<close>

section \<open>Contexts and keys\<close>

abbreviation TEA_ROUNDS :: nat where "TEA_ROUNDS \<equiv> 32"
abbreviation TEA_BLOCK_SIZE :: nat where "TEA_BLOCK_SIZE \<equiv> 8"

definition TEA_DELTA :: u32 where "TEA_DELTA = 0x9e3779b9"
definition XTEA_DELTA :: u32 where "XTEA_DELTA = 0x9e3779b9"
definition XTEA_ROUNDS :: u32 where "XTEA_ROUNDS = 32"

record tea_ctx =
  KEY :: "u32 list"

type_synonym xtea_ctx = tea_ctx

definition tea_setkey :: "tea_ctx \<Rightarrow> bytes \<Rightarrow> (int \<times> tea_ctx) option" where
  "tea_setkey ctx in_key = do {
     k0 \<leftarrow> load_u32 in_key 0; K \<leftarrow> wr (KEY ctx) 0 (le32_to_cpu k0);
     k1 \<leftarrow> load_u32 in_key 4; K \<leftarrow> wr K 1 (le32_to_cpu k1);
     k2 \<leftarrow> load_u32 in_key 8; K \<leftarrow> wr K 2 (le32_to_cpu k2);
     k3 \<leftarrow> load_u32 in_key 12; K \<leftarrow> wr K 3 (le32_to_cpu k3);
     Some (0, ctx\<lparr>KEY := K\<rparr>) }"

definition xtea_setkey :: "xtea_ctx \<Rightarrow> bytes \<Rightarrow> (int \<times> xtea_ctx) option" where
  "xtea_setkey ctx in_key = do {
     k0 \<leftarrow> load_u32 in_key 0; K \<leftarrow> wr (KEY ctx) 0 (le32_to_cpu k0);
     k1 \<leftarrow> load_u32 in_key 4; K \<leftarrow> wr K 1 (le32_to_cpu k1);
     k2 \<leftarrow> load_u32 in_key 8; K \<leftarrow> wr K 2 (le32_to_cpu k2);
     k3 \<leftarrow> load_u32 in_key 12; K \<leftarrow> wr K 3 (le32_to_cpu k3);
     Some (0, ctx\<lparr>KEY := K\<rparr>) }"

section \<open>TEA\<close>

fun tea_encrypt_while :: "u32 \<Rightarrow> u32 \<Rightarrow> u32 \<Rightarrow> u32 \<Rightarrow> nat \<Rightarrow> u32 \<Rightarrow> u32 \<Rightarrow> u32 \<Rightarrow> u32 \<times> u32" where
  "tea_encrypt_while k0 k1 k2 k3 0 y z sm = (y, z)"
| "tea_encrypt_while k0 k1 k2 k3 (Suc n) y z sm =
    (let sm = sm + TEA_DELTA;
         y = y + ((push_bit 4 z + k0) XOR (z + sm) XOR (drop_bit 5 z + k1));
         z = z + ((push_bit 4 y + k2) XOR (y + sm) XOR (drop_bit 5 y + k3))
     in tea_encrypt_while k0 k1 k2 k3 n y z sm)"

definition tea_encrypt :: "tea_ctx \<Rightarrow> bytes \<Rightarrow> bytes option" where
  "tea_encrypt ctx src = do {
     w0 \<leftarrow> load_u32 src 0; let y = le32_to_cpu w0;
     w1 \<leftarrow> load_u32 src 4; let z = le32_to_cpu w1;
     k0 \<leftarrow> rd (KEY ctx) 0; k1 \<leftarrow> rd (KEY ctx) 1; k2 \<leftarrow> rd (KEY ctx) 2; k3 \<leftarrow> rd (KEY ctx) 3;
     let (y, z) = tea_encrypt_while k0 k1 k2 k3 TEA_ROUNDS y z 0;
     Some (bytes_of_u32 (cpu_to_le32 y) @ bytes_of_u32 (cpu_to_le32 z)) }"

fun tea_decrypt_while :: "u32 \<Rightarrow> u32 \<Rightarrow> u32 \<Rightarrow> u32 \<Rightarrow> nat \<Rightarrow> u32 \<Rightarrow> u32 \<Rightarrow> u32 \<Rightarrow> u32 \<times> u32" where
  "tea_decrypt_while k0 k1 k2 k3 0 y z sm = (y, z)"
| "tea_decrypt_while k0 k1 k2 k3 (Suc n) y z sm =
    (let z = z - ((push_bit 4 y + k2) XOR (y + sm) XOR (drop_bit 5 y + k3));
         y = y - ((push_bit 4 z + k0) XOR (z + sm) XOR (drop_bit 5 z + k1))
     in tea_decrypt_while k0 k1 k2 k3 n y z (sm - TEA_DELTA))"

definition tea_decrypt :: "tea_ctx \<Rightarrow> bytes \<Rightarrow> bytes option" where
  "tea_decrypt ctx src = do {
     w0 \<leftarrow> load_u32 src 0; let y = le32_to_cpu w0;
     w1 \<leftarrow> load_u32 src 4; let z = le32_to_cpu w1;
     k0 \<leftarrow> rd (KEY ctx) 0; k1 \<leftarrow> rd (KEY ctx) 1; k2 \<leftarrow> rd (KEY ctx) 2; k3 \<leftarrow> rd (KEY ctx) 3;
     let (y, z) = tea_decrypt_while k0 k1 k2 k3 TEA_ROUNDS y z (push_bit 5 TEA_DELTA);
     Some (bytes_of_u32 (cpu_to_le32 y) @ bytes_of_u32 (cpu_to_le32 z)) }"

section \<open>XTEA and XETA\<close>

partial_function (option) xtea_encrypt_while ::
  "u32 list \<Rightarrow> u32 \<Rightarrow> u32 \<Rightarrow> u32 \<Rightarrow> u32 \<Rightarrow> (u32 \<times> u32) option" where
  "xtea_encrypt_while K limit y z sm =
    (if sm \<noteq> limit then do {
       k \<leftarrow> rd K (unat (sm AND 3));
       let y = y + (((push_bit 4 z XOR drop_bit 5 z) + z) XOR (sm + k));
       let sm = sm + XTEA_DELTA;
       k \<leftarrow> rd K (unat (drop_bit 11 sm AND 3));
       let z = z + (((push_bit 4 y XOR drop_bit 5 y) + y) XOR (sm + k));
       xtea_encrypt_while K limit y z sm }
     else Some (y, z))"

definition xtea_encrypt :: "xtea_ctx \<Rightarrow> bytes \<Rightarrow> bytes option" where
  "xtea_encrypt ctx src = do {
     let limit = XTEA_DELTA * XTEA_ROUNDS;
     w0 \<leftarrow> load_u32 src 0; let y = le32_to_cpu w0;
     w1 \<leftarrow> load_u32 src 4; let z = le32_to_cpu w1;
     (y, z) \<leftarrow> xtea_encrypt_while (KEY ctx) limit y z 0;
     Some (bytes_of_u32 (cpu_to_le32 y) @ bytes_of_u32 (cpu_to_le32 z)) }"

partial_function (option) xtea_decrypt_while ::
  "u32 list \<Rightarrow> u32 \<Rightarrow> u32 \<Rightarrow> u32 \<Rightarrow> (u32 \<times> u32) option" where
  "xtea_decrypt_while K y z sm =
    (if sm \<noteq> 0 then do {
       k \<leftarrow> rd K (unat (drop_bit 11 sm AND 3));
       let z = z - (((push_bit 4 y XOR drop_bit 5 y) + y) XOR (sm + k));
       let sm = sm - XTEA_DELTA;
       k \<leftarrow> rd K (unat (sm AND 3));
       let y = y - (((push_bit 4 z XOR drop_bit 5 z) + z) XOR (sm + k));
       xtea_decrypt_while K y z sm }
     else Some (y, z))"

definition xtea_decrypt :: "xtea_ctx \<Rightarrow> bytes \<Rightarrow> bytes option" where
  "xtea_decrypt ctx src = do {
     w0 \<leftarrow> load_u32 src 0; let y = le32_to_cpu w0;
     w1 \<leftarrow> load_u32 src 4; let z = le32_to_cpu w1;
     (y, z) \<leftarrow> xtea_decrypt_while (KEY ctx) y z (XTEA_DELTA * XTEA_ROUNDS);
     Some (bytes_of_u32 (cpu_to_le32 y) @ bytes_of_u32 (cpu_to_le32 z)) }"

partial_function (option) xeta_encrypt_while ::
  "u32 list \<Rightarrow> u32 \<Rightarrow> u32 \<Rightarrow> u32 \<Rightarrow> u32 \<Rightarrow> (u32 \<times> u32) option" where
  "xeta_encrypt_while K limit y z sm =
    (if sm \<noteq> limit then do {
       k \<leftarrow> rd K (unat (sm AND 3));
       let y = y + ((push_bit 4 z XOR drop_bit 5 z) + (z XOR sm) + k);
       let sm = sm + XTEA_DELTA;
       k \<leftarrow> rd K (unat (drop_bit 11 sm AND 3));
       let z = z + ((push_bit 4 y XOR drop_bit 5 y) + (y XOR sm) + k);
       xeta_encrypt_while K limit y z sm }
     else Some (y, z))"

definition xeta_encrypt :: "xtea_ctx \<Rightarrow> bytes \<Rightarrow> bytes option" where
  "xeta_encrypt ctx src = do {
     let limit = XTEA_DELTA * XTEA_ROUNDS;
     w0 \<leftarrow> load_u32 src 0; let y = le32_to_cpu w0;
     w1 \<leftarrow> load_u32 src 4; let z = le32_to_cpu w1;
     (y, z) \<leftarrow> xeta_encrypt_while (KEY ctx) limit y z 0;
     Some (bytes_of_u32 (cpu_to_le32 y) @ bytes_of_u32 (cpu_to_le32 z)) }"

partial_function (option) xeta_decrypt_while ::
  "u32 list \<Rightarrow> u32 \<Rightarrow> u32 \<Rightarrow> u32 \<Rightarrow> (u32 \<times> u32) option" where
  "xeta_decrypt_while K y z sm =
    (if sm \<noteq> 0 then do {
       k \<leftarrow> rd K (unat (drop_bit 11 sm AND 3));
       let z = z - ((push_bit 4 y XOR drop_bit 5 y) + (y XOR sm) + k);
       let sm = sm - XTEA_DELTA;
       k \<leftarrow> rd K (unat (sm AND 3));
       let y = y - ((push_bit 4 z XOR drop_bit 5 z) + (z XOR sm) + k);
       xeta_decrypt_while K y z sm }
     else Some (y, z))"

definition xeta_decrypt :: "xtea_ctx \<Rightarrow> bytes \<Rightarrow> bytes option" where
  "xeta_decrypt ctx src = do {
     w0 \<leftarrow> load_u32 src 0; let y = le32_to_cpu w0;
     w1 \<leftarrow> load_u32 src 4; let z = le32_to_cpu w1;
     (y, z) \<leftarrow> xeta_decrypt_while (KEY ctx) y z (XTEA_DELTA * XTEA_ROUNDS);
     Some (bytes_of_u32 (cpu_to_le32 y) @ bytes_of_u32 (cpu_to_le32 z)) }"

declare xtea_encrypt_while.simps [code] xtea_decrypt_while.simps [code]
  xeta_encrypt_while.simps [code] xeta_decrypt_while.simps [code]

section \<open>Feistel rounds and their inverse\<close>

text \<open>
  All three ciphers add to \<open>y\<close> a function of \<open>z\<close> and the sum, advance the sum, and add to \<open>z\<close> a
  function of \<open>y\<close> and the sum. The decryption undoes one round, whatever the two functions are.
\<close>

type_synonym mix = "u32 \<Rightarrow> u32 \<Rightarrow> u32"

definition fround :: "mix \<Rightarrow> mix \<Rightarrow> u32 \<Rightarrow> u32 \<times> u32 \<times> u32 \<Rightarrow> u32 \<times> u32 \<times> u32" where
  "fround F G D = (\<lambda>(y, z, s). let y' = y + F z s in (y', z + G y' (s + D), s + D))"

definition finv :: "mix \<Rightarrow> mix \<Rightarrow> u32 \<Rightarrow> u32 \<times> u32 \<times> u32 \<Rightarrow> u32 \<times> u32 \<times> u32" where
  "finv F G D = (\<lambda>(y, z, s). let z' = z - G y s in (y - F z' (s - D), z', s - D))"

abbreviation halves :: "u32 \<times> u32 \<times> u32 \<Rightarrow> u32 \<times> u32" where
  "halves x \<equiv> (fst x, fst (snd x))"

lemma finv_fround: "finv F G D (fround F G D x) = x"
  by (cases x) (simp add: finv_def fround_def Let_def)

lemma funpow_inverse:
  fixes f g :: "'a \<Rightarrow> 'a"
  assumes "\<And>x. g (f x) = x"
  shows "(g ^^ n) ((f ^^ n) x) = x"
proof (induction n)
  case (Suc n)
  have "(g ^^ Suc n) ((f ^^ Suc n) x) = (g ^^ n) (g (f ((f ^^ n) x)))"
    by (simp only: funpow_Suc_right [of n g] funpow.simps(2) [of n f] o_apply)
  then show ?case using Suc by (simp add: assms)
qed simp

lemmas finv_fround_pow = funpow_inverse [of "finv F G D" "fround F G D" for F G D, OF finv_fround]

lemma fround_sum: "snd (snd ((fround F G D ^^ n) x)) = snd (snd x) + of_nat n * D"
  by (induction n) (simp_all add: fround_def Let_def case_prod_unfold algebra_simps)

lemma tea_encrypt_while_pow:
  "tea_encrypt_while k0 k1 k2 k3 n y z s =
     halves ((fround (\<lambda>z s. (push_bit 4 z + k0) XOR (z + (s + TEA_DELTA)) XOR (drop_bit 5 z + k1))
                (\<lambda>y s. (push_bit 4 y + k2) XOR (y + s) XOR (drop_bit 5 y + k3)) TEA_DELTA ^^ n) (y, z, s))"
  by (induction n arbitrary: y z s) (simp_all add: fround_def Let_def funpow_swap1)

lemma tea_decrypt_while_pow:
  "tea_decrypt_while k0 k1 k2 k3 n y z s =
     halves ((finv (\<lambda>z s. (push_bit 4 z + k0) XOR (z + (s + TEA_DELTA)) XOR (drop_bit 5 z + k1))
                (\<lambda>y s. (push_bit 4 y + k2) XOR (y + s) XOR (drop_bit 5 y + k3)) TEA_DELTA ^^ n) (y, z, s))"
  by (induction n arbitrary: y z s) (simp_all add: finv_def Let_def funpow_swap1)

lemma tea_while_inverse:
  "tea_encrypt_while k0 k1 k2 k3 TEA_ROUNDS y z 0 = (y', z') \<Longrightarrow>
   tea_decrypt_while k0 k1 k2 k3 TEA_ROUNDS y' z' (push_bit 5 TEA_DELTA) = (y, z)"
proof -
  define F where "F = (\<lambda>z s. (push_bit 4 z + k0) XOR (z + (s + TEA_DELTA)) XOR (drop_bit 5 z + k1))"
  define G where "G = (\<lambda>y s. (push_bit 4 y + k2) XOR (y + s) XOR (drop_bit 5 y + k3))"
  assume "tea_encrypt_while k0 k1 k2 k3 TEA_ROUNDS y z 0 = (y', z')"
  then have "halves ((fround F G TEA_DELTA ^^ TEA_ROUNDS) (y, z, 0)) = (y', z')"
    by (simp only: tea_encrypt_while_pow F_def G_def)
  moreover have "snd (snd ((fround F G TEA_DELTA ^^ TEA_ROUNDS) (y, z, 0))) = push_bit 5 TEA_DELTA"
    unfolding fround_sum by (simp add: TEA_DELTA_def push_bit_eq_mult)
  ultimately have "(fround F G TEA_DELTA ^^ TEA_ROUNDS) (y, z, 0) = (y', z', push_bit 5 TEA_DELTA)"
    by (simp only: prod_eq_iff fst_conv snd_conv)
  from arg_cong [OF this, of "finv F G TEA_DELTA ^^ TEA_ROUNDS"]
  show ?thesis unfolding finv_fround_pow tea_decrypt_while_pow F_def [symmetric] G_def [symmetric]
    by (metis fst_conv snd_conv)
qed

lemma sum_in_range: "i < 32 \<Longrightarrow> of_nat i * XTEA_DELTA \<noteq> XTEA_DELTA * XTEA_ROUNDS"
  "0 < i \<Longrightarrow> i \<le> 32 \<Longrightarrow> of_nat i * XTEA_DELTA \<noteq> 0"
proof -
  have "\<forall>i \<in> set [0..<32]. of_nat i * XTEA_DELTA \<noteq> XTEA_DELTA * XTEA_ROUNDS"
    "\<forall>i \<in> set [1..<33]. of_nat i * XTEA_DELTA \<noteq> 0" by code_simp+
  then show "i < 32 \<Longrightarrow> of_nat i * XTEA_DELTA \<noteq> XTEA_DELTA * XTEA_ROUNDS"
    "0 < i \<Longrightarrow> i \<le> 32 \<Longrightarrow> of_nat i * XTEA_DELTA \<noteq> 0" by auto
qed

text \<open>
  The loops of XTEA and XETA: what both unfold to when the key has four words. From the sum
  \<open>i * XTEA_DELTA\<close> the encryption still runs \<open>32 - i\<close> rounds and the decryption \<open>i\<close>; that no
  earlier sum hits the limit is where the odd constant matters.
\<close>

locale delta_loops =
  fixes F G :: "u32 list \<Rightarrow> mix"
    and enc_while :: "u32 list \<Rightarrow> u32 \<Rightarrow> u32 \<Rightarrow> u32 \<Rightarrow> u32 \<Rightarrow> (u32 \<times> u32) option"
    and dec_while :: "u32 list \<Rightarrow> u32 \<Rightarrow> u32 \<Rightarrow> u32 \<Rightarrow> (u32 \<times> u32) option"
  assumes enc_unfold: "length K = 4 \<Longrightarrow> enc_while K limit y z s =
      (if s \<noteq> limit then let y' = y + F K z s; s' = s + XTEA_DELTA in enc_while K limit y' (z + G K y' s') s'
       else Some (y, z))"
    and dec_unfold: "length K = 4 \<Longrightarrow> dec_while K y z s =
      (if s \<noteq> 0 then let z' = z - G K y s; s' = s - XTEA_DELTA in dec_while K (y - F K z' s') z' s'
       else Some (y, z))"
begin

lemma enc_while_pow:
  assumes "length K = 4" and "i + n = 32"
  shows "enc_while K (XTEA_DELTA * XTEA_ROUNDS) y z (of_nat i * XTEA_DELTA) =
     Some (halves ((fround (F K) (G K) XTEA_DELTA ^^ n) (y, z, of_nat i * XTEA_DELTA)))"
  using assms(2)
proof (induction n arbitrary: i y z)
  case 0
  then show ?case using assms(1) by (subst enc_unfold) (simp_all add: XTEA_DELTA_def XTEA_ROUNDS_def)
next
  case (Suc n)
  have s: "of_nat i * XTEA_DELTA + XTEA_DELTA = of_nat (Suc i) * XTEA_DELTA" by (simp add: algebra_simps)
  have r: "of_nat i * XTEA_DELTA \<noteq> XTEA_DELTA * XTEA_ROUNDS" using Suc.prems by (intro sum_in_range) simp
  have n: "Suc i + n = 32" using Suc.prems by simp
  show ?case
    unfolding enc_unfold [OF assms(1), where s = "of_nat i * XTEA_DELTA"] if_P [OF r] Let_def s Suc.IH [OF n]
      funpow_Suc_right o_apply
    by (simp only: fround_def Let_def split s)
qed

lemma dec_while_pow:
  assumes "length K = 4" and "i \<le> 32"
  shows "dec_while K y z (of_nat i * XTEA_DELTA) =
     Some (halves ((finv (F K) (G K) XTEA_DELTA ^^ i) (y, z, of_nat i * XTEA_DELTA)))"
  using assms(2)
proof (induction i arbitrary: y z)
  case 0
  then show ?case using assms(1) by (subst dec_unfold) simp_all
next
  case (Suc i)
  have s: "of_nat (Suc i) * XTEA_DELTA - XTEA_DELTA = of_nat i * XTEA_DELTA" by (simp add: algebra_simps)
  have r: "of_nat (Suc i) * XTEA_DELTA \<noteq> 0" using Suc.prems by (intro sum_in_range) simp_all
  have i: "i \<le> 32" using Suc.prems by simp
  show ?case
    unfolding dec_unfold [OF assms(1), where s = "of_nat (Suc i) * XTEA_DELTA"] if_P [OF r] Let_def s Suc.IH [OF i]
      funpow_Suc_right o_apply
    by (simp only: finv_def Let_def split s)
qed

lemma enc_dec_while:
  assumes "length K = 4"
  shows "\<exists>y' z'. enc_while K (XTEA_DELTA * XTEA_ROUNDS) y z 0 = Some (y', z') \<and>
     dec_while K y' z' (XTEA_DELTA * XTEA_ROUNDS) = Some (y, z)"
proof -
  obtain y' z' s' where e: "(fround (F K) (G K) XTEA_DELTA ^^ 32) (y, z, 0) = (y', z', s')"
    by (cases "(fround (F K) (G K) XTEA_DELTA ^^ 32) (y, z, 0)")
  have s: "s' = of_nat 32 * XTEA_DELTA" using fround_sum [of 32 "F K" "G K" XTEA_DELTA "(y, z, 0)"] e by simp
  have l: "XTEA_DELTA * XTEA_ROUNDS = of_nat 32 * XTEA_DELTA" by (simp add: XTEA_ROUNDS_def)
  have "enc_while K (XTEA_DELTA * XTEA_ROUNDS) y z 0 = Some (y', z')"
    using enc_while_pow [OF assms, of 0 32 y z] e by simp
  moreover have "dec_while K y' z' (XTEA_DELTA * XTEA_ROUNDS) = Some (y, z)"
    unfolding l using dec_while_pow [OF assms order_refl, of y' z'] finv_fround_pow [of 32 "F K" "G K" XTEA_DELTA "(y, z, 0)"]
    by (simp only: e s) simp
  ultimately show ?thesis by blast
qed

lemma dec_while_total:
  assumes "length K = 4"
  shows "\<exists>y' z'. dec_while K y z (XTEA_DELTA * XTEA_ROUNDS) = Some (y', z')"
  using dec_while_pow [OF assms, of 32 y z] by (simp add: XTEA_ROUNDS_def mult.commute)

end

text \<open>One block is two little-endian words.\<close>

lemma block_words:
  assumes "length b = TEA_BLOCK_SIZE"
  obtains y z where "b = bytes_of_u32 (cpu_to_le32 y) @ bytes_of_u32 (cpu_to_le32 z)"
proof -
  obtain b0 b1 b2 b3 b4 b5 b6 b7 where b: "b = [b0, b1, b2, b3, b4, b5, b6, b7]"
    using assms by (auto simp: eval_nat_numeral length_Suc_conv)
  show ?thesis
    by (rule that [of "le32_to_cpu (u32_of_bytes b0 b1 b2 b3)" "le32_to_cpu (u32_of_bytes b4 b5 b6 b7)"])
       (simp add: b)
qed

lemma load_words:
  "load_u32 (bytes_of_u32 v @ bytes_of_u32 w) 0 = Some v" "load_u32 (bytes_of_u32 v @ bytes_of_u32 w) 4 = Some w"
  by (simp_all add: load_u32_def bytes_of_u32_def)

lemma tea_block:
  assumes "length (KEY ctx) = 4" and "length b = TEA_BLOCK_SIZE"
  shows "\<exists>c. tea_encrypt ctx b = Some c \<and> length c = TEA_BLOCK_SIZE \<and> tea_decrypt ctx c = Some b"
proof -
  obtain y z where b: "b = bytes_of_u32 (cpu_to_le32 y) @ bytes_of_u32 (cpu_to_le32 z)"
    using assms(2) by (rule block_words)
  let ?K = "KEY ctx"
  obtain y' z' where e: "tea_encrypt_while (?K ! 0) (?K ! 1) (?K ! 2) (?K ! 3) TEA_ROUNDS y z 0 = (y', z')"
    by (cases "tea_encrypt_while (?K ! 0) (?K ! 1) (?K ! 2) (?K ! 3) TEA_ROUNDS y z 0")
  have "tea_encrypt ctx b = Some (bytes_of_u32 (cpu_to_le32 y') @ bytes_of_u32 (cpu_to_le32 z'))"
    using assms(1) e by (simp add: tea_encrypt_def b load_words del: tea_encrypt_while.simps)
  moreover have "tea_decrypt ctx (bytes_of_u32 (cpu_to_le32 y') @ bytes_of_u32 (cpu_to_le32 z')) = Some b"
    using assms(1) tea_while_inverse [OF e] by (simp add: tea_decrypt_def b load_words)
  ultimately show ?thesis by simp
qed

lemma key_index: "unat ((w :: u32) AND 3) < 4"
  using unat_and_mask [of w 2] by (simp add: mask_eq_exp_minus_1)

interpretation xtea: delta_loops
  "\<lambda>K v s. ((push_bit 4 v XOR drop_bit 5 v) + v) XOR (s + K ! unat (s AND 3))"
  "\<lambda>K v s. ((push_bit 4 v XOR drop_bit 5 v) + v) XOR (s + K ! unat (drop_bit 11 s AND 3))"
  xtea_encrypt_while xtea_decrypt_while
  by unfold_locales
    (subst xtea_encrypt_while.simps xtea_decrypt_while.simps, simp add: key_index Let_def)+

interpretation xeta: delta_loops
  "\<lambda>K v s. (push_bit 4 v XOR drop_bit 5 v) + (v XOR s) + K ! unat (s AND 3)"
  "\<lambda>K v s. (push_bit 4 v XOR drop_bit 5 v) + (v XOR s) + K ! unat (drop_bit 11 s AND 3)"
  xeta_encrypt_while xeta_decrypt_while
  by unfold_locales
    (subst xeta_encrypt_while.simps xeta_decrypt_while.simps, simp add: key_index Let_def)+

lemma xtea_block:
  assumes "length (KEY ctx) = 4" and "length b = TEA_BLOCK_SIZE"
  shows "\<exists>c. xtea_encrypt ctx b = Some c \<and> length c = TEA_BLOCK_SIZE \<and> xtea_decrypt ctx c = Some b"
proof -
  obtain y z where b: "b = bytes_of_u32 (cpu_to_le32 y) @ bytes_of_u32 (cpu_to_le32 z)"
    using assms(2) by (rule block_words)
  obtain y' z' where "xtea_encrypt_while (KEY ctx) (XTEA_DELTA * XTEA_ROUNDS) y z 0 = Some (y', z')"
    "xtea_decrypt_while (KEY ctx) y' z' (XTEA_DELTA * XTEA_ROUNDS) = Some (y, z)"
    using xtea.enc_dec_while [OF assms(1)] by blast
  then show ?thesis by (simp add: xtea_encrypt_def xtea_decrypt_def b load_words)
qed

lemma tea_decrypt_block:
  assumes "length (KEY ctx) = 4" and "length c = TEA_BLOCK_SIZE"
  shows "\<exists>b. tea_decrypt ctx c = Some b \<and> length b = TEA_BLOCK_SIZE"
proof -
  obtain y z where "c = bytes_of_u32 (cpu_to_le32 y) @ bytes_of_u32 (cpu_to_le32 z)"
    using assms(2) by (rule block_words)
  then show ?thesis using assms(1) by (simp add: tea_decrypt_def load_words case_prod_unfold Let_def)
qed

lemma xtea_decrypt_block:
  assumes "length (KEY ctx) = 4" and "length c = TEA_BLOCK_SIZE"
  shows "\<exists>b. xtea_decrypt ctx c = Some b \<and> length b = TEA_BLOCK_SIZE"
proof -
  obtain y z where "c = bytes_of_u32 (cpu_to_le32 y) @ bytes_of_u32 (cpu_to_le32 z)"
    using assms(2) by (rule block_words)
  then show ?thesis using xtea.dec_while_total [OF assms(1), of y z]
    by (auto simp: xtea_decrypt_def load_words)
qed

lemma xeta_decrypt_block:
  assumes "length (KEY ctx) = 4" and "length c = TEA_BLOCK_SIZE"
  shows "\<exists>b. xeta_decrypt ctx c = Some b \<and> length b = TEA_BLOCK_SIZE"
proof -
  obtain y z where "c = bytes_of_u32 (cpu_to_le32 y) @ bytes_of_u32 (cpu_to_le32 z)"
    using assms(2) by (rule block_words)
  then show ?thesis using xeta.dec_while_total [OF assms(1), of y z]
    by (auto simp: xeta_decrypt_def load_words)
qed

lemma xeta_block:
  assumes "length (KEY ctx) = 4" and "length b = TEA_BLOCK_SIZE"
  shows "\<exists>c. xeta_encrypt ctx b = Some c \<and> length c = TEA_BLOCK_SIZE \<and> xeta_decrypt ctx c = Some b"
proof -
  obtain y z where b: "b = bytes_of_u32 (cpu_to_le32 y) @ bytes_of_u32 (cpu_to_le32 z)"
    using assms(2) by (rule block_words)
  obtain y' z' where "xeta_encrypt_while (KEY ctx) (XTEA_DELTA * XTEA_ROUNDS) y z 0 = Some (y', z')"
    "xeta_decrypt_while (KEY ctx) y' z' (XTEA_DELTA * XTEA_ROUNDS) = Some (y, z)"
    using xeta.enc_dec_while [OF assms(1)] by blast
  then show ?thesis by (simp add: xeta_encrypt_def xeta_decrypt_def b load_words)
qed

section \<open>The ciphers provide what the modes need\<close>

interpretation tea_cipher: block_cipher TEA_BLOCK_SIZE "tea_encrypt \<lparr>KEY = [k0, k1, k2, k3]\<rparr>" "tea_decrypt \<lparr>KEY = [k0, k1, k2, k3]\<rparr>"
  for k0 k1 k2 k3
proof unfold_locales
  show "\<exists>k < 32. TEA_BLOCK_SIZE = 2 ^ k" by (rule exI [of _ 3]) simp
qed (rule tea_block tea_decrypt_block; simp)+

interpretation xtea_cipher: block_cipher TEA_BLOCK_SIZE "xtea_encrypt \<lparr>KEY = [k0, k1, k2, k3]\<rparr>" "xtea_decrypt \<lparr>KEY = [k0, k1, k2, k3]\<rparr>"
  for k0 k1 k2 k3
  by unfold_locales (rule tea_cipher.block_size, (rule xtea_block xtea_decrypt_block; simp)+)

interpretation xeta_cipher: block_cipher TEA_BLOCK_SIZE "xeta_encrypt \<lparr>KEY = [k0, k1, k2, k3]\<rparr>" "xeta_decrypt \<lparr>KEY = [k0, k1, k2, k3]\<rparr>"
  for k0 k1 k2 k3
  by unfold_locales (rule tea_cipher.block_size, (rule xeta_block xeta_decrypt_block; simp)+)

lemma tea_setkey_ok:
  assumes "length (KEY ctx) = 4" and "16 \<le> length key"
  shows "\<exists>ctx'. tea_setkey ctx key = Some (0, ctx') \<and> length (KEY ctx') = 4"
    "\<exists>ctx'. xtea_setkey ctx key = Some (0, ctx') \<and> length (KEY ctx') = 4"
proof -
  obtain w0 w1 w2 w3 where "load_u32 key 0 = Some w0" "load_u32 key 4 = Some w1"
    "load_u32 key 8 = Some w2" "load_u32 key 12 = Some w3"
    using assms(2) load_u32_total [of 0 key] load_u32_total [of 4 key] load_u32_total [of 8 key] load_u32_total [of 12 key] by auto
  then show "\<exists>ctx'. tea_setkey ctx key = Some (0, ctx') \<and> length (KEY ctx') = 4"
    "\<exists>ctx'. xtea_setkey ctx key = Some (0, ctx') \<and> length (KEY ctx') = 4"
    using assms(1) by (simp_all add: tea_setkey_def xtea_setkey_def)
qed

section \<open>Properties\<close>

text \<open>
  C31: With the context set up from any key of 16 bytes, TEA, XTEA and XETA encrypt every block of
  eight bytes to a block of eight bytes, and decryption gives the block back.
\<close>

theorem tea_ciphers_roundtrip:
  assumes "length (KEY ctx) = 4" and "16 \<le> length key" and "length b = TEA_BLOCK_SIZE"
  shows "\<exists>ct cx c d e. tea_setkey ctx key = Some (0, ct) \<and> xtea_setkey ctx key = Some (0, cx) \<and>
    tea_encrypt ct b = Some c \<and> length c = TEA_BLOCK_SIZE \<and> tea_decrypt ct c = Some b \<and>
    xtea_encrypt cx b = Some d \<and> length d = TEA_BLOCK_SIZE \<and> xtea_decrypt cx d = Some b \<and>
    xeta_encrypt cx b = Some e \<and> length e = TEA_BLOCK_SIZE \<and> xeta_decrypt cx e = Some b"
proof -
  obtain ct cx where k: "tea_setkey ctx key = Some (0, ct)" "length (KEY ct) = 4"
    "xtea_setkey ctx key = Some (0, cx)" "length (KEY cx) = 4"
    using tea_setkey_ok [OF assms(1,2)] by blast
  show ?thesis using tea_block [OF k(2) assms(3)] xtea_block [OF k(4) assms(3)] xeta_block [OF k(4) assms(3)] k by blast
qed

theorem tea_ciphers_roundtrip_witness:
  "\<exists>ct cx c d e. tea_setkey \<lparr>KEY = [0, 0, 0, 0]\<rparr> (replicate 16 7) = Some (0, ct) \<and>
    xtea_setkey \<lparr>KEY = [0, 0, 0, 0]\<rparr> (replicate 16 7) = Some (0, cx) \<and>
    tea_encrypt ct [1, 2, 3, 4, 5, 6, 7, 8] = Some c \<and> length c = TEA_BLOCK_SIZE \<and> tea_decrypt ct c = Some [1, 2, 3, 4, 5, 6, 7, 8] \<and>
    xtea_encrypt cx [1, 2, 3, 4, 5, 6, 7, 8] = Some d \<and> length d = TEA_BLOCK_SIZE \<and> xtea_decrypt cx d = Some [1, 2, 3, 4, 5, 6, 7, 8] \<and>
    xeta_encrypt cx [1, 2, 3, 4, 5, 6, 7, 8] = Some e \<and> length e = TEA_BLOCK_SIZE \<and> xeta_decrypt cx e = Some [1, 2, 3, 4, 5, 6, 7, 8]"
  by (rule tea_ciphers_roundtrip) simp_all

end
