(* ===== verification/Cipher_Modes.thy ===== *)
theory Cipher_Modes
  imports Tea
begin

text \<open>
  The properties of the block modes over any cipher that meets the contract \<open>block_cipher\<close>, with TEA
  as the instance in the witnesses. A chunk is a list \<open>bs\<close> of complete blocks followed by \<open>r\<close> bytes
  of an incomplete one; \<open>q\<close> and \<open>q'\<close> are what follows the blocks in the two buffers.
\<close>

text \<open>
  C29: CBC. On a chunk of at least one block all four functions return, report the \<open>r\<close> bytes left over
  and leave what follows the blocks alone. Encryption in place and out of place produce the same
  ciphertext and the same chaining value, the last ciphertext block. From the same initial value both
  decryptions, the forward one and the backward one that works in place, give the plaintext back and
  leave the chaining value of the encryption.
\<close>

theorem cbc_roundtrip:
  assumes "block_cipher bsize enc dec" and "bs \<noteq> []" "is_blocks bsize bs"
    and "unat nb = length bs * bsize + r" "r < bsize"
    and "length d = length bs * bsize" "length e = length bs * bsize" "length iv = bsize"
  shows "\<exists>cs. is_blocks bsize cs \<and> length cs = length bs \<and>
    crypto_cbc_encrypt_segment enc bsize \<lparr>src_addr = concat bs @ q, dst_addr = d @ q', walk_iv = iv, walk_nbytes = nb\<rparr> =
      Some (of_nat r, \<lparr>src_addr = concat bs @ q, dst_addr = concat cs @ q', walk_iv = last cs, walk_nbytes = nb\<rparr>) \<and>
    crypto_cbc_encrypt_inplace enc bsize \<lparr>src_addr = concat bs @ q, dst_addr = d, walk_iv = iv, walk_nbytes = nb\<rparr> =
      Some (of_nat r, \<lparr>src_addr = concat cs @ q, dst_addr = d, walk_iv = last cs, walk_nbytes = nb\<rparr>) \<and>
    crypto_cbc_decrypt_segment dec bsize \<lparr>src_addr = concat cs @ q, dst_addr = e @ q', walk_iv = iv, walk_nbytes = nb\<rparr> =
      Some (of_nat r, \<lparr>src_addr = concat cs @ q, dst_addr = concat bs @ q', walk_iv = last cs, walk_nbytes = nb\<rparr>) \<and>
    crypto_cbc_decrypt_inplace dec bsize \<lparr>src_addr = concat cs @ q, dst_addr = e, walk_iv = iv, walk_nbytes = nb\<rparr> =
      Some (of_nat r, \<lparr>src_addr = concat bs @ q, dst_addr = e, walk_iv = last cs, walk_nbytes = nb\<rparr>)"
proof -
  let ?cs = "cbc_enc (the \<circ> enc) iv bs"
  note c = assms(1)
  have cs: "?cs \<noteq> []" "is_blocks bsize ?cs" "length ?cs = length bs"
    using block_cipher.is_blocks_modes(1) [OF c assms(3,8)] assms(2) length_modes(1) [of "the \<circ> enc" iv bs]
    by (auto simp del: length_modes)
  have l: "last (iv # ?cs) = last ?cs" using cs(1) by simp
  show ?thesis
    using cs block_cipher.cbc_encrypt_segment_at [OF c assms(2-6,8), of q q', unfolded l]
      block_cipher.cbc_encrypt_inplace_at [OF c assms(2-5,8), of q d, unfolded l]
      block_cipher.cbc_decrypt_segment_at [OF c cs(1,2), unfolded cs(3), OF assms(4,5,7,8), of q q']
      block_cipher.cbc_decrypt_inplace_at [OF c cs(1,2), unfolded cs(3), OF assms(4,5,8), of q e]
    unfolding block_cipher.cbc_dec_enc [OF c assms(3,8)] by (intro exI [of _ ?cs] conjI)
qed

theorem cbc_roundtrip_witness:
  "\<exists>cs. is_blocks 8 cs \<and> length cs = length [[1, 2, 3, 4, 5, 6, 7, 8], [9, 10, 11, 12, 13, 14, 15, 16 :: u8]] \<and>
    crypto_cbc_encrypt_segment (tea_encrypt \<lparr>KEY = [1, 2, 3, 4]\<rparr>) 8
        \<lparr>src_addr = concat [[1, 2, 3, 4, 5, 6, 7, 8], [9, 10, 11, 12, 13, 14, 15, 16]] @ [17, 18, 19],
         dst_addr = replicate 16 0 @ [0, 0, 0], walk_iv = replicate 8 5, walk_nbytes = 19\<rparr> =
      Some (of_nat 3, \<lparr>src_addr = concat [[1, 2, 3, 4, 5, 6, 7, 8], [9, 10, 11, 12, 13, 14, 15, 16]] @ [17, 18, 19],
         dst_addr = concat cs @ [0, 0, 0], walk_iv = last cs, walk_nbytes = 19\<rparr>) \<and>
    crypto_cbc_encrypt_inplace (tea_encrypt \<lparr>KEY = [1, 2, 3, 4]\<rparr>) 8
        \<lparr>src_addr = concat [[1, 2, 3, 4, 5, 6, 7, 8], [9, 10, 11, 12, 13, 14, 15, 16]] @ [17, 18, 19],
         dst_addr = replicate 16 0, walk_iv = replicate 8 5, walk_nbytes = 19\<rparr> =
      Some (of_nat 3, \<lparr>src_addr = concat cs @ [17, 18, 19], dst_addr = replicate 16 0, walk_iv = last cs, walk_nbytes = 19\<rparr>) \<and>
    crypto_cbc_decrypt_segment (tea_decrypt \<lparr>KEY = [1, 2, 3, 4]\<rparr>) 8
        \<lparr>src_addr = concat cs @ [17, 18, 19], dst_addr = replicate 16 0 @ [0, 0, 0], walk_iv = replicate 8 5, walk_nbytes = 19\<rparr> =
      Some (of_nat 3, \<lparr>src_addr = concat cs @ [17, 18, 19],
         dst_addr = concat [[1, 2, 3, 4, 5, 6, 7, 8], [9, 10, 11, 12, 13, 14, 15, 16]] @ [0, 0, 0],
         walk_iv = last cs, walk_nbytes = 19\<rparr>) \<and>
    crypto_cbc_decrypt_inplace (tea_decrypt \<lparr>KEY = [1, 2, 3, 4]\<rparr>) 8
        \<lparr>src_addr = concat cs @ [17, 18, 19], dst_addr = replicate 16 0, walk_iv = replicate 8 5, walk_nbytes = 19\<rparr> =
      Some (of_nat 3, \<lparr>src_addr = concat [[1, 2, 3, 4, 5, 6, 7, 8], [9, 10, 11, 12, 13, 14, 15, 16]] @ [17, 18, 19],
         dst_addr = replicate 16 0, walk_iv = last cs, walk_nbytes = 19\<rparr>)"
  by (rule cbc_roundtrip [OF tea_cipher.block_cipher_axioms]) simp_all

text \<open>
  Propagating CBC. As for CBC, with both encryptions agreeing and both decryptions giving the
  plaintext back; encryption and decryption leave the same chaining value.
\<close>

theorem pcbc_roundtrip:
  assumes "block_cipher bsize enc dec" and "bs \<noteq> []" "is_blocks bsize bs"
    and "unat nb = length bs * bsize + r" "r < bsize"
    and "length d = length bs * bsize" "length e = length bs * bsize" "length iv = bsize"
  shows "\<exists>cs iv'. is_blocks bsize cs \<and> length cs = length bs \<and>
    crypto_pcbc_encrypt_segment enc bsize \<lparr>src_addr = concat bs @ q, dst_addr = d @ q', walk_iv = iv, walk_nbytes = nb\<rparr> =
      Some (of_nat r, \<lparr>src_addr = concat bs @ q, dst_addr = concat cs @ q', walk_iv = iv', walk_nbytes = nb\<rparr>) \<and>
    crypto_pcbc_encrypt_inplace enc bsize \<lparr>src_addr = concat bs @ q, dst_addr = d, walk_iv = iv, walk_nbytes = nb\<rparr> =
      Some (of_nat r, \<lparr>src_addr = concat cs @ q, dst_addr = d, walk_iv = iv', walk_nbytes = nb\<rparr>) \<and>
    crypto_pcbc_decrypt_segment dec bsize \<lparr>src_addr = concat cs @ q, dst_addr = e @ q', walk_iv = iv, walk_nbytes = nb\<rparr> =
      Some (of_nat r, \<lparr>src_addr = concat cs @ q, dst_addr = concat bs @ q', walk_iv = iv', walk_nbytes = nb\<rparr>) \<and>
    crypto_pcbc_decrypt_inplace dec bsize \<lparr>src_addr = concat cs @ q, dst_addr = e, walk_iv = iv, walk_nbytes = nb\<rparr> =
      Some (of_nat r, \<lparr>src_addr = concat bs @ q, dst_addr = e, walk_iv = iv', walk_nbytes = nb\<rparr>)"
proof -
  let ?cs = "pcbc_enc (the \<circ> enc) iv bs"
  note c = assms(1)
  have cs: "?cs \<noteq> []" "is_blocks bsize ?cs" "length ?cs = length bs"
    using block_cipher.is_blocks_modes(3) [OF c assms(3,8)] assms(2) length_modes(3) [of "the \<circ> enc" iv bs]
    by (auto simp del: length_modes)
  show ?thesis
    using cs block_cipher.pcbc_encrypt_segment_at [OF c assms(2-6,8), of q q']
      block_cipher.pcbc_encrypt_inplace_at [OF c assms(2-5,8), of q d]
      block_cipher.pcbc_decrypt_segment_at [OF c cs(1,2), unfolded cs(3), OF assms(4,5,7,8), of q q']
      block_cipher.pcbc_decrypt_inplace_at [OF c cs(1,2), unfolded cs(3), OF assms(4,5,8), of q e]
    unfolding block_cipher.pcbc_dec_enc [OF c assms(3,8)]
    by (intro exI [of _ ?cs] exI [of _ "pcbc_iv iv bs ?cs"] conjI)
qed

theorem pcbc_roundtrip_witness:
  "\<exists>cs iv'. is_blocks 8 cs \<and> length cs = length [[1, 2, 3, 4, 5, 6, 7, 8 :: u8]] \<and>
    crypto_pcbc_encrypt_segment (xtea_encrypt \<lparr>KEY = [1, 2, 3, 4]\<rparr>) 8
        \<lparr>src_addr = concat [[1, 2, 3, 4, 5, 6, 7, 8]] @ [9], dst_addr = replicate 8 0 @ [0], walk_iv = replicate 8 5, walk_nbytes = 9\<rparr> =
      Some (of_nat 1, \<lparr>src_addr = concat [[1, 2, 3, 4, 5, 6, 7, 8]] @ [9], dst_addr = concat cs @ [0], walk_iv = iv', walk_nbytes = 9\<rparr>) \<and>
    crypto_pcbc_encrypt_inplace (xtea_encrypt \<lparr>KEY = [1, 2, 3, 4]\<rparr>) 8
        \<lparr>src_addr = concat [[1, 2, 3, 4, 5, 6, 7, 8]] @ [9], dst_addr = replicate 8 0, walk_iv = replicate 8 5, walk_nbytes = 9\<rparr> =
      Some (of_nat 1, \<lparr>src_addr = concat cs @ [9], dst_addr = replicate 8 0, walk_iv = iv', walk_nbytes = 9\<rparr>) \<and>
    crypto_pcbc_decrypt_segment (xtea_decrypt \<lparr>KEY = [1, 2, 3, 4]\<rparr>) 8
        \<lparr>src_addr = concat cs @ [9], dst_addr = replicate 8 0 @ [0], walk_iv = replicate 8 5, walk_nbytes = 9\<rparr> =
      Some (of_nat 1, \<lparr>src_addr = concat cs @ [9], dst_addr = concat [[1, 2, 3, 4, 5, 6, 7, 8]] @ [0], walk_iv = iv', walk_nbytes = 9\<rparr>) \<and>
    crypto_pcbc_decrypt_inplace (xtea_decrypt \<lparr>KEY = [1, 2, 3, 4]\<rparr>) 8
        \<lparr>src_addr = concat cs @ [9], dst_addr = replicate 8 0, walk_iv = replicate 8 5, walk_nbytes = 9\<rparr> =
      Some (of_nat 1, \<lparr>src_addr = concat [[1, 2, 3, 4, 5, 6, 7, 8]] @ [9], dst_addr = replicate 8 0, walk_iv = iv', walk_nbytes = 9\<rparr>)"
  by (rule pcbc_roundtrip [OF xtea_cipher.block_cipher_axioms]) simp_all

text \<open>
  C30: CTR. On a chunk of at least one block the function returns, in place and out of place with the
  same ciphertext; applied to the ciphertext with the same counter it gives the plaintext back. The
  counter block then holds, read as a big-endian number, the initial counter plus the number of blocks
  modulo \<open>256 ^ bsize\<close>, and fewer than \<open>256 ^ bsize\<close> blocks never meet a counter value twice. The
  incomplete last block is handled by the same keystream.
\<close>

theorem ctr_roundtrip:
  assumes "block_cipher bsize enc dec" and "bs \<noteq> []" "is_blocks bsize bs"
    and "unat nb = length bs * bsize + r" "r < bsize"
    and "length d = length bs * bsize" "length e = length bs * bsize" "length iv = bsize"
    and "length t = unat nt" "unat nt < bsize" "length u = unat nt" "length v = unat nt"
  shows "\<exists>cs iv' s iv''. is_blocks bsize cs \<and> length cs = length bs \<and>
    crypto_ctr_crypt_segment enc bsize \<lparr>src_addr = concat bs @ q, dst_addr = d @ q', walk_iv = iv, walk_nbytes = nb\<rparr> =
      Some (of_nat r, \<lparr>src_addr = concat bs @ q, dst_addr = concat cs @ q', walk_iv = iv', walk_nbytes = nb\<rparr>) \<and>
    crypto_ctr_crypt_inplace enc bsize \<lparr>src_addr = concat bs @ q, dst_addr = d, walk_iv = iv, walk_nbytes = nb\<rparr> =
      Some (of_nat r, \<lparr>src_addr = concat cs @ q, dst_addr = d, walk_iv = iv', walk_nbytes = nb\<rparr>) \<and>
    crypto_ctr_crypt_segment enc bsize \<lparr>src_addr = concat cs @ q, dst_addr = e @ q', walk_iv = iv, walk_nbytes = nb\<rparr> =
      Some (of_nat r, \<lparr>src_addr = concat cs @ q, dst_addr = concat bs @ q', walk_iv = iv', walk_nbytes = nb\<rparr>) \<and>
    length iv' = bsize \<and> be_val iv' = (be_val iv + length bs) mod 256 ^ bsize \<and>
    inj_on (\<lambda>i. ((\<lambda>a. the (crypto_inc a bsize)) ^^ i) iv) {..<256 ^ bsize} \<and>
    crypto_ctr_crypt_final enc bsize \<lparr>src_addr = t @ q, dst_addr = u @ q', walk_iv = iv', walk_nbytes = nt\<rparr> =
      Some \<lparr>src_addr = t @ q, dst_addr = s @ q', walk_iv = iv'', walk_nbytes = nt\<rparr> \<and>
    crypto_ctr_crypt_final enc bsize \<lparr>src_addr = s @ q, dst_addr = v @ q', walk_iv = iv', walk_nbytes = nt\<rparr> =
      Some \<lparr>src_addr = s @ q, dst_addr = t @ q', walk_iv = iv'', walk_nbytes = nt\<rparr>"
proof -
  let ?inc = "\<lambda>a. the (crypto_inc a bsize)"
  let ?cs = "ctr_stream (the \<circ> enc) ?inc iv bs"
  let ?iv = "(?inc ^^ length bs) iv"
  let ?s = "xorb (take (unat nt) (the (enc ?iv))) t"
  note c = assms(1)
  note inv = block_cipher.ctr_stream_involution [OF c assms(3,8)]
  have cs: "?cs \<noteq> []" "is_blocks bsize ?cs" "length ?cs = length bs"
    using inv assms(2) length_modes(5) [of "the \<circ> enc" ?inc iv bs] by (auto simp del: length_modes)
  note iv' = block_cipher.ctr_value [OF c assms(8), of "length bs"]
  have k: "length (take (unat nt) (the (enc ?iv))) = length t"
    using block_cipher.enc_total(2) [OF c conjunct1 [OF iv']] assms(9,10) by simp
  then have s: "length ?s = unat nt" "xorb (take (unat nt) (the (enc ?iv))) ?s = t" using assms(9) by simp_all
  have dist: "inj_on (\<lambda>i. (?inc ^^ i) iv) {..<256 ^ bsize}"
    using block_cipher.ctr_distinct [OF c assms(8)] by (intro linorder_inj_onI') auto
  show ?thesis
    using cs iv' dist block_cipher.ctr_crypt_segment_at [OF c assms(2-6,8), of q q']
      block_cipher.ctr_crypt_inplace_at [OF c assms(2-5,8), of q d]
      block_cipher.ctr_crypt_segment_at [OF c cs(1,2), unfolded cs(3), OF assms(4,5,7,8), of q q', unfolded conjunct1 [OF inv]]
      block_cipher.ctr_crypt_final_at [OF c assms(9-11) conjunct1 [OF iv'], of q q']
      block_cipher.ctr_crypt_final_at [OF c s(1) assms(10,12) conjunct1 [OF iv'], of q q', unfolded s(2)]
    by (intro exI [of _ ?cs] exI [of _ ?iv] exI [of _ ?s] exI [of _ "?inc ?iv"] conjI) (elim conjE, assumption)+
qed

theorem ctr_roundtrip_witness:
  "\<exists>cs iv' s iv''. is_blocks 8 cs \<and> length cs = length [[1, 2, 3, 4, 5, 6, 7, 8 :: u8]] \<and>
    crypto_ctr_crypt_segment (xeta_encrypt \<lparr>KEY = [1, 2, 3, 4]\<rparr>) 8
        \<lparr>src_addr = concat [[1, 2, 3, 4, 5, 6, 7, 8]] @ [9, 9], dst_addr = replicate 8 0 @ [0, 0], walk_iv = replicate 8 255, walk_nbytes = 10\<rparr> =
      Some (of_nat 2, \<lparr>src_addr = concat [[1, 2, 3, 4, 5, 6, 7, 8]] @ [9, 9], dst_addr = concat cs @ [0, 0], walk_iv = iv', walk_nbytes = 10\<rparr>) \<and>
    crypto_ctr_crypt_inplace (xeta_encrypt \<lparr>KEY = [1, 2, 3, 4]\<rparr>) 8
        \<lparr>src_addr = concat [[1, 2, 3, 4, 5, 6, 7, 8]] @ [9, 9], dst_addr = replicate 8 0, walk_iv = replicate 8 255, walk_nbytes = 10\<rparr> =
      Some (of_nat 2, \<lparr>src_addr = concat cs @ [9, 9], dst_addr = replicate 8 0, walk_iv = iv', walk_nbytes = 10\<rparr>) \<and>
    crypto_ctr_crypt_segment (xeta_encrypt \<lparr>KEY = [1, 2, 3, 4]\<rparr>) 8
        \<lparr>src_addr = concat cs @ [9, 9], dst_addr = replicate 8 0 @ [0, 0], walk_iv = replicate 8 255, walk_nbytes = 10\<rparr> =
      Some (of_nat 2, \<lparr>src_addr = concat cs @ [9, 9], dst_addr = concat [[1, 2, 3, 4, 5, 6, 7, 8]] @ [0, 0], walk_iv = iv', walk_nbytes = 10\<rparr>) \<and>
    length iv' = 8 \<and> be_val iv' = (be_val (replicate 8 255) + length [[1, 2, 3, 4, 5, 6, 7, 8 :: u8]]) mod 256 ^ 8 \<and>
    inj_on (\<lambda>i. ((\<lambda>a. the (crypto_inc a 8)) ^^ i) (replicate 8 255)) {..<256 ^ 8} \<and>
    crypto_ctr_crypt_final (xeta_encrypt \<lparr>KEY = [1, 2, 3, 4]\<rparr>) 8
        \<lparr>src_addr = [7, 7] @ [9, 9], dst_addr = [0, 0] @ [0, 0], walk_iv = iv', walk_nbytes = 2\<rparr> =
      Some \<lparr>src_addr = [7, 7] @ [9, 9], dst_addr = s @ [0, 0], walk_iv = iv'', walk_nbytes = 2\<rparr> \<and>
    crypto_ctr_crypt_final (xeta_encrypt \<lparr>KEY = [1, 2, 3, 4]\<rparr>) 8
        \<lparr>src_addr = s @ [9, 9], dst_addr = [1, 1] @ [0, 0], walk_iv = iv', walk_nbytes = 2\<rparr> =
      Some \<lparr>src_addr = s @ [9, 9], dst_addr = [7, 7] @ [0, 0], walk_iv = iv'', walk_nbytes = 2\<rparr>"
  by (rule ctr_roundtrip [OF xeta_cipher.block_cipher_axioms]) simp_all

text \<open>
  The helpers of the modes agree with their byte-wise meaning. \<open>crypto_xor\<close>, which works on 32-bit
  words as long as it can, XORs \<open>n\<close> bytes in place and touches nothing else; \<open>crypto_inc\<close>, which also
  works word by word and stops when no carry is left, adds one to the big-endian number modulo
  \<open>256 ^ n\<close>.
\<close>

theorem crypto_helpers_correct:
  assumes "length a = n" and "length b = n"
  shows "crypto_xor (p @ a @ q) (length p) (p' @ b @ q') (length p') n = Some (p @ map2 (XOR) a b @ q) \<and>
    (\<exists>a'. crypto_inc (a @ q) n = Some (a' @ q) \<and> length a' = n \<and> be_val a' = (be_val a + 1) mod 256 ^ n)"
  using crypto_xor_at [OF assms refl refl, of p q p' q'] crypto_inc_at [OF assms(1), of q] assms(1)
  by (auto simp: xorb_def inc_spec_def)

theorem crypto_helpers_correct_witness:
  "crypto_xor ([9] @ [1, 2, 3, 4, 5] @ [8, 8]) (length [9 :: u8]) ([] @ [255, 255, 255, 255, 255] @ []) (length ([] :: bytes)) 5 =
      Some ([9] @ map2 (XOR) [1, 2, 3, 4, 5] [255, 255, 255, 255, 255] @ [8, 8]) \<and>
    (\<exists>a'. crypto_inc ([1, 2, 3, 4, 5] @ [8, 8]) 5 = Some (a' @ [8, 8]) \<and> length a' = 5 \<and>
      be_val a' = (be_val [1, 2, 3, 4, 5] + 1) mod 256 ^ 5)"
  by (rule crypto_helpers_correct) simp_all

end
