(* ===== verification/Arc4.thy ===== *)
theory Arc4
  imports KPrelude "HOL-Library.Multiset"
begin

text \<open>
  The stream cipher of \<open>crypto/arc4.c\<close>. The state is a table of 256 bytes and two indices; the key
  schedule and every step of the cipher swap two entries. The lemmas show that the table stays a
  permutation of all bytes, that no access leaves it, that the keystream does not depend on the data,
  and hence that encrypting twice from the same state gives the text back.
\<close>

record arc4_ctx =
  arc4_S :: bytes
  arc4_x :: u8
  arc4_y :: u8

text \<open>\<open>for (i = 0; i < 256; i++) ctx->S[i] = i;\<close>\<close>

fun init_table :: "nat list \<Rightarrow> bytes \<Rightarrow> bytes option" where
  "init_table [] T = Some T"
| "init_table (i # is) T = do { T \<leftarrow> wr T i (of_nat i); init_table is T }"

fun key_schedule :: "bytes \<Rightarrow> nat \<Rightarrow> nat list \<Rightarrow> int \<Rightarrow> nat \<Rightarrow> bytes \<Rightarrow> bytes option" where
  "key_schedule in_key key_len [] j k T = Some T"
| "key_schedule in_key key_len (i # is) j k T = do {
     a \<leftarrow> rd T i;
     c \<leftarrow> rd in_key k;
     let j = (j + uint c + uint a) AND 0xff;
     b \<leftarrow> rd T (nat j);
     T \<leftarrow> wr T i b;
     T \<leftarrow> wr T (nat j) a;
     key_schedule in_key key_len is j (if k + 1 \<ge> key_len then 0 else k + 1) T }"

definition arc4_set_key :: "arc4_ctx \<Rightarrow> bytes \<Rightarrow> nat \<Rightarrow> (int \<times> arc4_ctx) option" where
  "arc4_set_key ctx in_key key_len = do {
     let ctx = ctx\<lparr>arc4_x := 1, arc4_y := 0\<rparr>;
     T \<leftarrow> init_table [0..<256] (arc4_S ctx);
     T \<leftarrow> key_schedule in_key key_len [0..<256] 0 0 T;
     Some (0, ctx\<lparr>arc4_S := T\<rparr>) }"

definition arc4_crypt :: "arc4_ctx \<Rightarrow> u8 \<Rightarrow> (u8 \<times> arc4_ctx) option" where
  "arc4_crypt ctx inb = do {
     let T = arc4_S ctx;
     let xi = arc4_x ctx;
     let yi = arc4_y ctx;
     a \<leftarrow> rd T (unat xi);
     let yi = (yi + a) AND 0xff;
     b \<leftarrow> rd T (unat yi);
     T \<leftarrow> wr T (unat xi) b;
     T \<leftarrow> wr T (unat yi) a;
     let xi = (xi + 1) AND 0xff;
     k \<leftarrow> rd T (unat ((a + b) AND 0xff));
     Some (inb XOR k, ctx\<lparr>arc4_S := T, arc4_x := xi, arc4_y := yi\<rparr>) }"

text \<open>The cipher layer calls \<open>arc4_crypt\<close> once per byte, its block size being 1.\<close>

fun arc4_stream :: "arc4_ctx \<Rightarrow> bytes \<Rightarrow> (bytes \<times> arc4_ctx) option" where
  "arc4_stream ctx [] = Some ([], ctx)"
| "arc4_stream ctx (b # bs) = do {
     (c, ctx) \<leftarrow> arc4_crypt ctx b;
     (cs, ctx) \<leftarrow> arc4_stream ctx bs;
     Some (c # cs, ctx) }"

section \<open>The table\<close>

definition perm_table :: "bytes \<Rightarrow> bool" where
  "perm_table T \<longleftrightarrow> length T = 256 \<and> mset T = mset (map of_nat [0..<256])"

definition arc4_ok :: "arc4_ctx \<Rightarrow> bool" where
  "arc4_ok ctx \<longleftrightarrow> perm_table (arc4_S ctx)"

lemma mset_swap2:
  "i < length T \<Longrightarrow> j < length T \<Longrightarrow> mset (T[i := T ! j, j := T ! i]) = mset T"
  using mset_swap [of j T i] by (simp add: list_update_swap)

lemma perm_table_swap:
  "perm_table T \<Longrightarrow> i < 256 \<Longrightarrow> j < 256 \<Longrightarrow> perm_table (T[i := T ! j, j := T ! i])"
  by (simp add: perm_table_def mset_swap2)

lemma unat_u8 [simp]: "unat (b :: u8) < 256" using unat_lt [of b] by simp

lemma arc4_crypt_ok:
  assumes "arc4_ok ctx"
  shows "\<exists>k ctx'. arc4_ok ctx' \<and> (\<forall>b. arc4_crypt ctx b = Some (b XOR k, ctx'))"
proof -
  let ?T = "arc4_S ctx" let ?a = "arc4_S ctx ! unat (arc4_x ctx)" let ?y = "(arc4_y ctx + ?a) AND 0xff"
  let ?T' = "?T[unat (arc4_x ctx) := ?T ! unat ?y, unat ?y := ?a]"
  have l: "length ?T = 256" using assms by (simp add: arc4_ok_def perm_table_def)
  have p: "perm_table ?T'" using assms by (intro perm_table_swap) (simp_all add: arc4_ok_def)
  show ?thesis
    by (rule exI [of _ "?T' ! unat ((?a + ?T ! unat ?y) AND 0xff)"],
        rule exI [of _ "ctx\<lparr>arc4_S := ?T', arc4_x := (arc4_x ctx + 1) AND 0xff, arc4_y := ?y\<rparr>"])
       (use l p in \<open>simp add: arc4_crypt_def arc4_ok_def Let_def\<close>)
qed

lemma init_table_nth:
  assumes "\<forall>i \<in> set is. i < length T"
  shows "\<exists>T'. init_table is T = Some T' \<and> length T' = length T \<and>
     (\<forall>i < length T. T' ! i = (if i \<in> set is then of_nat i else T ! i))"
  using assms
proof (induction "is" arbitrary: T)
  case (Cons i "is")
  obtain T' where "init_table is (T[i := of_nat i]) = Some T'" "length T' = length T"
    "\<forall>k < length T. T' ! k = (if k \<in> set is then of_nat k else T[i := of_nat i] ! k)"
    using Cons.IH [of "T[i := of_nat i]"] Cons.prems by auto
  then show ?case using Cons.prems by (auto simp: nth_list_update)
qed simp

lemma init_table_256:
  assumes "length T = 256"
  shows "init_table [0..<256] T = Some (map of_nat [0..<256])"
proof -
  have "\<forall>i \<in> set [0..<256]. i < length T" using assms by simp
  from init_table_nth [OF this] obtain T' where T': "init_table [0..<256] T = Some T'" "length T' = 256"
    "\<forall>i < 256. T' ! i = of_nat i" using assms by auto
  have "T' = map of_nat [0..<256]" by (rule nth_equalityI) (use T'(2,3) in \<open>simp_all del: upt_rec_numeral\<close>)
  with T'(1) show ?thesis by simp
qed

lemma and_ff_less: "nat (j AND 0xff) < 256"
proof -
  have "(0xff :: int) = mask 8" by (simp add: mask_eq_exp_minus_1)
  then have "j AND 0xff = j mod 2 ^ 8" by (simp only: flip: take_bit_eq_mask take_bit_eq_mod)
  then show ?thesis by simp
qed

lemma key_schedule_perm:
  assumes "0 < key_len" "key_len \<le> length in_key" "\<forall>i \<in> set is. i < 256" "k < key_len" "perm_table T"
  shows "\<exists>T'. key_schedule in_key key_len is j k T = Some T' \<and> perm_table T'"
  using assms(3-5)
proof (induction "is" arbitrary: j k T)
  case (Cons i "is")
  let ?j = "(j + uint (in_key ! k) + uint (T ! i)) AND 0xff"
  have l: "length T = 256" "i < 256" using Cons.prems by (simp_all add: perm_table_def)
  have "perm_table (T[i := T ! nat ?j, nat ?j := T ! i])"
    using Cons.prems(3) l(2) by (rule perm_table_swap) (rule and_ff_less)
  moreover have "(if k + 1 \<ge> key_len then 0 else k + 1) < key_len" using assms(1) by simp
  ultimately obtain T' where "key_schedule in_key key_len is ?j (if k + 1 \<ge> key_len then 0 else k + 1)
      (T[i := T ! nat ?j, nat ?j := T ! i]) = Some T'" "perm_table T'"
    using Cons.IH Cons.prems(1) by (meson list.set_intros(2))
  then show ?case using Cons.prems(2) l assms(2) and_ff_less [of "j + uint (in_key ! k) + uint (T ! i)"]
    by (simp add: Let_def)
qed simp

lemma arc4_set_key_ok:
  assumes "length (arc4_S ctx) = 256" "0 < key_len" "key_len \<le> length in_key"
  shows "\<exists>ctx'. arc4_set_key ctx in_key key_len = Some (0, ctx') \<and> arc4_ok ctx'"
proof -
  have "perm_table (map of_nat [0..<256])" by (simp add: perm_table_def del: upt_rec_numeral)
  then obtain T where "key_schedule in_key key_len [0..<256] 0 0 (map of_nat [0..<256]) = Some T" "perm_table T"
    using key_schedule_perm [OF assms(2,3), of "[0..<256]" 0 "map of_nat [0..<256]" 0] assms(2)
    by (auto simp del: upt_rec_numeral)
  then show ?thesis using init_table_256 [OF assms(1)]
    by (simp add: arc4_set_key_def Let_def arc4_ok_def del: upt_rec_numeral)
qed

lemma arc4_stream_ok:
  assumes "arc4_ok ctx"
  shows "\<exists>cs ctx'. arc4_stream ctx bs = Some (cs, ctx') \<and> length cs = length bs \<and> arc4_ok ctx' \<and>
     arc4_stream ctx cs = Some (bs, ctx')"
  using assms
proof (induction bs arbitrary: ctx)
  case (Cons b bs)
  obtain k ctx1 where k: "arc4_ok ctx1" "\<And>b. arc4_crypt ctx b = Some (b XOR k, ctx1)"
    using arc4_crypt_ok [OF Cons.prems] by blast
  obtain cs ctx' where "arc4_stream ctx1 bs = Some (cs, ctx')" "length cs = length bs" "arc4_ok ctx'"
    "arc4_stream ctx1 cs = Some (bs, ctx')" using Cons.IH [OF k(1)] by blast
  then show ?case using k(2) by (simp add: xor.assoc)
qed simp

text \<open>
  C32: The key schedule accepts every key of one to \<open>length in_key\<close> bytes without leaving an array and
  returns 0; from the state it sets up, any text is encrypted to a text of the same length, decrypting
  that text from the same state gives the text back, and at every moment the table holds each of the
  256 bytes exactly once.
\<close>

theorem arc4_correct:
  assumes "length (arc4_S ctx) = 256" "0 < key_len" "key_len \<le> length in_key"
  shows "\<exists>ctx' cs ctx''. arc4_set_key ctx in_key key_len = Some (0, ctx') \<and> perm_table (arc4_S ctx') \<and>
     arc4_stream ctx' msg = Some (cs, ctx'') \<and> length cs = length msg \<and>
     arc4_stream ctx' cs = Some (msg, ctx'') \<and> perm_table (arc4_S ctx'')"
proof -
  obtain ctx' where k: "arc4_set_key ctx in_key key_len = Some (0, ctx')" "arc4_ok ctx'"
    using arc4_set_key_ok [OF assms] by blast
  then show ?thesis using arc4_stream_ok [OF k(2), of msg] by (auto simp: arc4_ok_def)
qed

theorem arc4_correct_witness:
  "\<exists>ctx' cs ctx''. arc4_set_key \<lparr>arc4_S = replicate 256 0, arc4_x = 0, arc4_y = 0\<rparr> [0x4b, 0x65, 0x79] 3 = Some (0, ctx') \<and>
     perm_table (arc4_S ctx') \<and> arc4_stream ctx' [0x50, 0x6c, 0x61] = Some (cs, ctx'') \<and> length cs = length [0x50, 0x6c, 0x61 :: u8] \<and>
     arc4_stream ctx' cs = Some ([0x50, 0x6c, 0x61], ctx'') \<and> perm_table (arc4_S ctx'')"
  by (rule arc4_correct) simp_all

end
