(* ===== verification/Semaphore.thy ===== *)
theory Semaphore
  imports KPrelude
begin

text \<open>
  The counting semaphore of \<open>kernel/semaphore.c\<close>. A task is a natural number; a task has at most one
  waiter, which lives on its stack, so the wait list is a list of tasks and the field \<open>up\<close> of the
  waiters a map from tasks. Every section between taking and releasing \<open>sem->lock\<close> is one atomic step.
  A sleeping task may wake at any time (a wake-up, a signal, the timer or spuriously): it then runs the
  loop of \<open>__down_common\<close> once more, with the signals pending at that moment and the jiffies that have
  passed as parameters of the step.
\<close>

section \<open>Constants and signals\<close>

definition EINTR :: int where "EINTR = 4"
definition ETIME :: int where "ETIME = 62"

definition TASK_INTERRUPTIBLE :: ulong where "TASK_INTERRUPTIBLE = 1"
definition TASK_UNINTERRUPTIBLE :: ulong where "TASK_UNINTERRUPTIBLE = 2"
definition TASK_WAKEKILL :: ulong where "TASK_WAKEKILL = 128"
definition TASK_KILLABLE :: ulong where "TASK_KILLABLE = TASK_WAKEKILL OR TASK_UNINTERRUPTIBLE"
definition MAX_SCHEDULE_TIMEOUT :: int where "MAX_SCHEDULE_TIMEOUT = 2 ^ 63 - 1"

text \<open>What a task sees of its signals: whether one is pending, and whether a fatal one is.\<close>

type_synonym signals = "bool \<times> bool"

definition signal_pending_state :: "ulong \<Rightarrow> signals \<Rightarrow> bool" where
  "signal_pending_state state sg =
    (if state AND (TASK_INTERRUPTIBLE OR TASK_WAKEKILL) = 0 then False
     else if \<not> fst sg then False
     else state AND TASK_INTERRUPTIBLE \<noteq> 0 \<or> snd sg)"

text \<open>The value \<open>schedule_timeout\<close> of \<open>kernel/timer.c\<close> returns when the task runs again after \<open>elapsed\<close>
  jiffies, a number that does not wrap the difference of the two time stamps.\<close>

definition schedule_timeout :: "int \<Rightarrow> int \<Rightarrow> int" where
  "schedule_timeout timeout elapsed =
    (let timeout = (if timeout = MAX_SCHEDULE_TIMEOUT \<or> timeout < 0 then timeout else timeout - elapsed)
     in if timeout < 0 then 0 else timeout)"

section \<open>The semaphore\<close>

record semaphore =
  sem_count :: u32
  sem_wait_list :: "nat list"

type_synonym waiters = "nat \<Rightarrow> bool"

definition sema_init :: "u32 \<Rightarrow> semaphore" where
  "sema_init val = \<lparr>sem_count = val, sem_wait_list = []\<rparr>"

text \<open>
  One pass of the loop of \<open>__down_common\<close> from its head: \<open>Some r\<close> is the return value \<open>r\<close>, \<open>None\<close>
  means that the lock is dropped and the task sleeps.
\<close>

definition raw_down_loop :: "semaphore \<Rightarrow> nat \<Rightarrow> ulong \<Rightarrow> int \<Rightarrow> signals \<Rightarrow> semaphore \<times> int option" where
  "raw_down_loop sem task state timeout sg =
    (if signal_pending_state state sg then (sem\<lparr>sem_wait_list := remove1 task (sem_wait_list sem)\<rparr>, Some (- EINTR))
     else if timeout \<le> 0 then (sem\<lparr>sem_wait_list := remove1 task (sem_wait_list sem)\<rparr>, Some (- ETIME))
     else (sem, None))"

definition raw_down_common :: "semaphore \<Rightarrow> waiters \<Rightarrow> nat \<Rightarrow> ulong \<Rightarrow> int \<Rightarrow> signals \<Rightarrow> (semaphore \<times> int option) \<times> waiters" where
  "raw_down_common sem ups task state timeout sg =
    (raw_down_loop (sem\<lparr>sem_wait_list := sem_wait_list sem @ [task]\<rparr>) task state timeout sg, ups(task := False))"

definition raw_down_resume :: "semaphore \<Rightarrow> waiters \<Rightarrow> nat \<Rightarrow> ulong \<Rightarrow> int \<Rightarrow> signals \<Rightarrow> semaphore \<times> int option" where
  "raw_down_resume sem ups task state timeout sg =
    (if ups task then (sem, Some 0) else raw_down_loop sem task state timeout sg)"

definition raw_down :: "semaphore \<Rightarrow> waiters \<Rightarrow> nat \<Rightarrow> signals \<Rightarrow> (semaphore \<times> int option) \<times> waiters" where
  "raw_down sem ups task sg = raw_down_common sem ups task TASK_UNINTERRUPTIBLE MAX_SCHEDULE_TIMEOUT sg"

definition raw_down_interruptible :: "semaphore \<Rightarrow> waiters \<Rightarrow> nat \<Rightarrow> signals \<Rightarrow> (semaphore \<times> int option) \<times> waiters" where
  "raw_down_interruptible sem ups task sg = raw_down_common sem ups task TASK_INTERRUPTIBLE MAX_SCHEDULE_TIMEOUT sg"

definition raw_down_killable :: "semaphore \<Rightarrow> waiters \<Rightarrow> nat \<Rightarrow> signals \<Rightarrow> (semaphore \<times> int option) \<times> waiters" where
  "raw_down_killable sem ups task sg = raw_down_common sem ups task TASK_KILLABLE MAX_SCHEDULE_TIMEOUT sg"

definition raw_down_timeout :: "semaphore \<Rightarrow> waiters \<Rightarrow> nat \<Rightarrow> int \<Rightarrow> signals \<Rightarrow> (semaphore \<times> int option) \<times> waiters" where
  "raw_down_timeout sem ups task jiffies sg = raw_down_common sem ups task TASK_UNINTERRUPTIBLE jiffies sg"

definition down :: "semaphore \<Rightarrow> waiters \<Rightarrow> nat \<Rightarrow> signals \<Rightarrow> (semaphore \<times> int option) \<times> waiters" where
  "down sem ups task sg =
    (if sem_count sem > 0 then ((sem\<lparr>sem_count := sem_count sem - 1\<rparr>, Some 0), ups)
     else raw_down sem ups task sg)"

definition down_interruptible :: "semaphore \<Rightarrow> waiters \<Rightarrow> nat \<Rightarrow> signals \<Rightarrow> (semaphore \<times> int option) \<times> waiters" where
  "down_interruptible sem ups task sg =
    (if sem_count sem > 0 then ((sem\<lparr>sem_count := sem_count sem - 1\<rparr>, Some 0), ups)
     else raw_down_interruptible sem ups task sg)"

definition down_killable :: "semaphore \<Rightarrow> waiters \<Rightarrow> nat \<Rightarrow> signals \<Rightarrow> (semaphore \<times> int option) \<times> waiters" where
  "down_killable sem ups task sg =
    (if sem_count sem > 0 then ((sem\<lparr>sem_count := sem_count sem - 1\<rparr>, Some 0), ups)
     else raw_down_killable sem ups task sg)"

definition down_timeout :: "semaphore \<Rightarrow> waiters \<Rightarrow> nat \<Rightarrow> int \<Rightarrow> signals \<Rightarrow> (semaphore \<times> int option) \<times> waiters" where
  "down_timeout sem ups task jiffies sg =
    (if sem_count sem > 0 then ((sem\<lparr>sem_count := sem_count sem - 1\<rparr>, Some 0), ups)
     else raw_down_timeout sem ups task jiffies sg)"

definition down_trylock :: "semaphore \<Rightarrow> int \<times> semaphore" where
  "down_trylock sem =
    (let count = sint (sem_count sem - 1)
     in (if count < 0 then 1 else 0, if count \<ge> 0 then sem\<lparr>sem_count := word_of_int count\<rparr> else sem))"

definition raw_up :: "semaphore \<Rightarrow> waiters \<Rightarrow> semaphore \<times> waiters" where
  "raw_up sem ups =
    (let waiter = hd (sem_wait_list sem)
     in (sem\<lparr>sem_wait_list := tl (sem_wait_list sem)\<rparr>, ups(waiter := True)))"

definition up :: "semaphore \<Rightarrow> waiters \<Rightarrow> semaphore \<times> waiters" where
  "up sem ups =
    (if sem_wait_list sem = [] then (sem\<lparr>sem_count := sem_count sem + 1\<rparr>, ups) else raw_up sem ups)"

section \<open>Tasks and steps\<close>

text \<open>
  A task is running or sleeps inside one of the four calls with a remaining timeout. \<open>down\<close> ignores
  the return value of \<open>__down_common\<close>, so its caller takes any return for success.
\<close>

datatype down_call = Down | Down_interruptible | Down_killable | Down_timeout int

datatype task_phase = Running | Asleep down_call int

record sem_sys =
  sys_sem :: semaphore
  sys_up :: waiters
  sys_phase :: "nat \<Rightarrow> task_phase"

fun call_state :: "down_call \<Rightarrow> ulong" where
  "call_state Down = TASK_UNINTERRUPTIBLE"
| "call_state Down_interruptible = TASK_INTERRUPTIBLE"
| "call_state Down_killable = TASK_KILLABLE"
| "call_state (Down_timeout j) = TASK_UNINTERRUPTIBLE"

fun call_timeout :: "down_call \<Rightarrow> int" where
  "call_timeout (Down_timeout j) = j"
| "call_timeout _ = MAX_SCHEDULE_TIMEOUT"

fun call_down :: "down_call \<Rightarrow> semaphore \<Rightarrow> waiters \<Rightarrow> nat \<Rightarrow> signals \<Rightarrow> (semaphore \<times> int option) \<times> waiters" where
  "call_down Down sem ups t sg = down sem ups t sg"
| "call_down Down_interruptible sem ups t sg = down_interruptible sem ups t sg"
| "call_down Down_killable sem ups t sg = down_killable sem ups t sg"
| "call_down (Down_timeout j) sem ups t sg = down_timeout sem ups t j sg"

definition call_result :: "down_call \<Rightarrow> int option \<Rightarrow> int option" where
  "call_result c r = (if c = Down then map_option (\<lambda>_. 0) r else r)"

datatype sem_event = EDown nat down_call signals | EResume nat int signals | ETrylock nat | EUp

text \<open>A step of the system and the value the call returns to its caller, \<open>None\<close> as long as the task sleeps.\<close>

fun sem_step :: "sem_event \<Rightarrow> sem_sys \<Rightarrow> (int option \<times> sem_sys) option" where
  "sem_step (EDown t c sg) s =
    (if sys_phase s t = Running then
       (case call_down c (sys_sem s) (sys_up s) t sg of ((sem, r), ups) \<Rightarrow>
          Some (call_result c r, s\<lparr>sys_sem := sem, sys_up := ups,
            sys_phase := (sys_phase s)(t := if r = None then Asleep c (call_timeout c) else Running)\<rparr>))
     else None)"
| "sem_step (EResume t elapsed sg) s =
    (case sys_phase s t of Running \<Rightarrow> None
     | Asleep c timeout \<Rightarrow>
         (let timeout = schedule_timeout timeout elapsed in
          case raw_down_resume (sys_sem s) (sys_up s) t (call_state c) timeout sg of (sem, r) \<Rightarrow>
            Some (call_result c r, s\<lparr>sys_sem := sem,
              sys_phase := (sys_phase s)(t := if r = None then Asleep c timeout else Running)\<rparr>)))"
| "sem_step (ETrylock t) s =
    (if sys_phase s t = Running then
       (case down_trylock (sys_sem s) of (r, sem) \<Rightarrow> Some (Some r, s\<lparr>sys_sem := sem\<rparr>))
     else None)"
| "sem_step EUp s =
    (case up (sys_sem s) (sys_up s) of (sem, ups) \<Rightarrow> Some (Some 0, s\<lparr>sys_sem := sem, sys_up := ups\<rparr>))"

definition sys_init :: "u32 \<Rightarrow> sem_sys" where
  "sys_init n = \<lparr>sys_sem = sema_init n, sys_up = (\<lambda>_. False), sys_phase = (\<lambda>_. Running)\<rparr>"

inductive sem_run :: "sem_sys \<Rightarrow> (sem_event \<times> int option) list \<Rightarrow> sem_sys \<Rightarrow> bool" where
  start: "sem_run s [] s"
| step: "sem_run s tr s1 \<Longrightarrow> sem_step e s1 = Some (r, s2) \<Longrightarrow> sem_run s (tr @ [(e, r)]) s2"

definition acquisitions :: "(sem_event \<times> int option) list \<Rightarrow> nat" where
  "acquisitions tr = length (filter (\<lambda>(e, r). e \<noteq> EUp \<and> r = Some 0) tr)"

definition releases :: "(sem_event \<times> int option) list \<Rightarrow> nat" where
  "releases tr = length (filter (\<lambda>(e, r). e = EUp) tr)"

section \<open>The invariant\<close>

abbreviation asleep :: "sem_sys \<Rightarrow> nat \<Rightarrow> bool" where
  "asleep s t \<equiv> sys_phase s t \<noteq> Running"

text \<open>The tasks that have been handed the semaphore by \<open>up\<close> and have not run since.\<close>

definition granted :: "sem_sys \<Rightarrow> nat set" where
  "granted s = {t. asleep s t \<and> sys_up s t}"

definition sem_wf :: "sem_sys \<Rightarrow> bool" where
  "sem_wf s \<longleftrightarrow>
     distinct (sem_wait_list (sys_sem s)) \<and>
     (\<forall>t. t \<in> set (sem_wait_list (sys_sem s)) \<longleftrightarrow> asleep s t \<and> \<not> sys_up s t) \<and>
     (sem_wait_list (sys_sem s) = [] \<or> sem_count (sys_sem s) = 0) \<and>
     (\<forall>t timeout. sys_phase s t = Asleep Down timeout \<longrightarrow> timeout = MAX_SCHEDULE_TIMEOUT) \<and>
     finite (granted s)"

lemma call_down_eq:
  "call_down c sem ups t sg =
    (if sem_count sem > 0 then ((sem\<lparr>sem_count := sem_count sem - 1\<rparr>, Some 0), ups)
     else raw_down_common sem ups t (call_state c) (call_timeout c) sg)"
  by (cases c) (simp_all add: down_def down_interruptible_def down_killable_def down_timeout_def
      raw_down_def raw_down_interruptible_def raw_down_killable_def raw_down_timeout_def)

lemma down_loop_Down [simp]:
  "raw_down_loop sem t TASK_UNINTERRUPTIBLE MAX_SCHEDULE_TIMEOUT sg = (sem, None)"
  by (simp add: raw_down_loop_def signal_pending_state_def TASK_UNINTERRUPTIBLE_def TASK_INTERRUPTIBLE_def
      TASK_WAKEKILL_def MAX_SCHEDULE_TIMEOUT_def)

lemma schedule_timeout_MAX [simp]: "schedule_timeout MAX_SCHEDULE_TIMEOUT e = MAX_SCHEDULE_TIMEOUT"
  by (simp add: schedule_timeout_def MAX_SCHEDULE_TIMEOUT_def)

lemma loop_cases:
  obtains (gone) r where "raw_down_loop sem t st timeout sg = (sem\<lparr>sem_wait_list := remove1 t (sem_wait_list sem)\<rparr>, Some r)" "r \<noteq> 0"
  | (sleep) "raw_down_loop sem t st timeout sg = (sem, None)"
proof -
  consider "signal_pending_state st sg" | "\<not> signal_pending_state st sg" "timeout \<le> 0"
    | "\<not> signal_pending_state st sg" "\<not> timeout \<le> 0" by blast
  then show ?thesis
  proof cases
    case 1
    then show ?thesis by (intro gone [of "- EINTR"]) (simp_all add: raw_down_loop_def EINTR_def)
  next
    case 2
    then show ?thesis by (intro gone [of "- ETIME"]) (simp_all add: raw_down_loop_def ETIME_def)
  next
    case 3
    then show ?thesis by (intro sleep) (simp add: raw_down_loop_def)
  qed
qed

lemma trylock_cases:
  obtains (got) "down_trylock sem = (0, sem\<lparr>sem_count := sem_count sem - 1\<rparr>)" "sem_count sem > 0"
  | (failed) "down_trylock sem = (1, sem)"
proof (cases "sint (sem_count sem - 1) < 0")
  case True
  then show ?thesis using failed by (simp add: down_trylock_def)
next
  case False
  then have "sem_count sem \<noteq> 0" by auto
  then show ?thesis using False got by (simp add: down_trylock_def word_gt_0)
qed

lemma sem_wf_init: "sem_wf (sys_init n)"
  by (simp add: sem_wf_def sys_init_def sema_init_def granted_def)

text \<open>
  The three ways a step changes the system: a task takes a free unit, goes to the end of the queue, or
  leaves the queue; and what \<open>up\<close> does.
\<close>

lemma EDown_cases:
  assumes "sem_wf s" and "sem_step (EDown t c sg) s = Some (r, s')"
  obtains (fast) "sem_count (sys_sem s) > 0" "r = Some 0"
      "s' = s\<lparr>sys_sem := (sys_sem s)\<lparr>sem_count := sem_count (sys_sem s) - 1\<rparr>\<rparr>"
  | (failed) x where "sem_count (sys_sem s) = 0" "r = Some x" "x \<noteq> 0"
      "s' = s\<lparr>sys_up := (sys_up s)(t := False)\<rparr>" "\<not> asleep s t"
  | (queued) "sem_count (sys_sem s) = 0" "r = None" "\<not> asleep s t"
      "s' = s\<lparr>sys_sem := (sys_sem s)\<lparr>sem_wait_list := sem_wait_list (sys_sem s) @ [t]\<rparr>,
        sys_up := (sys_up s)(t := False), sys_phase := (sys_phase s)(t := Asleep c (call_timeout c))\<rparr>"
proof -
  have run: "sys_phase s t = Running" using assms(2) by (auto split: if_splits)
  then have t: "t \<notin> set (sem_wait_list (sys_sem s))" using assms(1) by (auto simp: sem_wf_def)
  show ?thesis
  proof (cases "sem_count (sys_sem s) > 0")
    case True
    then show ?thesis using fast assms(2) run by (auto simp: call_down_eq call_result_def fun_upd_idem)
  next
    case False
    then have z: "sem_count (sys_sem s) = 0" by (simp add: word_gt_0)
    let ?q = "(sys_sem s)\<lparr>sem_wait_list := sem_wait_list (sys_sem s) @ [t]\<rparr>"
    show ?thesis
    proof (cases rule: loop_cases [of ?q t "call_state c" "call_timeout c" sg])
      case (gone x)
      have "c \<noteq> Down" using gone(1) by auto
      then show ?thesis using failed [of x] z assms(2) run gone t
        by (auto simp: call_down_eq raw_down_common_def call_result_def fun_upd_idem remove1_append)
    next
      case sleep
      then show ?thesis using queued z assms(2) run by (auto simp: call_down_eq raw_down_common_def call_result_def)
    qed
  qed
qed

lemma EResume_cases:
  assumes "sem_wf s" and "sem_step (EResume t elapsed sg) s = Some (r, s')"
  obtains (got) "t \<in> granted s" "r = Some 0" "s' = s\<lparr>sys_phase := (sys_phase s)(t := Running)\<rparr>"
  | (left) x where "t \<in> set (sem_wait_list (sys_sem s))" "r = Some x" "x \<noteq> 0"
      "s' = s\<lparr>sys_sem := (sys_sem s)\<lparr>sem_wait_list := remove1 t (sem_wait_list (sys_sem s))\<rparr>,
        sys_phase := (sys_phase s)(t := Running)\<rparr>"
  | (again) c timeout where "t \<in> set (sem_wait_list (sys_sem s))" "r = None"
      "s' = s\<lparr>sys_phase := (sys_phase s)(t := Asleep c timeout)\<rparr>" "c = Down \<Longrightarrow> timeout = MAX_SCHEDULE_TIMEOUT"
proof -
  obtain c timeout where ph: "sys_phase s t = Asleep c timeout" using assms(2) by (auto split: task_phase.splits)
  have max: "c = Down \<Longrightarrow> timeout = MAX_SCHEDULE_TIMEOUT" using assms(1) ph by (auto simp: sem_wf_def)
  show ?thesis
  proof (cases "sys_up s t")
    case True
    then show ?thesis using got assms(2) ph by (auto simp: raw_down_resume_def granted_def call_result_def Let_def)
  next
    case False
    then have t: "t \<in> set (sem_wait_list (sys_sem s))" using assms(1) ph by (auto simp: sem_wf_def)
    show ?thesis
    proof (cases rule: loop_cases [of "sys_sem s" t "call_state c" "schedule_timeout timeout elapsed" sg])
      case (gone x)
      then have "c \<noteq> Down" using max by auto
      then show ?thesis using left [of x] t assms(2) ph gone False
        by (auto simp: raw_down_resume_def call_result_def Let_def)
    next
      case sleep
      then show ?thesis using again [of c "schedule_timeout timeout elapsed"] t assms(2) ph False max
        by (auto simp: raw_down_resume_def call_result_def Let_def)
    qed
  qed
qed

lemma EUp_cases:
  assumes "sem_step EUp s = Some (r, s')"
  obtains (free) "sem_wait_list (sys_sem s) = []" "s' = s\<lparr>sys_sem := (sys_sem s)\<lparr>sem_count := sem_count (sys_sem s) + 1\<rparr>\<rparr>"
  | (hand) w ws where "sem_wait_list (sys_sem s) = w # ws"
      "s' = s\<lparr>sys_sem := (sys_sem s)\<lparr>sem_wait_list := ws\<rparr>, sys_up := (sys_up s)(w := True)\<rparr>"
  using assms by (cases "sem_wait_list (sys_sem s)") (auto simp: up_def raw_up_def)

lemma ETrylock_cases:
  assumes "sem_step (ETrylock t) s = Some (r, s')"
  obtains (got) "sem_count (sys_sem s) > 0" "r = Some 0"
      "s' = s\<lparr>sys_sem := (sys_sem s)\<lparr>sem_count := sem_count (sys_sem s) - 1\<rparr>\<rparr>"
  | (failed) "r = Some 1" "s' = s"
proof (cases rule: trylock_cases [of "sys_sem s"])
  case got
  then show ?thesis using that(1) assms by (simp split: if_splits)
next
  case failed
  then show ?thesis using that(2) assms by (simp split: if_splits)
qed

text \<open>What is counted: a step moves one unit between the counter, the callers and the granted tasks.\<close>

lemma granted_simps:
  "granted (s\<lparr>sys_sem := x\<rparr>) = granted s"
  "\<not> asleep s t \<Longrightarrow> granted (s\<lparr>sys_up := (sys_up s)(t := False)\<rparr>) = granted s"
  "granted (s\<lparr>sys_sem := x, sys_up := (sys_up s)(t := False), sys_phase := f\<rparr>) =
     {u. u \<noteq> t \<and> f u \<noteq> Running \<and> sys_up s u}"
  "granted (s\<lparr>sys_phase := (sys_phase s)(t := Running)\<rparr>) = granted s - {t}"
  "granted (s\<lparr>sys_sem := x, sys_phase := (sys_phase s)(t := Running)\<rparr>) = granted s - {t}"
  "\<not> sys_up s t \<Longrightarrow> granted (s\<lparr>sys_phase := (sys_phase s)(t := p)\<rparr>) = granted s"
  "asleep s t \<Longrightarrow> granted (s\<lparr>sys_sem := x, sys_up := (sys_up s)(t := True)\<rparr>) = insert t (granted s)"
  by (auto simp: granted_def)

lemma sem_wfD:
  assumes "sem_wf s"
  shows "distinct (sem_wait_list (sys_sem s))" "\<And>t. t \<in> set (sem_wait_list (sys_sem s)) \<longleftrightarrow> asleep s t \<and> \<not> sys_up s t"
    "sem_wait_list (sys_sem s) = [] \<or> sem_count (sys_sem s) = 0"
    "\<And>t timeout. sys_phase s t = Asleep Down timeout \<Longrightarrow> timeout = MAX_SCHEDULE_TIMEOUT" "finite (granted s)"
  using assms by (auto simp: sem_wf_def)

lemma sem_wf_count:
  "sem_wf s \<Longrightarrow> sem_wait_list (sys_sem s) = [] \<Longrightarrow> sem_wf (s\<lparr>sys_sem := (sys_sem s)\<lparr>sem_count := n\<rparr>\<rparr>)"
  by (simp add: sem_wf_def granted_simps)

lemma EDown_ok:
  assumes "sem_wf s" and "sem_step (EDown t c sg) s = Some (r, s')"
  shows "sem_wf s' \<and> unat (sem_count (sys_sem s')) + of_bool (r = Some 0) + card (granted s') =
    unat (sem_count (sys_sem s)) + card (granted s)"
  using assms
proof (cases rule: EDown_cases)
  case fast
  then have "sem_wait_list (sys_sem s) = []" using sem_wfD(3) [OF assms(1)] by auto
  moreover have "unat (sem_count (sys_sem s) - 1) = unat (sem_count (sys_sem s)) - 1" "0 < unat (sem_count (sys_sem s))"
    using fast(1) by (auto simp: unat_pred unat_gt_0)
  ultimately show ?thesis using fast sem_wf_count [OF assms(1)] by (simp add: granted_simps)
next
  case (failed x)
  then show ?thesis using assms(1) by (auto simp: sem_wf_def granted_simps)
next
  case queued
  have g: "granted s' = granted s" using queued(3,4) by (auto simp: granted_def)
  show ?thesis using assms(1) queued g by (auto simp: sem_wf_def)
qed

lemma EResume_ok:
  assumes "sem_wf s" and "sem_step (EResume t el sg) s = Some (r, s')"
  shows "sem_wf s' \<and> unat (sem_count (sys_sem s')) + of_bool (r = Some 0) + card (granted s') =
    unat (sem_count (sys_sem s)) + card (granted s)"
  using assms
proof (cases rule: EResume_cases)
  case got
  have "card (granted s) = Suc (card (granted s - {t}))" using got(1) sem_wfD(5) [OF assms(1)] by (rule card_Suc_Diff1 [symmetric, rotated])
  moreover have "sys_up s t" using got(1) by (simp add: granted_def)
  ultimately show ?thesis using assms(1) got by (auto simp: sem_wf_def granted_simps)
next
  case (left x)
  have "t \<notin> granted s" using left(1) sem_wfD(2) [OF assms(1)] by (auto simp: granted_def)
  then show ?thesis using assms(1) left by (auto simp: sem_wf_def granted_simps)
next
  case (again c timeout)
  have u: "\<not> sys_up s t" using again(1) sem_wfD(2) [OF assms(1)] by auto
  then show ?thesis using assms(1) again by (auto simp: sem_wf_def granted_simps)
qed

lemma ETrylock_ok:
  assumes "sem_wf s" and "sem_step (ETrylock t) s = Some (r, s')"
  shows "sem_wf s' \<and> unat (sem_count (sys_sem s')) + of_bool (r = Some 0) + card (granted s') =
    unat (sem_count (sys_sem s)) + card (granted s)"
  using assms(2)
proof (cases rule: ETrylock_cases)
  case got
  then have "sem_wait_list (sys_sem s) = []" using sem_wfD(3) [OF assms(1)] by auto
  moreover have "unat (sem_count (sys_sem s) - 1) = unat (sem_count (sys_sem s)) - 1" "0 < unat (sem_count (sys_sem s))"
    using got(1) by (auto simp: unat_pred unat_gt_0)
  ultimately show ?thesis using got sem_wf_count [OF assms(1)] by (simp add: granted_simps)
next
  case failed
  then show ?thesis using assms(1) by simp
qed

lemma EUp_ok:
  assumes "sem_wf s" and "sem_step EUp s = Some (r, s')"
  shows "sem_wf s'" "unat (sem_count (sys_sem s)) + 1 < 2 ^ 32 \<Longrightarrow>
    unat (sem_count (sys_sem s')) + card (granted s') = unat (sem_count (sys_sem s)) + card (granted s) + 1"
proof -
  have "sem_wf s' \<and> (unat (sem_count (sys_sem s)) + 1 < 2 ^ 32 \<longrightarrow>
    unat (sem_count (sys_sem s')) + card (granted s') = unat (sem_count (sys_sem s)) + card (granted s) + 1)"
    using assms(2)
  proof (cases rule: EUp_cases)
    case free
    then show ?thesis using sem_wf_count [OF assms(1)] by (simp add: granted_simps unat_add_less)
  next
    case (hand w ws)
    have w: "asleep s w" "\<not> sys_up s w" using sem_wfD(2) [OF assms(1), of w] hand(1) by auto
    then have "w \<notin> granted s" by (simp add: granted_def)
    then have "granted s' = insert w (granted s)" "card (insert w (granted s)) = Suc (card (granted s))"
      using w sem_wfD(5) [OF assms(1)] by (simp_all add: hand(2) granted_simps)
    then show ?thesis using assms(1) hand by (auto simp: sem_wf_def)
  qed
  then show "sem_wf s'" "unat (sem_count (sys_sem s)) + 1 < 2 ^ 32 \<Longrightarrow>
    unat (sem_count (sys_sem s')) + card (granted s') = unat (sem_count (sys_sem s)) + card (granted s) + 1" by simp_all
qed

lemma sem_step_wf: "sem_wf s \<Longrightarrow> sem_step e s = Some (r, s') \<Longrightarrow> sem_wf s'"
  using EDown_ok EResume_ok ETrylock_ok EUp_ok(1) by (cases e) blast+

lemma sem_run_wf: "sem_run s tr s' \<Longrightarrow> sem_wf s \<Longrightarrow> sem_wf s'"
  by (induction rule: sem_run.induct) (auto dest: sem_step_wf)

lemma counts_snoc:
  "acquisitions (tr @ [(e, r)]) = acquisitions tr + of_bool (e \<noteq> EUp \<and> r = Some 0)"
  "releases (tr @ [(e, r)]) = releases tr + of_bool (e = EUp)"
  by (simp_all add: acquisitions_def releases_def)

lemma sem_run_ledger:
  assumes "sem_run s tr s'" and "sem_wf s" and "unat (sem_count (sys_sem s)) + card (granted s) + releases tr < 2 ^ 32"
  shows "unat (sem_count (sys_sem s')) + acquisitions tr + card (granted s') =
    unat (sem_count (sys_sem s)) + card (granted s) + releases tr"
  using assms
proof (induction rule: sem_run.induct)
  case (start s)
  then show ?case by (simp add: acquisitions_def releases_def)
next
  case (step s tr s1 e r s2)
  have IH: "unat (sem_count (sys_sem s1)) + acquisitions tr + card (granted s1) =
      unat (sem_count (sys_sem s)) + card (granted s) + releases tr"
    using step.IH step.prems by (simp add: counts_snoc)
  have wf: "sem_wf s1" using step.hyps(1) step.prems(1) by (rule sem_run_wf)
  show ?case
  proof (cases "e = EUp")
    case True
    have "unat (sem_count (sys_sem s1)) + 1 < 2 ^ 32" using IH step.prems(2) True by (simp add: counts_snoc)
    then show ?thesis using EUp_ok(2) [OF wf, of r s2] step.hyps(2) IH True by (simp add: counts_snoc)
  next
    case False
    then have "unat (sem_count (sys_sem s2)) + of_bool (r = Some 0) + card (granted s2) =
        unat (sem_count (sys_sem s1)) + card (granted s1)"
      using EDown_ok [OF wf] EResume_ok [OF wf] ETrylock_ok [OF wf] step.hyps(2) by (cases e) blast+
    then show ?thesis using IH False by (simp add: counts_snoc)
  qed
qed

section \<open>The queue\<close>

text \<open>
  A sleeping task that does not run keeps its place in the queue or moves forward; each \<open>up\<close> moves it
  forward by one or hands it the semaphore, and what it was handed stays with it.
\<close>

definition in_line :: "nat \<Rightarrow> nat \<Rightarrow> sem_sys \<Rightarrow> bool" where
  "in_line t n s \<longleftrightarrow> asleep s t \<and> (sys_up s t \<or> t \<in> set (take n (sem_wait_list (sys_sem s))))"

lemma in_take_remove1: "t \<in> set (take n xs) \<Longrightarrow> u \<noteq> t \<Longrightarrow> t \<in> set (take n (remove1 u xs))"
proof (induction xs arbitrary: n)
  case (Cons x xs)
  show ?case
  proof (cases n)
    case (Suc m)
    have "t \<in> set (take m xs) \<Longrightarrow> t \<in> set (take (Suc m) xs)" by (auto dest: set_take_subset_set_take [of m "Suc m", THEN subsetD, rotated])
    then show ?thesis using Cons Suc by auto
  qed (use Cons.prems in simp)
qed simp

lemma in_line_step:
  assumes "sem_wf s" and "in_line t n s" and "sem_step e s = Some (r, s')" and "\<And>x y. e \<noteq> EResume t x y" and "e \<noteq> EUp"
  shows "in_line t n s'"
proof (cases e)
  case (EDown u c sg)
  have "sem_step (EDown u c sg) s = Some (r, s')" using assms(3) EDown by simp
  with assms(1) show ?thesis
  proof (cases rule: EDown_cases)
    case queued
    then have "u \<noteq> t" using assms(2) by (auto simp: in_line_def)
    then show ?thesis using assms(2) queued by (auto simp: in_line_def)
  qed (use assms(2) in \<open>auto simp: in_line_def\<close>)
next
  case (EResume u x sg)
  have u: "u \<noteq> t" using assms(4) [of x sg] EResume by blast
  have "sem_step (EResume u x sg) s = Some (r, s')" using assms(3) EResume by simp
  with assms(1) show ?thesis
    by (cases rule: EResume_cases) (use assms(2) u in_take_remove1 [of t n _ u] in \<open>auto simp: in_line_def\<close>)
next
  case (ETrylock u)
  have "sem_step (ETrylock u) s = Some (r, s')" using assms(3) ETrylock by simp
  then show ?thesis by (cases rule: ETrylock_cases) (use assms(2) in \<open>auto simp: in_line_def\<close>)
qed (use assms(5) in simp)

lemma in_line_up:
  assumes "in_line t n s" and "sem_step EUp s = Some (r, s')"
  shows "in_line t (n - 1) s'"
  using assms(2)
proof (cases rule: EUp_cases)
  case free
  then show ?thesis using assms(1) by (auto simp: in_line_def)
next
  case (hand w ws)
  then show ?thesis using assms(1) by (cases n) (auto simp: in_line_def)
qed

lemma in_line_run:
  assumes "sem_run s tr s'" and "sem_wf s" and "in_line t n s"
    and "list_all (\<lambda>(e, _). case e of EResume u _ _ \<Rightarrow> u \<noteq> t | _ \<Rightarrow> True) tr"
  shows "in_line t (n - releases tr) s'"
  using assms
proof (induction rule: sem_run.induct)
  case (step s tr s1 e r s2)
  have IH: "in_line t (n - releases tr) s1" using step.IH step.prems by simp
  have wf: "sem_wf s1" using step.hyps(1) step.prems(1) by (rule sem_run_wf)
  have e: "e \<noteq> EResume t x y" for x y using step.prems(3) by auto
  show ?case
  proof (cases "e = EUp")
    case True
    then show ?thesis using in_line_up [OF IH] step.hyps(2) by (simp add: counts_snoc)
  next
    case False
    then show ?thesis using in_line_step [OF wf IH step.hyps(2) e] by (simp add: counts_snoc)
  qed
qed (simp add: releases_def)

lemma granted_resume:
  "asleep s t \<Longrightarrow> sys_up s t \<Longrightarrow> \<exists>s'. sem_step (EResume t el sg) s = Some (Some 0, s')"
  by (auto simp: raw_down_resume_def call_result_def Let_def split: task_phase.splits)

text \<open>Concrete runs are computed.\<close>

fun sem_exec :: "sem_event list \<Rightarrow> sem_sys \<Rightarrow> ((sem_event \<times> int option) list \<times> sem_sys) option" where
  "sem_exec [] s = Some ([], s)"
| "sem_exec (e # es) s = do { (r, s1) \<leftarrow> sem_step e s; (tr, s2) \<leftarrow> sem_exec es s1; Some ((e, r) # tr, s2) }"

lemma sem_run_Cons: "sem_run s1 tr s2 \<Longrightarrow> sem_step e s = Some (r, s1) \<Longrightarrow> sem_run s ((e, r) # tr) s2"
proof (induction rule: sem_run.induct)
  case (start s1)
  then show ?case using sem_run.step [OF sem_run.start, of e s r s1] by simp
next
  case (step s1 tr s3 e' r' s2)
  then show ?case using sem_run.step [of s "(e, r) # tr" s3 e' r' s2] by simp
qed

lemma sem_exec_run: "sem_exec es s = Some (tr, s') \<Longrightarrow> sem_run s tr s'"
  by (induction es arbitrary: s tr) (auto intro: sem_run.start sem_run_Cons)

section \<open>Properties\<close>

text \<open>
  C5: In every run of any number of tasks from a semaphore initialised to \<open>n\<close>, in which fewer than
  \<open>2 ^ 32 - n\<close> releases happen, the counter, the successful acquisitions (returns of \<open>down\<close>, and
  returns of 0 of the other calls) and the tasks that were handed the semaphore but have not run yet add
  up to \<open>n\<close> plus the releases. So at most \<open>n\<close> holders exist at any time, and signals, timeouts and
  spurious wake-ups neither lose nor create a unit. Tasks wait only while the counter is 0.
\<close>

theorem semaphore_ledger:
  assumes "sem_run (sys_init n) tr s" and "unat n + releases tr < 2 ^ 32"
  shows "unat (sem_count (sys_sem s)) + acquisitions tr + card (granted s) = unat n + releases tr \<and>
    (sem_wait_list (sys_sem s) = [] \<or> sem_count (sys_sem s) = 0)"
proof -
  have i: "sem_wf (sys_init n)" "unat (sem_count (sys_sem (sys_init n))) + card (granted (sys_init n)) = unat n"
    using sem_wf_init by (simp_all add: sys_init_def sema_init_def granted_def)
  show ?thesis using sem_run_ledger [OF assms(1) i(1)] i(2) assms(2) sem_wfD(3) [OF sem_run_wf [OF assms(1) i(1)]] by simp
qed

theorem semaphore_ledger_witness:
  "\<exists>s. sem_run (sys_init 1) [(EDown 0 Down (True, True), Some 0), (EDown 7 Down (True, True), None),
        (EDown 8 Down_interruptible (True, False), Some (- EINTR)), (EUp, Some 0)] s \<and>
     granted s = {7} \<and> unat (sem_count (sys_sem s)) + 1 + card (granted s) = unat (1 :: u32) + 1"
proof -
  let ?es = "[EDown 0 Down (True, True), EDown 7 Down (True, True), EDown 8 Down_interruptible (True, False), EUp]"
  let ?tr = "[(EDown 0 Down (True, True), Some 0), (EDown 7 Down (True, True), None),
        (EDown 8 Down_interruptible (True, False), Some (- EINTR)), (EUp, Some 0)]"
  obtain s where s: "sem_exec ?es (sys_init 1) = Some (?tr, s)" "granted s = {7}"
    by (simp add: sys_init_def sema_init_def granted_def call_result_def call_down_eq raw_down_common_def raw_down_loop_def
        signal_pending_state_def TASK_INTERRUPTIBLE_def TASK_UNINTERRUPTIBLE_def TASK_WAKEKILL_def MAX_SCHEDULE_TIMEOUT_def
        up_def raw_up_def)
  have "unat (sem_count (sys_sem s)) + acquisitions ?tr + card (granted s) = unat (1 :: u32) + releases ?tr"
    using semaphore_ledger [OF sem_exec_run [OF s(1)]] by (simp add: releases_def)
  then show ?thesis using sem_exec_run [OF s(1)] s(2) by (auto simp: acquisitions_def releases_def EINTR_def)
qed

text \<open>
  C7: No waiter starves. Take any reachable state in which task \<open>t\<close> waits with \<open>length pre\<close> tasks
  before it. Whatever the other tasks do from then on, once more than \<open>length pre\<close> releases have
  happened and \<open>t\<close> has not run in between, \<open>t\<close> has been handed the semaphore, and when it runs next its
  call returns 0, also when a signal is pending or its timeout has expired.
\<close>

theorem semaphore_fifo:
  assumes "sem_run (sys_init n) tr0 s" and "sem_wait_list (sys_sem s) = pre @ t # post"
    and "sem_run s tr s'" and "list_all (\<lambda>(e, _). case e of EResume u _ _ \<Rightarrow> u \<noteq> t | _ \<Rightarrow> True) tr"
    and "length pre < releases tr"
  shows "t \<in> granted s' \<and> (\<exists>s''. sem_step (EResume t elapsed sg) s' = Some (Some 0, s''))"
proof -
  have wf: "sem_wf s" using assms(1) sem_wf_init by (rule sem_run_wf)
  then have "in_line t (Suc (length pre)) s" using assms(2) by (auto simp: sem_wf_def in_line_def)
  from in_line_run [OF assms(3) wf this assms(4)] have "in_line t 0 s'" using assms(5) by simp
  then have "asleep s' t" "sys_up s' t" by (simp_all add: in_line_def)
  then show ?thesis using granted_resume by (simp add: granted_def)
qed

theorem semaphore_fifo_witness:
  "\<exists>s s' s''. sem_run (sys_init 0) [(EDown 3 Down (False, False), None), (EDown 5 (Down_timeout 9) (False, False), None)] s \<and>
     sem_run s [(EResume 3 2 (True, True), None), (EUp, Some 0), (EUp, Some 0)] s' \<and>
     5 \<in> granted s' \<and> sem_step (EResume 5 100 (True, True)) s' = Some (Some 0, s'')"
proof -
  let ?calls = "[EDown 3 Down (False, False), EDown 5 (Down_timeout 9) (False, False)]"
  let ?before = "[(EDown 3 Down (False, False), None), (EDown 5 (Down_timeout 9) (False, False), None)]"
  let ?more = "[EResume 3 2 (True, True), EUp, EUp]"
  let ?after = "[(EResume 3 2 (True, True), None), (EUp, Some 0), (EUp, Some 0)]"
  note defs = sys_init_def sema_init_def call_result_def call_down_eq raw_down_common_def raw_down_loop_def
    signal_pending_state_def TASK_INTERRUPTIBLE_def TASK_UNINTERRUPTIBLE_def TASK_WAKEKILL_def MAX_SCHEDULE_TIMEOUT_def
    up_def raw_up_def raw_down_resume_def schedule_timeout_def
  have "\<exists>s s'. sem_exec ?calls (sys_init 0) = Some (?before, s) \<and> sem_wait_list (sys_sem s) = [3] @ 5 # [] \<and>
      sem_exec ?more s = Some (?after, s')" by (simp add: defs)
  then obtain s s' where s: "sem_run (sys_init 0) ?before s" "sem_wait_list (sys_sem s) = [3] @ 5 # []" "sem_run s ?after s'"
    using sem_exec_run by metis
  show ?thesis using semaphore_fifo [OF s, of 100 "(True, True)"] s(1,3) by (auto simp: releases_def)
qed

end
