(* ===== verification/Rwsem.thy ===== *)
theory Rwsem
  imports KPrelude
begin

text \<open>
  The readers-writer semaphore of \<open>lib/rwsem-spinlock.c\<close>, the implementation the MIPS configuration
  selects. A task is a natural number with at most one waiter, which lives on its stack; the waiter's
  \<open>task\<close> field set to \<open>NULL\<close> is the flag that the lock has been granted. Every section under
  \<open>wait_lock\<close> is one atomic step, and so is one look of a waiting task at its waiter. \<open>activity\<close>, an
  \<open>__s32\<close>, is an integer here: it is shown to be -1 or the number of active readers, which the
  limit on the number of tasks keeps far below \<open>2 ^ 31\<close>.
\<close>

section \<open>The code\<close>

definition RWSEM_WAITING_FOR_READ :: u32 where "RWSEM_WAITING_FOR_READ = 1"
definition RWSEM_WAITING_FOR_WRITE :: u32 where "RWSEM_WAITING_FOR_WRITE = 2"

record rwsem_waiter =
  w_task :: nat
  w_flags :: u32

record rw_semaphore =
  activity :: int
  rw_wait_list :: "rwsem_waiter list"

text \<open>The tasks whose waiter has a \<open>task\<close> field equal to \<open>NULL\<close>.\<close>

type_synonym nulled = "nat \<Rightarrow> bool"

definition raw_init_rwsem :: rw_semaphore where
  "raw_init_rwsem = \<lparr>activity = 0, rw_wait_list = []\<rparr>"

fun wake_readers :: "rwsem_waiter list \<Rightarrow> nulled \<Rightarrow> int \<Rightarrow> rwsem_waiter list \<times> nulled \<times> int" where
  "wake_readers [] nl woken = ([], nl, woken)"
| "wake_readers (waiter # ws) nl woken =
    (if w_flags waiter AND RWSEM_WAITING_FOR_READ \<noteq> 0
     then wake_readers ws (nl(w_task waiter := True)) (woken + 1)
     else (waiter # ws, nl, woken))"

definition dont_wake_writers :: "rw_semaphore \<Rightarrow> nulled \<Rightarrow> rw_semaphore \<times> nulled" where
  "dont_wake_writers sem nl =
    (case wake_readers (rw_wait_list sem) nl 0 of (ws, nl, woken) \<Rightarrow>
       (sem\<lparr>rw_wait_list := ws, activity := activity sem + woken\<rparr>, nl))"

definition raw_rwsem_do_wake :: "rw_semaphore \<Rightarrow> nulled \<Rightarrow> bool \<Rightarrow> (rw_semaphore \<times> nulled) option" where
  "raw_rwsem_do_wake sem nl wakewrite =
    (case rw_wait_list sem of
       [] \<Rightarrow> None
     | waiter # ws \<Rightarrow> Some (
         if \<not> wakewrite then
           (if w_flags waiter AND RWSEM_WAITING_FOR_WRITE \<noteq> 0 then (sem, nl) else dont_wake_writers sem nl)
         else if w_flags waiter AND RWSEM_WAITING_FOR_WRITE \<noteq> 0
         then (sem\<lparr>activity := -1, rw_wait_list := ws\<rparr>, nl(w_task waiter := True))
         else dont_wake_writers sem nl))"

definition raw_rwsem_wake_one_writer :: "rw_semaphore \<Rightarrow> nulled \<Rightarrow> (rw_semaphore \<times> nulled) option" where
  "raw_rwsem_wake_one_writer sem nl =
    (case rw_wait_list sem of
       [] \<Rightarrow> None
     | waiter # ws \<Rightarrow> Some (sem\<lparr>activity := -1, rw_wait_list := ws\<rparr>, nl(w_task waiter := True)))"

text \<open>The flag says whether the lock was granted at once; otherwise the task waits.\<close>

definition raw_down_read :: "rw_semaphore \<Rightarrow> nulled \<Rightarrow> nat \<Rightarrow> bool \<times> rw_semaphore \<times> nulled" where
  "raw_down_read sem nl tsk =
    (if activity sem \<ge> 0 \<and> rw_wait_list sem = [] then (True, sem\<lparr>activity := activity sem + 1\<rparr>, nl)
     else (False, sem\<lparr>rw_wait_list := rw_wait_list sem @ [\<lparr>w_task = tsk, w_flags = RWSEM_WAITING_FOR_READ\<rparr>]\<rparr>,
           nl(tsk := False)))"

definition raw_down_read_trylock :: "rw_semaphore \<Rightarrow> int \<times> rw_semaphore" where
  "raw_down_read_trylock sem =
    (if activity sem \<ge> 0 \<and> rw_wait_list sem = [] then (1, sem\<lparr>activity := activity sem + 1\<rparr>) else (0, sem))"

definition raw_down_write_nested :: "rw_semaphore \<Rightarrow> nulled \<Rightarrow> nat \<Rightarrow> bool \<times> rw_semaphore \<times> nulled" where
  "raw_down_write_nested sem nl tsk =
    (if activity sem = 0 \<and> rw_wait_list sem = [] then (True, sem\<lparr>activity := -1\<rparr>, nl)
     else (False, sem\<lparr>rw_wait_list := rw_wait_list sem @ [\<lparr>w_task = tsk, w_flags = RWSEM_WAITING_FOR_WRITE\<rparr>]\<rparr>,
           nl(tsk := False)))"

definition raw_down_write :: "rw_semaphore \<Rightarrow> nulled \<Rightarrow> nat \<Rightarrow> bool \<times> rw_semaphore \<times> nulled" where
  "raw_down_write sem nl tsk = raw_down_write_nested sem nl tsk"

definition raw_down_write_trylock :: "rw_semaphore \<Rightarrow> int \<times> rw_semaphore" where
  "raw_down_write_trylock sem =
    (if activity sem = 0 \<and> rw_wait_list sem = [] then (1, sem\<lparr>activity := -1\<rparr>) else (0, sem))"

definition raw_up_read :: "rw_semaphore \<Rightarrow> nulled \<Rightarrow> (rw_semaphore \<times> nulled) option" where
  "raw_up_read sem nl =
    (let sem = sem\<lparr>activity := activity sem - 1\<rparr>
     in if activity sem = 0 \<and> rw_wait_list sem \<noteq> [] then raw_rwsem_wake_one_writer sem nl else Some (sem, nl))"

definition raw_up_write :: "rw_semaphore \<Rightarrow> nulled \<Rightarrow> (rw_semaphore \<times> nulled) option" where
  "raw_up_write sem nl =
    (let sem = sem\<lparr>activity := 0\<rparr>
     in if rw_wait_list sem \<noteq> [] then raw_rwsem_do_wake sem nl True else Some (sem, nl))"

definition raw_downgrade_write :: "rw_semaphore \<Rightarrow> nulled \<Rightarrow> (rw_semaphore \<times> nulled) option" where
  "raw_downgrade_write sem nl =
    (let sem = sem\<lparr>activity := 1\<rparr>
     in if rw_wait_list sem \<noteq> [] then raw_rwsem_do_wake sem nl False else Some (sem, nl))"

section \<open>Tasks and steps\<close>

datatype rw_phase = Idle | Wait_read | Wait_write | Reader | Writer

record rw_sys =
  rw_sem :: rw_semaphore
  rw_null :: nulled
  rw_phase :: "nat \<Rightarrow> rw_phase"

text \<open>
  One round of the loop in which a queued task waits to be given the lock: it leaves the loop when the
  \<open>task\<close> field of its waiter has become \<open>NULL\<close>, and otherwise sleeps until it is scheduled again.
\<close>

definition down_read_wait :: "nulled \<Rightarrow> nat \<Rightarrow> bool" where [simp]: "down_read_wait nl t = nl t"

definition down_write_wait :: "nulled \<Rightarrow> nat \<Rightarrow> bool" where [simp]: "down_write_wait nl t = nl t"

datatype rw_event = Read nat | Read_try nat | Write nat | Write_try nat | Look nat | Up_read nat | Up_write nat | Downgrade nat

definition set_phase :: "rw_sys \<Rightarrow> nat \<Rightarrow> rw_phase \<Rightarrow> rw_semaphore \<times> nulled \<Rightarrow> rw_sys" where
  "set_phase s t p x = s\<lparr>rw_sem := fst x, rw_null := snd x, rw_phase := (rw_phase s)(t := p)\<rparr>"

text \<open>
  A step is possible when the task may make the call: a task asks for the lock only when it does not
  hold it or wait for it, and releases what it holds. \<open>Look\<close> is one round of the loop in which a waiting
  task looks at its waiter. \<open>None\<close> is a call the task may not make, or a crash of the code.
\<close>

fun rw_step :: "rw_event \<Rightarrow> rw_sys \<Rightarrow> rw_sys option" where
  "rw_step (Read t) s =
    (if rw_phase s t = Idle then
       (case raw_down_read (rw_sem s) (rw_null s) t of (ok, x) \<Rightarrow> Some (set_phase s t (if ok then Reader else Wait_read) x))
     else None)"
| "rw_step (Write t) s =
    (if rw_phase s t = Idle then
       (case raw_down_write (rw_sem s) (rw_null s) t of (ok, x) \<Rightarrow> Some (set_phase s t (if ok then Writer else Wait_write) x))
     else None)"
| "rw_step (Read_try t) s =
    (if rw_phase s t = Idle then
       (case raw_down_read_trylock (rw_sem s) of (r, sem) \<Rightarrow> Some (set_phase s t (if r = 1 then Reader else Idle) (sem, rw_null s)))
     else None)"
| "rw_step (Write_try t) s =
    (if rw_phase s t = Idle then
       (case raw_down_write_trylock (rw_sem s) of (r, sem) \<Rightarrow> Some (set_phase s t (if r = 1 then Writer else Idle) (sem, rw_null s)))
     else None)"
| "rw_step (Look t) s =
    (case rw_phase s t of
       Wait_read \<Rightarrow> Some (if down_read_wait (rw_null s) t then set_phase s t Reader (rw_sem s, rw_null s) else s)
     | Wait_write \<Rightarrow> Some (if down_write_wait (rw_null s) t then set_phase s t Writer (rw_sem s, rw_null s) else s)
     | _ \<Rightarrow> None)"
| "rw_step (Up_read t) s =
    (if rw_phase s t = Reader then map_option (set_phase s t Idle) (raw_up_read (rw_sem s) (rw_null s)) else None)"
| "rw_step (Up_write t) s =
    (if rw_phase s t = Writer then map_option (set_phase s t Idle) (raw_up_write (rw_sem s) (rw_null s)) else None)"
| "rw_step (Downgrade t) s =
    (if rw_phase s t = Writer then map_option (set_phase s t Reader) (raw_downgrade_write (rw_sem s) (rw_null s)) else None)"

definition rw_init :: rw_sys where
  "rw_init = \<lparr>rw_sem = raw_init_rwsem, rw_null = (\<lambda>_. False), rw_phase = (\<lambda>_. Idle)\<rparr>"

inductive rw_run :: "rw_sys \<Rightarrow> rw_event list \<Rightarrow> rw_sys \<Rightarrow> bool" where
  rw_start: "rw_run s [] s"
| rw_next: "rw_run s es s1 \<Longrightarrow> rw_step e s1 = Some s2 \<Longrightarrow> rw_run s (es @ [e]) s2"

section \<open>The invariant\<close>

text \<open>Active tasks hold the lock or have been granted it without having looked.\<close>

definition readers :: "rw_sys \<Rightarrow> nat set" where
  "readers s = {t. rw_phase s t = Reader \<or> rw_phase s t = Wait_read \<and> rw_null s t}"

definition writers :: "rw_sys \<Rightarrow> nat set" where
  "writers s = {t. rw_phase s t = Writer \<or> rw_phase s t = Wait_write \<and> rw_null s t}"

definition is_writer :: "rwsem_waiter \<Rightarrow> bool" where
  "is_writer w \<longleftrightarrow> w_flags w = RWSEM_WAITING_FOR_WRITE"

definition queue_ok :: "rw_sys \<Rightarrow> bool" where
  "queue_ok s \<longleftrightarrow>
     distinct (map w_task (rw_wait_list (rw_sem s))) \<and>
     (\<forall>t f. \<lparr>w_task = t, w_flags = f\<rparr> \<in> set (rw_wait_list (rw_sem s)) \<longleftrightarrow>
        \<not> rw_null s t \<and> (rw_phase s t = Wait_read \<and> f = RWSEM_WAITING_FOR_READ \<or>
                          rw_phase s t = Wait_write \<and> f = RWSEM_WAITING_FOR_WRITE))"

definition count_ok :: "int \<Rightarrow> nat set \<Rightarrow> nat set \<Rightarrow> bool" where
  "count_ok a R W \<longleftrightarrow> finite R \<and> finite W \<and>
     (a \<ge> 0 \<and> W = {} \<and> a = int (card R) \<or> a = -1 \<and> R = {} \<and> card W = 1)"

definition front_ok :: "rw_semaphore \<Rightarrow> bool" where
  "front_ok sem \<longleftrightarrow> rw_wait_list sem = [] \<or> activity sem = -1 \<or> activity sem > 0 \<and> is_writer (hd (rw_wait_list sem))"

definition rw_wf :: "rw_sys \<Rightarrow> bool" where
  "rw_wf s \<longleftrightarrow> queue_ok s \<and> count_ok (activity (rw_sem s)) (readers s) (writers s) \<and> front_ok (rw_sem s)"

lemma flag_simps [simp]:
  "RWSEM_WAITING_FOR_READ \<noteq> 0" "RWSEM_WAITING_FOR_WRITE \<noteq> 0" "RWSEM_WAITING_FOR_WRITE AND RWSEM_WAITING_FOR_READ = 0"
  "RWSEM_WAITING_FOR_READ AND RWSEM_WAITING_FOR_WRITE = 0"
  "RWSEM_WAITING_FOR_READ \<noteq> RWSEM_WAITING_FOR_WRITE" "RWSEM_WAITING_FOR_WRITE \<noteq> RWSEM_WAITING_FOR_READ"
  by (simp_all add: RWSEM_WAITING_FOR_READ_def RWSEM_WAITING_FOR_WRITE_def)

definition flags_ok :: "rwsem_waiter list \<Rightarrow> bool" where
  "flags_ok ws \<longleftrightarrow> (\<forall>w \<in> set ws. w_flags w = RWSEM_WAITING_FOR_READ \<or> w_flags w = RWSEM_WAITING_FOR_WRITE)"

lemma queue_mem:
  assumes "queue_ok s" and "w \<in> set (rw_wait_list (rw_sem s))"
  shows "\<not> rw_null s (w_task w)" "rw_phase s (w_task w) = (if is_writer w then Wait_write else Wait_read)"
    "w_flags w = RWSEM_WAITING_FOR_READ \<or> w_flags w = RWSEM_WAITING_FOR_WRITE"
proof -
  have "\<lparr>w_task = w_task w, w_flags = w_flags w\<rparr> = w" by (rule rwsem_waiter.equality) simp_all
  with assms(2) have "\<lparr>w_task = w_task w, w_flags = w_flags w\<rparr> \<in> set (rw_wait_list (rw_sem s))" by (simp only:)
  then have "\<not> rw_null s (w_task w) \<and> (rw_phase s (w_task w) = Wait_read \<and> w_flags w = RWSEM_WAITING_FOR_READ \<or>
      rw_phase s (w_task w) = Wait_write \<and> w_flags w = RWSEM_WAITING_FOR_WRITE)"
    using assms(1) unfolding queue_ok_def by blast
  then show "\<not> rw_null s (w_task w)" "rw_phase s (w_task w) = (if is_writer w then Wait_write else Wait_read)"
    "w_flags w = RWSEM_WAITING_FOR_READ \<or> w_flags w = RWSEM_WAITING_FOR_WRITE" by (auto simp: is_writer_def)
qed

lemma queue_flags: "queue_ok s \<Longrightarrow> flags_ok (rw_wait_list (rw_sem s))"
  using queue_mem(3) by (auto simp: flags_ok_def)

lemma wake_readers_eq:
  assumes "flags_ok ws"
  shows "wake_readers ws nl n =
    (dropWhile (\<lambda>w. \<not> is_writer w) ws, \<lambda>t. nl t \<or> t \<in> w_task ` set (takeWhile (\<lambda>w. \<not> is_writer w) ws),
     n + int (length (takeWhile (\<lambda>w. \<not> is_writer w) ws)))"
  using assms
proof (induction ws arbitrary: nl n)
  case (Cons w ws)
  then have f: "flags_ok ws" "w_flags w = RWSEM_WAITING_FOR_READ \<or> w_flags w = RWSEM_WAITING_FOR_WRITE"
    by (simp_all add: flags_ok_def)
  show ?case using f(2) Cons.IH [OF f(1)] by (auto simp: is_writer_def fun_eq_iff)
qed simp

text \<open>Granting the lock to a prefix of the queue.\<close>

lemma grant:
  assumes "queue_ok s" and "rw_wait_list (rw_sem s) = G @ ws" and "rw_wait_list sem' = ws"
    and "nl' = (\<lambda>t. rw_null s t \<or> t \<in> w_task ` set G)"
  defines "s' \<equiv> s\<lparr>rw_sem := sem', rw_null := nl'\<rparr>"
  shows "queue_ok s'" "readers s' = readers s \<union> w_task ` {w \<in> set G. \<not> is_writer w}"
    "writers s' = writers s \<union> w_task ` {w \<in> set G. is_writer w}"
    "w_task ` set G \<inter> (readers s \<union> writers s) = {}"
proof -
  have G: "\<not> rw_null s (w_task w) \<and> rw_phase s (w_task w) = (if is_writer w then Wait_write else Wait_read)" if "w \<in> set G" for w
    using queue_mem [OF assms(1), of w] that assms(2) by simp
  have d: "distinct (map w_task (G @ ws))" using assms(1,2) by (simp add: queue_ok_def)
  then have disj: "w_task ` set G \<inter> w_task ` set ws = {}" by auto
  have i: "\<lparr>w_task = t, w_flags = f\<rparr> \<in> set xs \<Longrightarrow> t \<in> w_task ` set xs" for t f xs
    by (metis imageI rwsem_waiter.select_convs(1))
  show "queue_ok s'" unfolding queue_ok_def
  proof (intro conjI allI)
    show "distinct (map w_task (rw_wait_list (rw_sem s')))" using d assms(3) by (simp add: s'_def)
    fix t f
    have m: "\<lparr>w_task = t, w_flags = f\<rparr> \<in> set (G @ ws) \<longleftrightarrow> \<not> rw_null s t \<and>
        (rw_phase s t = Wait_read \<and> f = RWSEM_WAITING_FOR_READ \<or> rw_phase s t = Wait_write \<and> f = RWSEM_WAITING_FOR_WRITE)"
      using assms(1,2) by (simp add: queue_ok_def)
    have "\<lparr>w_task = t, w_flags = f\<rparr> \<in> set ws \<longleftrightarrow> \<lparr>w_task = t, w_flags = f\<rparr> \<in> set (G @ ws) \<and> t \<notin> w_task ` set G"
      using disj i [where xs = G] i [where xs = ws] by auto
    then show "\<lparr>w_task = t, w_flags = f\<rparr> \<in> set (rw_wait_list (rw_sem s')) \<longleftrightarrow> \<not> rw_null s' t \<and>
        (rw_phase s' t = Wait_read \<and> f = RWSEM_WAITING_FOR_READ \<or> rw_phase s' t = Wait_write \<and> f = RWSEM_WAITING_FOR_WRITE)"
      unfolding m by (auto simp: s'_def assms(3,4))
  qed
  show "readers s' = readers s \<union> w_task ` {w \<in> set G. \<not> is_writer w}"
    "writers s' = writers s \<union> w_task ` {w \<in> set G. is_writer w}"
    "w_task ` set G \<inter> (readers s \<union> writers s) = {}"
    using G by (auto simp: readers_def writers_def s'_def assms(4) split: if_splits)
qed

text \<open>A task that does not wait changes what it holds.\<close>

lemma move:
  assumes "queue_ok s" and "rw_phase s t \<notin> {Wait_read, Wait_write}" and "p \<notin> {Wait_read, Wait_write}"
  defines "s' \<equiv> s\<lparr>rw_phase := (rw_phase s)(t := p)\<rparr>"
  shows "queue_ok s'" "readers s' = (if p = Reader then insert t (readers s) else readers s - {t})"
    "writers s' = (if p = Writer then insert t (writers s) else writers s - {t})" "rw_sem s' = rw_sem s" "rw_null s' = rw_null s"
  using assms by (auto simp: queue_ok_def readers_def writers_def)

lemma enqueue:
  assumes "queue_ok s" and "rw_phase s t = Idle" and "rw_wait_list sem' = rw_wait_list (rw_sem s) @ [\<lparr>w_task = t, w_flags = f\<rparr>]"
    and "p = Wait_read \<and> f = RWSEM_WAITING_FOR_READ \<or> p = Wait_write \<and> f = RWSEM_WAITING_FOR_WRITE"
  defines "s' \<equiv> set_phase s t p (sem', (rw_null s)(t := False))"
  shows "queue_ok s'" "readers s' = readers s" "writers s' = writers s"
proof -
  have t: "t \<notin> w_task ` set (rw_wait_list (rw_sem s))" using queue_mem(2) [OF assms(1)] assms(2) by (fastforce split: if_splits)
  show "queue_ok s'" using assms(1,4) t unfolding queue_ok_def s'_def set_phase_def
    by (auto simp: assms(2,3) image_iff)
  show "readers s' = readers s" "writers s' = writers s" using assms(2,4)
    by (auto simp: readers_def writers_def s'_def set_phase_def)
qed

definition grants :: "rw_semaphore \<times> nulled \<Rightarrow> rwsem_waiter list \<Rightarrow> rw_semaphore \<times> nulled \<Rightarrow> bool" where
  "grants x G y \<longleftrightarrow> rw_wait_list (fst x) = G @ rw_wait_list (fst y) \<and>
     snd y = (\<lambda>t. snd x t \<or> t \<in> w_task ` set G)"

lemma do_wake_cases:
  assumes "flags_ok (rw_wait_list sem)" and "rw_wait_list sem \<noteq> []"
  obtains (kept) y where "raw_rwsem_do_wake sem nl ww = Some y" "grants (sem, nl) [] y" "\<not> ww"
      "is_writer (hd (rw_wait_list sem))" "activity (fst y) = activity sem"
  | (writer) y w where "raw_rwsem_do_wake sem nl ww = Some y" "grants (sem, nl) [w] y" "is_writer w" "ww" "activity (fst y) = -1"
  | (readers) y G where "raw_rwsem_do_wake sem nl ww = Some y" "grants (sem, nl) G y" "G \<noteq> []" "list_all (\<lambda>w. \<not> is_writer w) G"
      "activity (fst y) = activity sem + int (length G)"
      "rw_wait_list (fst y) = [] \<or> is_writer (hd (rw_wait_list (fst y)))"
proof -
  obtain w ws where ws: "rw_wait_list sem = w # ws" using assms(2) by (cases "rw_wait_list sem") auto
  have w: "w_flags w = RWSEM_WAITING_FOR_READ \<or> w_flags w = RWSEM_WAITING_FOR_WRITE" using assms(1) ws by (simp add: flags_ok_def)
  show ?thesis
  proof (cases "is_writer w")
    case True
    show ?thesis
    proof (cases ww)
      case False
      then show ?thesis using True ws by (intro kept) (auto simp: raw_rwsem_do_wake_def grants_def is_writer_def)
    next
      case ww: True
      then show ?thesis using True ws by (intro writer) (auto simp: raw_rwsem_do_wake_def grants_def is_writer_def)
    qed
  next
    case False
    let ?G = "takeWhile (\<lambda>w. \<not> is_writer w) (w # ws)" let ?D = "dropWhile (\<lambda>w. \<not> is_writer w) (w # ws)"
    have "dont_wake_writers sem nl = (sem\<lparr>rw_wait_list := ?D, activity := activity sem + int (length ?G)\<rparr>,
        \<lambda>t. nl t \<or> t \<in> w_task ` set ?G)"
      unfolding dont_wake_writers_def ws wake_readers_eq [OF assms(1) [unfolded ws]] by simp
    moreover have "w_flags w AND RWSEM_WAITING_FOR_WRITE = 0" using False w by (auto simp: is_writer_def)
    ultimately have e: "raw_rwsem_do_wake sem nl ww = Some (sem\<lparr>rw_wait_list := ?D, activity := activity sem + int (length ?G)\<rparr>,
        \<lambda>t. nl t \<or> t \<in> w_task ` set ?G)" using ws by (simp add: raw_rwsem_do_wake_def)
    have "list_all (\<lambda>w. \<not> is_writer w) ?G" by (auto simp: list_all_iff dest: set_takeWhileD)
    moreover have "?D = [] \<or> is_writer (hd ?D)" using hd_dropWhile [of "\<lambda>w. \<not> is_writer w" "w # ws"] by blast
    moreover have "?G \<noteq> []" using False by simp
    ultimately show ?thesis using ws by (intro readers [OF e, of ?G]) (simp_all only: grants_def fst_conv snd_conv takeWhile_dropWhile_id
        rw_semaphore.simps rw_semaphore.select_convs simp_thms, simp_all)
  qed
qed

lemma set_phase_grant:
  assumes "queue_ok s" and "rw_phase s t \<notin> {Wait_read, Wait_write}" and "p \<notin> {Wait_read, Wait_write}"
    and "rw_wait_list sem = rw_wait_list (rw_sem s)" and "grants (sem, rw_null s) G y"
  shows "queue_ok (set_phase s t p y)"
    "readers (set_phase s t p y) = (if p = Reader then insert t (readers s) else readers s - {t}) \<union> w_task ` {w \<in> set G. \<not> is_writer w}"
    "writers (set_phase s t p y) = (if p = Writer then insert t (writers s) else writers s - {t}) \<union> w_task ` {w \<in> set G. is_writer w}"
    "w_task ` set G \<inter> (insert t (readers s) \<union> insert t (writers s)) = {}"
proof -
  let ?s = "s\<lparr>rw_phase := (rw_phase s)(t := p)\<rparr>"
  note m = move [OF assms(1-3)]
  have e: "set_phase s t p y = ?s\<lparr>rw_sem := fst y, rw_null := snd y\<rparr>" by (simp add: set_phase_def)
  have G: "rw_wait_list (rw_sem ?s) = G @ rw_wait_list (fst y)" "snd y = (\<lambda>t. rw_null ?s t \<or> t \<in> w_task ` set G)"
    using assms(4,5) by (simp_all add: grants_def)
  note g = grant [OF m(1) G(1) refl G(2)]
  show "queue_ok (set_phase s t p y)" using g(1) by (simp add: e)
  show "readers (set_phase s t p y) = (if p = Reader then insert t (readers s) else readers s - {t}) \<union> w_task ` {w \<in> set G. \<not> is_writer w}"
    unfolding e g(2) m(2) ..
  show "writers (set_phase s t p y) = (if p = Writer then insert t (writers s) else writers s - {t}) \<union> w_task ` {w \<in> set G. is_writer w}"
    unfolding e g(3) m(3) ..
  have "t \<notin> w_task ` set G" using queue_mem(2) [OF assms(1)] G(1) assms(2) by (fastforce split: if_splits)
  then show "w_task ` set G \<inter> (insert t (readers s) \<union> insert t (writers s)) = {}"
    using g(4) unfolding m(2,3) by (auto split: if_splits)
qed

lemma card_tasks:
  assumes "queue_ok s" and "rw_wait_list (rw_sem s) = G @ ws"
  shows "card (w_task ` set G) = length G"
proof -
  have d: "distinct (map w_task G)" using assms by (simp add: queue_ok_def)
  show ?thesis using distinct_card [OF d] by simp
qed

lemma readers_only: "list_all (\<lambda>w. \<not> is_writer w) G \<Longrightarrow> {w \<in> set G. \<not> is_writer w} = set G \<and> {w \<in> set G. is_writer w} = {}"
  by (auto simp: list_all_iff)

lemma writer_only: "is_writer w \<Longrightarrow> {x \<in> set [w]. \<not> is_writer x} = {}" "is_writer w \<Longrightarrow> {x \<in> set [w]. is_writer x} = {w}"
  by auto

lemma phase_member: "rw_phase s t = Reader \<Longrightarrow> t \<in> readers s" "rw_phase s t = Writer \<Longrightarrow> t \<in> writers s"
  by (simp_all add: readers_def writers_def)

lemma wf_reader: "rw_wf s \<Longrightarrow> t \<in> readers s \<Longrightarrow> activity (rw_sem s) = int (card (readers s)) \<and> writers s = {} \<and> finite (readers s) \<and> activity (rw_sem s) > 0"
  by (auto simp: rw_wf_def count_ok_def card_gt_0_iff)

lemma wf_writer: "rw_wf s \<Longrightarrow> t \<in> writers s \<Longrightarrow> activity (rw_sem s) = -1 \<and> writers s = {t} \<and> readers s = {}"
  by (auto simp: rw_wf_def count_ok_def card_1_singleton_iff)

text \<open>What a release does: it takes \<open>t\<close> out and grants the lock to a prefix of the queue.\<close>

definition hands_over :: "rw_sys \<Rightarrow> nat set \<Rightarrow> rwsem_waiter list \<Rightarrow> rw_sys \<Rightarrow> bool" where
  "hands_over s B G s' \<longleftrightarrow> rw_wf s' \<and> rw_wait_list (rw_sem s) = G @ rw_wait_list (rw_sem s') \<and>
     readers s' \<union> writers s' = B \<union> w_task ` set G \<and> rw_null s' = (\<lambda>t. rw_null s t \<or> t \<in> w_task ` set G)"

lemma up_read_ok:
  assumes "rw_wf s" and "rw_phase s t = Reader"
  obtains s' G where "rw_step (Up_read t) s = Some s'" "hands_over s (readers s \<union> writers s - {t}) G s'"
proof -
  have q: "queue_ok s" using assms(1) by (simp add: rw_wf_def)
  have r: "activity (rw_sem s) = int (card (readers s))" "writers s = {}" "finite (readers s)" "activity (rw_sem s) > 0"
    using wf_reader [OF assms(1) phase_member(1) [OF assms(2)]] by simp_all
  let ?sem = "(rw_sem s)\<lparr>activity := activity (rw_sem s) - 1\<rparr>"
  have c: "int (card (readers s - {t})) = activity (rw_sem s) - 1"
    using r phase_member(1) [OF assms(2)] by (simp add: of_nat_diff card_gt_0_iff Suc_leI)
  have fin: "finite (readers s - {t})" using r(3) by simp
  note g = set_phase_grant [OF q, of t Idle ?sem]
  show ?thesis
  proof (cases "activity (rw_sem s) = 1 \<and> rw_wait_list (rw_sem s) \<noteq> []")
    case True
    then obtain w ws where ws: "rw_wait_list (rw_sem s) = w # ws" by (cases "rw_wait_list (rw_sem s)") auto
    have w: "is_writer w" using assms(1) True ws by (simp add: rw_wf_def front_ok_def)
    let ?y = "(?sem\<lparr>activity := -1, rw_wait_list := ws\<rparr>, (rw_null s)(w_task w := True))"
    have y: "grants (?sem, rw_null s) [w] ?y" using ws by (auto simp: grants_def)
    have s1: "readers s - {t} = {}" using c True fin by simp
    note h = g [OF _ _ _ y, unfolded writer_only [OF w]]
    have "hands_over s (readers s \<union> writers s - {t}) [w] (set_phase s t Idle ?y)"
      using h ws s1 r(2) assms(2)
      by (simp add: hands_over_def rw_wf_def count_ok_def front_ok_def) (auto simp: set_phase_def fun_eq_iff)
    then show ?thesis by (rule that [rotated]) (use assms(2) True ws in \<open>simp add: raw_up_read_def raw_rwsem_wake_one_writer_def Let_def\<close>)
  next
    case False
    let ?y = "(?sem, rw_null s)"
    have y: "grants (?sem, rw_null s) [] ?y" by (simp add: grants_def)
    note h = g [OF _ _ _ y]
    have f: "front_ok ?sem" using assms(1) r(4) False by (auto simp: rw_wf_def front_ok_def)
    have "hands_over s (readers s \<union> writers s - {t}) [] (set_phase s t Idle ?y)"
      using h f c fin r(2,4) assms(2) by (simp add: hands_over_def rw_wf_def count_ok_def) (simp add: set_phase_def)
    then show ?thesis by (rule that [rotated]) (use assms(2) False in \<open>auto simp: raw_up_read_def Let_def\<close>)
  qed
qed

lemma up_write_ok:
  assumes "rw_wf s" and "rw_phase s t = Writer"
  obtains s' G where "rw_step (Up_write t) s = Some s'" "hands_over s (readers s \<union> writers s - {t}) G s'"
    "G = [] \<Longrightarrow> rw_wait_list (rw_sem s) = []"
proof -
  have q: "queue_ok s" using assms(1) by (simp add: rw_wf_def)
  have r: "activity (rw_sem s) = -1" "writers s = {t}" "readers s = {}"
    using wf_writer [OF assms(1) phase_member(2) [OF assms(2)]] by simp_all
  let ?sem = "(rw_sem s)\<lparr>activity := 0\<rparr>"
  note g = set_phase_grant [OF q, of t Idle ?sem]
  show ?thesis
  proof (cases "rw_wait_list (rw_sem s) = []")
    case True
    let ?y = "(?sem, rw_null s)"
    have y: "grants (?sem, rw_null s) [] ?y" by (simp add: grants_def)
    note h = g [OF _ _ _ y]
    have "hands_over s (readers s \<union> writers s - {t}) [] (set_phase s t Idle ?y)"
      using h r assms(2) True by (simp add: hands_over_def rw_wf_def count_ok_def front_ok_def) (simp add: set_phase_def)
    then show ?thesis by (rule that [rotated]) (use assms(2) True in \<open>simp_all add: raw_up_write_def Let_def\<close>)
  next
    case False
    have f: "flags_ok (rw_wait_list ?sem)" "rw_wait_list ?sem \<noteq> []" using queue_flags [OF q] False by simp_all
    have step: "rw_step (Up_write t) s = Some (set_phase s t Idle y)" if "raw_rwsem_do_wake ?sem (rw_null s) True = Some y" for y
      using that assms(2) False by (simp add: raw_up_write_def Let_def)
    from f show ?thesis
    proof (cases rule: do_wake_cases [where nl = "rw_null s" and ww = True])
      case (writer y w)
      note h = g [OF _ _ _ writer(2), unfolded writer_only [OF writer(3)]]
      have "hands_over s (readers s \<union> writers s - {t}) [w] (set_phase s t Idle y)"
        using h writer r assms(2)
        by (simp add: hands_over_def rw_wf_def count_ok_def front_ok_def) (auto simp: set_phase_def fun_eq_iff grants_def)
      then show ?thesis by (rule that [OF step [OF writer(1)]]) simp
    next
      case (readers y G)
      note ro = readers_only [OF readers(4)]
      note h = g [OF _ _ _ readers(2), unfolded conjunct1 [OF ro] conjunct2 [OF ro]]
      have c: "card (w_task ` set G) = length G" "length G > 0"
        using card_tasks [OF q, of G] readers(2,3) by (simp_all add: grants_def)
      have "hands_over s (readers s \<union> writers s - {t}) G (set_phase s t Idle y)"
        using h readers r assms(2) c
        by (simp add: hands_over_def rw_wf_def count_ok_def front_ok_def) (auto simp: set_phase_def grants_def)
      then show ?thesis by (rule that [OF step [OF readers(1)]]) (use readers(3) in simp)
    qed simp
  qed
qed

lemma downgrade_ok:
  assumes "rw_wf s" and "rw_phase s t = Writer"
  obtains s' G where "rw_step (Downgrade t) s = Some s'" "hands_over s (readers s \<union> writers s) G s'"
    "G = [] \<Longrightarrow> rw_wait_list (rw_sem s) = [] \<or> is_writer (hd (rw_wait_list (rw_sem s)))"
proof -
  have q: "queue_ok s" using assms(1) by (simp add: rw_wf_def)
  have r: "activity (rw_sem s) = -1" "writers s = {t}" "readers s = {}"
    using wf_writer [OF assms(1) phase_member(2) [OF assms(2)]] by simp_all
  let ?sem = "(rw_sem s)\<lparr>activity := 1\<rparr>"
  note g = set_phase_grant [OF q, of t Reader ?sem]
  show ?thesis
  proof (cases "rw_wait_list (rw_sem s) = []")
    case True
    let ?y = "(?sem, rw_null s)"
    have y: "grants (?sem, rw_null s) [] ?y" by (simp add: grants_def)
    note h = g [OF _ _ _ y]
    have "hands_over s (readers s \<union> writers s) [] (set_phase s t Reader ?y)"
      using h r assms(2) True by (simp add: hands_over_def rw_wf_def count_ok_def front_ok_def) (simp add: set_phase_def)
    then show ?thesis by (rule that [rotated]) (use assms(2) True in \<open>simp_all add: raw_downgrade_write_def Let_def\<close>)
  next
    case False
    have f: "flags_ok (rw_wait_list ?sem)" "rw_wait_list ?sem \<noteq> []" using queue_flags [OF q] False by simp_all
    have step: "rw_step (Downgrade t) s = Some (set_phase s t Reader y)" if "raw_rwsem_do_wake ?sem (rw_null s) False = Some y" for y
      using that assms(2) False by (simp add: raw_downgrade_write_def Let_def)
    from f show ?thesis
    proof (cases rule: do_wake_cases [where nl = "rw_null s" and ww = False])
      case (kept y)
      note h = g [OF _ _ _ kept(2)]
      have "hands_over s (readers s \<union> writers s) [] (set_phase s t Reader y)"
        using h kept r assms(2)
        by (simp add: hands_over_def rw_wf_def count_ok_def front_ok_def) (auto simp: set_phase_def grants_def)
      then show ?thesis by (rule that [OF step [OF kept(1)]]) (use kept(4) in simp)
    next
      case (readers y G)
      note ro = readers_only [OF readers(4)]
      note h = g [OF _ _ _ readers(2), unfolded conjunct1 [OF ro] conjunct2 [OF ro]]
      have c: "card (w_task ` set G) = length G" "length G > 0" "t \<notin> w_task ` set G"
        using card_tasks [OF q, of G] readers(2,3) h(4) assms(2) by (auto simp: grants_def)
      have "hands_over s (readers s \<union> writers s) G (set_phase s t Reader y)"
        using h readers r assms(2) c
        by (simp add: hands_over_def rw_wf_def count_ok_def front_ok_def) (auto simp: set_phase_def grants_def)
      then show ?thesis by (rule that [OF step [OF readers(1)]]) (use readers(3) in simp)
    qed simp
  qed
qed

text \<open>What a request does: it is granted at once when nobody waits, or the queue grows and nobody becomes active.\<close>

definition requests :: "rw_sys \<Rightarrow> nat \<Rightarrow> rw_sys \<Rightarrow> bool" where
  "requests s t s' \<longleftrightarrow> rw_wf s' \<and>
     (rw_wait_list (rw_sem s) = [] \<or>
      (\<exists>X. rw_wait_list (rw_sem s') = rw_wait_list (rw_sem s) @ X) \<and> readers s' \<union> writers s' = readers s \<union> writers s) \<and>
     (\<forall>u. u \<noteq> t \<longrightarrow> rw_null s' u = rw_null s u \<and> rw_phase s' u = rw_phase s u)"

lemma requests_refl: "rw_wf s \<Longrightarrow> requests s t s"
  by (auto simp: requests_def)

lemma set_phase_same: "rw_phase s t = p \<Longrightarrow> set_phase s t p (rw_sem s, rw_null s) = s"
  by (simp add: set_phase_def fun_upd_idem)

lemma count_ok_reader: "count_ok a R W \<Longrightarrow> a \<ge> 0 \<Longrightarrow> t \<notin> R \<Longrightarrow> count_ok (a + 1) (insert t R) (W - {t})"
  by (auto simp: count_ok_def)

lemma count_ok_writer: "count_ok 0 R W \<Longrightarrow> count_ok (- 1) (R - {t}) (insert t W)"
  by (auto simp: count_ok_def)

lemma take_ok:
  assumes "rw_wf s" and "rw_phase s t = Idle" and "rw_wait_list (rw_sem s) = []"
  shows "activity (rw_sem s) \<ge> 0 \<Longrightarrow>
      requests s t (set_phase s t Reader ((rw_sem s)\<lparr>activity := activity (rw_sem s) + 1\<rparr>, rw_null s))"
    "activity (rw_sem s) = 0 \<Longrightarrow> requests s t (set_phase s t Writer ((rw_sem s)\<lparr>activity := - 1\<rparr>, rw_null s))"
proof -
  have q: "queue_ok s" and c: "count_ok (activity (rw_sem s)) (readers s) (writers s)" using assms(1) by (simp_all add: rw_wf_def)
  have t: "t \<notin> readers s" using assms(2) by (simp add: readers_def)
  have y: "grants (rw_sem s, rw_null s) [] ((rw_sem s)\<lparr>activity := a\<rparr>, rw_null s)" for a by (simp add: grants_def)
  note g = set_phase_grant [OF q _ _ refl y, of t]
  show "requests s t (set_phase s t Reader ((rw_sem s)\<lparr>activity := activity (rw_sem s) + 1\<rparr>, rw_null s))"
    if "activity (rw_sem s) \<ge> 0"
    using g [where p = Reader] count_ok_reader [OF c that t] assms(2,3)
    by (simp add: requests_def rw_wf_def) (simp add: set_phase_def front_ok_def)
  show "requests s t (set_phase s t Writer ((rw_sem s)\<lparr>activity := - 1\<rparr>, rw_null s))"
    if "activity (rw_sem s) = 0"
    using g [where p = Writer] count_ok_writer [OF c [unfolded that], of t] assms(2,3)
    by (simp add: requests_def rw_wf_def) (simp add: set_phase_def front_ok_def)
qed

lemma wait_ok:
  assumes "rw_wf s" and "rw_phase s t = Idle"
    and "p = Wait_read \<and> f = RWSEM_WAITING_FOR_READ \<and> \<not> (activity (rw_sem s) \<ge> 0 \<and> rw_wait_list (rw_sem s) = []) \<or>
         p = Wait_write \<and> f = RWSEM_WAITING_FOR_WRITE \<and> \<not> (activity (rw_sem s) = 0 \<and> rw_wait_list (rw_sem s) = [])"
  shows "requests s t (set_phase s t p ((rw_sem s)\<lparr>rw_wait_list := rw_wait_list (rw_sem s) @ [\<lparr>w_task = t, w_flags = f\<rparr>]\<rparr>,
    (rw_null s)(t := False)))" (is "requests s t ?s")
proof -
  let ?sem = "(rw_sem s)\<lparr>rw_wait_list := rw_wait_list (rw_sem s) @ [\<lparr>w_task = t, w_flags = f\<rparr>]\<rparr>"
  have q: "queue_ok s" and c: "count_ok (activity (rw_sem s)) (readers s) (writers s)" and fr: "front_ok (rw_sem s)"
    using assms(1) by (simp_all add: rw_wf_def)
  have a: "activity (rw_sem s) \<ge> 0 \<or> activity (rw_sem s) = -1" using c by (auto simp: count_ok_def)
  have pf: "p = Wait_read \<and> f = RWSEM_WAITING_FOR_READ \<or> p = Wait_write \<and> f = RWSEM_WAITING_FOR_WRITE" using assms(3) by blast
  note e = enqueue [OF q assms(2) _ pf, of ?sem, simplified]
  have "front_ok ?sem" using fr a assms(3) by (cases "rw_wait_list (rw_sem s)") (auto simp: front_ok_def is_writer_def)
  then have "rw_wf ?s" using e c by (simp add: rw_wf_def) (simp add: set_phase_def)
  then show ?thesis using e(2,3) by (simp add: requests_def) (simp add: set_phase_def)
qed

lemma look_ok:
  assumes "rw_wf s" and "rw_null s t" and "rw_phase s t = Wait_read \<and> p = Reader \<or> rw_phase s t = Wait_write \<and> p = Writer"
  shows "requests s t (set_phase s t p (rw_sem s, rw_null s))"
proof -
  let ?s = "set_phase s t p (rw_sem s, rw_null s)"
  have "readers ?s = readers s" "writers ?s = writers s" "rw_sem ?s = rw_sem s" "rw_null ?s = rw_null s"
    using assms(2,3) by (auto simp: readers_def writers_def set_phase_def)
  moreover have "queue_ok ?s" using assms by (auto simp: rw_wf_def queue_ok_def set_phase_def)
  ultimately show ?thesis using assms(1) by (simp add: requests_def rw_wf_def) (simp add: set_phase_def)
qed

lemma request_ok:
  assumes "rw_wf s" and "rw_step e s = Some s'" and "e \<in> {Read t, Read_try t, Write t, Write_try t, Look t}"
  shows "requests s t s'"
proof -
  consider "e = Read t" | "e = Read_try t" | "e = Write t" | "e = Write_try t" | "e = Look t" using assms(3) by blast
  then show ?thesis
  proof cases
    case 1
    then show ?thesis using assms(1,2) take_ok(1) [of s t] wait_ok [of s t Wait_read RWSEM_WAITING_FOR_READ]
      by (auto simp: raw_down_read_def split: if_splits)
  next
    case 2
    then show ?thesis using assms(1,2) take_ok(1) [of s t] requests_refl
      by (auto simp: raw_down_read_trylock_def set_phase_same split: if_splits)
  next
    case 3
    then show ?thesis using assms(1,2) take_ok(2) [of s t] wait_ok [of s t Wait_write RWSEM_WAITING_FOR_WRITE]
      by (auto simp: raw_down_write_def raw_down_write_nested_def split: if_splits)
  next
    case 4
    then show ?thesis using assms(1,2) take_ok(2) [of s t] requests_refl
      by (auto simp: raw_down_write_trylock_def set_phase_same split: if_splits)
  next
    case 5
    then show ?thesis using assms(1,2) look_ok [of s t] requests_refl
      by (auto split: if_splits rw_phase.splits)
  qed
qed

lemma hands_over_wf: "hands_over s B G s' \<Longrightarrow> rw_wf s'" by (simp add: hands_over_def)

lemma requests_wf: "requests s t s' \<Longrightarrow> rw_wf s'" by (simp add: requests_def)

lemma rw_step_wf:
  assumes "rw_wf s" and "rw_step e s = Some s'"
  shows "rw_wf s'"
proof (cases e)
  case (Up_read t)
  then have "rw_phase s t = Reader" using assms(2) by (simp split: if_splits)
  from up_read_ok [OF assms(1) this] show ?thesis using assms(2) Up_read by (metis hands_over_wf option.inject)
next
  case (Up_write t)
  then have "rw_phase s t = Writer" using assms(2) by (simp split: if_splits)
  from up_write_ok [OF assms(1) this] show ?thesis using assms(2) Up_write by (metis hands_over_wf option.inject)
next
  case (Downgrade t)
  then have "rw_phase s t = Writer" using assms(2) by (simp split: if_splits)
  from downgrade_ok [OF assms(1) this] show ?thesis using assms(2) Downgrade by (metis hands_over_wf option.inject)
qed (use request_ok [OF assms] requests_wf in blast)+

lemma rw_wf_init: "rw_wf rw_init"
  by (simp add: rw_wf_def rw_init_def raw_init_rwsem_def queue_ok_def count_ok_def front_ok_def readers_def writers_def)

lemma rw_run_wf: "rw_run s es s' \<Longrightarrow> rw_wf s \<Longrightarrow> rw_wf s'"
  by (induction rule: rw_run.induct) (auto dest: rw_step_wf)

definition released :: "rw_event list \<Rightarrow> nat set" where
  "released es = {t. Up_read t \<in> set es \<or> Up_write t \<in> set es}"

text \<open>The first waiter and the tasks that stand in its way, on the way to its turn.\<close>

definition at_front :: "nat \<Rightarrow> rw_phase \<Rightarrow> nat set \<Rightarrow> rw_sys \<Rightarrow> bool" where
  "at_front t p B s \<longleftrightarrow> rw_wf s \<and> rw_phase s t = p \<and>
     (rw_null s t \<or> rw_wait_list (rw_sem s) \<noteq> [] \<and> w_task (hd (rw_wait_list (rw_sem s))) = t \<and> readers s \<union> writers s \<subseteq> B)"

lemma at_front_request:
  assumes "at_front t p B s" and "requests s u s'" and "u \<noteq> t"
  shows "at_front t p B s'"
  using assms by (auto simp: at_front_def requests_def)

lemma at_front_release:
  assumes "at_front t p B s" and "hands_over s (readers s \<union> writers s - X) G s'" and "rw_phase s' t = rw_phase s t"
  shows "at_front t p (B - X) s'"
  using assms by (cases G) (auto simp: at_front_def hands_over_def)

lemma step_phase:
  "rw_step (Up_read u) s = Some s' \<Longrightarrow> rw_phase s u = Reader \<and> rw_phase s' = (rw_phase s)(u := Idle)"
  "rw_step (Up_write u) s = Some s' \<Longrightarrow> rw_phase s u = Writer \<and> rw_phase s' = (rw_phase s)(u := Idle)"
  "rw_step (Downgrade u) s = Some s' \<Longrightarrow> rw_phase s u = Writer \<and> rw_phase s' = (rw_phase s)(u := Reader)"
  by (auto simp: set_phase_def split: if_splits)

lemma at_front_step:
  assumes "at_front t p (A - released es) s" and "p \<in> {Wait_read, Wait_write}" and "rw_step e s = Some s'" and "e \<noteq> Look t"
  shows "at_front t p (A - released (es @ [e])) s'"
proof -
  have wf: "rw_wf s" and ph: "rw_phase s t \<noteq> Idle" "rw_phase s t \<noteq> Reader" "rw_phase s t \<noteq> Writer"
    using assms(1,2) by (auto simp: at_front_def)
  have act: "rw_null s t \<or> readers s \<union> writers s \<subseteq> A - released es" using assms(1) by (auto simp: at_front_def)
  have req: "at_front t p (A - released (es @ [e])) s'" if "e \<in> {Read u, Read_try u, Write u, Write_try u, Look u}" for u
  proof -
    have "u \<noteq> t" using that assms(3,4) ph by (auto split: if_splits)
    moreover have "released (es @ [e]) = released es" using that by (auto simp: released_def)
    ultimately show ?thesis using at_front_request [OF assms(1) request_ok [OF wf assms(3) that]] by simp
  qed
  have rel: "A - released (es @ [e]) = A - released es - {u}" if "e = Up_read u \<or> e = Up_write u" for u
    using that by (auto simp: released_def)
  show ?thesis
  proof (cases e)
    case (Up_read u)
    note p = step_phase(1) [OF assms(3) [unfolded Up_read]]
    obtain G where "hands_over s (readers s \<union> writers s - {u}) G s'"
      using up_read_ok [OF wf conjunct1 [OF p]] assms(3) Up_read by (metis option.inject)
    moreover have "rw_phase s' t = rw_phase s t" using p ph by auto
    ultimately show ?thesis using at_front_release [OF assms(1)] rel [of u] Up_read by simp
  next
    case (Up_write u)
    note p = step_phase(2) [OF assms(3) [unfolded Up_write]]
    obtain G where "hands_over s (readers s \<union> writers s - {u}) G s'"
      using up_write_ok [OF wf conjunct1 [OF p]] assms(3) Up_write by (metis option.inject)
    moreover have "rw_phase s' t = rw_phase s t" using p ph by auto
    ultimately show ?thesis using at_front_release [OF assms(1)] rel [of u] Up_write by simp
  next
    case (Downgrade u)
    note p = step_phase(3) [OF assms(3) [unfolded Downgrade]]
    obtain G where "hands_over s (readers s \<union> writers s - {}) G s'"
      using downgrade_ok [OF wf conjunct1 [OF p]] assms(3) Downgrade by (metis Diff_empty option.inject)
    moreover have "rw_phase s' t = rw_phase s t" using p ph by auto
    moreover have "released (es @ [e]) = released es" using Downgrade by (auto simp: released_def)
    ultimately show ?thesis using at_front_release [OF assms(1), of "{}"] by simp
  qed (use req in blast)+
qed

lemma at_front_run:
  assumes "rw_run s es s'" and "at_front t p A s" and "p \<in> {Wait_read, Wait_write}" and "Look t \<notin> set es"
  shows "at_front t p (A - released es) s'"
  using assms
proof (induction rule: rw_run.induct)
  case (rw_next s es s1 e s2)
  then show ?case by (intro at_front_step) auto
qed (simp add: released_def)

lemma waiters_active: "rw_wf s \<Longrightarrow> rw_wait_list (rw_sem s) \<noteq> [] \<Longrightarrow> readers s \<union> writers s \<noteq> {}"
  by (auto simp: rw_wf_def count_ok_def front_ok_def)

lemma foldM_run: "foldM rw_step es s = Some s' \<Longrightarrow> rw_run s es s'"
proof (induction es arbitrary: s' rule: rev_induct)
  case (snoc e es)
  then show ?case by (auto simp: foldM_append intro: rw_next)
qed (simp add: rw_start)

lemmas rw_run_simps = rw_init_def raw_init_rwsem_def raw_down_read_def raw_down_write_def raw_down_write_nested_def
  raw_down_read_trylock_def raw_up_read_def raw_rwsem_wake_one_writer_def set_phase_def Let_def

section \<open>Properties\<close>

text \<open>
  C3: Exclusion. In every run of any number of tasks the field \<open>activity\<close> means what its comment says:
  it is -1 and one task is active as a writer and none as a reader, or it is the number of active
  readers and no writer is active (active tasks hold the lock or have just been granted it). Tasks wait
  only while some task is active, and a release or a downgrade by a holder never fails: the functions
  that take the first waiter off the list never meet an empty one, and \<open>__rwsem_wake_one_writer\<close> only
  ever meets a writer.
\<close>

theorem rwsem_exclusion:
  assumes "rw_run rw_init es s"
  shows "(activity (rw_sem s) = -1 \<and> readers s = {} \<and> card (writers s) = 1 \<or>
      activity (rw_sem s) = int (card (readers s)) \<and> finite (readers s) \<and> writers s = {}) \<and>
    (rw_wait_list (rw_sem s) = [] \<or> readers s \<union> writers s \<noteq> {}) \<and>
    (rw_phase s t = Reader \<longrightarrow> rw_step (Up_read t) s \<noteq> None \<and>
       (activity (rw_sem s) = 1 \<and> rw_wait_list (rw_sem s) \<noteq> [] \<longrightarrow> is_writer (hd (rw_wait_list (rw_sem s))))) \<and>
    (rw_phase s t = Writer \<longrightarrow> rw_step (Up_write t) s \<noteq> None \<and> rw_step (Downgrade t) s \<noteq> None)"
proof -
  have wf: "rw_wf s" using assms rw_wf_init by (rule rw_run_wf)
  have 1: "rw_step (Up_read t) s \<noteq> None" if "rw_phase s t = Reader" using up_read_ok [OF wf that] by (metis option.distinct(1))
  have 2: "rw_step (Up_write t) s \<noteq> None" if "rw_phase s t = Writer" using up_write_ok [OF wf that] by (metis option.distinct(1))
  have 3: "rw_step (Downgrade t) s \<noteq> None" if "rw_phase s t = Writer" using downgrade_ok [OF wf that] by (metis option.distinct(1))
  have "activity (rw_sem s) = -1 \<and> readers s = {} \<and> card (writers s) = 1 \<or>
      activity (rw_sem s) = int (card (readers s)) \<and> finite (readers s) \<and> writers s = {}"
    using wf by (auto simp: rw_wf_def count_ok_def)
  moreover have "rw_wait_list (rw_sem s) = [] \<or> readers s \<union> writers s \<noteq> {}" using waiters_active [OF wf] by blast
  moreover have "is_writer (hd (rw_wait_list (rw_sem s)))" if "activity (rw_sem s) = 1" "rw_wait_list (rw_sem s) \<noteq> []"
    using wf that by (simp add: rw_wf_def front_ok_def)
  ultimately show ?thesis using 1 2 3 by blast
qed

theorem rwsem_exclusion_witness:
  "\<exists>s. rw_run rw_init [Read 1, Write 2, Read 3, Up_read 1, Look 2] s \<and> activity (rw_sem s) = -1 \<and>
     readers s = {} \<and> card (writers s) = 1 \<and> rw_wait_list (rw_sem s) \<noteq> [] \<and> rw_step (Up_write 2) s \<noteq> None"
proof -
  have "\<exists>s. foldM rw_step [Read 1, Write 2, Read 3, Up_read 1, Look 2] rw_init = Some s \<and> activity (rw_sem s) = -1 \<and>
      rw_phase s 2 = Writer \<and> rw_wait_list (rw_sem s) \<noteq> []" by (simp add: rw_run_simps)
  then obtain s where s: "rw_run rw_init [Read 1, Write 2, Read 3, Up_read 1, Look 2] s" "activity (rw_sem s) = -1"
    "rw_phase s 2 = Writer" "rw_wait_list (rw_sem s) \<noteq> []" using foldM_run by blast
  show ?thesis using rwsem_exclusion [OF s(1), of 2] s by auto
qed

text \<open>
  C9: The first waiter is not starved. Take any reachable state with a waiting task \<open>t\<close> at the head of
  the queue. Whatever requests other tasks make, once every task that was active has released the lock
  and \<open>t\<close> has not looked in between, \<open>t\<close> has been granted the lock, and when it looks next it has it.
\<close>

theorem rwsem_first_waiter_served:
  assumes "rw_run rw_init es0 s" and "rw_wait_list (rw_sem s) = w # ws" and "rw_run s es s'"
    and "Look (w_task w) \<notin> set es" and "readers s \<union> writers s \<subseteq> released es"
  shows "\<exists>s''. rw_step (Look (w_task w)) s' = Some s'' \<and>
    rw_phase s'' (w_task w) = (if is_writer w then Writer else Reader)"
proof -
  have wf: "rw_wf s" using assms(1) rw_wf_init by (rule rw_run_wf)
  let ?p = "if is_writer w then Wait_write else Wait_read"
  have "rw_phase s (w_task w) = ?p" using queue_mem(2) [of s w] wf assms(2) by (simp add: rw_wf_def)
  then have "at_front (w_task w) ?p (readers s \<union> writers s) s" using wf assms(2) by (simp add: at_front_def)
  from at_front_run [OF assms(3) this _ assms(4)]
  have f: "at_front (w_task w) ?p (readers s \<union> writers s - released es) s'" by simp
  then have "rw_null s' (w_task w)" using assms(5) waiters_active [of s'] by (auto simp: at_front_def)
  then show ?thesis using f by (auto simp: at_front_def set_phase_def)
qed

theorem rwsem_first_waiter_served_witness:
  "\<exists>s s' s''. rw_run rw_init [Read 1, Write 2, Read 3] s \<and> rw_run s [Read_try 4, Read 5, Up_read 1] s' \<and>
     rw_step (Look 2) s' = Some s'' \<and> rw_phase s'' 2 = Writer"
proof -
  let ?w = "\<lparr>w_task = 2, w_flags = RWSEM_WAITING_FOR_WRITE\<rparr>"
  have "\<exists>s s' ws. foldM rw_step [Read 1, Write 2, Read 3] rw_init = Some s \<and> rw_wait_list (rw_sem s) = ?w # ws \<and>
      readers s \<union> writers s = {1} \<and> foldM rw_step [Read_try 4, Read 5, Up_read 1] s = Some s'"
    by (simp add: rw_run_simps readers_def writers_def)
  then obtain s s' ws where s: "rw_run rw_init [Read 1, Write 2, Read 3] s" "rw_wait_list (rw_sem s) = ?w # ws"
    "rw_run s [Read_try 4, Read 5, Up_read 1] s'" "readers s \<union> writers s = {1}" using foldM_run by blast
  have "\<exists>s''. rw_step (Look (w_task ?w)) s' = Some s'' \<and> rw_phase s'' (w_task ?w) = (if is_writer ?w then Writer else Reader)"
    by (rule rwsem_first_waiter_served [OF s(1-3)]) (use s(4) in \<open>simp_all add: released_def\<close>)
  then have "\<exists>s''. rw_step (Look 2) s' = Some s'' \<and> rw_phase s'' 2 = Writer"
    by (simp only: rwsem_waiter.select_convs is_writer_def if_True simp_thms)
  then show ?thesis using s(1,3) by blast
qed

end
