(* ===== verification/Buddy_Blocks.thy ===== *)
theory Buddy_Blocks
  imports KPrelude
begin

text \<open>
  The abstract state of the buddy allocator of \<open>mm/page_alloc.c\<close>: a set of free blocks
  \<open>(p, o)\<close>, the \<open>2 ^ o\<close> pages from page frame number \<open>p\<close> on. Splitting a block
  and merging it with its buddy are stated on such sets, independent of the lists and page
  structures that represent them. The last lemma says that a set of blocks in which no two buddies
  are both free is determined by the pages it covers.
\<close>

named_theorems block_simps \<open>pages covered by blocks\<close>

definition blk :: "nat \<Rightarrow> nat \<Rightarrow> nat set" where
  "blk p n = {p ..< p + 2 ^ n}"

definition block_aligned :: "nat \<Rightarrow> nat \<Rightarrow> bool" where
  "block_aligned p n \<longleftrightarrow> 2 ^ n dvd p"

definition buddy_of :: "nat \<Rightarrow> nat \<Rightarrow> nat" where
  "buddy_of p n = (if even (p div 2 ^ n) then p + 2 ^ n else p - 2 ^ n)"

definition parent_of :: "nat \<Rightarrow> nat \<Rightarrow> nat" where
  "parent_of p n = (if even (p div 2 ^ n) then p else p - 2 ^ n)"

definition pages_of :: "(nat \<times> nat) set \<Rightarrow> nat set" where
  "pages_of B = (\<Union>(p, n) \<in> B. blk p n)"

text \<open>Well-formed sets of free blocks: aligned, of order at most \<open>M\<close>, disjoint, and fully merged.\<close>

definition blocks_ok :: "nat \<Rightarrow> (nat \<times> nat) set \<Rightarrow> bool" where
  "blocks_ok M B \<longleftrightarrow>
     (\<forall>p n. (p, n) \<in> B \<longrightarrow> block_aligned p n \<and> n \<le> M) \<and>
     (\<forall>p n q k. (p, n) \<in> B \<and> (q, k) \<in> B \<longrightarrow> (p, n) = (q, k) \<or> blk p n \<inter> blk q k = {}) \<and>
     (\<forall>p n. (p, n) \<in> B \<and> n < M \<longrightarrow> (buddy_of p n, n) \<notin> B)"

definition hole :: "nat \<Rightarrow> (nat \<times> nat) set \<Rightarrow> nat \<Rightarrow> nat \<Rightarrow> bool" where
  "hole M B p n \<longleftrightarrow> block_aligned p n \<and> n \<le> M \<and> blk p n \<inter> pages_of B = {}"

section \<open>Dyadic blocks\<close>

lemma mem_blk_iff:
  assumes "block_aligned p n"
  shows "x \<in> blk p n \<longleftrightarrow> x div 2 ^ n = p div 2 ^ n"
proof -
  obtain c where c: "p = 2 ^ n * c" using assms by (auto simp: block_aligned_def)
  have "x div 2 ^ n = c \<longleftrightarrow> c * 2 ^ n \<le> x \<and> x < Suc c * 2 ^ n"
    by (auto simp: div_nat_eqI dividend_less_div_times mult.commute)
       (use dividend_less_div_times[of "2 ^ n" x] in \<open>auto simp: mult.commute\<close>)
  then show ?thesis by (simp add: blk_def c algebra_simps)
qed

lemma blk_self [simp]: "p \<in> blk p n"
  by (simp add: blk_def)

lemma blk_card [simp]: "finite (blk p n)" "card (blk p n) = 2 ^ n"
  by (simp_all add: blk_def)

lemma blk_nested:
  assumes "block_aligned p a" "block_aligned q b" "a \<le> b" "blk p a \<inter> blk q b \<noteq> {}"
  shows "blk p a \<subseteq> blk q b"
proof
  fix y assume y: "y \<in> blk p a"
  obtain x where x: "x \<in> blk p a" "x \<in> blk q b" using assms(4) by blast
  have split: "z div 2 ^ b = z div 2 ^ a div 2 ^ (b - a)" for z :: nat
    using assms(3) by (simp add: div_mult2_eq[symmetric] power_add[symmetric])
  have "y div 2 ^ a = x div 2 ^ a" using x y assms(1) by (simp add: mem_blk_iff)
  then have "y div 2 ^ b = x div 2 ^ b" by (simp add: split)
  then show "y \<in> blk q b" using x assms(2) by (simp add: mem_blk_iff)
qed

lemma blk_split: "blk p (Suc n) = blk p n \<union> blk (p + 2 ^ n) n" "blk p n \<inter> blk (p + 2 ^ n) n = {}"
  by (auto simp: blk_def)

lemma aligned_halves:
  assumes "block_aligned p (Suc n)"
  shows "block_aligned p n" "block_aligned (p + 2 ^ n) n"
    "even (p div 2 ^ n)" "buddy_of p n = p + 2 ^ n" "buddy_of (p + 2 ^ n) n = p"
proof -
  obtain c where c: "p = 2 ^ Suc n * c" using assms by (auto simp: block_aligned_def)
  have e: "p div 2 ^ n = 2 * c" "(p + 2 ^ n) div 2 ^ n = Suc (2 * c)"
    by (simp_all add: c)
  show "block_aligned p n" "block_aligned (p + 2 ^ n) n" by (simp_all add: block_aligned_def c)
  show "even (p div 2 ^ n)" "buddy_of p n = p + 2 ^ n" "buddy_of (p + 2 ^ n) n = p"
    by (simp_all add: buddy_of_def e)
qed

lemma parent_cases:
  assumes "block_aligned p n"
  obtains (low) "parent_of p n = p" "buddy_of p n = p + 2 ^ n" "block_aligned p (Suc n)"
  | (high) q where "p = q + 2 ^ n" "parent_of p n = q" "buddy_of p n = q" "block_aligned q (Suc n)"
proof -
  obtain c where c: "p = 2 ^ n * c" using assms by (auto simp: block_aligned_def)
  show thesis
  proof (cases "even c")
    case True
    then show thesis using c by (intro low) (auto simp: parent_of_def buddy_of_def block_aligned_def)
  next
    case False
    then obtain d where d: "c = 2 * d + 1" by (auto elim: oddE)
    show thesis
      by (rule high[of "2 ^ Suc n * d"])
         (use False in \<open>auto simp: c d parent_of_def buddy_of_def block_aligned_def algebra_simps\<close>)
  qed
qed

lemma blk_parent:
  assumes "block_aligned p n"
  shows "blk (parent_of p n) (Suc n) = blk p n \<union> blk (buddy_of p n) n"
    "blk p n \<inter> blk (buddy_of p n) n = {}" "block_aligned (parent_of p n) (Suc n)"
  by (cases rule: parent_cases[OF assms]; simp add: blk_split; auto simp: blk_def)+

lemma buddy_aligned: "block_aligned p n \<Longrightarrow> block_aligned (buddy_of p n) n"
  by (cases rule: parent_cases) (auto simp: aligned_halves)

lemma buddy_of_inv [simp]: "block_aligned p n \<Longrightarrow> buddy_of (buddy_of p n) n = p"
  by (cases rule: parent_cases) (auto simp: aligned_halves)

lemma buddy_of_neq [simp]: "block_aligned p n \<Longrightarrow> buddy_of p n \<noteq> p"
  by (cases rule: parent_cases) auto

section \<open>Sets of blocks\<close>

lemma pages_of_simps [block_simps]:
  "pages_of {} = {}" "pages_of (insert (p, n) B) = blk p n \<union> pages_of B"
  "pages_of (A \<union> B) = pages_of A \<union> pages_of B"
  by (auto simp: pages_of_def)

lemma pages_ofI: "(p, n) \<in> B \<Longrightarrow> blk p n \<subseteq> pages_of B"
  by (auto simp: pages_of_def)

lemma pages_ofE: "x \<in> pages_of B \<Longrightarrow> (\<And>p n. (p, n) \<in> B \<Longrightarrow> x \<in> blk p n \<Longrightarrow> R) \<Longrightarrow> R"
  by (auto simp: pages_of_def)

lemma blocks_okD:
  assumes "blocks_ok M B" "(p, n) \<in> B"
  shows "block_aligned p n" "n \<le> M" "n < M \<Longrightarrow> (buddy_of p n, n) \<notin> B"
    "(q, k) \<in> B \<Longrightarrow> (p, n) = (q, k) \<or> blk p n \<inter> blk q k = {}"
  using assms unfolding blocks_ok_def by fast+

lemma blocks_ok_remove:
  assumes "blocks_ok M B"
  shows "blocks_ok M (B - X)"
  using assms unfolding blocks_ok_def by fast

lemma pages_of_remove:
  assumes "blocks_ok M B" "(p, n) \<in> B"
  shows "pages_of (B - {(p, n)}) = pages_of B - blk p n"
proof -
  have "x \<notin> blk p n" if "(q, k) \<in> B" "(q, k) \<noteq> (p, n)" "x \<in> blk q k" for q k x
    using blocks_okD(4)[OF assms that(1)] that(2,3) by blast
  then show ?thesis by (auto simp: pages_of_def)
qed

lemma hole_remove: "blocks_ok M B \<Longrightarrow> (p, n) \<in> B \<Longrightarrow> hole M (B - {(p, n)}) p n"
  using blocks_okD[of M B p n] pages_of_remove[of M B p n] by (auto simp: hole_def)

lemma hole_not_mem: "hole M B p n \<Longrightarrow> (p, k) \<notin> B"
  using blk_self[of p n] blk_self[of p k] pages_ofI[of p k B] unfolding hole_def by blast

lemma blocks_ok_insert:
  assumes "blocks_ok M B" "hole M B p n" "n < M \<Longrightarrow> (buddy_of p n, n) \<notin> B"
  shows "blocks_ok M (insert (p, n) B)"
proof -
  have dis: "\<forall>q k. (q, k) \<in> B \<longrightarrow> blk p n \<inter> blk q k = {} \<and> blk q k \<inter> blk p n = {}"
    using assms(2) pages_ofI[of _ _ B] unfolding hole_def by blast
  have al: "block_aligned p n" "n \<le> M" using assms(2) by (auto simp: hole_def)
  have bud: "\<forall>q. (q, n) \<in> B \<and> n < M \<longrightarrow> buddy_of q n \<noteq> p"
    using assms(3) blocks_okD(1)[OF assms(1)] buddy_of_inv by metis
  have ok: "\<forall>p n. (p, n) \<in> B \<longrightarrow> block_aligned p n \<and> n \<le> M"
    "\<forall>p n q k. (p, n) \<in> B \<and> (q, k) \<in> B \<longrightarrow> (p, n) = (q, k) \<or> blk p n \<inter> blk q k = {}"
    "\<forall>p n. (p, n) \<in> B \<and> n < M \<longrightarrow> (buddy_of p n, n) \<notin> B"
    using assms(1) unfolding blocks_ok_def by blast+
  show ?thesis unfolding blocks_ok_def
  proof (intro conjI)
    show "\<forall>pa na. (pa, na) \<in> insert (p, n) B \<longrightarrow> block_aligned pa na \<and> na \<le> M"
      using ok(1) al by blast
    show "\<forall>pa na q k. (pa, na) \<in> insert (p, n) B \<and> (q, k) \<in> insert (p, n) B \<longrightarrow>
        (pa, na) = (q, k) \<or> blk pa na \<inter> blk q k = {}"
      using ok(2) dis by (simp only: insert_iff prod.inject) metis
    show "\<forall>pa na. (pa, na) \<in> insert (p, n) B \<and> na < M \<longrightarrow> (buddy_of pa na, na) \<notin> insert (p, n) B"
      using ok(3) bud assms(3) buddy_of_neq[OF al(1)] by (simp only: insert_iff prod.inject) metis
  qed
qed

text \<open>One step of \<open>expand\<close>: the upper half of a removed block becomes free.\<close>

lemma split_blocks:
  assumes "blocks_ok M B" "hole M B p (Suc n)"
  shows "blocks_ok M (insert (p + 2 ^ n, n) B)" "hole M (insert (p + 2 ^ n, n) B) p n"
proof -
  have al: "block_aligned p (Suc n)" "Suc n \<le> M" and dis: "blk p (Suc n) \<inter> pages_of B = {}"
    using assms(2) by (auto simp: hole_def)
  have h: "hole M B (p + 2 ^ n) n"
    using aligned_halves[OF al(1)] al dis by (auto simp: hole_def blk_split)
  have "(buddy_of (p + 2 ^ n) n, n) \<notin> B"
    using aligned_halves(5)[OF al(1)] hole_not_mem[OF assms(2)] by simp
  then show "blocks_ok M (insert (p + 2 ^ n, n) B)" by (rule blocks_ok_insert[OF assms(1) h])
  show "hole M (insert (p + 2 ^ n, n) B) p n"
    using aligned_halves[OF al(1)] al dis blk_split[of p n] by (auto simp: hole_def block_simps)
qed

text \<open>One round of \<open>__free_one_page\<close>: the freed block absorbs its free buddy.\<close>

lemma merge_block:
  assumes ok: "blocks_ok M B" and h: "hole M B p n" and "n < M" and bud: "(buddy_of p n, n) \<in> B"
  shows "hole M (B - {(buddy_of p n, n)}) (parent_of p n) (Suc n)"
    "pages_of (B - {(buddy_of p n, n)}) \<union> blk (parent_of p n) (Suc n) = pages_of B \<union> blk p n"
proof -
  have al: "block_aligned p n" using h by (simp add: hole_def)
  show "hole M (B - {(buddy_of p n, n)}) (parent_of p n) (Suc n)"
    using h \<open>n < M\<close> blk_parent[OF al] pages_of_remove[OF ok bud] by (auto simp: hole_def)
  show "pages_of (B - {(buddy_of p n, n)}) \<union> blk (parent_of p n) (Suc n) = pages_of B \<union> blk p n"
    using blk_parent[OF al] pages_of_remove[OF ok bud] pages_ofI[OF bud] by auto
qed

section \<open>The free pages determine the free blocks\<close>

lemma covered_by_one:
  assumes ok: "blocks_ok M B"
  shows "block_aligned p n \<Longrightarrow> n \<le> M \<Longrightarrow> blk p n \<subseteq> pages_of B \<Longrightarrow>
    \<exists>(q, k) \<in> B. n \<le> k \<and> blk p n \<subseteq> blk q k"
proof (induction n arbitrary: p)
  case 0
  have "p \<in> pages_of B" using 0(3) by auto
  then obtain q k where "(q, k) \<in> B" "p \<in> blk q k" by (rule pages_ofE)
  moreover have "blk p 0 = {p}" by (auto simp: blk_def)
  ultimately show ?case by auto
next
  case (Suc n)
  note al = aligned_halves[OF Suc.prems(1)]
  have sub: "blk p n \<subseteq> pages_of B" "blk (p + 2 ^ n) n \<subseteq> pages_of B"
    using Suc.prems(3) by (auto simp: blk_split)
  obtain q k where q: "(q, k) \<in> B" "n \<le> k" "blk p n \<subseteq> blk q k"
    using Suc.IH[OF al(1) _ sub(1)] Suc.prems(2) by auto
  obtain q' k' where q': "(q', k') \<in> B" "n \<le> k'" "blk (p + 2 ^ n) n \<subseteq> blk q' k'"
    using Suc.IH[OF al(2) _ sub(2)] Suc.prems(2) by auto
  note qo = blocks_okD[OF ok q(1)] and qo' = blocks_okD[OF ok q'(1)]
  have exact: "a = b" if "block_aligned a n" "block_aligned b n" "blk a n \<subseteq> blk b n" for a b
  proof -
    have "a \<in> blk b n" using that(3) by auto
    then have "a div 2 ^ n = b div 2 ^ n" using that(2) by (simp add: mem_blk_iff)
    then show ?thesis using that(1,2) by (metis block_aligned_def dvd_div_mult_self)
  qed
  consider "Suc n \<le> k" | "Suc n \<le> k'" | "k = n" "k' = n" using q(2) q'(2) by linarith
  then show ?case
  proof cases
    case 1
    have "blk p (Suc n) \<inter> blk q k \<noteq> {}" using q(3) blk_split(1)[of p n] blk_self[of p n] by blast
    then show ?thesis using blk_nested[OF Suc.prems(1) qo(1) 1] q(1) 1 by auto
  next
    case 2
    have "blk p (Suc n) \<inter> blk q' k' \<noteq> {}"
      using q'(3) blk_split(1)[of p n] blk_self[of "p + 2 ^ n" n] by blast
    then show ?thesis using blk_nested[OF Suc.prems(1) qo'(1) 2] q'(1) 2 by auto
  next
    case 3
    then have "q = p" "q' = p + 2 ^ n" using exact qo(1) qo'(1) al q(3) q'(3) by auto
    then show ?thesis using q(1) q'(1) qo(3) 3 Suc.prems(2) al(4) by auto
  qed
qed

lemma blocks_determined_subset:
  assumes ok: "blocks_ok M B" "blocks_ok M B'" and eq: "pages_of B = pages_of B'"
  shows "B \<subseteq> B'"
proof (rule subrelI)
  fix p n assume pn: "(p, n) \<in> B"
  note pno = blocks_okD[OF ok(1) pn]
  obtain q k where q: "(q, k) \<in> B'" "n \<le> k" "blk p n \<subseteq> blk q k"
    using covered_by_one[OF ok(2) pno(1,2)] pages_ofI[OF pn] eq by auto
  note qo = blocks_okD[OF ok(2) q(1)]
  obtain r j where r: "(r, j) \<in> B" "k \<le> j" "blk q k \<subseteq> blk r j"
    using covered_by_one[OF ok(1) qo(1,2)] pages_ofI[OF q(1)] eq by auto
  have "(p, n) = (r, j)" using blocks_okD(4)[OF ok(1) pn r(1)] q(3) r(3) blk_self[of p n] by blast
  then have "k = n" "blk q n = blk p n" using q r by auto
  then have "q = p" using blk_self[of q n] blk_self[of p n] by (auto simp: blk_def)
  then show "(p, n) \<in> B'" using q(1) \<open>k = n\<close> by simp
qed

lemma blocks_determined:
  "blocks_ok M B \<Longrightarrow> blocks_ok M B' \<Longrightarrow> pages_of B = pages_of B' \<Longrightarrow> B = B'"
  by (simp add: blocks_determined_subset subset_antisym)

end
