(* ===== verification/Buddy.thy ===== *)
theory Buddy
  imports Buddy_Blocks
begin

text \<open>
  The core of the buddy allocator of \<open>mm/page_alloc.c\<close>, the code that runs under
  \<open>zone->lock\<close>: freeing a block and merging it with its buddies, taking a block from the
  free lists and splitting it, the fallback to the lists of other mobility types with the transfer
  of whole page blocks, and compound pages. A \<open>struct page *\<close> is its page frame number; the
  memory map is a partial function, undefined where there is no \<open>struct page\<close>. The two
  dimensional array \<open>free_area[order].free_list[type]\<close> is a function of two indices whose
  every access is checked against the bounds of the array; the linked lists are lists of page frame
  numbers, head first. The configuration is the one of \<open>cavium-octeon_defconfig\<close>: 4 KB
  pages, huge pages, no holes in zones, no \<open>CONFIG_DEBUG_VM\<close>. So \<open>pfn_valid_within\<close> is constantly true,
  and \<open>page_zone\<close> stands for the zone id in the page flags. \<open>nr_free_pages\<close> is the exact value of the
  statistic \<open>NR_FREE_PAGES\<close>, the shared counter and the pending per-CPU differences of
  \<open>__mod_zone_page_state\<close> taken together.
\<close>

section \<open>Data\<close>

named_theorems buddy_consts \<open>constants of the page allocator\<close>

definition MAX_ORDER :: nat where [buddy_consts]: "MAX_ORDER = 11"
definition MIGRATE_UNMOVABLE :: nat where [buddy_consts]: "MIGRATE_UNMOVABLE = 0"
definition MIGRATE_RECLAIMABLE :: nat where [buddy_consts]: "MIGRATE_RECLAIMABLE = 1"
definition MIGRATE_MOVABLE :: nat where [buddy_consts]: "MIGRATE_MOVABLE = 2"
definition MIGRATE_PCPTYPES :: nat where [buddy_consts]: "MIGRATE_PCPTYPES = 3"
definition MIGRATE_RESERVE :: nat where [buddy_consts]: "MIGRATE_RESERVE = 3"
definition MIGRATE_ISOLATE :: nat where [buddy_consts]: "MIGRATE_ISOLATE = 4"
definition MIGRATE_TYPES :: nat where [buddy_consts]: "MIGRATE_TYPES = 5"

definition PAGE_SHIFT :: nat where [buddy_consts]: "PAGE_SHIFT = 12"
definition HPAGE_SHIFT :: nat where [buddy_consts]: "HPAGE_SHIFT = PAGE_SHIFT + PAGE_SHIFT - 3"
definition pageblock_order :: nat where [buddy_consts]: "pageblock_order = HPAGE_SHIFT - PAGE_SHIFT"
definition pageblock_nr_pages :: nat where [buddy_consts]: "pageblock_nr_pages = 2 ^ pageblock_order"

text \<open>\<open>private\<close> and \<open>first_page\<close> share their storage: the value says which was written last.\<close>

datatype page_union = Private nat | First_page nat

record page =
  PG_buddy :: bool
  PG_head :: bool
  PG_tail :: bool
  page_zone :: nat
  punion :: page_union
  lru_prev :: nat

record zone =
  free_list :: "nat \<Rightarrow> nat \<Rightarrow> nat list"
  nr_free :: "nat \<Rightarrow> ulong"
  zone_id :: nat
  zone_start_pfn :: nat
  spanned_pages :: nat
  all_unreclaimable :: bool
  pages_scanned :: ulong
  nr_free_pages :: ulong

record vm = zone +
  mem_map :: "nat \<Rightarrow> page option"
  pageblock_flags :: "nat \<Rightarrow> nat"
  page_group_by_mobility_disabled :: bool

section \<open>Pages\<close>

definition set_page :: "nat \<Rightarrow> (page \<Rightarrow> page) \<Rightarrow> vm \<Rightarrow> vm option" where
  "set_page p f m = do { pg \<leftarrow> mem_map m p; Some (m\<lparr>mem_map := (mem_map m)(p \<mapsto> f pg)\<rparr>) }"

definition set_page_private :: "nat \<Rightarrow> nat \<Rightarrow> vm \<Rightarrow> vm option" where
  "set_page_private p v = set_page p (\<lambda>pg. pg\<lparr>punion := Private v\<rparr>)"

definition page_private :: "page \<Rightarrow> nat option" where
  "page_private pg = (case punion pg of Private v \<Rightarrow> Some v | First_page _ \<Rightarrow> None)"

definition set_page_order :: "nat \<Rightarrow> nat \<Rightarrow> vm \<Rightarrow> vm option" where
  "set_page_order p n m = do {
     m \<leftarrow> set_page_private p n m;
     set_page p (\<lambda>pg. pg\<lparr>PG_buddy := True\<rparr>) m }"

definition rmv_page_order :: "nat \<Rightarrow> vm \<Rightarrow> vm option" where
  "rmv_page_order p m = do {
     m \<leftarrow> set_page p (\<lambda>pg. pg\<lparr>PG_buddy := False\<rparr>) m;
     set_page_private p 0 m }"

definition page_order :: "page \<Rightarrow> nat option" where
  "page_order pg = page_private pg"

definition bad_page :: "nat \<Rightarrow> vm \<Rightarrow> vm option" where
  "bad_page p = set_page p (\<lambda>pg. pg\<lparr>PG_buddy := False\<rparr>)"

section \<open>Compound pages\<close>

definition PageCompound :: "page \<Rightarrow> bool" where
  "PageCompound pg \<longleftrightarrow> PG_head pg \<or> PG_tail pg"

definition set_compound_order :: "nat \<Rightarrow> nat \<Rightarrow> vm \<Rightarrow> vm option" where
  "set_compound_order p n = set_page (p + 1) (\<lambda>pg. pg\<lparr>lru_prev := n\<rparr>)"

definition compound_order :: "nat \<Rightarrow> vm \<Rightarrow> nat option" where
  "compound_order p m = do {
     pg \<leftarrow> mem_map m p;
     if \<not> PG_head pg then Some 0 else do { t \<leftarrow> mem_map m (p + 1); Some (lru_prev t) } }"

definition prep_compound_page :: "nat \<Rightarrow> nat \<Rightarrow> vm \<Rightarrow> vm option" where
  "prep_compound_page p n m = do {
     m \<leftarrow> set_compound_order p n m;
     m \<leftarrow> set_page p (\<lambda>pg. pg\<lparr>PG_head := True\<rparr>) m;
     foldM (\<lambda>i m. set_page (p + i) (\<lambda>pg. pg\<lparr>PG_tail := True, punion := First_page p\<rparr>) m) [1..<2 ^ n] m }"

definition destroy_tail :: "nat \<Rightarrow> nat \<Rightarrow> nat \<times> vm \<Rightarrow> (nat \<times> vm) option" where
  "destroy_tail p i s = do {
     let (bad, m) = s;
     pg \<leftarrow> mem_map m (p + i);
     (bad, m) \<leftarrow> (if \<not> PG_tail pg \<or> punion pg \<noteq> First_page p
                   then do { m \<leftarrow> bad_page p m; Some (bad + 1, m) } else Some (bad, m));
     m \<leftarrow> set_page (p + i) (\<lambda>pg. pg\<lparr>PG_tail := False\<rparr>) m;
     Some (bad, m) }"

definition destroy_compound_page :: "nat \<Rightarrow> nat \<Rightarrow> vm \<Rightarrow> (nat \<times> vm) option" where
  "destroy_compound_page p n m = do {
     pg \<leftarrow> mem_map m p;
     co \<leftarrow> compound_order p m;
     (bad, m) \<leftarrow> (if co \<noteq> n \<or> \<not> PG_head pg
                   then do { m \<leftarrow> bad_page p m; Some (1, m) } else Some (0, m));
     m \<leftarrow> set_page p (\<lambda>pg. pg\<lparr>PG_head := False\<rparr>) m;
     foldM (destroy_tail p) [1..<2 ^ n] (bad, m) }"

section \<open>Free lists\<close>

definition area_ok :: "nat \<Rightarrow> nat \<Rightarrow> bool" where
  "area_ok n mt \<longleftrightarrow> n < MAX_ORDER \<and> mt < MIGRATE_TYPES"

definition get_list :: "nat \<Rightarrow> nat \<Rightarrow> vm \<Rightarrow> nat list option" where
  "get_list n mt m = (if area_ok n mt then Some (free_list m n mt) else None)"

definition list_add :: "nat \<Rightarrow> nat \<Rightarrow> nat \<Rightarrow> vm \<Rightarrow> vm option" where
  "list_add p n mt m =
     (if area_ok n mt
      then Some (m\<lparr>free_list := (free_list m)(n := (free_list m n)(mt := p # free_list m n mt))\<rparr>)
      else None)"

text \<open>Unlinking a page needs no list head; a page that is on no list has stale links.\<close>

definition on_list :: "nat \<Rightarrow> vm \<Rightarrow> bool" where
  "on_list p m \<longleftrightarrow> (\<exists>n \<in> set [0..<MAX_ORDER]. \<exists>mt \<in> set [0..<MIGRATE_TYPES]. p \<in> set (free_list m n mt))"

definition list_del :: "nat \<Rightarrow> vm \<Rightarrow> vm option" where
  "list_del p m =
     (if on_list p m then Some (m\<lparr>free_list := (\<lambda>n mt. filter (\<lambda>q. q \<noteq> p) (free_list m n mt))\<rparr>) else None)"

definition add_nr_free :: "nat \<Rightarrow> ulong \<Rightarrow> vm \<Rightarrow> vm option" where
  "add_nr_free n d m =
     (if n < MAX_ORDER then Some (m\<lparr>nr_free := (nr_free m)(n := nr_free m n + d)\<rparr>) else None)"

section \<open>Freeing\<close>

definition raw_page_find_buddy :: "nat \<Rightarrow> nat \<Rightarrow> nat \<Rightarrow> nat" where
  "raw_page_find_buddy p page_idx n =
     (let buddy_idx = page_idx XOR (2 ^ n) in nat (int p + (int buddy_idx - int page_idx)))"

definition raw_find_combined_index :: "nat \<Rightarrow> nat \<Rightarrow> nat" where
  "raw_find_combined_index page_idx n = unset_bit n page_idx"

definition page_is_buddy :: "nat \<Rightarrow> nat \<Rightarrow> nat \<Rightarrow> vm \<Rightarrow> bool option" where
  "page_is_buddy p buddy n m = do {
     pg \<leftarrow> mem_map m p;
     bg \<leftarrow> mem_map m buddy;
     if page_zone pg \<noteq> page_zone bg then Some False
     else if PG_buddy bg then do { bo \<leftarrow> page_order bg; Some (bo = n) }
     else Some False }"

function free_merge :: "nat \<Rightarrow> nat \<Rightarrow> nat \<Rightarrow> vm \<Rightarrow> (nat \<times> nat \<times> vm) option" where
  "free_merge p page_idx n m =
     (if n < MAX_ORDER - 1 then do {
        let buddy = raw_page_find_buddy p page_idx n;
        b \<leftarrow> page_is_buddy p buddy n m;
        if \<not> b then Some (p, n, m)
        else do {
          m \<leftarrow> list_del buddy m;
          m \<leftarrow> add_nr_free n (- 1) m;
          m \<leftarrow> rmv_page_order buddy m;
          let combined_idx = raw_find_combined_index page_idx n;
          free_merge (nat (int p + (int combined_idx - int page_idx))) combined_idx (n + 1) m } }
      else Some (p, n, m))"
  by pat_completeness auto
termination by (relation "measure (\<lambda>(_, _, n, _). MAX_ORDER - n)") auto
declare free_merge.simps [simp del]

definition raw_free_one_page :: "nat \<Rightarrow> nat \<Rightarrow> nat \<Rightarrow> vm \<Rightarrow> vm option" where
  "raw_free_one_page p n mt m = do {
     pg \<leftarrow> mem_map m p;
     (bad, m) \<leftarrow> (if PageCompound pg then destroy_compound_page p n m else Some (0, m));
     if bad \<noteq> 0 then Some m
     else do {
       let page_idx = p AND (2 ^ MAX_ORDER - 1);
       (p, n, m) \<leftarrow> free_merge p page_idx n m;
       m \<leftarrow> set_page_order p n m;
       m \<leftarrow> list_add p n mt m;
       add_nr_free n 1 m } }"

definition free_one_page :: "nat \<Rightarrow> nat \<Rightarrow> nat \<Rightarrow> vm \<Rightarrow> vm option" where
  "free_one_page p n mt m =
     raw_free_one_page p n mt
       (m\<lparr>all_unreclaimable := False, pages_scanned := 0, nr_free_pages := nr_free_pages m + 2 ^ n\<rparr>)"

section \<open>Allocating\<close>

fun expand :: "nat \<Rightarrow> nat \<Rightarrow> nat \<Rightarrow> nat \<Rightarrow> nat \<Rightarrow> nat \<Rightarrow> vm \<Rightarrow> vm option" where
  "expand p low high area sz mt m =
     (if high > low then do {
        let area = area - 1;
        let sz = sz div 2;
        m \<leftarrow> list_add (p + sz) area mt m;
        m \<leftarrow> add_nr_free area 1 m;
        m \<leftarrow> set_page_order (p + sz) (high - 1) m;
        expand p low (high - 1) area sz mt m }
      else Some m)"
declare expand.simps [simp del]

fun rmqueue_smallest_loop :: "nat list \<Rightarrow> nat \<Rightarrow> nat \<Rightarrow> vm \<Rightarrow> (nat option \<times> vm) option" where
  "rmqueue_smallest_loop [] n mt m = Some (None, m)"
| "rmqueue_smallest_loop (current_order # rest) n mt m = do {
     l \<leftarrow> get_list current_order mt m;
     (case l of
        [] \<Rightarrow> rmqueue_smallest_loop rest n mt m
      | p # _ \<Rightarrow> do {
          m \<leftarrow> list_del p m;
          m \<leftarrow> rmv_page_order p m;
          m \<leftarrow> add_nr_free current_order (- 1) m;
          m \<leftarrow> expand p n current_order current_order (2 ^ current_order) mt m;
          Some (Some p, m) }) }"

definition raw_rmqueue_smallest :: "nat \<Rightarrow> nat \<Rightarrow> vm \<Rightarrow> (nat option \<times> vm) option" where
  "raw_rmqueue_smallest n mt = rmqueue_smallest_loop [n..<MAX_ORDER] n mt"

text \<open>Entries that the initialiser leaves out are zero.\<close>

definition fallbacks :: "nat list list" where
  "fallbacks = [
     [MIGRATE_RECLAIMABLE, MIGRATE_MOVABLE, MIGRATE_RESERVE, 0],
     [MIGRATE_UNMOVABLE, MIGRATE_MOVABLE, MIGRATE_RESERVE, 0],
     [MIGRATE_RECLAIMABLE, MIGRATE_UNMOVABLE, MIGRATE_RESERVE, 0],
     [MIGRATE_RESERVE, MIGRATE_RESERVE, MIGRATE_RESERVE, 0],
     [0, 0, 0, 0]]"

function move_freepages_loop :: "nat \<Rightarrow> nat \<Rightarrow> nat \<Rightarrow> nat \<Rightarrow> vm \<Rightarrow> (nat \<times> vm) option" where
  "move_freepages_loop p end_page mt pages_moved m =
     (if p \<le> end_page then do {
        pg \<leftarrow> mem_map m p;
        if \<not> PG_buddy pg then move_freepages_loop (p + 1) end_page mt pages_moved m
        else do {
          n \<leftarrow> page_order pg;
          m \<leftarrow> list_del p m;
          m \<leftarrow> list_add p n mt m;
          move_freepages_loop (p + 2 ^ n) end_page mt (pages_moved + 2 ^ n) m } }
      else Some (pages_moved, m))"
  by pat_completeness auto
termination by (relation "measure (\<lambda>(p, e, _). Suc e - p)") (auto simp: diff_less_mono2 less_Suc_eq_le)
declare move_freepages_loop.simps [simp del]

definition move_freepages :: "nat \<Rightarrow> nat \<Rightarrow> nat \<Rightarrow> vm \<Rightarrow> (nat \<times> vm) option" where
  "move_freepages start_page end_page mt m = do {
     sp \<leftarrow> mem_map m start_page;
     ep \<leftarrow> mem_map m end_page;
     if page_zone sp \<noteq> page_zone ep then None
     else move_freepages_loop start_page end_page mt 0 m }"

definition move_freepages_block :: "nat \<Rightarrow> nat \<Rightarrow> vm \<Rightarrow> (nat \<times> vm) option" where
  "move_freepages_block p mt m =
     (let start_pfn = p - p mod pageblock_nr_pages;
          start_page = start_pfn;
          end_page = start_page + pageblock_nr_pages - 1;
          end_pfn = start_pfn + pageblock_nr_pages - 1;
          start_page = (if start_pfn < zone_start_pfn m then p else start_page)
      in if end_pfn \<ge> zone_start_pfn m + spanned_pages m then Some (0, m)
         else move_freepages start_page end_page mt m)"

definition set_pageblock_migratetype :: "nat \<Rightarrow> nat \<Rightarrow> vm \<Rightarrow> vm" where
  "set_pageblock_migratetype p mt m =
     (let mt = (if page_group_by_mobility_disabled m then MIGRATE_UNMOVABLE else mt)
      in m\<lparr>pageblock_flags := (pageblock_flags m)(p div pageblock_nr_pages := mt)\<rparr>)"

definition change_pageblock_range :: "nat \<Rightarrow> nat \<Rightarrow> nat \<Rightarrow> vm \<Rightarrow> vm" where
  "change_pageblock_range p start_order mt m =
     fold (\<lambda>i. set_pageblock_migratetype (p + i * pageblock_nr_pages) mt) [0..<2 ^ (start_order - pageblock_order)] m"

definition fallback_take :: "nat \<Rightarrow> nat \<Rightarrow> nat \<Rightarrow> nat \<Rightarrow> nat \<Rightarrow> vm \<Rightarrow> vm option" where
  "fallback_take p n current_order start_mt mt m = do {
     m \<leftarrow> add_nr_free current_order (- 1) m;
     (mt, m) \<leftarrow>
       (if current_order \<ge> pageblock_order div 2 \<or> start_mt = MIGRATE_RECLAIMABLE \<or>
           page_group_by_mobility_disabled m
        then do {
          (pages, m) \<leftarrow> move_freepages_block p start_mt m;
          let m = (if pages \<ge> 2 ^ (pageblock_order - 1) \<or> page_group_by_mobility_disabled m
                   then set_pageblock_migratetype p start_mt m else m);
          Some (start_mt, m) }
        else Some (mt, m));
     m \<leftarrow> list_del p m;
     m \<leftarrow> rmv_page_order p m;
     let m = (if current_order \<ge> pageblock_order then change_pageblock_range p current_order start_mt m else m);
     expand p n current_order current_order (2 ^ current_order) mt m }"

fun fallback_types :: "nat list \<Rightarrow> nat \<Rightarrow> nat \<Rightarrow> nat \<Rightarrow> vm \<Rightarrow> (nat option \<times> vm) option" where
  "fallback_types [] n current_order start_mt m = Some (None, m)"
| "fallback_types (mt # mts) n current_order start_mt m =
     (if mt = MIGRATE_RESERVE then fallback_types mts n current_order start_mt m
      else do {
        l \<leftarrow> get_list current_order mt m;
        (case l of
           [] \<Rightarrow> fallback_types mts n current_order start_mt m
         | p # _ \<Rightarrow> do { m \<leftarrow> fallback_take p n current_order start_mt mt m; Some (Some p, m) }) })"

fun fallback_orders :: "nat list \<Rightarrow> nat \<Rightarrow> nat \<Rightarrow> vm \<Rightarrow> (nat option \<times> vm) option" where
  "fallback_orders [] n start_mt m = Some (None, m)"
| "fallback_orders (current_order # rest) n start_mt m = do {
     row \<leftarrow> rd fallbacks start_mt;
     (r, m) \<leftarrow> fallback_types row n current_order start_mt m;
     (case r of None \<Rightarrow> fallback_orders rest n start_mt m | Some p \<Rightarrow> Some (Some p, m)) }"

definition raw_rmqueue_fallback :: "nat \<Rightarrow> nat \<Rightarrow> vm \<Rightarrow> (nat option \<times> vm) option" where
  "raw_rmqueue_fallback n start_mt = fallback_orders (rev [n..<MAX_ORDER]) n start_mt"

definition raw_rmqueue :: "nat \<Rightarrow> nat \<Rightarrow> vm \<Rightarrow> (nat option \<times> vm) option" where
  "raw_rmqueue n mt m = do {
     (r, m) \<leftarrow> raw_rmqueue_smallest n mt m;
     if r = None \<and> mt \<noteq> MIGRATE_RESERVE then do {
       (r, m) \<leftarrow> raw_rmqueue_fallback n mt m;
       if r = None then raw_rmqueue_smallest n MIGRATE_RESERVE m else Some (r, m) }
     else Some (r, m) }"

section \<open>The representation of a set of free blocks\<close>

definition zone_page :: "vm \<Rightarrow> nat \<Rightarrow> bool" where
  "zone_page m p \<longleftrightarrow> (\<exists>pg. mem_map m p = Some pg \<and> page_zone pg = zone_id m)"

definition plain_page :: "vm \<Rightarrow> nat \<Rightarrow> bool" where
  "plain_page m p \<longleftrightarrow> (\<exists>pg. mem_map m p = Some pg \<and> page_zone pg = zone_id m \<and> \<not> PageCompound pg)"

definition blocks :: "vm \<Rightarrow> (nat \<times> nat) set" where
  "blocks m = {(p, n). n < MAX_ORDER \<and> (\<exists>mt < MIGRATE_TYPES. p \<in> set (free_list m n mt))}"

definition rep_lists :: "vm \<Rightarrow> bool" where
  "rep_lists m \<longleftrightarrow>
     (\<forall>n mt. area_ok n mt \<longrightarrow> distinct (free_list m n mt)) \<and>
     (\<forall>n mt mt'. area_ok n mt \<and> area_ok n mt' \<and> mt \<noteq> mt' \<longrightarrow>
        set (free_list m n mt) \<inter> set (free_list m n mt') = {})"

definition rep_pages :: "vm \<Rightarrow> bool" where
  "rep_pages m \<longleftrightarrow>
     (\<forall>p n. (p, n) \<in> blocks m \<longrightarrow>
        (\<exists>pg. mem_map m p = Some pg \<and> PG_buddy pg \<and> punion pg = Private n)) \<and>
     (\<forall>p pg. mem_map m p = Some pg \<and> page_zone pg = zone_id m \<and> PG_buddy pg \<longrightarrow>
        (\<exists>n. (p, n) \<in> blocks m)) \<and>
     (\<forall>p \<in> pages_of (blocks m). plain_page m p) \<and>
     (\<forall>p q. zone_page m p \<and> q div 2 ^ (MAX_ORDER - 1) = p div 2 ^ (MAX_ORDER - 1) \<longrightarrow> mem_map m q \<noteq> None)"

definition rep :: "vm \<Rightarrow> bool" where
  "rep m \<longleftrightarrow> rep_lists m \<and> rep_pages m"

definition nr_ok :: "vm \<Rightarrow> bool" where
  "nr_ok m \<longleftrightarrow> (\<forall>n < MAX_ORDER. nr_free m n = of_nat (\<Sum>mt < MIGRATE_TYPES. length (free_list m n mt)))"

definition zone_inv :: "vm \<Rightarrow> bool" where
  "zone_inv m \<longleftrightarrow> rep m \<and> blocks_ok (MAX_ORDER - 1) (blocks m) \<and> nr_ok m"

definition free_pages :: "vm \<Rightarrow> nat set" where
  "free_pages m = pages_of (blocks m)"

definition zone_frame :: "vm \<Rightarrow> vm \<Rightarrow> bool" where
  "zone_frame m m' \<longleftrightarrow> zone_id m' = zone_id m \<and> zone_start_pfn m' = zone_start_pfn m \<and>
     spanned_pages m' = spanned_pages m \<and> nr_free_pages m' = nr_free_pages m \<and>
     (\<forall>p. map_option page_zone (mem_map m' p) = map_option page_zone (mem_map m p))"

definition same_zone :: "vm \<Rightarrow> vm \<Rightarrow> bool" where
  "same_zone m m' \<longleftrightarrow> zone_frame m m' \<and>
     (\<forall>p. map_option PageCompound (mem_map m' p) = map_option PageCompound (mem_map m p))"

definition untouched :: "nat set \<Rightarrow> vm \<Rightarrow> vm \<Rightarrow> bool" where
  "untouched S m m' \<longleftrightarrow> (\<forall>q. q \<notin> S \<longrightarrow> mem_map m' q = mem_map m q)"

definition nr_at :: "vm \<Rightarrow> nat \<Rightarrow> ulong" where
  "nr_at m n = of_nat (card {p. (p, n) \<in> blocks m})"

text \<open>Unlinking, linking and moving a block, as state transformers.\<close>

definition unlink :: "nat \<Rightarrow> vm \<Rightarrow> vm" where
  "unlink p m = m\<lparr>free_list := (\<lambda>n mt. filter (\<lambda>q. q \<noteq> p) (free_list m n mt)),
     mem_map := (mem_map m)(p \<mapsto> (the (mem_map m p))\<lparr>PG_buddy := False, punion := Private 0\<rparr>)\<rparr>"

definition link_block :: "nat \<Rightarrow> nat \<Rightarrow> nat \<Rightarrow> vm \<Rightarrow> vm" where
  "link_block p n mt m = m\<lparr>free_list := (free_list m)(n := (free_list m n)(mt := p # free_list m n mt)),
     mem_map := (mem_map m)(p \<mapsto> (the (mem_map m p))\<lparr>punion := Private n, PG_buddy := True\<rparr>)\<rparr>"

definition relist :: "nat \<Rightarrow> nat \<Rightarrow> nat \<Rightarrow> vm \<Rightarrow> vm" where
  "relist p n mt m =
     (let fl = (\<lambda>n mt. filter (\<lambda>q. q \<noteq> p) (free_list m n mt))
      in m\<lparr>free_list := fl(n := (fl n)(mt := p # fl n mt))\<rparr>)"

lemma rep_nr_free [simp]:
  "blocks (m\<lparr>nr_free := f\<rparr>) = blocks m" "rep (m\<lparr>nr_free := f\<rparr>) = rep m"
  "blocks (m\<lparr>pageblock_flags := g\<rparr>) = blocks m" "rep (m\<lparr>pageblock_flags := g\<rparr>) = rep m"
  by (simp_all add: rep_def rep_lists_def rep_pages_def blocks_def plain_page_def zone_page_def)

lemma same_zone_refl [simp]: "same_zone m m" "zone_frame m m"
  by (simp_all add: same_zone_def zone_frame_def)

lemma same_zone_frame: "same_zone m m' \<Longrightarrow> zone_frame m m'"
  by (simp add: same_zone_def)

lemma zone_frame_trans: "zone_frame a b \<Longrightarrow> zone_frame b c \<Longrightarrow> zone_frame a c"
  by (simp add: zone_frame_def)

lemma same_zone_trans: "same_zone a b \<Longrightarrow> same_zone b c \<Longrightarrow> same_zone a c"
  using zone_frame_trans by (auto simp: same_zone_def)

lemma untouched_refl [simp]: "untouched S m m"
  by (simp add: untouched_def)

lemma untouched_trans: "untouched S a b \<Longrightarrow> untouched T b c \<Longrightarrow> S \<subseteq> U \<Longrightarrow> T \<subseteq> U \<Longrightarrow> untouched U a c"
  unfolding untouched_def by (metis subsetD)

lemma untouched_link [simp]:
  "p \<in> S \<Longrightarrow> untouched S m (unlink p m)" "p \<in> S \<Longrightarrow> untouched S m (link_block p n mt m)"
  "untouched S m (m'\<lparr>nr_free := f\<rparr>) = untouched S m m'" "untouched S (m\<lparr>nr_free := f\<rparr>) m' = untouched S m m'"
  "untouched S m (m'\<lparr>pageblock_flags := g\<rparr>) = untouched S m m'"
  by (auto simp: untouched_def unlink_def link_block_def)

lemma zone_frame_page: "zone_frame m m' \<Longrightarrow> zone_page m' p \<longleftrightarrow> zone_page m p"
  by (auto simp: zone_frame_def zone_page_def map_option_eq_Some)
     (metis (no_types, lifting) map_option_eq_Some option.simps(9))+

lemma zone_frame_mapped: "zone_frame m m' \<Longrightarrow> mem_map m' p = None \<longleftrightarrow> mem_map m p = None"
  by (auto simp: zone_frame_def) (metis option.map_disc_iff)+

lemma same_zone_plain:
  assumes "same_zone m m'"
  shows "plain_page m' p \<longleftrightarrow> plain_page m p"
proof -
  have "map_option page_zone (mem_map m' p) = map_option page_zone (mem_map m p)" "zone_id m' = zone_id m"
    "map_option PageCompound (mem_map m' p) = map_option PageCompound (mem_map m p)"
    using assms by (simp_all add: same_zone_def zone_frame_def)
  then show ?thesis by (cases "mem_map m p"; cases "mem_map m' p") (auto simp: plain_page_def)
qed

lemma same_zone_upd [simp]:
  "same_zone m (m\<lparr>nr_free := f\<rparr>)" "same_zone m (m\<lparr>pageblock_flags := g\<rparr>)"
  "same_zone m (relist p n mt m)"
  by (simp_all add: same_zone_def zone_frame_def relist_def Let_def)

lemma same_zone_link [simp]:
  "mem_map m p \<noteq> None \<Longrightarrow> same_zone m (unlink p m)" "mem_map m p \<noteq> None \<Longrightarrow> same_zone m (link_block p n mt m)"
  by (auto simp: same_zone_def zone_frame_def unlink_def link_block_def PageCompound_def)

lemma blocksD:
  assumes "rep m" "(p, n) \<in> blocks m"
  shows "n < MAX_ORDER" "\<exists>pg. mem_map m p = Some pg \<and> PG_buddy pg \<and> punion pg = Private n \<and>
    page_zone pg = zone_id m \<and> \<not> PageCompound pg"
    "(p, k) \<in> blocks m \<Longrightarrow> k = n"
proof -
  show "n < MAX_ORDER" using assms(2) by (simp add: blocks_def)
  have r: "rep_pages m" using assms(1) by (simp add: rep_def)
  have pl: "plain_page m p" using r pages_ofI[OF assms(2)] blk_self[of p n] unfolding rep_pages_def by blast
  have b: "\<exists>pg. mem_map m p = Some pg \<and> PG_buddy pg \<and> punion pg = Private k" if "(p, k) \<in> blocks m" for k
    using r that unfolding rep_pages_def by blast
  show "\<exists>pg. mem_map m p = Some pg \<and> PG_buddy pg \<and> punion pg = Private n \<and>
      page_zone pg = zone_id m \<and> \<not> PageCompound pg"
    using b[OF assms(2)] pl by (auto simp: plain_page_def)
  show "k = n" if "(p, k) \<in> blocks m" using b[OF that] b[OF assms(2)] by auto
qed

lemma on_list_blocks: "on_list p m \<longleftrightarrow> (\<exists>n. (p, n) \<in> blocks m)"
  unfolding on_list_def blocks_def by (simp only: set_upt atLeastLessThan_iff) fastforce

lemma finite_blocks_at: "finite {p. (p, n) \<in> blocks m}"
proof -
  have "{p. (p, n) \<in> blocks m} \<subseteq> (\<Union>mt \<in> {..<MIGRATE_TYPES}. set (free_list m n mt))"
    by (auto simp: blocks_def)
  then show ?thesis by (rule finite_subset) auto
qed

lemma finite_blocks: "finite (blocks m)"
proof -
  have "blocks m \<subseteq> (\<Union>n \<in> {..<MAX_ORDER}. (\<lambda>p. (p, n)) ` {p. (p, n) \<in> blocks m})"
    by (auto simp: blocks_def)
  then show ?thesis by (rule finite_subset) (auto intro: finite_blocks_at)
qed

lemma finite_free_pages [simp]: "finite (free_pages m)"
  unfolding free_pages_def pages_of_def using finite_blocks by (auto simp: case_prod_beta)

lemma nr_ok_iff: "rep m \<Longrightarrow> nr_ok m \<longleftrightarrow> (\<forall>n < MAX_ORDER. nr_free m n = nr_at m n)"
proof -
  assume r: "rep m"
  have "(\<Sum>mt < MIGRATE_TYPES. length (free_list m n mt)) = card {p. (p, n) \<in> blocks m}" if n: "n < MAX_ORDER" for n
  proof -
    have e: "{p. (p, n) \<in> blocks m} = (\<Union>mt \<in> {..<MIGRATE_TYPES}. set (free_list m n mt))"
      using n by (auto simp: blocks_def)
    have "card (\<Union>mt \<in> {..<MIGRATE_TYPES}. set (free_list m n mt)) = (\<Sum>mt < MIGRATE_TYPES. card (set (free_list m n mt)))"
      using r n by (intro card_UN_disjoint) (auto simp: rep_def rep_lists_def area_ok_def)
    also have "\<dots> = (\<Sum>mt < MIGRATE_TYPES. length (free_list m n mt))"
      using r n by (intro sum.cong) (auto simp: rep_def rep_lists_def area_ok_def distinct_card)
    finally show ?thesis by (simp add: e)
  qed
  then show ?thesis by (simp add: nr_ok_def nr_at_def)
qed

lemma repI:
  assumes "rep_lists m'" "zone_frame m m'" "rep m"
    "\<And>p n. (p, n) \<in> blocks m' \<Longrightarrow> \<exists>pg. mem_map m' p = Some pg \<and> PG_buddy pg \<and> punion pg = Private n"
    "\<And>p pg. mem_map m' p = Some pg \<Longrightarrow> page_zone pg = zone_id m \<Longrightarrow> PG_buddy pg \<Longrightarrow> \<exists>n. (p, n) \<in> blocks m'"
    "\<And>p. p \<in> pages_of (blocks m') \<Longrightarrow> plain_page m' p"
  shows "rep m'"
proof -
  have "zone_id m' = zone_id m" using assms(2) by (simp add: zone_frame_def)
  moreover have "mem_map m' q \<noteq> None"
    if "zone_page m' p" "q div 2 ^ (MAX_ORDER - 1) = p div 2 ^ (MAX_ORDER - 1)" for p q
    using that zone_frame_page[OF assms(2)] zone_frame_mapped[OF assms(2)] assms(3)
    unfolding rep_def rep_pages_def by blast
  ultimately show ?thesis using assms unfolding rep_def rep_pages_def by metis
qed

lemma repD:
  assumes "rep m"
  shows "mem_map m p = Some pg \<Longrightarrow> page_zone pg = zone_id m \<Longrightarrow> PG_buddy pg \<Longrightarrow> \<exists>n. (p, n) \<in> blocks m"
    "p \<in> pages_of (blocks m) \<Longrightarrow> plain_page m p"
    "zone_page m p \<Longrightarrow> q div 2 ^ (MAX_ORDER - 1) = p div 2 ^ (MAX_ORDER - 1) \<Longrightarrow> \<exists>pg. mem_map m q = Some pg"
    "area_ok n mt \<Longrightarrow> distinct (free_list m n mt)"
    "area_ok n mt \<Longrightarrow> area_ok n mt' \<Longrightarrow> mt \<noteq> mt' \<Longrightarrow> set (free_list m n mt) \<inter> set (free_list m n mt') = {}"
  using assms unfolding rep_def rep_pages_def rep_lists_def by blast+

lemma mem_map_link:
  "mem_map (unlink p m) = (mem_map m)(p \<mapsto> (the (mem_map m p))\<lparr>PG_buddy := False, punion := Private 0\<rparr>)"
  "mem_map (link_block p n mt m) = (mem_map m)(p \<mapsto> (the (mem_map m p))\<lparr>punion := Private n, PG_buddy := True\<rparr>)"
  "mem_map (relist p n mt m) = mem_map m" "zone_id (unlink p m) = zone_id m" "zone_id (link_block p n mt m) = zone_id m"
  by (simp_all add: unlink_def link_block_def relist_def Let_def)

lemma unlink_steps:
  assumes "rep m" "(p, n) \<in> blocks m"
  shows "do { m \<leftarrow> list_del p m; m \<leftarrow> rmv_page_order p m; f m } = f (unlink p m)"
    "do { m \<leftarrow> list_del p m; m \<leftarrow> add_nr_free n d m; m \<leftarrow> rmv_page_order p m; f m } =
     f (unlink p m\<lparr>nr_free := (nr_free m)(n := nr_free m n + d)\<rparr>)"
  using blocksD(1,2)[OF assms] assms(2)
  by (auto simp: list_del_def on_list_blocks rmv_page_order_def set_page_def set_page_private_def
      add_nr_free_def unlink_def intro!: arg_cong[where f = f] vm.equality)

lemma blocks_fst:
  assumes "rep m" "(p, n) \<in> blocks m"
  shows "{b \<in> blocks m. fst b \<noteq> p} = blocks m - {(p, n)}"
proof (intro set_eqI iffI)
  fix b assume "b \<in> blocks m - {(p, n)}"
  then show "b \<in> {b \<in> blocks m. fst b \<noteq> p}"
    using blocksD(3)[OF assms, of "snd b"] by (cases b) auto
qed auto

lemma blocks_unlink:
  assumes "rep m" "(p, n) \<in> blocks m"
  shows "blocks (unlink p m) = blocks m - {(p, n)}"
proof -
  have "blocks (unlink p m) = {b \<in> blocks m. fst b \<noteq> p}" by (auto simp: blocks_def unlink_def)
  then show ?thesis using blocks_fst[OF assms] by simp
qed

lemma rep_unlink:
  assumes r: "rep m" and pn: "(p, n) \<in> blocks m"
  shows "rep (unlink p m)"
proof (rule repI[OF _ _ r])
  obtain pg where pg: "mem_map m p = Some pg" using blocksD(2)[OF r pn] by auto
  show "zone_frame m (unlink p m)" using pg by (simp add: same_zone_frame)
  show "rep_lists (unlink p m)" using repD(4,5)[OF r] by (fastforce simp: rep_lists_def unlink_def)
  show "\<exists>pg. mem_map (unlink p m) q = Some pg \<and> PG_buddy pg \<and> punion pg = Private k"
    if "(q, k) \<in> blocks (unlink p m)" for q k
    using that blocksD(2,3)[OF r, of q k] blocksD(3)[OF r pn] unfolding blocks_unlink[OF r pn] by (auto simp: mem_map_link)
  show "\<exists>n. (q, n) \<in> blocks (unlink p m)"
    if "mem_map (unlink p m) q = Some qg" "page_zone qg = zone_id m" "PG_buddy qg" for q qg
    using that repD(1)[OF r, of q qg] unfolding blocks_unlink[OF r pn] by (auto simp: mem_map_link split: if_splits)
  show "plain_page (unlink p m) q" if "q \<in> pages_of (blocks (unlink p m))" for q
  proof -
    have "q \<in> pages_of (blocks m)" using that blocks_unlink[OF r pn] by (auto simp: pages_of_def)
    then have "plain_page m q" by (rule repD(2)[OF r])
    then show ?thesis using pg by (auto simp: plain_page_def mem_map_link PageCompound_def)
  qed
qed

lemma link_block_steps:
  assumes "mem_map m p = Some pg" "area_ok n mt"
  shows "do { m \<leftarrow> set_page_order p n m; m \<leftarrow> list_add p n mt m; m \<leftarrow> add_nr_free n d m; f m } =
     f (link_block p n mt m\<lparr>nr_free := (nr_free m)(n := nr_free m n + d)\<rparr>)"
    "do { m \<leftarrow> list_add p n mt m; m \<leftarrow> add_nr_free n d m; m \<leftarrow> set_page_order p n m; f m } =
     f (link_block p n mt m\<lparr>nr_free := (nr_free m)(n := nr_free m n + d)\<rparr>)"
  using assms by (auto simp: list_add_def set_page_order_def set_page_def set_page_private_def add_nr_free_def
      link_block_def area_ok_def intro!: arg_cong[where f = f] vm.equality)

lemma blocks_link: "area_ok n mt \<Longrightarrow> blocks (link_block p n mt m) = insert (p, n) (blocks m)"
  by (auto simp: blocks_def link_block_def area_ok_def)

lemma rep_link:
  assumes r: "rep m" and a: "area_ok n mt" and dis: "blk p n \<inter> pages_of (blocks m) = {}"
    and pl: "\<And>q. q \<in> blk p n \<Longrightarrow> plain_page m q"
  shows "rep (link_block p n mt m)"
proof (rule repI[OF _ _ r])
  obtain pg where pg: "mem_map m p = Some pg" using pl[of p] by (auto simp: plain_page_def)
  have new: "(p, k) \<notin> blocks m" for k
    using dis pages_ofI[of p k "blocks m"] blk_self[of p k] blk_self[of p n] by blast
  have nin: "p \<notin> set (free_list m n mt')" if "area_ok n mt'" for mt'
    using new[of n] that by (auto simp: blocks_def area_ok_def)
  show "zone_frame m (link_block p n mt m)" using pg by (simp add: same_zone_frame)
  have l: "\<forall>n mt. area_ok n mt \<longrightarrow> distinct (free_list m n mt)"
    "\<forall>n mt mt'. area_ok n mt \<and> area_ok n mt' \<and> mt \<noteq> mt' \<longrightarrow>
       set (free_list m n mt) \<inter> set (free_list m n mt') = {}"
    "\<forall>mt'. area_ok n mt' \<longrightarrow> p \<notin> set (free_list m n mt')"
    using repD(4,5)[OF r] nin by blast+
  show "rep_lists (link_block p n mt m)"
    unfolding rep_lists_def link_block_def by (rule conjI) (use l a in auto)
  show "\<exists>pg. mem_map (link_block p n mt m) q = Some pg \<and> PG_buddy pg \<and> punion pg = Private k"
    if "(q, k) \<in> blocks (link_block p n mt m)" for q k
    using that blocksD(2)[OF r, of q k] new unfolding blocks_link[OF a] by (auto simp: mem_map_link)
  show "\<exists>k. (q, k) \<in> blocks (link_block p n mt m)"
    if "mem_map (link_block p n mt m) q = Some qg" "page_zone qg = zone_id m" "PG_buddy qg" for q qg
    using that repD(1)[OF r, of q qg] unfolding blocks_link[OF a] by (auto simp: mem_map_link split: if_splits)
  show "plain_page (link_block p n mt m) q" if "q \<in> pages_of (blocks (link_block p n mt m))" for q
  proof -
    have "plain_page m q" using that pl repD(2)[OF r] unfolding blocks_link[OF a] by (auto simp: block_simps)
    then show ?thesis using pg by (auto simp: plain_page_def mem_map_link PageCompound_def)
  qed
qed

end
