(* ===== verification/Buddy_Ops.thy ===== *)
theory Buddy_Ops
  imports Buddy
begin

text \<open>
  The operations of \<open>Buddy\<close> on the free blocks they represent: merging and freeing a block,
  splitting one, taking the smallest fitting block, the transfer of a page block to another mobility
  type and the fallback, and compound pages. Each lemma gives the set of free blocks after the
  operation, the counts, and which pages were not touched.
\<close>

section \<open>Freeing a block\<close>

lemma mod_eq_and_mask: "p AND (2 ^ k - Suc 0) = p mod (2 ^ k :: nat)"
  by (simp add: take_bit_eq_mask mask_eq_exp_minus_1 flip: take_bit_eq_mod)

lemma bit_mod_pow: "n < k \<Longrightarrow> bit (p mod 2 ^ k :: nat) n \<longleftrightarrow> odd (p div 2 ^ n)"
  by (simp add: bit_take_bit_iff flip: take_bit_eq_mod bit_iff_odd)

lemma nat_unset_bit: "unset_bit n (x :: nat) = (if bit x n then x - 2 ^ n else x)"
proof (cases "bit x n")
  case True
  have "set_bit n (unset_bit n x) = x"
    using True by (intro bit_eqI) (auto simp: bit_set_bit_iff bit_unset_bit_iff)
  moreover have "set_bit n (unset_bit n x) = unset_bit n x + 2 ^ n"
    by (simp add: set_bit_eq[of n "unset_bit n x"] bit_unset_bit_iff)
  ultimately show ?thesis using True by simp
next
  case False
  then show ?thesis by (auto intro!: bit_eqI simp: bit_unset_bit_iff)
qed

lemma nat_flip_bit: "(x :: nat) XOR 2 ^ n = (if bit x n then x - 2 ^ n else x + 2 ^ n)"
proof -
  have "x XOR 2 ^ n = flip_bit n x" by (simp add: flip_bit_eq_xor)
  also have "\<dots> = (if bit x n then x - 2 ^ n else x + 2 ^ n)"
    by (simp add: flip_bit_eq_if set_bit_eq nat_unset_bit)
  finally show ?thesis .
qed

lemma bit_le: "bit (x :: nat) n \<Longrightarrow> 2 ^ n \<le> x"
  by (metis bit_iff_odd div_less even_zero linorder_not_le)

lemma nat_diff_pow: "2 ^ n \<le> p \<Longrightarrow> nat (int p - 2 ^ n) = p - 2 ^ n"
  by (metis nat_int of_nat_diff of_nat_numeral of_nat_power)

lemma find_buddy_eq:
  assumes "n < MAX_ORDER"
  shows "raw_page_find_buddy p (p mod 2 ^ MAX_ORDER) n = buddy_of p n"
proof -
  have "odd (p div 2 ^ n) \<Longrightarrow> 2 ^ n \<le> p"
    by (metis div_less even_zero linorder_not_le)
  then show ?thesis
    using bit_mod_pow[OF assms] bit_le[of "p mod 2 ^ MAX_ORDER" n]
    by (auto simp: raw_page_find_buddy_def nat_flip_bit buddy_of_def Let_def of_nat_diff nat_diff_distrib nat_add_distrib nat_power_eq)
qed

lemma combined_index_eq:
  assumes "n < MAX_ORDER"
  shows "raw_find_combined_index (p mod 2 ^ MAX_ORDER) n = parent_of p n mod 2 ^ MAX_ORDER"
    "nat (int p + (int (parent_of p n mod 2 ^ MAX_ORDER) - int (p mod 2 ^ MAX_ORDER))) = parent_of p n"
proof -
  let ?i = "p mod 2 ^ MAX_ORDER"
  have u: "raw_find_combined_index ?i n = (if odd (p div 2 ^ n) then ?i - 2 ^ n else ?i)"
    using bit_mod_pow[OF assms] by (auto simp: raw_find_combined_index_def nat_unset_bit)
  have le: "odd (p div 2 ^ n) \<Longrightarrow> 2 ^ n \<le> ?i" "?i \<le> p"
    using bit_mod_pow[OF assms] bit_le[of ?i n] by auto
  have "(p - 2 ^ n) mod 2 ^ MAX_ORDER = ?i - 2 ^ n" if "odd (p div 2 ^ n)"
  proof -
    have "p - 2 ^ n = (p div 2 ^ MAX_ORDER) * 2 ^ MAX_ORDER + (?i - 2 ^ n)"
      using le(1)[OF that] by (metis Nat.add_diff_assoc div_mult_mod_eq)
    moreover have "?i - 2 ^ n < 2 ^ MAX_ORDER" by (simp add: less_imp_diff_less)
    ultimately show ?thesis by (metis mod_less mod_mult_self3)
  qed
  then have par: "parent_of p n mod 2 ^ MAX_ORDER = (if odd (p div 2 ^ n) then ?i - 2 ^ n else ?i)"
    by (simp add: parent_of_def)
  show "raw_find_combined_index ?i n = parent_of p n mod 2 ^ MAX_ORDER" by (simp only: u par)
  show "nat (int p + (int (parent_of p n mod 2 ^ MAX_ORDER) - int ?i)) = parent_of p n"
    unfolding par using le(1) nat_diff_pow[OF le_trans[OF le]] by (auto simp: parent_of_def of_nat_diff)
qed

lemma buddy_same_max:
  assumes "block_aligned p n" "n < MAX_ORDER - 1"
  shows "buddy_of p n div 2 ^ (MAX_ORDER - 1) = p div 2 ^ (MAX_ORDER - 1)"
proof -
  let ?M = "MAX_ORDER - 1"
  let ?q = "2 ^ ?M * (p div 2 ^ ?M)"
  have q: "block_aligned ?q ?M" by (simp add: block_aligned_def)
  have p: "p \<in> blk ?q ?M" using mem_blk_iff[OF q, of p] by simp
  have "blk (parent_of p n) (Suc n) \<inter> blk ?q ?M \<noteq> {}"
    using p blk_parent(1)[OF assms(1)] blk_self[of p n] by blast
  then have "blk (parent_of p n) (Suc n) \<subseteq> blk ?q ?M"
    using blk_nested[OF blk_parent(3)[OF assms(1)] q] assms(2) by simp
  then have "buddy_of p n \<in> blk ?q ?M" using blk_parent(1)[OF assms(1)] blk_self[of "buddy_of p n" n] by blast
  then show ?thesis using mem_blk_iff[OF q] by simp
qed

lemma page_is_buddy_iff:
  assumes r: "rep m" and al: "block_aligned p n" "n < MAX_ORDER - 1" and z: "zone_page m p"
  shows "page_is_buddy p (buddy_of p n) n m = Some ((buddy_of p n, n) \<in> blocks m)"
proof -
  obtain pg where pg: "mem_map m p = Some pg" "page_zone pg = zone_id m" using z by (auto simp: zone_page_def)
  obtain bg where bg: "mem_map m (buddy_of p n) = Some bg"
    using repD(3)[OF r z buddy_same_max[OF al]] by auto
  show ?thesis
  proof (cases "page_zone bg = zone_id m \<and> PG_buddy bg")
    case True
    then obtain k where k: "(buddy_of p n, k) \<in> blocks m" using repD(1)[OF r bg] by auto
    have "(buddy_of p n, n) \<in> blocks m \<longleftrightarrow> k = n" using k blocksD(3)[OF r k, of n] by blast
    moreover have "punion bg = Private k" using blocksD(2)[OF r k] bg by auto
    ultimately show ?thesis using pg bg True by (simp add: page_is_buddy_def page_order_def page_private_def)
  next
    case False
    then have "(buddy_of p n, n) \<notin> blocks m" using blocksD(2)[OF r, of "buddy_of p n" n] bg by auto
    then show ?thesis using False pg bg by (auto simp: page_is_buddy_def)
  qed
qed

lemma plain_imp_zone: "plain_page m p \<Longrightarrow> zone_page m p"
  by (auto simp: plain_page_def zone_page_def)

lemma plain_page_link [simp]:
  "mem_map m p \<noteq> None \<Longrightarrow> plain_page (unlink p m) q = plain_page m q"
  "mem_map m p \<noteq> None \<Longrightarrow> plain_page (link_block p n mt m) q = plain_page m q"
  "plain_page (relist p n mt m) q = plain_page m q"
  "plain_page (m\<lparr>nr_free := f\<rparr>) q = plain_page m q"
  by (auto simp: plain_page_def mem_map_link PageCompound_def) (auto simp: relist_def)

text \<open>The counts: \<open>slack m n\<close> is how far \<open>nr_free\<close> is ahead of the lists of order \<open>n\<close>.\<close>

definition slack :: "vm \<Rightarrow> nat \<Rightarrow> ulong" where
  "slack m n = nr_free m n - nr_at m n"

lemma card_at_remove: "(p, n) \<in> B \<Longrightarrow> finite {q. (q, n) \<in> B} \<Longrightarrow>
    of_nat (card {q. (q, k) \<in> B - {(p, n)}}) = (of_nat (card {q. (q, k) \<in> B}) - (if k = n then 1 else 0) :: ulong)"
proof (cases "k = n")
  case True
  assume a: "(p, n) \<in> B" "finite {q. (q, n) \<in> B}"
  have "{q. (q, n) \<in> B - {(p, n)}} = {q. (q, n) \<in> B} - {p}" by auto
  moreover have "Suc (card ({q. (q, n) \<in> B} - {p})) = card {q. (q, n) \<in> B}"
    using a(2) by (rule card_Suc_Diff1) (simp add: a(1))
  then have "(of_nat (card {q. (q, n) \<in> B}) :: ulong) = of_nat (card ({q. (q, n) \<in> B} - {p})) + 1"
    by (metis add.commute of_nat_Suc)
  ultimately show ?thesis using True by simp
qed auto

lemma card_at_insert: "(p, n) \<notin> B \<Longrightarrow> finite {q. (q, n) \<in> B} \<Longrightarrow>
    of_nat (card {q. (q, k) \<in> insert (p, n) B}) = (of_nat (card {q. (q, k) \<in> B}) + (if k = n then 1 else 0) :: ulong)"
proof (cases "k = n")
  case True
  assume a: "(p, n) \<notin> B" "finite {q. (q, n) \<in> B}"
  have "{q. (q, n) \<in> insert (p, n) B} = insert p {q. (q, n) \<in> B}" by auto
  then show ?thesis using a True by simp
qed auto

lemma nr_free_link [simp]: "nr_free (unlink p m) = nr_free m" "nr_free (link_block p n mt m) = nr_free m"
  "nr_free (relist p n mt m) = nr_free m"
  by (simp_all add: unlink_def link_block_def relist_def Let_def)

lemma slack_unlink:
  assumes "rep m" "(p, n) \<in> blocks m"
  shows "slack (unlink p m\<lparr>nr_free := (nr_free m)(n := nr_free m n + d)\<rparr>) k = slack m k + (if k = n then d + 1 else 0)"
  using card_at_remove[OF assms(2) finite_blocks_at, of k] by (simp add: slack_def nr_at_def blocks_unlink[OF assms])

lemma slack_link:
  assumes "area_ok n mt" "(p, n) \<notin> blocks m"
  shows "slack (link_block p n mt m\<lparr>nr_free := (nr_free m)(n := nr_free m n + d)\<rparr>) k = slack m k + (if k = n then d - 1 else 0)"
  using card_at_insert[OF assms(2) finite_blocks_at, of k] by (simp add: slack_def nr_at_def blocks_link[OF assms(1)])

lemma zone_inv_iff:
  "zone_inv m \<longleftrightarrow> rep m \<and> blocks_ok (MAX_ORDER - 1) (blocks m) \<and> (\<forall>n < MAX_ORDER. slack m n = 0)"
  using nr_ok_iff by (auto simp: zone_inv_def slack_def)

text \<open>A block that can be put on the free lists: aligned, not free, of plain pages of the zone.\<close>

definition freeable :: "vm \<Rightarrow> nat \<Rightarrow> nat \<Rightarrow> bool" where
  "freeable m p n \<longleftrightarrow> rep m \<and> blocks_ok (MAX_ORDER - 1) (blocks m) \<and> hole (MAX_ORDER - 1) (blocks m) p n \<and>
     (\<forall>q \<in> blk p n. plain_page m q)"

lemma freeableD:
  assumes "freeable m p n"
  shows "rep m" "blocks_ok (MAX_ORDER - 1) (blocks m)" "hole (MAX_ORDER - 1) (blocks m) p n"
    "q \<in> blk p n \<Longrightarrow> plain_page m q" "block_aligned p n" "n \<le> MAX_ORDER - 1" "zone_page m p"
  using assms blk_self[of p n] plain_imp_zone by (auto simp: freeable_def hole_def)

text \<open>One round of the loop of \<open>__free_one_page\<close> that merges.\<close>

lemma free_merge_step:
  assumes f: "freeable m p n" and n: "n < MAX_ORDER - 1" and b: "(buddy_of p n, n) \<in> blocks m"
  shows "\<exists>m'. free_merge p (p mod 2 ^ MAX_ORDER) n m =
      free_merge (parent_of p n) (parent_of p n mod 2 ^ MAX_ORDER) (Suc n) m' \<and>
    freeable m' (parent_of p n) (Suc n) \<and> slack m' = slack m \<and> same_zone m m' \<and>
    untouched (pages_of (blocks m)) m m' \<and> pages_of (blocks m') \<union> blk (parent_of p n) (Suc n) = pages_of (blocks m) \<union> blk p n"
proof (intro exI conjI)
  let ?b = "buddy_of p n"
  let ?m = "unlink ?b m\<lparr>nr_free := (nr_free m)(n := nr_free m n + - 1)\<rparr>"
  note d = freeableD[OF f]
  note mg = merge_block[OF d(2,3) n b]
  obtain bg where bg: "mem_map m ?b = Some bg" using blocksD(2)[OF d(1) b] by auto
  have bl: "blocks ?m = blocks m - {(?b, n)}" using blocks_unlink[OF d(1) b] by simp
  show "free_merge p (p mod 2 ^ MAX_ORDER) n m =
      free_merge (parent_of p n) (parent_of p n mod 2 ^ MAX_ORDER) (Suc n) ?m"
    using n b page_is_buddy_iff[OF d(1,5) n d(7)]
    by (subst free_merge.simps) (simp add: find_buddy_eq combined_index_eq Let_def unlink_steps(2)[OF d(1) b])
  have "plain_page ?m q" if "q \<in> blk (parent_of p n) (Suc n)" for q
    using that d(4) repD(2)[OF d(1)] pages_ofI[OF b] bg blk_parent(1)[OF d(5)] by auto
  then show "freeable ?m (parent_of p n) (Suc n)"
    unfolding freeable_def bl using mg(1) rep_unlink[OF d(1) b] blocks_ok_remove[OF d(2)] by simp
  show "slack ?m = slack m" by (rule ext) (simp only: slack_unlink[OF d(1) b], simp)
  show "same_zone m ?m" using bg by (intro same_zone_trans[OF same_zone_link(1) same_zone_upd(1)]) simp
  show "untouched (pages_of (blocks m)) m ?m" using subsetD[OF pages_ofI[OF b] blk_self] by simp
  show "pages_of (blocks ?m) \<union> blk (parent_of p n) (Suc n) = pages_of (blocks m) \<union> blk p n"
    unfolding bl by (rule mg(2))
qed

lemma free_merge_correct:
  assumes "freeable m p n"
  shows "\<exists>p' n' m'. free_merge p (p mod 2 ^ MAX_ORDER) n m = Some (p', n', m') \<and> freeable m' p' n' \<and>
    (n' < MAX_ORDER - 1 \<longrightarrow> (buddy_of p' n', n') \<notin> blocks m') \<and>
    pages_of (blocks m') \<union> blk p' n' = pages_of (blocks m) \<union> blk p n \<and> slack m' = slack m \<and> same_zone m m' \<and>
    untouched (pages_of (blocks m) \<union> blk p n) m m'"
  using assms
proof (induction "MAX_ORDER - n" arbitrary: p n m rule: less_induct)
  case less
  show ?case
  proof (cases "n < MAX_ORDER - 1 \<and> (buddy_of p n, n) \<in> blocks m")
    case False
    note d = freeableD[OF less.prems]
    have "free_merge p (p mod 2 ^ MAX_ORDER) n m = Some (p, n, m)"
      using False page_is_buddy_iff[OF d(1,5) _ d(7)] find_buddy_eq[of n p] by (subst free_merge.simps) auto
    then show ?thesis using False less.prems by auto
  next
    case True
    then obtain m' where m': "free_merge p (p mod 2 ^ MAX_ORDER) n m =
        free_merge (parent_of p n) (parent_of p n mod 2 ^ MAX_ORDER) (Suc n) m'"
      "freeable m' (parent_of p n) (Suc n)" "slack m' = slack m" "same_zone m m'"
      "pages_of (blocks m') \<union> blk (parent_of p n) (Suc n) = pages_of (blocks m) \<union> blk p n"
      and un: "untouched (pages_of (blocks m)) m m'"
      using free_merge_step[OF less.prems] by blast
    have "MAX_ORDER - Suc n < MAX_ORDER - n" using True by linarith
    from less.hyps[OF this m'(2)] show ?thesis
      unfolding m'(1,3,5) using same_zone_trans[OF m'(4)] untouched_trans[OF un] by blast
  qed
qed

lemma raw_free_one_page_correct:
  assumes f: "freeable m p n" and mt: "mt < MIGRATE_TYPES"
  shows "\<exists>m'. raw_free_one_page p n mt m = Some m' \<and> rep m' \<and> blocks_ok (MAX_ORDER - 1) (blocks m') \<and>
    free_pages m' = free_pages m \<union> blk p n \<and> slack m' = slack m \<and> same_zone m m' \<and>
    untouched (free_pages m \<union> blk p n) m m'"
proof -
  obtain p' n' m' where s: "free_merge p (p mod 2 ^ MAX_ORDER) n m = Some (p', n', m')" and f': "freeable m' p' n'"
    and nb: "n' < MAX_ORDER - 1 \<Longrightarrow> (buddy_of p' n', n') \<notin> blocks m'"
    and pg: "pages_of (blocks m') \<union> blk p' n' = pages_of (blocks m) \<union> blk p n"
    and sl: "slack m' = slack m" "same_zone m m'" and un: "untouched (pages_of (blocks m) \<union> blk p n) m m'"
    using free_merge_correct[OF f] by blast
  let ?m = "link_block p' n' mt m'\<lparr>nr_free := (nr_free m')(n' := nr_free m' n' + 1)\<rparr>"
  note d = freeableD[OF f']
  have a: "area_ok n' mt" using d(6) mt by (auto simp: area_ok_def buddy_consts)
  have bl: "blocks ?m = insert (p', n') (blocks m')" using blocks_link[OF a] by simp
  obtain pg where "mem_map m p = Some pg" "\<not> PageCompound pg"
    using freeableD(4)[OF f, of p] by (auto simp: plain_page_def)
  moreover obtain pg' where pg': "mem_map m' p' = Some pg'" using d(7) by (auto simp: zone_page_def)
  ultimately have "raw_free_one_page p n mt m = Some ?m"
    using link_block_steps(1)[OF pg' a, where f = Some and d = 1]
    by (simp add: raw_free_one_page_def s mod_eq_and_mask del: bind_split_Some)
  moreover have "rep ?m" using rep_link[OF d(1) a _ d(4)] d(3) by (auto simp: hole_def)
  moreover have "blocks_ok (MAX_ORDER - 1) (blocks ?m)"
    unfolding bl using blocks_ok_insert[OF d(2,3)] nb by simp
  moreover have "free_pages ?m = free_pages m \<union> blk p n"
    unfolding free_pages_def bl using pg by (auto simp: block_simps)
  moreover have "slack ?m = slack m"
    using slack_link[OF a hole_not_mem[OF d(3)], of 1] sl(1) by (auto simp: fun_eq_iff)
  moreover have "same_zone m ?m"
    using same_zone_trans[OF sl(2) same_zone_trans[OF same_zone_link(2) same_zone_upd(1)]] pg' by simp
  moreover have "untouched (free_pages m \<union> blk p n) m ?m"
    using untouched_trans[OF un untouched_link(2)[of p' "blk p' n'"]] pg blk_self[of p' n']
    unfolding free_pages_def by auto
  ultimately show ?thesis by blast
qed

section \<open>Allocating a block\<close>

definition alloc_result :: "vm \<Rightarrow> nat \<Rightarrow> nat \<Rightarrow> vm \<Rightarrow> bool" where
  "alloc_result m p n m' \<longleftrightarrow> freeable m' p n \<and> slack m' = slack m \<and> same_zone m m' \<and>
     untouched (free_pages m) m m' \<and> blk p n \<subseteq> free_pages m \<and> free_pages m' = free_pages m - blk p n"

lemma expand_step:
  assumes f: "freeable m p (Suc h)" and mt: "mt < MIGRATE_TYPES" and lo: "low \<le> h"
  shows "\<exists>m'. expand p low (Suc h) (Suc h) (2 ^ Suc h) mt m = expand p low h h (2 ^ h) mt m' \<and>
    freeable m' p h \<and> slack m' = slack m \<and> same_zone m m' \<and> untouched (blk p (Suc h)) m m' \<and>
    free_pages m' = free_pages m \<union> blk (p + 2 ^ h) h"
proof (intro exI conjI)
  let ?m = "link_block (p + 2 ^ h) h mt m\<lparr>nr_free := (nr_free m)(h := nr_free m h + 1)\<rparr>"
  note d = freeableD[OF f]
  have a: "area_ok h mt" using d(6) mt by (auto simp: area_ok_def buddy_consts)
  have bl: "blocks ?m = insert (p + 2 ^ h, h) (blocks m)" using blocks_link[OF a] by simp
  have up: "q \<in> blk p (Suc h)" if "q \<in> blk (p + 2 ^ h) h" for q using that by (simp add: blk_split)
  have up': "q \<in> blk p (Suc h)" if "q \<in> blk p h" for q using that by (simp add: blk_split)
  obtain pg where pg: "mem_map m (p + 2 ^ h) = Some pg"
    using d(4)[OF up[OF blk_self]] by (auto simp: plain_page_def)
  show "expand p low (Suc h) (Suc h) (2 ^ Suc h) mt m = expand p low h h (2 ^ h) mt ?m"
    using lo link_block_steps(2)[OF pg a, where f = "expand p low h h (2 ^ h) mt" and d = 1]
    by (subst expand.simps) (simp add: Let_def)
  have dis: "blk (p + 2 ^ h) h \<inter> pages_of (blocks m) = {}"
    using d(3) up unfolding hole_def by blast
  note sp = split_blocks[OF d(2,3)]
  show "freeable ?m p h" unfolding freeable_def bl
    using sp rep_link[OF d(1) a dis d(4)[OF up]] d(4)[OF up'] pg by simp
  have "(p + 2 ^ h, h) \<notin> blocks m" using dis pages_ofI[of "p + 2 ^ h" h "blocks m"] blk_self[of "p + 2 ^ h" h] by blast
  then show "slack ?m = slack m" using slack_link[OF a, of "p + 2 ^ h" m 1] by (auto simp: fun_eq_iff)
  show "same_zone m ?m" using pg by (intro same_zone_trans[OF same_zone_link(2) same_zone_upd(1)]) simp
  show "untouched (blk p (Suc h)) m ?m" using up[OF blk_self] by simp
  show "free_pages ?m = free_pages m \<union> blk (p + 2 ^ h) h"
    unfolding free_pages_def bl by (auto simp: block_simps)
qed

lemma expand_correct:
  assumes "freeable m p high" "low \<le> high" "mt < MIGRATE_TYPES"
  shows "\<exists>m'. expand p low high high (2 ^ high) mt m = Some m' \<and> freeable m' p low \<and>
    slack m' = slack m \<and> same_zone m m' \<and> untouched (blk p high) m m' \<and>
    free_pages m' = free_pages m \<union> (blk p high - blk p low)"
  using assms
proof (induction high arbitrary: m)
  case 0
  then show ?case by (auto simp: expand.simps)
next
  case (Suc h)
  show ?case
  proof (cases "low = Suc h")
    case True
    then show ?thesis using Suc.prems by (auto simp: expand.simps)
  next
    case False
    then have lo: "low \<le> h" using Suc.prems(2) by simp
    obtain m1 where m1: "expand p low (Suc h) (Suc h) (2 ^ Suc h) mt m = expand p low h h (2 ^ h) mt m1"
      "freeable m1 p h" "slack m1 = slack m" "same_zone m m1" "free_pages m1 = free_pages m \<union> blk (p + 2 ^ h) h"
      "untouched (blk p (Suc h)) m m1"
      using expand_step[OF Suc.prems(1,3) lo] by blast
    obtain m' where m': "expand p low h h (2 ^ h) mt m1 = Some m'" "freeable m' p low" "slack m' = slack m1"
      "same_zone m1 m'" "free_pages m' = free_pages m1 \<union> (blk p h - blk p low)" "untouched (blk p h) m1 m'"
      using Suc.IH[OF m1(2) lo Suc.prems(3)] by blast
    have "blk p low \<subseteq> blk p h" using lo by (auto simp: blk_def intro: less_le_trans)
    then have "free_pages m' = free_pages m \<union> (blk p (Suc h) - blk p low)"
      unfolding m'(5) m1(5) using blk_split(2)[of p h] by (auto simp: blk_split(1))
    moreover have "untouched (blk p (Suc h)) m m'"
      using untouched_trans[OF m1(6) m'(6)] by (simp add: blk_split(1))
    ultimately show ?thesis using m1 m' same_zone_trans[OF m1(4) m'(4)] by simp
  qed
qed

lemma unlink_freeable:
  assumes "rep m" "blocks_ok (MAX_ORDER - 1) (blocks m)" "(p, n) \<in> blocks m"
  shows "freeable (unlink p m) p n" "free_pages (unlink p m) = free_pages m - blk p n"
    "blk p n \<subseteq> free_pages m"
proof -
  obtain pg where pg: "mem_map m p = Some pg" using blocksD(2)[OF assms(1,3)] by auto
  show sub: "blk p n \<subseteq> free_pages m" using pages_ofI[OF assms(3)] by (simp add: free_pages_def)
  show "freeable (unlink p m) p n"
    unfolding freeable_def blocks_unlink[OF assms(1,3)]
    using rep_unlink[OF assms(1,3)] blocks_ok_remove[OF assms(2)] hole_remove[OF assms(2,3)]
      repD(2)[OF assms(1)] sub pg by (auto simp: free_pages_def)
  show "free_pages (unlink p m) = free_pages m - blk p n"
    using pages_of_remove[OF assms(2,3)] by (simp add: free_pages_def blocks_unlink[OF assms(1,3)])
qed

lemma freeable_nr_free [simp]:
  "freeable (m\<lparr>nr_free := f\<rparr>) p n = freeable m p n" "free_pages (m\<lparr>nr_free := f\<rparr>) = free_pages m"
  "freeable (m\<lparr>pageblock_flags := g\<rparr>) p n = freeable m p n" "free_pages (m\<lparr>pageblock_flags := g\<rparr>) = free_pages m"
  "slack (m\<lparr>pageblock_flags := g\<rparr>) = slack m" "nr_at (m\<lparr>nr_free := f\<rparr>) = nr_at m"
  by (auto simp: freeable_def free_pages_def plain_page_def slack_def nr_at_def fun_eq_iff)

text \<open>Splitting a block that has been taken off its list and out of the count.\<close>

lemma take_and_expand:
  assumes r: "rep m" and ok: "blocks_ok (MAX_ORDER - 1) (blocks m)" and pn: "(p, high) \<in> blocks m"
    and lo: "low \<le> high" and mt: "mt < MIGRATE_TYPES"
  shows "\<exists>m'. expand p low high high (2 ^ high) mt
      (unlink p m\<lparr>nr_free := (nr_free m)(high := nr_free m high + - 1)\<rparr>) = Some m' \<and> alloc_result m p low m'"
proof -
  let ?m = "unlink p m\<lparr>nr_free := (nr_free m)(high := nr_free m high + - 1)\<rparr>"
  note u = unlink_freeable[OF r ok pn]
  have f: "freeable ?m p high" using u(1) by simp
  have sl: "slack ?m = slack m" by (rule ext) (simp only: slack_unlink[OF r pn], simp)
  have pg: "mem_map m p \<noteq> None" using blocksD(2)[OF r pn] by auto
  then have z: "same_zone m ?m" by (intro same_zone_trans[OF same_zone_link(1) same_zone_upd(1)]) simp
  obtain m' where m': "expand p low high high (2 ^ high) mt ?m = Some m'" "freeable m' p low" "slack m' = slack ?m"
    "same_zone ?m m'" "free_pages m' = free_pages ?m \<union> (blk p high - blk p low)" "untouched (blk p high) ?m m'"
    using expand_correct[OF f lo mt] by blast
  have "blk p low \<subseteq> blk p high" using lo by (auto simp: blk_def intro: less_le_trans)
  moreover have "untouched (free_pages m) m m'"
    using untouched_trans[OF untouched_link(1)[of p "blk p high"] m'(6)[unfolded untouched_link(4)]] u(3) by simp
  ultimately have "alloc_result m p low m'"
    unfolding alloc_result_def using m' sl same_zone_trans[OF z m'(4)] u(2,3) by auto
  then show ?thesis using m'(1) by blast
qed

lemma smallest_loop_correct:
  assumes r: "rep m" and ok: "blocks_ok (MAX_ORDER - 1) (blocks m)" and mt: "mt < MIGRATE_TYPES"
  shows "(\<forall>k \<in> set os. n \<le> k \<and> k < MAX_ORDER) \<Longrightarrow>
    (rmqueue_smallest_loop os n mt m = Some (None, m) \<and> (\<forall>k \<in> set os. free_list m k mt = [])) \<or>
    (\<exists>p m'. rmqueue_smallest_loop os n mt m = Some (Some p, m') \<and> alloc_result m p n m' \<and>
       (\<exists>k \<in> set os. free_list m k mt \<noteq> []))"
proof (induction os)
  case (Cons k os)
  have lo: "n \<le> k" "k < MAX_ORDER" using Cons.prems by auto
  then have a: "area_ok k mt" using mt by (simp add: area_ok_def)
  show ?case
  proof (cases "free_list m k mt")
    case Nil
    then show ?thesis using Cons a by (simp add: get_list_def)
  next
    case (Cons p rest)
    have pn: "(p, k) \<in> blocks m" using Cons a by (auto simp: blocks_def area_ok_def intro!: exI[of _ mt])
    obtain m' where "expand p n k k (2 ^ k) mt (unlink p m\<lparr>nr_free := (nr_free m)(k := nr_free m k + - 1)\<rparr>) = Some m'"
      "alloc_result m p n m'"
      using take_and_expand[OF r ok pn lo(1) mt] by blast
    then have "rmqueue_smallest_loop (k # os) n mt m = Some (Some p, m')"
      using a lo(2) Cons by (simp add: get_list_def unlink_steps(1)[OF r pn] add_nr_free_def del: bind_split_Some)
    then show ?thesis using \<open>alloc_result m p n m'\<close> Cons by auto
  qed
qed simp

lemma smallest_correct:
  assumes "rep m" "blocks_ok (MAX_ORDER - 1) (blocks m)" "mt < MIGRATE_TYPES" "n < MAX_ORDER"
  obtains (empty) "raw_rmqueue_smallest n mt m = Some (None, m)"
      "\<forall>k. n \<le> k \<and> k < MAX_ORDER \<longrightarrow> free_list m k mt = []"
  | (found) p m' k where "raw_rmqueue_smallest n mt m = Some (Some p, m')" "alloc_result m p n m'"
      "n \<le> k" "k < MAX_ORDER" "free_list m k mt \<noteq> []"
  using smallest_loop_correct[OF assms(1-3), of "[n..<MAX_ORDER]" n] unfolding raw_rmqueue_smallest_def by auto

section \<open>Fallback to other mobility types\<close>

text \<open>
  Every page of the span of the zone belongs to the zone, and no other page does: the zone has no hole
  inside its span. Pages that are not available to the allocator are pages of the zone that are never
  freed.
\<close>

definition zone_spanned :: "vm \<Rightarrow> bool" where
  "zone_spanned m \<longleftrightarrow> (\<forall>p. zone_page m p \<longleftrightarrow> zone_start_pfn m \<le> p \<and> p < zone_start_pfn m + spanned_pages m)"

definition relisted :: "vm \<Rightarrow> vm \<Rightarrow> bool" where
  "relisted m m' \<longleftrightarrow> rep m' \<and> blocks m' = blocks m \<and> slack m' = slack m \<and> same_zone m m' \<and>
     zone_page m' = zone_page m \<and> mem_map m' = mem_map m"

lemma relisted_trans: "relisted a b \<Longrightarrow> relisted b c \<Longrightarrow> relisted a c"
  using same_zone_trans by (auto simp: relisted_def)

lemma relisted_flags [simp]: "rep m \<Longrightarrow> relisted m (m\<lparr>pageblock_flags := g\<rparr>)"
  by (auto simp: relisted_def zone_page_def fun_eq_iff)

lemma blocks_relist:
  assumes "rep m" "(p, n) \<in> blocks m" "mt < MIGRATE_TYPES"
  shows "blocks (relist p n mt m) = blocks m"
proof -
  have n: "n < MAX_ORDER" by (rule blocksD(1)[OF assms(1,2)])
  have "blocks (relist p n mt m) = insert (p, n) {b \<in> blocks m. fst b \<noteq> p}"
    using n assms(3) by (auto simp: blocks_def relist_def Let_def)
  also have "\<dots> = blocks m" using blocks_fst[OF assms(1,2)] assms(2) by auto
  finally show ?thesis .
qed

lemma relist_correct:
  assumes r: "rep m" and pn: "(p, n) \<in> blocks m" and mt: "mt < MIGRATE_TYPES"
  shows "relisted m (relist p n mt m)" "mem_map (relist p n mt m) = mem_map m"
    "do { m \<leftarrow> list_del p m; m \<leftarrow> list_add p n mt m; f m } = f (relist p n mt m)"
proof -
  let ?m = "relist p n mt m"
  have n: "n < MAX_ORDER" by (rule blocksD(1)[OF r pn])
  have bl: "blocks ?m = blocks m" by (rule blocks_relist[OF r pn mt])
  show mm: "mem_map ?m = mem_map m" by (simp add: mem_map_link)
  show "do { m \<leftarrow> list_del p m; m \<leftarrow> list_add p n mt m; f m } = f ?m"
    using pn n mt by (auto simp: list_del_def on_list_blocks list_add_def area_ok_def relist_def Let_def)
  have zi: "zone_id ?m = zone_id m" by (simp add: relist_def Let_def)
  have l: "\<forall>n mt. area_ok n mt \<longrightarrow> distinct (free_list m n mt)"
    "\<forall>n mt mt' x. area_ok n mt \<and> area_ok n mt' \<and> mt \<noteq> mt' \<and> x \<in> set (free_list m n mt) \<longrightarrow>
       x \<notin> set (free_list m n mt')"
    using repD(4,5)[OF r] by blast+
  have fl: "free_list ?m k t = (if k = n \<and> t = mt then [p] else []) @ filter (\<lambda>q. q \<noteq> p) (free_list m k t)" for k t
    by (auto simp: relist_def Let_def)
  have "rep_lists ?m" unfolding rep_lists_def fl using l by auto
  moreover have "rep_pages ?m"
    using r unfolding rep_def rep_pages_def bl mm zi plain_page_def zone_page_def by blast
  ultimately show "relisted m ?m"
    unfolding relisted_def rep_def bl mm by (auto simp: slack_def nr_at_def bl zone_page_def mm zi fun_eq_iff)
qed

lemma move_loop_correct:
  assumes "rep m" "mt < MIGRATE_TYPES" "\<forall>q. p \<le> q \<and> q \<le> e \<longrightarrow> zone_page m q"
  shows "\<exists>k' m'. move_freepages_loop p e mt k m = Some (k', m') \<and> relisted m m'"
  using assms
proof (induction "Suc e - p" arbitrary: p k m rule: less_induct)
  case less
  show ?case
  proof (cases "p \<le> e")
    case False
    then show ?thesis using less.prems(1) by (simp add: move_freepages_loop.simps relisted_def)
  next
    case True
    then obtain pg where pg: "mem_map m p = Some pg" "page_zone pg = zone_id m"
      using less.prems(3) by (auto simp: zone_page_def)
    have dec: "Suc e - (p + d) < Suc e - p" if "0 < d" for d using True that by linarith
    show ?thesis
    proof (cases "PG_buddy pg")
      case False
      have "\<exists>k' m'. move_freepages_loop (p + 1) e mt k m = Some (k', m') \<and> relisted m m'"
        using less.prems by (intro less.hyps[OF dec]) auto
      then show ?thesis using True False pg by (simp add: move_freepages_loop.simps[of p])
    next
      case buddy: True
      then obtain n where n: "(p, n) \<in> blocks m" using repD(1)[OF less.prems(1) pg] by blast
      then have po: "page_order pg = Some n"
        using blocksD(2)[OF less.prems(1)] pg(1) by (fastforce simp: page_order_def page_private_def)
      note c = relist_correct[OF less.prems(1) n less.prems(2)]
      have "\<exists>k' m'. move_freepages_loop (p + 2 ^ n) e mt (k + 2 ^ n) (relist p n mt m) = Some (k', m') \<and>
          relisted (relist p n mt m) m'"
        using less.prems c(1) by (intro less.hyps[OF dec]) (auto simp: relisted_def)
      moreover have "move_freepages_loop p e mt k m =
          move_freepages_loop (p + 2 ^ n) e mt (k + 2 ^ n) (relist p n mt m)"
        using True buddy pg po c(3)[of "move_freepages_loop (p + 2 ^ n) e mt (k + 2 ^ n)"]
        by (subst move_freepages_loop.simps) simp
      ultimately show ?thesis using relisted_trans[OF c(1)] by auto
    qed
  qed
qed

lemma move_block_correct:
  assumes "rep m" "zone_spanned m" "zone_page m p" "mt < MIGRATE_TYPES"
  shows "\<exists>k m'. move_freepages_block p mt m = Some (k, m') \<and> relisted m m'"
proof -
  let ?s = "p - p mod pageblock_nr_pages"
  let ?e = "?s + pageblock_nr_pages - 1" and ?b = "if ?s < zone_start_pfn m then p else ?s"
  have p: "zone_start_pfn m \<le> p" "p < zone_start_pfn m + spanned_pages m"
    using assms(2,3) by (auto simp: zone_spanned_def)
  have nz: "0 < pageblock_nr_pages" by (simp add: pageblock_nr_pages_def)
  have le: "?s \<le> p" "p \<le> ?e" using mod_less_divisor[OF nz, of p] by linarith+
  show ?thesis
  proof (cases "?e \<ge> zone_start_pfn m + spanned_pages m")
    case True
    then show ?thesis using assms(1) by (simp add: move_freepages_block_def Let_def relisted_def)
  next
    case False
    then have z: "\<forall>q. ?b \<le> q \<and> q \<le> ?e \<longrightarrow> zone_page m q" using assms(2) p by (auto simp: zone_spanned_def)
    moreover have "?b \<le> ?e" using le le_trans[OF le] by presburger
    ultimately have "zone_page m ?b" "zone_page m ?e" by blast+
    then have "move_freepages ?b ?e mt m = move_freepages_loop ?b ?e mt 0 m"
      unfolding zone_page_def move_freepages_def by force
    then show ?thesis
      using move_loop_correct[OF assms(1,4) z, of 0] False by (simp add: move_freepages_block_def Let_def)
  qed
qed

lemma change_range_flags: "\<exists>g. change_pageblock_range p k mt m = m\<lparr>pageblock_flags := g\<rparr>"
proof -
  have "\<exists>g. fold (\<lambda>i. set_pageblock_migratetype (p + i * pageblock_nr_pages) mt) is m = m\<lparr>pageblock_flags := g\<rparr>" for "is"
  proof (induction "is" arbitrary: m)
    case Nil
    show ?case by (rule exI[of _ "pageblock_flags m"]) simp
  next
    case (Cons i "is")
    show ?case using Cons[of "set_pageblock_migratetype (p + i * pageblock_nr_pages) mt m"]
      by (auto simp: set_pageblock_migratetype_def Let_def)
  qed
  then show ?thesis by (simp add: change_pageblock_range_def)
qed

lemma relistedD: "relisted m m' \<Longrightarrow> rep m' \<and> blocks m' = blocks m \<and> free_pages m' = free_pages m \<and>
    slack m' = slack m \<and> same_zone m m' \<and> mem_map m' = mem_map m"
  by (simp add: relisted_def free_pages_def)

lemma slack_dec: "n < MAX_ORDER \<Longrightarrow>
    slack (m\<lparr>nr_free := (nr_free m)(n := nr_free m n + d)\<rparr>) = (slack m)(n := slack m n + d)"
  by (auto simp: slack_def fun_eq_iff)

lemma nr_free_unlink_comm:
  "(unlink p m)\<lparr>pageblock_flags := g\<rparr> = unlink p (m\<lparr>pageblock_flags := g\<rparr>)"
  "mem_map (m\<lparr>nr_free := f\<rparr>) = mem_map m" "zone_page (m\<lparr>nr_free := f\<rparr>) = zone_page m"
  by (auto simp: unlink_def zone_page_def fun_eq_iff intro!: vm.equality)

text \<open>What \<open>fallback_take\<close> does after the transfer of the page block.\<close>

lemma take_expand_rest:
  assumes r: "relisted (m\<lparr>nr_free := (nr_free m)(c := nr_free m c + - 1)\<rparr>) m1"
    and ok: "blocks_ok (MAX_ORDER - 1) (blocks m)" and rm: "rep m" and pn: "(p, c) \<in> blocks m"
    and lo: "n \<le> c" and mt: "mt < MIGRATE_TYPES"
  shows "\<exists>m'. do { m \<leftarrow> list_del p m1; m \<leftarrow> rmv_page_order p m;
      let m = (if c \<ge> pageblock_order then change_pageblock_range p c smt m else m);
      expand p n c c (2 ^ c) mt m } = Some m' \<and> alloc_result m p n m'"
proof -
  have c: "c < MAX_ORDER" by (rule blocksD(1)[OF rm pn])
  have m1: "rep m1" "blocks m1 = blocks m" "free_pages m1 = free_pages m"
    "slack m1 = (slack m)(c := slack m c - 1)" "same_zone m m1" "mem_map m1 = mem_map m"
    using relistedD[OF r] slack_dec[OF c, of m "- 1"] same_zone_trans[OF same_zone_upd(1)] by auto
  have ok1: "blocks_ok (MAX_ORDER - 1) (blocks m1)" and pn1: "(p, c) \<in> blocks m1" using ok pn m1(2) by auto
  obtain g where g: "(if c \<ge> pageblock_order then change_pageblock_range p c smt (unlink p m1) else unlink p m1) =
      unlink p m1\<lparr>pageblock_flags := g\<rparr>"
  proof (cases "c \<ge> pageblock_order")
    case False
    then show thesis using that[of "pageblock_flags (unlink p m1)"] by simp
  qed (use that change_range_flags[of p c smt "unlink p m1"] in auto)
  let ?u = "unlink p m1\<lparr>pageblock_flags := g\<rparr>"
  note u = unlink_freeable[OF m1(1) ok1 pn1]
  have pg: "mem_map m1 p \<noteq> None" using blocksD(2)[OF m1(1) pn1] by auto
  have zu: "same_zone m ?u"
    using same_zone_trans[OF m1(5) same_zone_trans[OF same_zone_link(1)[OF pg] same_zone_upd(2)]] .
  have su: "slack ?u = slack m"
  proof
    fix k
    have "slack (unlink p m1) k = slack m1 k + (if k = c then 1 else 0)"
      using card_at_remove[OF pn1 finite_blocks_at, of k] by (simp add: slack_def nr_at_def blocks_unlink[OF m1(1) pn1])
    then show "slack ?u k = slack m k" using m1(4) by simp
  qed
  obtain m' where m': "expand p n c c (2 ^ c) mt ?u = Some m'" "freeable m' p n" "slack m' = slack ?u"
    "same_zone ?u m'" "free_pages m' = free_pages ?u \<union> (blk p c - blk p n)" "untouched (blk p c) ?u m'"
    using expand_correct[of ?u p c n mt] u(1) lo mt by auto
  have "blk p n \<subseteq> blk p c" using lo by (auto simp: blk_def intro: less_le_trans)
  moreover have "untouched (free_pages m) m m'"
    using m'(6) u(3) m1(3,6) subsetD[OF u(3) blk_self] unfolding untouched_def unlink_def
    by (simp split: if_splits) (metis subsetD)
  ultimately have "alloc_result m p n m'"
    unfolding alloc_result_def using m' su u(2,3) m1(3) same_zone_trans[OF zu m'(4)] by auto
  then show ?thesis using m'(1) unfolding unlink_steps(1)[OF m1(1) pn1] Let_def g by blast
qed

lemma fallback_take_correct:
  assumes r: "rep m" and ok: "blocks_ok (MAX_ORDER - 1) (blocks m)" and zs: "zone_spanned m"
    and pn: "(p, c) \<in> blocks m" and lo: "n \<le> c" and mt: "mt < MIGRATE_TYPES" "smt < MIGRATE_TYPES"
  shows "\<exists>m'. fallback_take p n c smt mt m = Some m' \<and> alloc_result m p n m'"
proof -
  let ?m0 = "m\<lparr>nr_free := (nr_free m)(c := nr_free m c + - 1)\<rparr>"
  have c: "c < MAX_ORDER" by (rule blocksD(1)[OF r pn])
  have z: "zone_page m p" using blocksD(2)[OF r pn] by (auto simp: zone_page_def)
  have r0: "rep ?m0" "zone_spanned ?m0" "zone_page ?m0 p"
    using r zs z by (simp_all add: zone_spanned_def nr_free_unlink_comm)
  obtain k m1 where m1: "move_freepages_block p smt ?m0 = Some (k, m1)" "relisted ?m0 m1"
    using move_block_correct[OF r0 mt(2)] by blast
  have fl: "relisted ?m0 (set_pageblock_migratetype p smt m1)"
    using relisted_trans[OF m1(2) relisted_flags] m1(2) by (simp add: set_pageblock_migratetype_def Let_def relisted_def)
  have id: "relisted ?m0 ?m0" using r0 by (simp add: relisted_def)
  note rest = take_expand_rest[OF _ ok r pn lo, where smt = smt]
  have a: "add_nr_free c (- 1) m = Some ?m0" using c by (simp add: add_nr_free_def)
  show ?thesis
    using rest[OF id mt(1)] rest[OF m1(2) mt(2)] rest[OF fl mt(2)] m1(1)
    by (auto simp: fallback_take_def a Let_def simp del: bind_split_Some)
qed

lemma fallback_types_correct:
  assumes r: "rep m" and ok: "blocks_ok (MAX_ORDER - 1) (blocks m)" and zs: "zone_spanned m"
    and lo: "n \<le> c" "c < MAX_ORDER" and smt: "smt < MIGRATE_TYPES"
  shows "(\<forall>t \<in> set ts. t < MIGRATE_TYPES) \<Longrightarrow>
    (fallback_types ts n c smt m = Some (None, m) \<and> (\<forall>t \<in> set ts. t = MIGRATE_RESERVE \<or> free_list m c t = [])) \<or>
    (\<exists>p m'. fallback_types ts n c smt m = Some (Some p, m') \<and> alloc_result m p n m' \<and>
       (\<exists>t \<in> set ts. free_list m c t \<noteq> []))"
proof (induction ts)
  case (Cons t ts)
  have a: "area_ok c t" using Cons.prems lo by (simp add: area_ok_def)
  show ?case
  proof (cases "t = MIGRATE_RESERVE \<or> free_list m c t = []")
    case True
    then show ?thesis using Cons a by (auto simp: get_list_def)
  next
    case False
    then obtain p rest where l: "free_list m c t = p # rest" by (cases "free_list m c t") auto
    then have "(p, c) \<in> blocks m" using a by (auto simp: blocks_def area_ok_def intro!: exI[of _ t])
    then obtain m' where "fallback_take p n c smt t m = Some m'" "alloc_result m p n m'"
      using fallback_take_correct[OF r ok zs _ lo(1) _ smt] Cons.prems by fastforce
    then show ?thesis using False a l by (auto simp: get_list_def)
  qed
qed simp

lemma fallback_row: "mt < MIGRATE_TYPES \<Longrightarrow> mt < length fallbacks \<and> (\<forall>t \<in> set (fallbacks ! mt). t < MIGRATE_TYPES)"
  by (auto simp: fallbacks_def buddy_consts less_Suc_eq numeral_eq_Suc)

lemma fallback_orders_correct:
  assumes r: "rep m" and ok: "blocks_ok (MAX_ORDER - 1) (blocks m)" and zs: "zone_spanned m"
    and mt: "mt < MIGRATE_TYPES"
  shows "(\<forall>c \<in> set os. n \<le> c \<and> c < MAX_ORDER) \<Longrightarrow>
    (fallback_orders os n mt m = Some (None, m) \<and>
       (\<forall>c \<in> set os. \<forall>t \<in> set (fallbacks ! mt). t = MIGRATE_RESERVE \<or> free_list m c t = [])) \<or>
    (\<exists>p m'. fallback_orders os n mt m = Some (Some p, m') \<and> alloc_result m p n m' \<and>
       (\<exists>c \<in> set os. \<exists>t \<in> set (fallbacks ! mt). free_list m c t \<noteq> []))"
proof (induction os)
  case (Cons c os)
  note row = fallback_row[OF mt]
  have lo: "n \<le> c" "c < MAX_ORDER" using Cons.prems by auto
  consider (none) "fallback_types (fallbacks ! mt) n c mt m = Some (None, m)"
      "\<forall>t \<in> set (fallbacks ! mt). t = MIGRATE_RESERVE \<or> free_list m c t = []"
    | (found) p m' where "fallback_types (fallbacks ! mt) n c mt m = Some (Some p, m')" "alloc_result m p n m'"
      "\<exists>t \<in> set (fallbacks ! mt). free_list m c t \<noteq> []"
    using fallback_types_correct[OF r ok zs lo mt] row by blast
  then show ?case
  proof cases
    case none
    then show ?thesis using Cons row by auto
  next
    case found
    then show ?thesis using row by auto
  qed
qed simp

lemma raw_rmqueue_correct:
  assumes r: "rep m" and ok: "blocks_ok (MAX_ORDER - 1) (blocks m)" and zs: "zone_spanned m"
    and mt: "mt < MIGRATE_TYPES" and n: "n < MAX_ORDER"
  obtains (failed) "raw_rmqueue n mt m = Some (None, m)"
      "\<forall>k t. n \<le> k \<and> k < MAX_ORDER \<and>
         (t = mt \<or> mt \<noteq> MIGRATE_RESERVE \<and> t \<in> set (fallbacks ! mt) \<or> t = MIGRATE_RESERVE) \<longrightarrow> free_list m k t = []"
  | (found) p m' k t where "raw_rmqueue n mt m = Some (Some p, m')" "alloc_result m p n m'"
      "n \<le> k" "k < MAX_ORDER" "free_list m k t \<noteq> []" "t = mt \<or> t \<in> set (fallbacks ! mt) \<or> t = MIGRATE_RESERVE"
  using r ok mt n
proof (cases rule: smallest_correct)
  case empty
  have res: "MIGRATE_RESERVE < MIGRATE_TYPES" by (simp add: buddy_consts)
  show thesis
  proof (cases "mt = MIGRATE_RESERVE")
    case True
    then show thesis using empty failed by (simp add: raw_rmqueue_def)
  next
    case False
    have os: "\<forall>c \<in> set (rev [n..<MAX_ORDER]). n \<le> c \<and> c < MAX_ORDER" by simp
    consider (none) "raw_rmqueue_fallback n mt m = Some (None, m)"
        "\<forall>c \<in> set (rev [n..<MAX_ORDER]). \<forall>t \<in> set (fallbacks ! mt). t = MIGRATE_RESERVE \<or> free_list m c t = []"
      | (some) p m' c t where "raw_rmqueue_fallback n mt m = Some (Some p, m')" "alloc_result m p n m'"
        "n \<le> c" "c < MAX_ORDER" "t \<in> set (fallbacks ! mt)" "free_list m c t \<noteq> []"
      using fallback_orders_correct[OF r ok zs mt os] unfolding raw_rmqueue_fallback_def by (metis os)
    then show thesis
    proof cases
      case some
      then show thesis using empty False found[of p m' c t] by (simp add: raw_rmqueue_def)
    next
      case none
      from r ok res n show thesis
      proof (cases rule: smallest_correct)
        case e: empty
        have "raw_rmqueue n mt m = Some (None, m)" using empty False none e by (simp add: raw_rmqueue_def)
        moreover have "\<forall>k t. n \<le> k \<and> k < MAX_ORDER \<and>
            (t = mt \<or> mt \<noteq> MIGRATE_RESERVE \<and> t \<in> set (fallbacks ! mt) \<or> t = MIGRATE_RESERVE) \<longrightarrow> free_list m k t = []"
          using empty(2) none(2) e(2) by (auto simp: Ball_def)
        ultimately show thesis by (rule failed)
      next
        case f: (found p m' k)
        then show thesis using empty False none found[of p m' k MIGRATE_RESERVE] by (simp add: raw_rmqueue_def)
      qed
    qed
  qed
next
  case f: (found p m' k)
  then show thesis using found[of p m' k mt] by (simp add: raw_rmqueue_def)
qed

section \<open>Compound pages\<close>

definition map_pages :: "nat \<Rightarrow> nat \<Rightarrow> (page \<Rightarrow> page) \<Rightarrow> vm \<Rightarrow> vm" where
  "map_pages a b f m = m\<lparr>mem_map := (\<lambda>q. if a \<le> q \<and> q < b then map_option f (mem_map m q) else mem_map m q)\<rparr>"

definition compound_block :: "vm \<Rightarrow> nat \<Rightarrow> nat \<Rightarrow> bool" where
  "compound_block m p n \<longleftrightarrow> 0 < n \<and>
     (\<exists>pg. mem_map m p = Some pg \<and> PG_head pg \<and> \<not> PG_tail pg) \<and> map_option lru_prev (mem_map m (p + 1)) = Some n \<and>
     (\<forall>i \<in> {1..<2 ^ n}. \<exists>pg. mem_map m (p + i) = Some pg \<and> PG_tail pg \<and> \<not> PG_head pg \<and> punion pg = First_page p)"

lemma map_pages_empty [simp]: "map_pages a a f m = m"
  by (auto simp: map_pages_def fun_eq_iff intro!: vm.equality)

lemma set_page_range:
  assumes "mem_map m b = Some pg" "a \<le> b"
  shows "set_page b f (map_pages a b f m) = Some (map_pages a (Suc b) f m)"
    "mem_map (map_pages a b f m) b = Some pg"
  using assms by (auto simp: set_page_def map_pages_def fun_eq_iff intro!: vm.equality)

lemma foldM_set_pages:
  assumes "\<forall>i \<in> {a..<b}. mem_map m (p + i) \<noteq> None" "a \<le> b"
  shows "foldM (\<lambda>i. set_page (p + i) f) [a..<b] m = Some (map_pages (p + a) (p + b) f m)"
  using assms(2,1)
proof (induction b rule: dec_induct)
  case base
  show ?case by simp
next
  case (step b)
  have "foldM (\<lambda>i. set_page (p + i) f) [a..<b] m = Some (map_pages (p + a) (p + b) f m)"
    using step by simp
  moreover obtain pg where "mem_map m (p + b) = Some pg" using step.prems step.hyps(1) by fastforce
  ultimately show ?case using step.hyps(1) set_page_range(1)[of m "p + b" pg "p + a" f]
    by (simp add: foldM_append)
qed

lemma foldM_destroy_tail:
  assumes "\<forall>i \<in> {1..<b}. \<exists>pg. mem_map m (p + i) = Some pg \<and> PG_tail pg \<and> punion pg = First_page p" "1 \<le> b"
  shows "foldM (destroy_tail p) [1..<b] (0, m) = Some (0, map_pages (p + 1) (p + b) (\<lambda>pg. pg\<lparr>PG_tail := False\<rparr>) m)"
  using assms(2,1)
proof (induction b rule: dec_induct)
  case base
  show ?case by simp
next
  case (step b)
  have "foldM (destroy_tail p) [1..<b] (0, m) = Some (0, map_pages (p + 1) (p + b) (\<lambda>pg. pg\<lparr>PG_tail := False\<rparr>) m)"
    using step by simp
  moreover obtain pg where pg: "mem_map m (p + b) = Some pg" "PG_tail pg" "punion pg = First_page p"
    using step.prems step.hyps(1) by fastforce
  moreover have "destroy_tail p b (0, map_pages (p + 1) (p + b) (\<lambda>pg. pg\<lparr>PG_tail := False\<rparr>) m) =
      Some (0, map_pages (p + 1) (p + Suc b) (\<lambda>pg. pg\<lparr>PG_tail := False\<rparr>) m)"
    using pg step.hyps(1) set_page_range[of m "p + b" pg "p + 1" "\<lambda>pg. pg\<lparr>PG_tail := False\<rparr>"]
    by (simp add: destroy_tail_def)
  ultimately show ?case using step.hyps(1) by (simp add: foldM_append)
qed

text \<open>The pages of a block after \<open>destroy_compound_page\<close>.\<close>

definition uncompound :: "nat \<Rightarrow> nat \<Rightarrow> vm \<Rightarrow> vm" where
  "uncompound p n m = map_pages (p + 1) (p + 2 ^ n) (\<lambda>pg. pg\<lparr>PG_tail := False\<rparr>)
     (map_pages p (p + 1) (\<lambda>pg. pg\<lparr>PG_head := False\<rparr>) m)"

lemma destroy_compound_page_correct:
  assumes "compound_block m p n"
  shows "destroy_compound_page p n m = Some (0, uncompound p n m)"
proof -
  let ?m = "map_pages p (p + 1) (\<lambda>pg. pg\<lparr>PG_head := False\<rparr>) m"
  obtain pg where pg: "mem_map m p = Some pg" "PG_head pg" using assms by (auto simp: compound_block_def)
  obtain t where t: "mem_map m (Suc p) = Some t" "lru_prev t = n"
    using assms by (auto simp: compound_block_def)
  have s: "set_page p (\<lambda>pg. pg\<lparr>PG_head := False\<rparr>) m = Some ?m"
    using pg by (auto simp: set_page_def map_pages_def fun_eq_iff intro!: vm.equality)
  have "\<forall>i \<in> {1..<2 ^ n}. \<exists>pg. mem_map ?m (p + i) = Some pg \<and> PG_tail pg \<and> punion pg = First_page p"
    using assms by (fastforce simp: compound_block_def map_pages_def)
  from foldM_destroy_tail[OF this] show ?thesis
    using pg t s by (simp add: destroy_compound_page_def compound_order_def uncompound_def)
qed

lemma map_pages_keeps:
  assumes "\<And>pg. PG_buddy (f pg) = PG_buddy pg" "\<And>pg. punion (f pg) = punion pg" "\<And>pg. page_zone (f pg) = page_zone pg"
    "\<And>pg. PageCompound (f pg) \<Longrightarrow> PageCompound pg" "rep m"
  shows "rep (map_pages a b f m)" "blocks (map_pages a b f m) = blocks m" "slack (map_pages a b f m) = slack m"
    "zone_frame m (map_pages a b f m)"
proof -
  let ?m = "map_pages a b f m"
  show bl: "blocks ?m = blocks m" by (simp add: blocks_def map_pages_def)
  then show "slack ?m = slack m" by (auto simp: slack_def nr_at_def map_pages_def fun_eq_iff)
  show z: "zone_frame m ?m" using assms(3) by (auto simp: zone_frame_def map_pages_def option.map_comp comp_def)
  show "rep ?m"
  proof (rule repI[OF _ z assms(5)])
    show "rep_lists ?m" using assms(5) by (simp add: rep_def rep_lists_def map_pages_def)
    show "\<exists>pg. mem_map ?m q = Some pg \<and> PG_buddy pg \<and> punion pg = Private k" if "(q, k) \<in> blocks ?m" for q k
      using that blocksD(2)[OF assms(5), of q k] assms(1,2) unfolding bl by (auto simp: map_pages_def)
    show "\<exists>k. (q, k) \<in> blocks ?m" if "mem_map ?m q = Some qg" "page_zone qg = zone_id m" "PG_buddy qg" for q qg
      using that repD(1)[OF assms(5), of q] assms(1,3) unfolding bl by (auto simp: map_pages_def split: if_splits)
    show "plain_page ?m q" if "q \<in> pages_of (blocks ?m)" for q
      using that repD(2)[OF assms(5), of q] assms(3,4) unfolding bl by (auto simp: plain_page_def map_pages_def)
  qed
qed

lemma uncompound_keeps:
  assumes "rep m"
  shows "rep (uncompound p n m)" "blocks (uncompound p n m) = blocks m" "slack (uncompound p n m) = slack m"
    "zone_frame m (uncompound p n m)"
proof -
  let ?h = "\<lambda>pg. pg\<lparr>PG_head := False\<rparr>" and ?t = "\<lambda>pg. pg\<lparr>PG_tail := False\<rparr>"
  have h: "rep (map_pages p (p + 1) ?h m)" "blocks (map_pages p (p + 1) ?h m) = blocks m"
    "slack (map_pages p (p + 1) ?h m) = slack m" "zone_frame m (map_pages p (p + 1) ?h m)"
    by (rule map_pages_keeps; simp add: assms PageCompound_def)+
  have t: "rep (map_pages a b ?t k)" "blocks (map_pages a b ?t k) = blocks k" "slack (map_pages a b ?t k) = slack k"
    "zone_frame k (map_pages a b ?t k)" if "rep k" for a b k
    by (rule map_pages_keeps; auto simp: that PageCompound_def)+
  show "rep (uncompound p n m)" "blocks (uncompound p n m) = blocks m" "slack (uncompound p n m) = slack m"
    "zone_frame m (uncompound p n m)"
    using h t[OF h(1)] zone_frame_trans[OF h(4) t(4)[OF h(1)]] by (simp_all add: uncompound_def)
qed

text \<open>A block that may be given back: as \<^const>\<open>freeable\<close>, or a compound page of its order.\<close>

definition returnable :: "vm \<Rightarrow> nat \<Rightarrow> nat \<Rightarrow> bool" where
  "returnable m p n \<longleftrightarrow> freeable m p n \<or>
     (rep m \<and> blocks_ok (MAX_ORDER - 1) (blocks m) \<and> hole (MAX_ORDER - 1) (blocks m) p n \<and>
      (\<forall>q \<in> blk p n. zone_page m q) \<and> compound_block m p n)"

lemma uncompound_freeable:
  assumes "rep m" "blocks_ok (MAX_ORDER - 1) (blocks m)" "hole (MAX_ORDER - 1) (blocks m) p n"
    "\<forall>q \<in> blk p n. zone_page m q" "compound_block m p n"
  shows "freeable (uncompound p n m) p n"
proof -
  note u = uncompound_keeps[OF assms(1), of p n]
  have "plain_page (uncompound p n m) q" if q: "q \<in> blk p n" for q
  proof (cases "q = p")
    case True
    then show ?thesis using bspec[OF assms(4) q] assms(5)
      by (auto simp: plain_page_def zone_page_def compound_block_def uncompound_def map_pages_def PageCompound_def)
  next
    case False
    then obtain i where i: "q = p + i" "1 \<le> i" "i < 2 ^ n" using q that[of "q - p"] by (auto simp: blk_def)
    then have "\<exists>pg. mem_map m q = Some pg \<and> \<not> PG_head pg" using assms(5) by (auto simp: compound_block_def)
    then show ?thesis using assms(4) q i
      by (auto simp: plain_page_def zone_page_def uncompound_def map_pages_def PageCompound_def)
  qed
  then show ?thesis unfolding freeable_def u(2) using assms u(1) by simp
qed

lemma raw_free_returnable:
  assumes ret: "returnable m p n" and mt: "mt < MIGRATE_TYPES"
  shows "\<exists>m'. raw_free_one_page p n mt m = Some m' \<and> rep m' \<and> blocks_ok (MAX_ORDER - 1) (blocks m') \<and>
    free_pages m' = free_pages m \<union> blk p n \<and> slack m' = slack m \<and> zone_frame m m'"
proof (cases "freeable m p n")
  case True
  then show ?thesis using raw_free_one_page_correct[OF _ mt] same_zone_frame by blast
next
  case False
  then have c: "rep m" "blocks_ok (MAX_ORDER - 1) (blocks m)" "hole (MAX_ORDER - 1) (blocks m) p n"
    "\<forall>q \<in> blk p n. zone_page m q" "compound_block m p n"
    using ret by (auto simp: returnable_def)
  let ?u = "uncompound p n m"
  have f: "freeable ?u p n" by (rule uncompound_freeable[OF c])
  obtain ug where ug: "mem_map ?u p = Some ug" "\<not> PageCompound ug"
    using freeableD(4)[OF f, of p] by (auto simp: plain_page_def)
  obtain pg where pg: "mem_map m p = Some pg" "PageCompound pg" using c(5) by (auto simp: compound_block_def PageCompound_def)
  have "raw_free_one_page p n mt m = raw_free_one_page p n mt ?u"
    using pg ug destroy_compound_page_correct[OF c(5)] by (simp add: raw_free_one_page_def)
  then show ?thesis
    using raw_free_one_page_correct[OF f mt] uncompound_keeps[OF c(1), of p n] zone_frame_trans same_zone_frame
    by (simp add: free_pages_def) blast
qed

lemma map_pages_outside:
  assumes "\<And>pg. PG_buddy (f pg) = PG_buddy pg" "\<And>pg. page_zone (f pg) = page_zone pg" "rep m"
    "{a..<b} \<inter> pages_of (blocks m) = {}"
  shows "rep (map_pages a b f m)" "blocks (map_pages a b f m) = blocks m" "slack (map_pages a b f m) = slack m"
    "zone_frame m (map_pages a b f m)"
proof -
  let ?m = "map_pages a b f m"
  show bl: "blocks ?m = blocks m" by (simp add: blocks_def map_pages_def)
  then show "slack ?m = slack m" by (auto simp: slack_def nr_at_def map_pages_def fun_eq_iff)
  show z: "zone_frame m ?m" using assms(2) by (auto simp: zone_frame_def map_pages_def option.map_comp comp_def)
  have out: "mem_map ?m q = mem_map m q" if "q \<in> pages_of (blocks m)" for q
    using that assms(4) by (auto simp: map_pages_def)
  show "rep ?m"
  proof (rule repI[OF _ z assms(3)])
    show "rep_lists ?m" using assms(3) by (simp add: rep_def rep_lists_def map_pages_def)
    show "\<exists>pg. mem_map ?m q = Some pg \<and> PG_buddy pg \<and> punion pg = Private k" if "(q, k) \<in> blocks ?m" for q k
    proof -
      have "q \<in> pages_of (blocks m)" using that pages_ofI[of q k "blocks m"] blk_self[of q k] unfolding bl by blast
      then show ?thesis using that blocksD(2)[OF assms(3), of q k] out[of q] unfolding bl by auto
    qed
    show "\<exists>k. (q, k) \<in> blocks ?m" if "mem_map ?m q = Some qg" "page_zone qg = zone_id m" "PG_buddy qg" for q qg
      using that repD(1)[OF assms(3), of q] assms(1,2) unfolding bl by (auto simp: map_pages_def split: if_splits)
    have "zone_id ?m = zone_id m" by (simp add: map_pages_def)
    then show "plain_page ?m q" if "q \<in> pages_of (blocks ?m)" for q
      using that repD(2)[OF assms(3), of q] out[of q] unfolding bl plain_page_def by simp
  qed
qed

lemma prep_compound_page_correct:
  assumes f: "freeable m p n" and n: "0 < n"
  shows "\<exists>m'. prep_compound_page p n m = Some m' \<and> returnable m' p n \<and> compound_block m' p n \<and>
    blocks m' = blocks m \<and> slack m' = slack m \<and> zone_frame m m' \<and>
    map_option punion (mem_map m' p) = map_option punion (mem_map m p)"
proof -
  note d = freeableD[OF f]
  let ?o = "\<lambda>pg. pg\<lparr>lru_prev := n\<rparr>" and ?h = "\<lambda>pg. pg\<lparr>PG_head := True\<rparr>"
    and ?t = "\<lambda>pg. pg\<lparr>PG_tail := True, punion := First_page p\<rparr>"
  let ?m1 = "map_pages (p + 1) (p + 2) ?o m"
  let ?m2 = "map_pages p (p + 1) ?h ?m1"
  let ?m3 = "map_pages (p + 1) (p + 2 ^ n) ?t ?m2"
  have two: "2 \<le> (2 :: nat) ^ n" using n by (cases n) auto
  have pl: "\<exists>pg. mem_map m (p + i) = Some pg \<and> \<not> PG_head pg \<and> \<not> PG_tail pg" if "i < 2 ^ n" for i
    using d(4)[of "p + i"] that by (auto simp: blk_def plain_page_def PageCompound_def)
  obtain pg t where pg: "mem_map m p = Some pg" "\<not> PG_tail pg" and t: "mem_map m (Suc p) = Some t"
    using pl[of 0] pl[of 1] two by auto
  have s1: "set_compound_order p n m = Some ?m1"
    using t by (auto simp: set_compound_order_def set_page_def map_pages_def fun_eq_iff intro!: vm.equality)
  have s2: "set_page p ?h ?m1 = Some ?m2"
    using pg by (auto simp: set_page_def map_pages_def fun_eq_iff intro!: vm.equality)
  have s3: "foldM (\<lambda>i. set_page (p + i) ?t) [1..<2 ^ n] ?m2 = Some ?m3"
    using pl by (intro foldM_set_pages) (force simp: map_pages_def)+
  have step: "prep_compound_page p n m = Some ?m3" using s1 s2 s3 by (simp add: prep_compound_page_def)
  have dis: "{p..<p + 2 ^ n} \<inter> pages_of (blocks m) = {}" using d(3) by (simp add: hole_def blk_def)
  have e: "{p + 1..<p + 2} \<inter> pages_of (blocks m) = {}" "{p..<p + 1} \<inter> pages_of (blocks m) = {}"
    "{p + 1..<p + 2 ^ n} \<inter> pages_of (blocks m) = {}"
    using dis two by (auto simp: disjoint_iff)
  have k1: "rep ?m1" "blocks ?m1 = blocks m" "slack ?m1 = slack m" "zone_frame m ?m1"
    using map_pages_outside[of ?o m, OF _ _ d(1) e(1)] by simp_all
  have k2: "rep ?m2" "blocks ?m2 = blocks ?m1" "slack ?m2 = slack ?m1" "zone_frame ?m1 ?m2"
    using map_pages_outside[of ?h ?m1 p "p + 1"] e(2) k1 by simp_all
  have k3: "rep ?m3" "blocks ?m3 = blocks ?m2" "slack ?m3 = slack ?m2" "zone_frame ?m2 ?m3"
    using map_pages_outside[of ?t ?m2 "p + 1" "p + 2 ^ n"] e(3) k1 k2 by simp_all
  have sz: "zone_frame m ?m3" by (rule zone_frame_trans[OF k1(4) zone_frame_trans[OF k2(4) k3(4)]])
  have cb: "compound_block ?m3 p n"
    unfolding compound_block_def
  proof (intro conjI ballI)
    show "\<exists>pg. mem_map ?m3 p = Some pg \<and> PG_head pg \<and> \<not> PG_tail pg" using pg by (simp add: map_pages_def)
    show "map_option lru_prev (mem_map ?m3 (p + 1)) = Some n" using t two by (simp add: map_pages_def)
    fix i :: nat assume i: "i \<in> {1..<2 ^ n}"
    then obtain ig where "mem_map m (p + i) = Some ig" "\<not> PG_head ig" using pl[of i] by auto
    then show "\<exists>pg. mem_map ?m3 (p + i) = Some pg \<and> PG_tail pg \<and> \<not> PG_head pg \<and> punion pg = First_page p"
      using i by (simp add: map_pages_def)
  qed (rule n)
  moreover have "\<forall>q \<in> blk p n. zone_page ?m3 q" using d(4) plain_imp_zone zone_frame_page[OF sz] by blast
  ultimately have "returnable ?m3 p n" using d k1 k2 k3 by (simp add: returnable_def)
  then show ?thesis using step cb k1 k2 k3 sz pg by (auto simp: map_pages_def)
qed

end
