(* ===== verification/Page_Alloc.thy ===== *)
theory Page_Alloc
  imports Buddy_Ops
begin

text \<open>
  The users of the buddy core in \<open>mm/page_alloc.c\<close>: allocation and release in bulk for the
  per-CPU page lists and the isolation of page blocks; and the correctness of the core as a whole.
  The interface between the core and any client that holds blocks is the locale
  \<open>block_provider\<close>; its ledger lemma says that, whatever the sequence of calls, the blocks
  handed out are disjoint from each other and from the free pages.
\<close>

section \<open>Bulk operations\<close>

text \<open>The cursor of a list under construction: the list head, or one of its elements.\<close>

fun add_after :: "nat \<Rightarrow> nat option \<Rightarrow> nat list \<Rightarrow> nat list" where
  "add_after p None l = p # l"
| "add_after p (Some c) l = takeWhile (\<lambda>q. q \<noteq> c) l @ c # p # tl (dropWhile (\<lambda>q. q \<noteq> c) l)"

fun add_before :: "nat \<Rightarrow> nat option \<Rightarrow> nat list \<Rightarrow> nat list" where
  "add_before p None l = l @ [p]"
| "add_before p (Some c) l = takeWhile (\<lambda>q. q \<noteq> c) l @ p # dropWhile (\<lambda>q. q \<noteq> c) l"

function rmqueue_bulk_loop ::
    "nat \<Rightarrow> nat \<Rightarrow> nat \<Rightarrow> nat \<Rightarrow> bool \<Rightarrow> nat option \<Rightarrow> nat list \<Rightarrow> vm \<Rightarrow> (nat \<times> nat list \<times> vm) option" where
  "rmqueue_bulk_loop i count n mt cold cur l m =
     (if i < count then do {
        (r, m) \<leftarrow> raw_rmqueue n mt m;
        (case r of
           None \<Rightarrow> Some (i, l, m)
         | Some p \<Rightarrow> do {
             let l = (if \<not> cold then add_after p cur l else add_before p cur l);
             m \<leftarrow> set_page_private p mt m;
             rmqueue_bulk_loop (i + 1) count n mt cold (Some p) l m }) }
      else Some (i, l, m))"
  by pat_completeness auto
termination by (relation "measure (\<lambda>(i, count, _). count - i)") auto
declare rmqueue_bulk_loop.simps [simp del]

text \<open>
  The counter is lowered by \<open>i << order\<close>, an \<open>int\<close> in the code; here the product is taken at 64 bits,
  the same for every batch of less than \<open>2 ^ 31\<close> pages.
\<close>

definition rmqueue_bulk :: "nat \<Rightarrow> nat \<Rightarrow> nat list \<Rightarrow> nat \<Rightarrow> bool \<Rightarrow> vm \<Rightarrow> (nat \<times> nat list \<times> vm) option" where
  "rmqueue_bulk n count l mt cold m = do {
     (i, l, m) \<leftarrow> rmqueue_bulk_loop 0 count n mt cold None l m;
     Some (i, l, m\<lparr>nr_free_pages := nr_free_pages m - of_nat (i * 2 ^ n)\<rparr>) }"

text \<open>
  The search for a non-empty per-CPU list spins for ever when all lists are empty, which is the
  value \<open>None\<close> of the partial functions.
\<close>

partial_function (option) pcp_next_list :: "nat \<Rightarrow> nat \<Rightarrow> nat list list \<Rightarrow> (nat \<times> nat) option" where
  "pcp_next_list mt batch_free pcp =
     (let batch_free = batch_free + 1;
          mt = (if mt + 1 = MIGRATE_PCPTYPES then 0 else mt + 1)
      in do {
        l \<leftarrow> rd pcp mt;
        if l = [] then pcp_next_list mt batch_free pcp else Some (mt, batch_free) })"
declare pcp_next_list.simps [code]

partial_function (option) pcp_free_batch ::
    "nat \<Rightarrow> nat \<Rightarrow> nat \<Rightarrow> nat list list \<Rightarrow> vm \<Rightarrow> (nat \<times> nat \<times> nat list list \<times> vm) option" where
  "pcp_free_batch count batch_free mt pcp m = do {
     l \<leftarrow> rd pcp mt;
     if l = [] then None
     else do {
       let p = last l;
       pcp \<leftarrow> wr pcp mt (butlast l);
       pg \<leftarrow> mem_map m p;
       t \<leftarrow> page_private pg;
       m \<leftarrow> raw_free_one_page p 0 t m;
       if count - 1 = 0 then Some (count - 1, batch_free, pcp, m)
       else if batch_free - 1 = 0 then Some (count - 1, batch_free - 1, pcp, m)
       else do {
         l \<leftarrow> rd pcp mt;
         if l = [] then Some (count - 1, batch_free - 1, pcp, m)
         else pcp_free_batch (count - 1) (batch_free - 1) mt pcp m } } }"
declare pcp_free_batch.simps [code]

partial_function (option) pcp_free_loop ::
    "nat \<Rightarrow> nat \<Rightarrow> nat \<Rightarrow> nat list list \<Rightarrow> vm \<Rightarrow> (nat list list \<times> vm) option" where
  "pcp_free_loop count mt batch_free pcp m =
     (if count = 0 then Some (pcp, m)
      else do {
        (mt, batch_free) \<leftarrow> pcp_next_list mt batch_free pcp;
        (count, batch_free, pcp, m) \<leftarrow> pcp_free_batch count batch_free mt pcp m;
        pcp_free_loop count mt batch_free pcp m })"
declare pcp_free_loop.simps [code]

definition free_pcppages_bulk :: "nat \<Rightarrow> nat list list \<Rightarrow> vm \<Rightarrow> (nat list list \<times> vm) option" where
  "free_pcppages_bulk count pcp m =
     pcp_free_loop count 0 0 pcp
       (m\<lparr>all_unreclaimable := False, pages_scanned := 0, nr_free_pages := nr_free_pages m + of_nat count\<rparr>)"

section \<open>Isolation of page blocks\<close>

definition get_pageblock_migratetype :: "nat \<Rightarrow> vm \<Rightarrow> nat" where
  "get_pageblock_migratetype p m = pageblock_flags m (p div pageblock_nr_pages)"

definition ZONE_MOVABLE :: nat where [buddy_consts]: "ZONE_MOVABLE = 1"

definition set_migratetype_isolate :: "nat \<Rightarrow> nat \<Rightarrow> vm \<Rightarrow> (int \<times> vm) option" where
  "set_migratetype_isolate zone_idx p m =
     (if get_pageblock_migratetype p m \<noteq> MIGRATE_MOVABLE \<and> zone_idx \<noteq> ZONE_MOVABLE then Some (- EBUSY, m)
      else do {
        let m = set_pageblock_migratetype p MIGRATE_ISOLATE m;
        (_, m) \<leftarrow> move_freepages_block p MIGRATE_ISOLATE m;
        Some (0, m) })"

definition unset_migratetype_isolate :: "nat \<Rightarrow> vm \<Rightarrow> vm option" where
  "unset_migratetype_isolate p m =
     (if get_pageblock_migratetype p m \<noteq> MIGRATE_ISOLATE then Some m
      else do {
        let m = set_pageblock_migratetype p MIGRATE_MOVABLE m;
        (_, m) \<leftarrow> move_freepages_block p MIGRATE_MOVABLE m;
        Some m })"

section \<open>The contract of an allocator of blocks\<close>

datatype ledger_op = Alloc nat nat | Release nat nat nat

type_synonym live = "(nat \<times> nat) list"

text \<open>
  A client calls for blocks and gives back those it holds; \<open>lend\<close> and \<open>give\<close> are the
  operations of the allocator, the list is the blocks held. A call outside the contract (an order or
  a type out of range, a block not held) is not made.
\<close>

fun ledger_step :: "(nat \<Rightarrow> nat \<Rightarrow> 's \<Rightarrow> (nat option \<times> 's) option) \<Rightarrow> (nat \<Rightarrow> nat \<Rightarrow> nat \<Rightarrow> 's \<Rightarrow> 's option) \<Rightarrow>
    ledger_op \<Rightarrow> 's \<times> live \<Rightarrow> ('s \<times> live) option" where
  "ledger_step lend give (Alloc n t) (s, L) =
     (if n < MAX_ORDER \<and> t < MIGRATE_TYPES then do {
        (r, s) \<leftarrow> lend n t s;
        Some (case r of None \<Rightarrow> (s, L) | Some p \<Rightarrow> (s, (p, n) # L)) }
      else Some (s, L))"
| "ledger_step lend give (Release p n t) (s, L) =
     (if (p, n) \<in> set L \<and> t < MIGRATE_TYPES then do {
        s \<leftarrow> give p n t s;
        Some (s, remove1 (p, n) L) }
      else Some (s, L))"

fun disjoint_blocks :: "live \<Rightarrow> bool" where
  "disjoint_blocks [] = True"
| "disjoint_blocks ((p, n) # L) \<longleftrightarrow> blk p n \<inter> pages_of (set L) = {} \<and> disjoint_blocks L"

locale block_provider =
  fixes inv :: "'s \<Rightarrow> bool" and pages :: "'s \<Rightarrow> nat set" and ready :: "'s \<Rightarrow> nat \<Rightarrow> nat \<Rightarrow> bool"
    and lend :: "nat \<Rightarrow> nat \<Rightarrow> 's \<Rightarrow> (nat option \<times> 's) option" and give :: "nat \<Rightarrow> nat \<Rightarrow> nat \<Rightarrow> 's \<Rightarrow> 's option"
  assumes lend_ok: "inv s \<Longrightarrow> n < MAX_ORDER \<Longrightarrow> t < MIGRATE_TYPES \<Longrightarrow>
      lend n t s = Some (None, s) \<or>
      (\<exists>p s'. lend n t s = Some (Some p, s') \<and> inv s' \<and> ready s' p n \<and> blk p n \<subseteq> pages s \<and>
         pages s' = pages s - blk p n \<and> (\<forall>q k. ready s q k \<longrightarrow> ready s' q k))"
    and give_ok: "inv s \<Longrightarrow> ready s p n \<Longrightarrow> t < MIGRATE_TYPES \<Longrightarrow>
      \<exists>s'. give p n t s = Some s' \<and> inv s' \<and> pages s' = pages s \<union> blk p n \<and>
         (\<forall>q k. ready s q k \<and> blk q k \<inter> blk p n = {} \<longrightarrow> ready s' q k)"
    and ready_disjoint: "ready s p n \<Longrightarrow> blk p n \<inter> pages s = {}"
begin

definition ledger_inv :: "nat set \<Rightarrow> 's \<times> live \<Rightarrow> bool" where
  "ledger_inv F st \<longleftrightarrow> inv (fst st) \<and> disjoint_blocks (snd st) \<and> (\<forall>(p, n) \<in> set (snd st). ready (fst st) p n) \<and>
     pages (fst st) \<union> pages_of (set (snd st)) = F"

lemma live_remove1:
  assumes "disjoint_blocks L" "(p, n) \<in> set L"
  shows "disjoint_blocks (remove1 (p, n) L) \<and> blk p n \<inter> pages_of (set (remove1 (p, n) L)) = {} \<and>
    pages_of (set L) = blk p n \<union> pages_of (set (remove1 (p, n) L))"
  using assms
proof (induction L)
  case (Cons b L)
  obtain q k where b: "b = (q, k)" by (cases b)
  show ?case
  proof (cases "b = (p, n)")
    case True
    then show ?thesis using Cons.prems by (simp add: block_simps)
  next
    case False
    then have IH: "disjoint_blocks (remove1 (p, n) L)" "blk p n \<inter> pages_of (set (remove1 (p, n) L)) = {}"
      "pages_of (set L) = blk p n \<union> pages_of (set (remove1 (p, n) L))"
      using Cons by (auto simp: b)
    have "blk q k \<inter> pages_of (set L) = {}" using Cons.prems(1) by (simp add: b)
    then show ?thesis using IH False by (simp add: b block_simps) blast
  qed
qed simp

lemma ledger_step_ok:
  assumes "ledger_inv F st"
  shows "\<exists>st'. ledger_step lend give a st = Some st' \<and> ledger_inv F st'"
proof -
  obtain s L where st: "st = (s, L)" by (cases st)
  have I: "inv s" "disjoint_blocks L" "\<forall>q k. (q, k) \<in> set L \<longrightarrow> ready s q k" "pages s \<union> pages_of (set L) = F"
    using assms by (auto simp: ledger_inv_def st)
  have dis: "pages s \<inter> pages_of (set L) = {}" using I(3) ready_disjoint by (fastforce simp: pages_of_def)
  show ?thesis
  proof (cases a)
    case (Alloc n t)
    consider "\<not> (n < MAX_ORDER \<and> t < MIGRATE_TYPES)"
      | "n < MAX_ORDER" "t < MIGRATE_TYPES" "lend n t s = Some (None, s)"
      | p s' where "n < MAX_ORDER" "t < MIGRATE_TYPES" "lend n t s = Some (Some p, s')" "inv s'" "ready s' p n"
        "blk p n \<subseteq> pages s" "pages s' = pages s - blk p n" "\<forall>q k. ready s q k \<longrightarrow> ready s' q k"
      using lend_ok[OF I(1), of n t] by blast
    then show ?thesis
    proof cases
      case (3 p s')
      then have "ledger_inv F (s', (p, n) # L)"
        using I dis by (auto simp: ledger_inv_def block_simps)
      then show ?thesis using 3 by (simp add: st Alloc)
    qed (use assms in \<open>auto simp: st Alloc\<close>)
  next
    case (Release p n t)
    show ?thesis
    proof (cases "(p, n) \<in> set L \<and> t < MIGRATE_TYPES")
      case True
      then obtain s' where s': "give p n t s = Some s'" "inv s'" "pages s' = pages s \<union> blk p n"
        "\<forall>q k. ready s q k \<and> blk q k \<inter> blk p n = {} \<longrightarrow> ready s' q k"
        using give_ok[OF I(1), of p n t] I(3) by blast
      have R: "disjoint_blocks (remove1 (p, n) L)" "blk p n \<inter> pages_of (set (remove1 (p, n) L)) = {}"
        "pages_of (set L) = blk p n \<union> pages_of (set (remove1 (p, n) L))"
        using live_remove1[OF I(2)] True by auto
      have "ready s' q k" if "(q, k) \<in> set (remove1 (p, n) L)" for q k
        using that I(3) s'(4) R(2) pages_ofI[OF that] notin_set_remove1[of "(q, k)" L "(p, n)"] by blast
      then have "ledger_inv F (s', remove1 (p, n) L)"
        using I(4) s' R by (auto simp: ledger_inv_def)
      then show ?thesis using True s' by (simp add: st Release)
    qed (use assms in \<open>auto simp: st Release\<close>)
  qed
qed

lemma ledger_run:
  assumes "inv s"
  shows "\<exists>s' L. foldM (ledger_step lend give) ops (s, []) = Some (s', L) \<and> inv s' \<and> disjoint_blocks L \<and>
    pages s' \<inter> pages_of (set L) = {} \<and> pages s' \<union> pages_of (set L) = pages s"
proof -
  have "ledger_inv (pages s) st \<Longrightarrow> \<exists>st'. foldM (ledger_step lend give) ops st = Some st' \<and> ledger_inv (pages s) st'" for st
  proof (induction ops arbitrary: st)
    case (Cons a ops)
    then show ?case using ledger_step_ok[of "pages s" st a] by fastforce
  qed simp
  moreover have "ledger_inv (pages s) (s, [])" using assms by (simp add: ledger_inv_def block_simps)
  ultimately obtain s' L where sl: "foldM (ledger_step lend give) ops (s, []) = Some (s', L)" "ledger_inv (pages s) (s', L)"
    by (metis prod.exhaust)
  then have "pages s' \<inter> pages_of (set L) = {}"
    using ready_disjoint by (fastforce simp: ledger_inv_def pages_of_def)
  then show ?thesis using sl by (auto simp: ledger_inv_def)
qed

end

section \<open>The buddy core provides blocks\<close>

definition zone_good :: "vm \<Rightarrow> bool" where
  "zone_good m \<longleftrightarrow> zone_inv m \<and> zone_spanned m"

definition counted :: "vm \<Rightarrow> bool" where
  "counted m \<longleftrightarrow> nr_free_pages m = of_nat (card (free_pages m))"

lemma zone_spanned_frame: "zone_frame m m' \<Longrightarrow> zone_spanned m' = zone_spanned m"
  by (simp add: zone_spanned_def zone_frame_page) (simp add: zone_frame_def)

lemma freeable_transfer:
  assumes "freeable m p n" "same_zone m m'" "rep m'" "blocks_ok (MAX_ORDER - 1) (blocks m')"
    "blk p n \<inter> free_pages m' = {}"
  shows "freeable m' p n"
  using assms same_zone_plain[OF assms(2)] by (auto simp: freeable_def hole_def free_pages_def)

lemma allocatedD:
  assumes "alloc_result m p n m'" "zone_good m"
  shows "zone_good m'" "freeable m' p n" "blk p n \<subseteq> free_pages m" "free_pages m' = free_pages m - blk p n"
    "same_zone m m'" "untouched (free_pages m) m m'" "nr_free_pages m' = nr_free_pages m"
    "\<forall>q k. freeable m q k \<longrightarrow> freeable m' q k"
proof -
  note a = assms(1)[unfolded alloc_result_def]
  show "freeable m' p n" "blk p n \<subseteq> free_pages m" "free_pages m' = free_pages m - blk p n" "same_zone m m'"
    "untouched (free_pages m) m m'" using a by auto
  show "nr_free_pages m' = nr_free_pages m" using a by (simp add: same_zone_def zone_frame_def)
  note d = freeableD[OF \<open>freeable m' p n\<close>]
  show "zone_good m'"
    using a assms(2) d zone_spanned_frame[OF same_zone_frame] by (auto simp: zone_good_def zone_inv_iff)
  show "\<forall>q k. freeable m q k \<longrightarrow> freeable m' q k"
  proof (intro allI impI)
    fix q k assume f: "freeable m q k"
    have "blk q k \<inter> free_pages m = {}" using freeableD(3)[OF f] by (simp add: hole_def free_pages_def)
    then show "freeable m' q k" using a by (intro freeable_transfer[OF f _ d(1,2)]) auto
  qed
qed

lemma zone_goodD: "zone_good m \<Longrightarrow> rep m" "zone_good m \<Longrightarrow> blocks_ok (MAX_ORDER - 1) (blocks m)"
  "zone_good m \<Longrightarrow> zone_spanned m" "zone_good m \<Longrightarrow> n < MAX_ORDER \<Longrightarrow> slack m n = 0"
  by (auto simp: zone_good_def zone_inv_iff)

lemma zone_goodI:
  assumes "zone_good m" "zone_frame m m'" "rep m'" "blocks_ok (MAX_ORDER - 1) (blocks m')" "slack m' = slack m"
  shows "zone_good m'"
  using assms zone_spanned_frame by (auto simp: zone_good_def zone_inv_iff)

lemma rmqueue_good:
  assumes "zone_good m" "n < MAX_ORDER" "mt < MIGRATE_TYPES"
  obtains (failed) "raw_rmqueue n mt m = Some (None, m)"
  | (found) p m' where "raw_rmqueue n mt m = Some (Some p, m')" "alloc_result m p n m'"
  using raw_rmqueue_correct[OF zone_goodD(1-3)[OF assms(1)] assms(3,2)] by metis

lemma freed_good:
  assumes "zone_good m" "returnable m p n" "t < MIGRATE_TYPES"
  shows "\<exists>m'. raw_free_one_page p n t m = Some m' \<and> zone_good m' \<and> free_pages m' = free_pages m \<union> blk p n \<and>
    zone_frame m m'"
  using raw_free_returnable[OF assms(2,3)] zone_goodI[OF assms(1)] by blast

lemma freed_plain:
  assumes "zone_good m" "freeable m p n" "t < MIGRATE_TYPES"
  shows "\<exists>m'. raw_free_one_page p n t m = Some m' \<and> zone_good m' \<and> free_pages m' = free_pages m \<union> blk p n \<and>
    same_zone m m' \<and> untouched (free_pages m \<union> blk p n) m m' \<and>
    (\<forall>q k. freeable m q k \<and> blk q k \<inter> blk p n = {} \<longrightarrow> freeable m' q k)"
proof -
  obtain m' where m': "raw_free_one_page p n t m = Some m'" "rep m'" "blocks_ok (MAX_ORDER - 1) (blocks m')"
    "free_pages m' = free_pages m \<union> blk p n" "slack m' = slack m" "same_zone m m'"
    "untouched (free_pages m \<union> blk p n) m m'"
    using raw_free_one_page_correct[OF assms(2,3)] by blast
  have "freeable m' q k" if f: "freeable m q k" "blk q k \<inter> blk p n = {}" for q k
    using freeable_transfer[OF f(1) m'(6,2,3)] freeableD(3)[OF f(1)] f(2) m'(4)
    by (auto simp: hole_def free_pages_def)
  then show ?thesis using m' zone_goodI[OF assms(1) same_zone_frame[OF m'(6)] m'(2,3,5)] by blast
qed

interpretation buddy: block_provider zone_good free_pages freeable raw_rmqueue raw_free_one_page
proof unfold_locales
  fix s n t assume g: "zone_good s" and n: "n < MAX_ORDER" "t < MIGRATE_TYPES"
  from g n show "raw_rmqueue n t s = Some (None, s) \<or>
      (\<exists>p s'. raw_rmqueue n t s = Some (Some p, s') \<and> zone_good s' \<and> freeable s' p n \<and> blk p n \<subseteq> free_pages s \<and>
         free_pages s' = free_pages s - blk p n \<and> (\<forall>q k. freeable s q k \<longrightarrow> freeable s' q k))"
  proof (cases rule: rmqueue_good)
    case (found p m')
    then show ?thesis using allocatedD[OF found(2) g] by simp
  qed simp
next
  fix s p n t assume "zone_good s" "freeable s p n" "t < MIGRATE_TYPES"
  then show "\<exists>s'. raw_free_one_page p n t s = Some s' \<and> zone_good s' \<and> free_pages s' = free_pages s \<union> blk p n \<and>
      (\<forall>q k. freeable s q k \<and> blk q k \<inter> blk p n = {} \<longrightarrow> freeable s' q k)"
    using freed_plain by blast
next
  fix s p n assume "freeable s p n"
  then show "blk p n \<inter> free_pages s = {}" by (simp add: freeable_def hole_def free_pages_def)
qed

lemma same_counts:
  assumes "zone_good m" "zone_good m'" "blocks m' = blocks m" "n < MAX_ORDER"
  shows "nr_free m' n = nr_free m n"
  using zone_goodD(4)[OF assms(1,4)] zone_goodD(4)[OF assms(2,4)] assms(3) by (simp add: slack_def nr_at_def)

text \<open>
  C2: Whatever the sequence of allocations and releases a client makes, every call of the buddy
  allocator completes, the blocks the client holds never overlap each other or the free pages, no
  page is lost, the free lists stay well formed and fully merged, and once every block is returned
  the free blocks and their counts are the ones of the beginning.
\<close>

theorem buddy_ledger:
  assumes "zone_good m"
  shows "\<exists>m' L. foldM (ledger_step raw_rmqueue raw_free_one_page) ops (m, []) = Some (m', L) \<and>
    zone_inv m' \<and> disjoint_blocks L \<and> free_pages m' \<inter> pages_of (set L) = {} \<and>
    free_pages m' \<union> pages_of (set L) = free_pages m \<and>
    (L = [] \<longrightarrow> blocks m' = blocks m \<and> (\<forall>n < MAX_ORDER. nr_free m' n = nr_free m n))"
proof -
  obtain m' L where r: "foldM (ledger_step raw_rmqueue raw_free_one_page) ops (m, []) = Some (m', L)"
    "zone_good m'" "disjoint_blocks L" "free_pages m' \<inter> pages_of (set L) = {}"
    "free_pages m' \<union> pages_of (set L) = free_pages m"
    using buddy.ledger_run[OF assms] by blast
  have "blocks m' = blocks m" if "L = []"
    using blocks_determined[OF zone_goodD(2)[OF r(2)] zone_goodD(2)[OF assms]] r(5) that
    by (simp add: free_pages_def block_simps)
  then show ?thesis using r same_counts[OF assms r(2)] by (auto simp: zone_good_def)
qed

text \<open>
  C12: For the three ordinary mobility types an allocation finds a block exactly when some free block
  of at least the order asked for is not isolated: fallback and reserve leave no usable block
  unused. The block is aligned, was free, and consists of plain pages; the rest stays free. When
  nothing fits the state is unchanged.
\<close>

theorem buddy_alloc_succeeds:
  assumes "zone_good m" "n < MAX_ORDER" "mt < MIGRATE_PCPTYPES"
  shows "if \<exists>k t. n \<le> k \<and> k < MAX_ORDER \<and> t < MIGRATE_ISOLATE \<and> free_list m k t \<noteq> []
    then \<exists>p m'. raw_rmqueue n mt m = Some (Some p, m') \<and> zone_inv m' \<and> block_aligned p n \<and>
      blk p n \<subseteq> free_pages m \<and> free_pages m' = free_pages m - blk p n \<and> (\<forall>q. q \<in> blk p n \<longrightarrow> plain_page m' q)
    else raw_rmqueue n mt m = Some (None, m)"
proof -
  have mt: "mt < MIGRATE_TYPES" using assms(3) by (simp add: buddy_consts)
  have row: "t < MIGRATE_ISOLATE \<longleftrightarrow> t = mt \<or> mt \<noteq> MIGRATE_RESERVE \<and> t \<in> set (fallbacks ! mt) \<or> t = MIGRATE_RESERVE" for t
    using assms(3) by (auto simp: buddy_consts fallbacks_def less_Suc_eq numeral_eq_Suc)
  from zone_goodD(1-3)[OF assms(1)] mt assms(2) show ?thesis
  proof (cases rule: raw_rmqueue_correct)
    case failed
    then show ?thesis using row by auto
  next
    case (found p m' k t)
    note a = allocatedD[OF found(2) assms(1)] and d = freeableD[OF allocatedD(2)[OF found(2) assms(1)]]
    have "t < MIGRATE_ISOLATE" using found(6) row assms(3) by (auto simp: buddy_consts)
    then have "\<exists>k t. n \<le> k \<and> k < MAX_ORDER \<and> t < MIGRATE_ISOLATE \<and> free_list m k t \<noteq> []"
      using found(3-5) by blast
    then show ?thesis using found(1) a(1,3,4) d(4,5) by (auto simp: zone_good_def)
  qed
qed

lemma returnable_stat [simp]:
  "returnable (m\<lparr>all_unreclaimable := u, pages_scanned := s, nr_free_pages := c\<rparr>) p n = returnable m p n"
  "free_pages (m\<lparr>all_unreclaimable := u, pages_scanned := s, nr_free_pages := c\<rparr>) = free_pages m"
  "zone_good (m\<lparr>all_unreclaimable := u, pages_scanned := s, nr_free_pages := c\<rparr>) = zone_good m"
  by (simp_all add: returnable_def freeable_def rep_def rep_lists_def rep_pages_def blocks_def plain_page_def
      zone_page_def compound_block_def free_pages_def zone_good_def zone_inv_def nr_ok_def zone_spanned_def)

lemma card_add_block:
  "freeable m p n \<or> hole (MAX_ORDER - 1) (blocks m) p n \<Longrightarrow>
   of_nat (card (free_pages m \<union> blk p n)) = (of_nat (card (free_pages m)) + 2 ^ n :: ulong)"
proof -
  assume "freeable m p n \<or> hole (MAX_ORDER - 1) (blocks m) p n"
  then have "free_pages m \<inter> blk p n = {}" using freeableD(3) by (auto simp: hole_def free_pages_def)
  then have "card (free_pages m \<union> blk p n) = card (free_pages m) + 2 ^ n" by (simp add: card_Un_disjoint)
  then show ?thesis by simp
qed

lemma returnable_hole: "returnable m p n \<Longrightarrow> hole (MAX_ORDER - 1) (blocks m) p n"
  by (auto simp: returnable_def freeable_def)

text \<open>
  C11: Giving back a block of the zone that is not free, plain or a compound page of that order,
  always completes: it adds exactly the pages of the block to the free pages, keeps the free lists
  well formed and merged, and keeps both the count of every order and the number of free pages exact.
\<close>

theorem buddy_free_correct:
  assumes "zone_good m" "counted m" "returnable m p n" "mt < MIGRATE_TYPES"
  shows "\<exists>m'. free_one_page p n mt m = Some m' \<and> zone_inv m' \<and> counted m' \<and>
    free_pages m' = free_pages m \<union> blk p n"
proof -
  let ?m = "m\<lparr>all_unreclaimable := False, pages_scanned := 0, nr_free_pages := nr_free_pages m + 2 ^ n\<rparr>"
  obtain m' where m': "raw_free_one_page p n mt ?m = Some m'" "zone_good m'"
    "free_pages m' = free_pages m \<union> blk p n" "zone_frame ?m m'"
    using freed_good[of ?m p n mt] assms by auto
  have "counted m'" using m'(3,4) assms(2) card_add_block[OF disjI2[OF returnable_hole[OF assms(3)]]]
    by (simp add: counted_def zone_frame_def)
  then show ?thesis using m' by (auto simp: free_one_page_def zone_good_def)
qed

section \<open>Bulk operations are correct\<close>

definition of_order :: "nat \<Rightarrow> nat list \<Rightarrow> live" where
  "of_order n ps = map (\<lambda>p. (p, n)) ps"

definition private_is :: "vm \<Rightarrow> nat \<Rightarrow> nat \<Rightarrow> bool" where
  "private_is m t p \<longleftrightarrow> (\<exists>pg. mem_map m p = Some pg \<and> page_private pg = Some t)"

lemma of_order_simps [simp]: "of_order n [] = []" "of_order n (p # ps) = (p, n) # of_order n ps"
  "of_order n (ps @ qs) = of_order n ps @ of_order n qs"
  by (simp_all add: of_order_def)

lemma set_private_keeps:
  assumes f: "freeable m p n" and g: "zone_good m"
  shows "\<exists>m'. set_page_private p t m = Some m' \<and> zone_good m' \<and> free_pages m' = free_pages m \<and> same_zone m m' \<and>
    private_is m' t p \<and> untouched (blk p n) m m' \<and> (\<forall>q k. freeable m q k \<longrightarrow> freeable m' q k)"
proof -
  let ?f = "\<lambda>pg. pg\<lparr>punion := Private t\<rparr>"
  let ?m = "map_pages p (p + 1) ?f m"
  obtain pg where pg: "mem_map m p = Some pg" using freeableD(7)[OF f] by (auto simp: zone_page_def)
  have step: "set_page_private p t m = Some ?m"
    using pg by (auto simp: set_page_private_def set_page_def map_pages_def fun_eq_iff intro!: vm.equality)
  have "p \<notin> pages_of (blocks m)" using freeableD(3)[OF f] blk_self[of p n] unfolding hole_def by blast
  then have k: "rep ?m" "blocks ?m = blocks m" "slack ?m = slack m" "zone_frame m ?m"
    using map_pages_outside[of ?f m p "p + 1"] freeableD(1)[OF f] by auto
  have z: "same_zone m ?m" using k(4) pg by (auto simp: same_zone_def map_pages_def option.map_comp comp_def PageCompound_def[abs_def])
  have fr: "free_pages ?m = free_pages m" by (simp only: free_pages_def k(2))
  have "freeable ?m q k" if q: "freeable m q k" for q k
    using freeable_transfer[OF q z k(1)] freeableD(2,3)[OF q] unfolding k(2) hole_def free_pages_def by blast
  moreover have "zone_good ?m" by (rule zone_goodI[OF g k(4,1) _ k(3)]) (simp only: k(2) freeableD(2)[OF f])
  moreover have "untouched (blk p n) m ?m"
    by (auto simp: untouched_def map_pages_def) (metis blk_self le_antisym less_Suc_eq_le)
  moreover have "private_is ?m t p" using pg by (simp add: private_is_def map_pages_def page_private_def)
  ultimately show ?thesis using step z fr by blast
qed

text \<open>One round: a block leaves the free lists and its head page records the mobility type.\<close>

lemma bulk_round:
  assumes g: "zone_good m" and a: "alloc_result m p n m1"
  shows "\<exists>m2. set_page_private p t m1 = Some m2 \<and> zone_good m2 \<and> freeable m2 p n \<and> private_is m2 t p \<and>
    blk p n \<subseteq> free_pages m \<and> free_pages m2 = free_pages m - blk p n \<and> same_zone m m2 \<and>
    untouched (free_pages m) m m2 \<and> (\<forall>q k. freeable m q k \<longrightarrow> freeable m2 q k) \<and>
    of_nat (card (free_pages m)) = (of_nat (card (free_pages m2)) + 2 ^ n :: ulong)"
proof -
  note d = allocatedD[OF a g]
  obtain m2 where m2: "set_page_private p t m1 = Some m2" "zone_good m2" "free_pages m2 = free_pages m1"
    "same_zone m1 m2" "private_is m2 t p" "untouched (blk p n) m1 m2" "\<forall>q k. freeable m1 q k \<longrightarrow> freeable m2 q k"
    using set_private_keeps[OF d(2,1)] by blast
  have "free_pages m = free_pages m1 \<union> blk p n" using d(3,4) by auto
  then have "of_nat (card (free_pages m)) = (of_nat (card (free_pages m2)) + 2 ^ n :: ulong)"
    using card_add_block[OF disjI1[OF d(2)]] m2(3) by simp
  moreover have "untouched (free_pages m) m m2" using untouched_trans[OF d(6) m2(6)] d(3) by blast
  ultimately show ?thesis using m2 d same_zone_trans[OF d(5) m2(4)] by simp
qed

fun cursor :: "nat list \<Rightarrow> nat option" where
  "cursor [] = None"
| "cursor ps = Some (last ps)"

lemma cursor_snoc [simp]: "cursor (ps @ [p]) = Some p"
  by (cases ps) auto

lemma split_at:
  "c \<notin> set xs \<Longrightarrow> takeWhile (\<lambda>q. q \<noteq> c) (xs @ c # l) = xs \<and> dropWhile (\<lambda>q. q \<noteq> c) (xs @ c # l) = c # l"
  by (induction xs) auto

lemma add_after_cursor:
  assumes "distinct ps"
  shows "add_after p (cursor ps) (ps @ l) = (ps @ [p]) @ l"
proof (cases ps rule: rev_cases)
  case (snoc qs c)
  then have "cursor ps = Some c" by simp
  moreover have "takeWhile (\<lambda>q. q \<noteq> c) (qs @ c # l) = qs" "dropWhile (\<lambda>q. q \<noteq> c) (qs @ c # l) = c # l"
    using assms snoc split_at[of c qs l] by auto
  ultimately show ?thesis using snoc by simp
qed simp

lemma add_before_cursor:
  assumes "set ps \<inter> set l = {}"
  shows "add_before p (cursor ps) (l @ rev ps) = l @ rev (ps @ [p])"
proof (cases ps rule: rev_cases)
  case (snoc qs c)
  then have "cursor ps = Some c" by simp
  moreover have "takeWhile (\<lambda>q. q \<noteq> c) (l @ c # rev qs) = l" "dropWhile (\<lambda>q. q \<noteq> c) (l @ c # rev qs) = c # rev qs"
    using assms snoc split_at[of c l "rev qs"] by auto
  ultimately show ?thesis using snoc by simp
qed simp

definition bulk_list :: "bool \<Rightarrow> nat list \<Rightarrow> nat list \<Rightarrow> nat list" where
  "bulk_list cold ps l = (if cold then l @ rev ps else ps @ l)"

text \<open>What a run of the loop has obtained: the heads \<open>qs\<close>.\<close>

definition bulk_post :: "nat \<Rightarrow> nat \<Rightarrow> vm \<Rightarrow> nat list \<Rightarrow> vm \<Rightarrow> bool" where
  "bulk_post n t m qs m' \<longleftrightarrow> zone_good m' \<and> disjoint_blocks (of_order n qs) \<and>
     (\<forall>p \<in> set qs. freeable m' p n \<and> private_is m' t p) \<and>
     pages_of (set (of_order n qs)) \<subseteq> free_pages m \<and>
     free_pages m' = free_pages m - pages_of (set (of_order n qs)) \<and> same_zone m m' \<and>
     untouched (free_pages m) m m' \<and> (\<forall>q k. freeable m q k \<longrightarrow> freeable m' q k) \<and>
     of_nat (card (free_pages m)) = (of_nat (card (free_pages m')) + of_nat (length qs * 2 ^ n) :: ulong)"

lemma bulk_post_Cons:
  assumes g: "zone_good m" and a: "alloc_result m p n m1" and s: "set_page_private p t m1 = Some m2"
    and b: "bulk_post n t m2 qs m'"
  shows "bulk_post n t m (p # qs) m'"
proof -
  have m2: "zone_good m2" "freeable m2 p n" "private_is m2 t p" "blk p n \<subseteq> free_pages m"
    "free_pages m2 = free_pages m - blk p n" "same_zone m m2" "untouched (free_pages m) m m2"
    "\<forall>q k. freeable m q k \<longrightarrow> freeable m2 q k"
    "of_nat (card (free_pages m)) = (of_nat (card (free_pages m2)) + 2 ^ n :: ulong)"
    using bulk_round[OF g a, of t] s by auto
  note b' = b[unfolded bulk_post_def]
  have un: "untouched (free_pages m) m m'" using untouched_trans[OF m2(7)] b' m2(5) by blast
  have "p \<notin> free_pages m2" using m2(5) by auto
  then have "mem_map m' p = mem_map m2 p" using b' unfolding untouched_def by blast
  then have pr: "private_is m' t p" using m2(3) by (simp add: private_is_def)
  have z: "same_zone m m'" using same_zone_trans[OF m2(6)] b' by blast
  show ?thesis unfolding bulk_post_def
    using b' m2 un pr z by (auto simp: block_simps algebra_simps)
qed

lemma bulk_loop_correct:
  assumes "zone_good m" "n < MAX_ORDER" "t < MIGRATE_TYPES" "i \<le> count"
    "distinct ps" "set ps \<inter> set l = {}" "free_pages m \<inter> (set ps \<union> set l) = {}"
  shows "\<exists>qs m'. rmqueue_bulk_loop i count n t cold (cursor ps) (bulk_list cold ps l) m =
      Some (i + length qs, bulk_list cold (ps @ qs) l, m') \<and> i + length qs \<le> count \<and> bulk_post n t m qs m' \<and>
      (i + length qs < count \<longrightarrow> raw_rmqueue n t m' = Some (None, m'))"
  using assms
proof (induction "count - i" arbitrary: i ps m)
  case 0
  then have "bulk_post n t m [] m" by (auto simp: bulk_post_def block_simps)
  moreover have "i = count" using 0 by simp
  ultimately show ?case by (subst rmqueue_bulk_loop.simps) (auto intro!: exI[of _ "[]"])
next
  case (Suc d)
  have lt: "i < count" using Suc.hyps(2) by simp
  from Suc.prems(1-3) show ?case
  proof (cases rule: rmqueue_good)
    case failed
    have "bulk_post n t m [] m" using Suc.prems(1) by (auto simp: bulk_post_def block_simps)
    then show ?thesis using failed lt by (subst rmqueue_bulk_loop.simps) (auto intro!: exI[of _ "[]"])
  next
    case (found p m1)
    obtain m2 where m2: "set_page_private p t m1 = Some m2" "zone_good m2" "blk p n \<subseteq> free_pages m"
      "free_pages m2 = free_pages m - blk p n"
      using bulk_round[OF Suc.prems(1) found(2)] by blast
    have p: "p \<in> free_pages m" using m2(3) blk_self by blast
    have ps: "distinct (ps @ [p])" "set (ps @ [p]) \<inter> set l = {}" "free_pages m2 \<inter> (set (ps @ [p]) \<union> set l) = {}"
      using Suc.prems(5-7) p m2(4) by auto
    have "(if \<not> cold then add_after p (cursor ps) (bulk_list cold ps l) else add_before p (cursor ps) (bulk_list cold ps l)) =
        bulk_list cold (ps @ [p]) l"
      using add_after_cursor[OF Suc.prems(5)] add_before_cursor[OF Suc.prems(6)] by (simp add: bulk_list_def)
    then have step: "rmqueue_bulk_loop i count n t cold (cursor ps) (bulk_list cold ps l) m =
        rmqueue_bulk_loop (Suc i) count n t cold (cursor (ps @ [p])) (bulk_list cold (ps @ [p]) l) m2"
      using lt found(1) m2(1) by (subst rmqueue_bulk_loop.simps) (simp add: Let_def)
    have d: "d = count - Suc i" "Suc i \<le> count" using Suc.hyps(2) lt by auto
    obtain qs m' where q: "rmqueue_bulk_loop (Suc i) count n t cold (cursor (ps @ [p])) (bulk_list cold (ps @ [p]) l) m2 =
        Some (Suc i + length qs, bulk_list cold ((ps @ [p]) @ qs) l, m')" "Suc i + length qs \<le> count"
      "bulk_post n t m2 qs m'" "Suc i + length qs < count \<longrightarrow> raw_rmqueue n t m' = Some (None, m')"
      using Suc.hyps(1)[OF d(1) m2(2) Suc.prems(2,3) d(2) ps] by blast
    have "bulk_post n t m (p # qs) m'" by (rule bulk_post_Cons[OF Suc.prems(1) found(2) m2(1) q(3)])
    then show ?thesis using q step by (intro exI[of _ "p # qs"] exI[of _ m']) simp
  qed
qed

lemma freeable_stat:
  "freeable (m\<lparr>all_unreclaimable := u, pages_scanned := s, nr_free_pages := c\<rparr>) p n = freeable m p n"
  by (simp add: freeable_def rep_def rep_lists_def rep_pages_def blocks_def plain_page_def zone_page_def)

text \<open>
  C14: \<open>rmqueue_bulk\<close> always completes. It obtains as many blocks as asked for or as many as
  the allocator has, in the order of allocation at the front of the caller's list (cold pages in
  reverse at its end); the blocks are disjoint, come from the free pages, and carry the mobility
  type, and the number of free pages stays exact.
\<close>

theorem rmqueue_bulk_correct:
  assumes "zone_good m" "counted m" "n < MAX_ORDER" "t < MIGRATE_TYPES" "free_pages m \<inter> set l = {}"
  shows "\<exists>qs m'. rmqueue_bulk n count l t cold m = Some (length qs, if cold then l @ rev qs else qs @ l, m') \<and>
    length qs \<le> count \<and>
    (length qs < count \<longrightarrow> raw_rmqueue n t (m'\<lparr>nr_free_pages := nr_free_pages m\<rparr>) =
       Some (None, m'\<lparr>nr_free_pages := nr_free_pages m\<rparr>)) \<and>
    zone_inv m' \<and> counted m' \<and> disjoint_blocks (of_order n qs) \<and>
    pages_of (set (of_order n qs)) \<subseteq> free_pages m \<and> free_pages m' = free_pages m - pages_of (set (of_order n qs)) \<and>
    (\<forall>p \<in> set qs. freeable m' p n \<and> private_is m' t p)"
proof -
  obtain qs m' where q: "rmqueue_bulk_loop 0 count n t cold (cursor []) (bulk_list cold [] l) m =
      Some (0 + length qs, bulk_list cold ([] @ qs) l, m')" "0 + length qs \<le> count" "bulk_post n t m qs m'"
    "0 + length qs < count \<longrightarrow> raw_rmqueue n t m' = Some (None, m')"
    using bulk_loop_correct[of m n t 0 count "[]" l cold] assms by auto
  let ?m = "m'\<lparr>nr_free_pages := nr_free_pages m' - of_nat (length qs * 2 ^ n)\<rparr>"
  have st: "rmqueue_bulk n count l t cold m = Some (length qs, if cold then l @ rev qs else qs @ l, ?m)"
    using q(1) by (simp add: rmqueue_bulk_def bulk_list_def split: if_splits)
  note b = q(3)[unfolded bulk_post_def]
  have e: "?m = m'\<lparr>all_unreclaimable := all_unreclaimable m', pages_scanned := pages_scanned m',
      nr_free_pages := nr_free_pages m' - of_nat (length qs * 2 ^ n)\<rparr>" by simp
  have fp: "free_pages ?m = free_pages m'" unfolding e by (rule returnable_stat)
  have "zone_good ?m" unfolding e using b by (simp only: returnable_stat)
  moreover have nr: "nr_free_pages m' = nr_free_pages m" using b by (simp add: same_zone_def zone_frame_def)
  then have "counted ?m" using b assms(2) fp by (simp add: counted_def)
  moreover have "\<forall>p \<in> set qs. freeable ?m p n \<and> private_is ?m t p"
    unfolding e freeable_stat using b by (simp add: private_is_def)
  moreover have "?m\<lparr>nr_free_pages := nr_free_pages m\<rparr> = m'" using nr by simp
  ultimately show ?thesis using st q b fp by (intro exI[of _ qs] exI[of _ ?m]) (simp add: zone_good_def)
qed

subsection \<open>Draining the per-CPU lists\<close>

definition pcp_ok :: "vm \<Rightarrow> nat list list \<Rightarrow> bool" where
  "pcp_ok m pcp \<longleftrightarrow> length pcp = MIGRATE_PCPTYPES \<and> distinct (concat pcp) \<and>
     (\<forall>p \<in> set (concat pcp). freeable m p 0 \<and> (\<exists>t < MIGRATE_TYPES. private_is m t p))"

definition drained :: "nat \<Rightarrow> vm \<Rightarrow> nat list list \<Rightarrow> vm \<Rightarrow> nat list list \<Rightarrow> bool" where
  "drained k m pcp m' pcp' \<longleftrightarrow> zone_good m' \<and> pcp_ok m' pcp' \<and> zone_frame m m' \<and>
     set (concat pcp') \<subseteq> set (concat pcp) \<and> length (concat pcp) = length (concat pcp') + k \<and>
     free_pages m' = free_pages m \<union> (set (concat pcp) - set (concat pcp'))"

lemma drained_trans:
  assumes "drained a m pcp m1 pcp1" "drained b m1 pcp1 m2 pcp2"
  shows "drained (a + b) m pcp m2 pcp2"
proof -
  note d = assms[unfolded drained_def]
  have "set (concat pcp2) \<subseteq> set (concat pcp)" using d by blast
  moreover have "free_pages m2 = free_pages m \<union> (set (concat pcp) - set (concat pcp2))"
    using d by (auto simp del: set_concat)
  moreover have "zone_frame m m2" using d zone_frame_trans by blast
  ultimately show ?thesis using d by (simp add: drained_def del: set_concat)
qed

lemma pcp_next_step:
  assumes "length pcp = MIGRATE_PCPTYPES" "mt' = (if mt + 1 = MIGRATE_PCPTYPES then 0 else mt + 1)" "mt' < MIGRATE_PCPTYPES"
  shows "pcp_next_list mt bf pcp = (if pcp ! mt' = [] then pcp_next_list mt' (bf + 1) pcp else Some (mt', bf + 1))"
  using assms by (subst pcp_next_list.simps) (simp add: Let_def)

lemma pcp_next_list_correct:
  assumes len: "length pcp = MIGRATE_PCPTYPES" and ne: "concat pcp \<noteq> []" and mt: "mt < MIGRATE_PCPTYPES"
  shows "\<exists>mt' bf'. pcp_next_list mt bf pcp = Some (mt', bf') \<and> mt' < MIGRATE_PCPTYPES \<and> pcp ! mt' \<noteq> [] \<and> 0 < bf'"
proof -
  define good where "good mt \<longleftrightarrow> (\<forall>bf. \<exists>mt' bf'. pcp_next_list mt bf pcp = Some (mt', bf') \<and>
    mt' < MIGRATE_PCPTYPES \<and> pcp ! mt' \<noteq> [] \<and> 0 < bf')" for mt
  have step: "good mt" if "pcp ! mt' \<noteq> [] \<or> good mt'" "mt' = (if mt + 1 = MIGRATE_PCPTYPES then 0 else mt + 1)"
    "mt' < MIGRATE_PCPTYPES" for mt mt'
  proof (cases "pcp ! mt' = []")
    case True
    then have "good mt'" using that(1) by simp
    then show ?thesis using True unfolding good_def pcp_next_step[OF len that(2,3), of _] by simp
  next
    case False
    then show ?thesis using that(3) unfolding good_def pcp_next_step[OF len that(2,3), of _] by simp
  qed
  obtain l where "l \<in> set pcp" "l \<noteq> []" using ne by (auto simp: concat_eq_Nil_conv)
  then obtain k where k: "k < MIGRATE_PCPTYPES" "pcp ! k \<noteq> []" using len by (metis in_set_conv_nth)
  have 3: "k = 0 \<or> k = 1 \<or> k = 2" "mt = 0 \<or> mt = 1 \<or> mt = 2" using k(1) mt by (auto simp: buddy_consts)
  have c: "MIGRATE_PCPTYPES = 3" by (simp add: buddy_consts)
  have s: "pcp ! 1 \<noteq> [] \<or> good 1 \<Longrightarrow> good 0" "pcp ! 2 \<noteq> [] \<or> good 2 \<Longrightarrow> good 1" "pcp ! 0 \<noteq> [] \<or> good 0 \<Longrightarrow> good 2"
    by (rule step[of 1 0], assumption, simp add: c, simp add: c)
       (rule step[of 2 1], assumption, simp add: c, simp add: c,
        rule step[of 0 2], assumption, simp add: c, simp add: c)
  have "pcp ! 0 \<noteq> [] \<or> pcp ! 1 \<noteq> [] \<or> pcp ! 2 \<noteq> []" using 3(1) k(2) by (elim disjE) simp_all
  then have "good 0 \<and> good 1 \<and> good 2" using s by argo
  then have "good mt" using 3(2) by blast
  then show ?thesis unfolding good_def by blast
qed

lemma pop_last:
  assumes "mt < length pcp" "pcp ! mt \<noteq> []" "distinct (concat pcp)"
  shows "distinct (concat (pcp[mt := butlast (pcp ! mt)]))" "last (pcp ! mt) \<notin> set (concat (pcp[mt := butlast (pcp ! mt)]))"
    "set (concat pcp) = insert (last (pcp ! mt)) (set (concat (pcp[mt := butlast (pcp ! mt)])))"
    "length (concat pcp) = Suc (length (concat (pcp[mt := butlast (pcp ! mt)])))"
proof -
  obtain l p where l: "pcp ! mt = l @ [p]" using assms(2) by (metis rev_exhaust)
  define A where "A = concat (take mt pcp)"
  define B where "B = concat (drop (Suc mt) pcp)"
  have 1: "concat pcp = A @ (l @ [p]) @ B"
    using id_take_nth_drop[OF assms(1)] unfolding A_def B_def by (metis concat.simps(2) concat_append l)
  have 2: "concat (pcp[mt := butlast (pcp ! mt)]) = A @ l @ B"
    using assms(1) by (simp add: upd_conv_take_nth_drop A_def B_def l)
  show "distinct (concat (pcp[mt := butlast (pcp ! mt)]))" "last (pcp ! mt) \<notin> set (concat (pcp[mt := butlast (pcp ! mt)]))"
    "set (concat pcp) = insert (last (pcp ! mt)) (set (concat (pcp[mt := butlast (pcp ! mt)])))"
    "length (concat pcp) = Suc (length (concat (pcp[mt := butlast (pcp ! mt)])))"
    using assms(3) unfolding 2 unfolding 1 by (auto simp: l)
qed

text \<open>Freeing the last page of one list.\<close>

lemma drain_one:
  assumes g: "zone_good m" and ok: "pcp_ok m pcp" and mt: "mt < MIGRATE_PCPTYPES" "pcp ! mt \<noteq> []"
  shows "\<exists>pg t m'. mem_map m (last (pcp ! mt)) = Some pg \<and> page_private pg = Some t \<and>
    raw_free_one_page (last (pcp ! mt)) 0 t m = Some m' \<and> drained 1 m pcp m' (pcp[mt := butlast (pcp ! mt)])"
proof -
  let ?p = "last (pcp ! mt)" and ?pcp = "pcp[mt := butlast (pcp ! mt)]"
  have mt': "mt < length pcp" using ok mt(1) by (simp add: pcp_ok_def)
  have ds: "distinct (concat pcp)" using ok by (simp add: pcp_ok_def)
  note pop = pop_last[OF mt' mt(2) ds]
  have "?p \<in> set (concat pcp)" unfolding pop(3) by simp
  then obtain t where f: "freeable m ?p 0" and t: "t < MIGRATE_TYPES" "private_is m t ?p"
    using ok unfolding pcp_ok_def by blast
  obtain m' where m': "raw_free_one_page ?p 0 t m = Some m'" "zone_good m'" "free_pages m' = free_pages m \<union> blk ?p 0"
    "same_zone m m'" "untouched (free_pages m \<union> blk ?p 0) m m'"
    "\<forall>q k. freeable m q k \<and> blk q k \<inter> blk ?p 0 = {} \<longrightarrow> freeable m' q k"
    using freed_plain[OF g f t(1)] by blast
  have b0: "blk q 0 = {q}" for q by (auto simp: blk_def)
  have keep: "freeable m' q 0 \<and> (\<exists>t < MIGRATE_TYPES. private_is m' t q)" if q: "q \<in> set (concat ?pcp)" for q
  proof -
    have qp: "q \<noteq> ?p" using q pop(2) by blast
    have "q \<in> set (concat pcp)" using q unfolding pop(3) by simp
    then have fq: "freeable m q 0" and tq: "\<exists>t < MIGRATE_TYPES. private_is m t q" using ok unfolding pcp_ok_def by blast+
    have "q \<notin> free_pages m" using freeableD(3)[OF fq] by (auto simp: hole_def free_pages_def b0)
    then have "mem_map m' q = mem_map m q" using m'(5) qp unfolding untouched_def b0 by blast
    then show ?thesis using fq tq m'(6) qp by (auto simp: private_is_def b0)
  qed
  have "pcp_ok m' ?pcp" unfolding pcp_ok_def using keep pop(1) ok by (simp add: pcp_ok_def)
  moreover have "free_pages m' = free_pages m \<union> (set (concat pcp) - set (concat ?pcp))"
    using m'(3) pop(2) unfolding pop(3) b0 by blast
  ultimately have "drained 1 m pcp m' ?pcp"
    unfolding drained_def using m'(2) same_zone_frame[OF m'(4)] pop(3,4) by auto
  then show ?thesis using t(2) m'(1) unfolding private_is_def by blast
qed

lemma pcp_free_batch_correct:
  assumes "zone_good m" "pcp_ok m pcp" "mt < MIGRATE_PCPTYPES" "pcp ! mt \<noteq> []" "0 < count" "0 < bf"
  shows "\<exists>k bf' pcp' m'. pcp_free_batch count bf mt pcp m = Some (count - k, bf', pcp', m') \<and> 0 < k \<and> k \<le> count \<and>
    drained k m pcp m' pcp'"
  using assms
proof (induction count arbitrary: bf pcp m)
  case (Suc c)
  let ?pcp = "pcp[mt := butlast (pcp ! mt)]"
  obtain pg t m' where s: "mem_map m (last (pcp ! mt)) = Some pg" "page_private pg = Some t"
    "raw_free_one_page (last (pcp ! mt)) 0 t m = Some m'" and dr: "drained 1 m pcp m' ?pcp"
    using drain_one[OF Suc.prems(1-4)] by blast
  have mt: "mt < length pcp" using Suc.prems(2,3) by (simp add: pcp_ok_def)
  show ?case
  proof (cases "c = 0 \<or> bf - 1 = 0 \<or> ?pcp ! mt = []")
    case True
    then have "\<exists>bf'. pcp_free_batch (Suc c) bf mt pcp m = Some (Suc c - 1, bf', ?pcp, m')"
      using s mt Suc.prems(4) by (subst pcp_free_batch.simps) auto
    then obtain bf' where "pcp_free_batch (Suc c) bf mt pcp m = Some (Suc c - 1, bf', ?pcp, m')" by blast
    then show ?thesis using dr by (intro exI[of _ 1] exI[of _ bf'] exI[of _ ?pcp] exI[of _ m']) simp
  next
    case False
    then have step: "pcp_free_batch (Suc c) bf mt pcp m = pcp_free_batch c (bf - 1) mt ?pcp m'"
      using s mt Suc.prems(4) by (subst pcp_free_batch.simps) simp
    have "\<exists>k bf' pcp' m''. pcp_free_batch c (bf - 1) mt ?pcp m' = Some (c - k, bf', pcp', m'') \<and> 0 < k \<and> k \<le> c \<and>
        drained k m' ?pcp m'' pcp'"
      using dr False Suc.prems(3) by (intro Suc.IH) (auto simp: drained_def)
    then obtain k bf' pcp' m'' where k: "pcp_free_batch c (bf - 1) mt ?pcp m' = Some (c - k, bf', pcp', m'')"
      "0 < k" "k \<le> c" "drained k m' ?pcp m'' pcp'" by blast
    have "drained (Suc k) m pcp m'' pcp'" using drained_trans[OF dr k(4)] by simp
    then show ?thesis using step k by (intro exI[of _ "Suc k"] exI[of _ bf'] exI[of _ pcp'] exI[of _ m'']) simp
  qed
qed simp

lemma pcp_free_loop_correct:
  assumes "zone_good m" "pcp_ok m pcp" "mt < MIGRATE_PCPTYPES" "count \<le> length (concat pcp)"
  shows "\<exists>pcp' m'. pcp_free_loop count mt bf pcp m = Some (pcp', m') \<and> drained count m pcp m' pcp'"
  using assms
proof (induction count arbitrary: mt bf pcp m rule: less_induct)
  case (less count)
  show ?case
  proof (cases "count = 0")
    case True
    then show ?thesis using less.prems by (subst pcp_free_loop.simps) (simp add: drained_def)
  next
    case False
    have len: "length pcp = MIGRATE_PCPTYPES" "concat pcp \<noteq> []"
      using less.prems(2,4) False by (simp add: pcp_ok_def, metis le_zero_eq list.size(3))
    obtain mt' bf1 where nx: "pcp_next_list mt bf pcp = Some (mt', bf1)" "mt' < MIGRATE_PCPTYPES" "pcp ! mt' \<noteq> []" "0 < bf1"
      using pcp_next_list_correct[OF len less.prems(3)] by blast
    obtain k bf2 pcp1 m1 where b: "pcp_free_batch count bf1 mt' pcp m = Some (count - k, bf2, pcp1, m1)" "0 < k" "k \<le> count"
      "drained k m pcp m1 pcp1"
      using pcp_free_batch_correct[OF less.prems(1,2) nx(2,3) _ nx(4)] False by blast
    have d: "zone_good m1" "pcp_ok m1 pcp1" "count - k \<le> length (concat pcp1)"
      using b(4) less.prems(4) by (auto simp: drained_def)
    obtain pcp' m' where r: "pcp_free_loop (count - k) mt' bf2 pcp1 m1 = Some (pcp', m')" "drained (count - k) m1 pcp1 m' pcp'"
      using less.IH[OF _ d(1,2) nx(2) d(3)] b(2) False by (metis diff_less gr0I)
    have "drained count m pcp m' pcp'" using drained_trans[OF b(4) r(2)] b(3) by simp
    then show ?thesis using False nx(1) b(1) r(1) by (subst pcp_free_loop.simps) simp
  qed
qed

lemma zone_good_stat [simp]:
  "pcp_ok (m\<lparr>all_unreclaimable := u, pages_scanned := s, nr_free_pages := c\<rparr>) pcp = pcp_ok m pcp"
  by (simp add: pcp_ok_def freeable_def rep_def rep_lists_def rep_pages_def blocks_def plain_page_def
      zone_page_def private_is_def)

text \<open>
  C13: Draining \<open>count\<close> pages from the per-CPU lists terminates whenever the lists hold that
  many pages (with fewer, the search for a non-empty list would spin for ever): exactly that many
  pages leave the lists and become free, every other page stays on its list, and the free lists and
  the counters stay exact.
\<close>

theorem free_pcppages_bulk_correct:
  assumes "zone_good m" "counted m" "pcp_ok m pcp" "count \<le> length (concat pcp)"
  shows "\<exists>pcp' m'. free_pcppages_bulk count pcp m = Some (pcp', m') \<and> zone_inv m' \<and> counted m' \<and> pcp_ok m' pcp' \<and>
    set (concat pcp') \<subseteq> set (concat pcp) \<and> length (concat pcp) = length (concat pcp') + count \<and>
    free_pages m' = free_pages m \<union> (set (concat pcp) - set (concat pcp'))"
proof -
  let ?m = "m\<lparr>all_unreclaimable := False, pages_scanned := 0, nr_free_pages := nr_free_pages m + of_nat count\<rparr>"
  have "\<exists>pcp' m'. pcp_free_loop count 0 0 pcp ?m = Some (pcp', m') \<and> drained count ?m pcp m' pcp'"
    using assms by (intro pcp_free_loop_correct) (simp_all add: buddy_consts)
  then obtain pcp' m' where r: "free_pcppages_bulk count pcp m = Some (pcp', m')" "drained count ?m pcp m' pcp'"
    unfolding free_pcppages_bulk_def by blast
  note d = r(2)[unfolded drained_def returnable_stat]
  have ds: "distinct (concat pcp)" "distinct (concat pcp')" using assms(3) d by (auto simp: pcp_ok_def)
  have "card (set (concat pcp) - set (concat pcp')) = count"
    using d ds by (simp add: card_Diff_subset distinct_card del: set_concat)
  moreover have "free_pages m \<inter> (set (concat pcp) - set (concat pcp')) = {}"
    using assms(3) freeableD(3) blk_self unfolding pcp_ok_def hole_def free_pages_def by blast
  then have "card (free_pages m') = card (free_pages m) + card (set (concat pcp) - set (concat pcp'))"
    using d by (simp add: card_Un_disjoint del: set_concat)
  ultimately have "counted m'" using d assms(2) by (simp add: counted_def zone_frame_def)
  then show ?thesis using r(1) d by (auto simp: zone_good_def)
qed

text \<open>
  Isolating a page block and undoing it move free blocks between lists and change nothing else.
\<close>

lemma isolate_correct:
  assumes "zone_good m" "zone_page m p"
  shows "\<exists>r m'. set_migratetype_isolate z p m = Some (r, m') \<and> zone_good m' \<and> blocks m' = blocks m \<and> mem_map m' = mem_map m"
    "\<exists>m'. unset_migratetype_isolate p m = Some m' \<and> zone_good m' \<and> blocks m' = blocks m \<and> mem_map m' = mem_map m"
proof -
  have rel: "zone_good m' \<and> blocks m' = blocks m \<and> mem_map m' = mem_map m" if "relisted m m'" for m'
    using that zone_goodI[OF assms(1) same_zone_frame] zone_goodD(2)[OF assms(1)] by (simp add: relisted_def)
  have mv: "\<exists>k m'. move_freepages_block p t (set_pageblock_migratetype p t m) = Some (k, m') \<and> relisted m m'"
    if t: "t < MIGRATE_TYPES" for t
  proof -
    obtain g where g: "set_pageblock_migratetype p t m = m\<lparr>pageblock_flags := g\<rparr>"
      by (simp add: set_pageblock_migratetype_def Let_def)
    have r: "relisted m (m\<lparr>pageblock_flags := g\<rparr>)" using zone_goodD(1)[OF assms(1)] by simp
    then have "zone_spanned (m\<lparr>pageblock_flags := g\<rparr>)" "zone_page (m\<lparr>pageblock_flags := g\<rparr>) p" "rep (m\<lparr>pageblock_flags := g\<rparr>)"
      using zone_goodD(3)[OF assms(1)] assms(2) zone_spanned_frame[OF same_zone_frame[OF same_zone_upd(2)]] by (auto simp: relisted_def)
    then show ?thesis unfolding g using move_block_correct[OF _ _ _ t] relisted_trans[OF r] by blast
  qed
  show "\<exists>r m'. set_migratetype_isolate z p m = Some (r, m') \<and> zone_good m' \<and> blocks m' = blocks m \<and> mem_map m' = mem_map m"
    using mv[of MIGRATE_ISOLATE] rel assms(1) by (auto simp: set_migratetype_isolate_def buddy_consts)
  show "\<exists>m'. unset_migratetype_isolate p m = Some m' \<and> zone_good m' \<and> blocks m' = blocks m \<and> mem_map m' = mem_map m"
    using mv[of MIGRATE_MOVABLE] rel assms(1) by (auto simp: unset_migratetype_isolate_def buddy_consts)
qed

section \<open>Concrete zones\<close>

definition busy_zone :: vm where
  "busy_zone = \<lparr>free_list = (\<lambda>_ _. []), nr_free = (\<lambda>_. 0), zone_id = 0, zone_start_pfn = 0, spanned_pages = 1024,
     all_unreclaimable = False, pages_scanned = 0, nr_free_pages = 0,
     mem_map = (\<lambda>p. if p < 1024 then Some \<lparr>PG_buddy = False, PG_head = False, PG_tail = False, page_zone = 0,
       punion = Private 2, lru_prev = 0\<rparr> else None),
     pageblock_flags = (\<lambda>_. 2), page_group_by_mobility_disabled = False\<rparr>"

lemma busy_zone_facts: "zone_good busy_zone" "counted busy_zone" "free_pages busy_zone = {}" "blocks busy_zone = {}"
proof -
  show b: "blocks busy_zone = {}" by (simp add: blocks_def busy_zone_def)
  then show f: "free_pages busy_zone = {}" by (simp add: free_pages_def block_simps)
  then show "counted busy_zone" by (simp add: counted_def) (simp add: busy_zone_def)
  have "rep_pages busy_zone" unfolding rep_pages_def b
    by (auto simp: block_simps zone_page_def busy_zone_def buddy_consts split: if_splits)
  moreover have "rep_lists busy_zone" by (simp add: rep_lists_def busy_zone_def)
  moreover have "zone_spanned busy_zone" by (auto simp: zone_spanned_def zone_page_def busy_zone_def)
  moreover have "blocks_ok (MAX_ORDER - 1) {}" by (simp add: blocks_ok_def)
  ultimately show "zone_good busy_zone"
    by (simp add: zone_good_def zone_inv_def rep_def b) (simp add: nr_ok_def busy_zone_def)
qed

lemma busy_freeable: "block_aligned p n \<Longrightarrow> n < MAX_ORDER \<Longrightarrow> p + 2 ^ n \<le> 1024 \<Longrightarrow> freeable busy_zone p n"
  using zone_goodD[OF busy_zone_facts(1)]
  by (auto simp: freeable_def hole_def busy_zone_facts block_simps plain_page_def PageCompound_def blk_def)
     (auto simp: busy_zone_def)

definition linked_zone :: vm where
  "linked_zone = link_block 0 10 MIGRATE_MOVABLE busy_zone\<lparr>nr_free := (nr_free busy_zone)(10 := nr_free busy_zone 10 + 1)\<rparr>"

definition free_zone :: vm where
  "free_zone = linked_zone\<lparr>all_unreclaimable := False, pages_scanned := 0, nr_free_pages := 1024\<rparr>"

lemma free_zone_facts: "zone_good free_zone" "counted free_zone" "free_pages free_zone = {0..<1024}"
  "free_list free_zone 10 MIGRATE_MOVABLE \<noteq> []"
proof -
  have a: "area_ok 10 MIGRATE_MOVABLE" by (simp add: area_ok_def buddy_consts)
  have f: "freeable busy_zone 0 10" by (rule busy_freeable) (simp_all add: block_aligned_def buddy_consts)
  note d = freeableD[OF f]
  have bl: "blocks linked_zone = {(0, 10)}" using blocks_link[OF a] by (simp add: linked_zone_def busy_zone_facts)
  have "rep linked_zone" unfolding linked_zone_def
    using rep_link[OF d(1) a _ d(4)] by (simp add: busy_zone_facts block_simps)
  moreover have "blocks_ok (MAX_ORDER - 1) (blocks linked_zone)"
    unfolding bl using blocks_ok_insert[OF d(2,3)] by (simp add: busy_zone_facts)
  moreover have "slack linked_zone = slack busy_zone"
    unfolding linked_zone_def using slack_link[OF a, of 0 busy_zone 1] by (auto simp: busy_zone_facts fun_eq_iff)
  moreover have "zone_frame busy_zone linked_zone"
    unfolding linked_zone_def
    by (rule same_zone_frame, rule same_zone_trans[OF same_zone_link(2) same_zone_upd(1)]) (simp add: busy_zone_def)
  ultimately have g: "zone_good linked_zone" by (rule_tac zone_goodI[OF busy_zone_facts(1)])
  then show "zone_good free_zone" by (simp add: free_zone_def)
  show fp: "free_pages free_zone = {0..<1024}" unfolding free_zone_def returnable_stat
    by (simp add: free_pages_def bl block_simps blk_def)
  show "counted free_zone" unfolding counted_def fp by (simp add: free_zone_def)
  show "free_list free_zone 10 MIGRATE_MOVABLE \<noteq> []" by (simp add: free_zone_def linked_zone_def link_block_def)
qed

theorem buddy_ledger_witness:
  "\<exists>m' L. foldM (ledger_step raw_rmqueue raw_free_one_page) [Alloc 3 0, Alloc 0 2, Release 0 3 2, Alloc 11 0] (free_zone, []) =
      Some (m', L) \<and> zone_inv m' \<and> disjoint_blocks L \<and> free_pages m' \<inter> pages_of (set L) = {} \<and>
      free_pages m' \<union> pages_of (set L) = {0..<1024}"
  using buddy_ledger[OF free_zone_facts(1), of "[Alloc 3 0, Alloc 0 2, Release 0 3 2, Alloc 11 0]"]
  unfolding free_zone_facts(3) by blast

theorem buddy_alloc_succeeds_witness:
  "\<exists>p m'. raw_rmqueue 3 MIGRATE_UNMOVABLE free_zone = Some (Some p, m') \<and> zone_inv m' \<and> block_aligned p 3 \<and>
     blk p 3 \<subseteq> {0..<1024} \<and> free_pages m' = {0..<1024} - blk p 3"
proof -
  have "\<exists>k t. 3 \<le> k \<and> k < MAX_ORDER \<and> t < MIGRATE_ISOLATE \<and> free_list free_zone k t \<noteq> []"
    using free_zone_facts(4) by (intro exI[of _ 10] exI[of _ MIGRATE_MOVABLE]) (simp add: buddy_consts)
  then show ?thesis
    using buddy_alloc_succeeds[OF free_zone_facts(1), of 3 MIGRATE_UNMOVABLE] unfolding free_zone_facts(3)
    by (simp add: buddy_consts del: One_nat_def) blast
qed

theorem buddy_free_correct_witness:
  "\<exists>m'. free_one_page 8 3 MIGRATE_MOVABLE busy_zone = Some m' \<and> zone_inv m' \<and> counted m' \<and> free_pages m' = {8..<16}"
proof -
  have "freeable busy_zone 8 3" by (rule busy_freeable) (simp_all add: block_aligned_def buddy_consts)
  then have "returnable busy_zone 8 3" by (simp add: returnable_def)
  from buddy_free_correct[OF busy_zone_facts(1,2) this, of MIGRATE_MOVABLE] show ?thesis
    by (simp add: busy_zone_facts blk_def buddy_consts)
qed

theorem rmqueue_bulk_correct_witness:
  "\<exists>qs m'. rmqueue_bulk 0 2 [] MIGRATE_MOVABLE False free_zone = Some (length qs, qs, m') \<and> length qs \<le> 2 \<and>
     zone_inv m' \<and> counted m' \<and> disjoint_blocks (of_order 0 qs) \<and>
     free_pages m' = {0..<1024} - pages_of (set (of_order 0 qs))"
  using rmqueue_bulk_correct[OF free_zone_facts(1,2), of 0 MIGRATE_MOVABLE "[]" 2 False]
  unfolding free_zone_facts(3) by (auto simp: buddy_consts)

theorem free_pcppages_bulk_correct_witness:
  "\<exists>pcp' m'. free_pcppages_bulk 2 [[], [], [5, 9, 7]] busy_zone = Some (pcp', m') \<and> zone_inv m' \<and> counted m' \<and>
     length (concat pcp') = 1 \<and> free_pages m' = {5, 7, 9} - set (concat pcp')"
proof -
  have f: "freeable busy_zone p 0 \<and> private_is busy_zone 2 p" if "p < 1024" for p
    using that busy_freeable[of p 0] by (simp add: block_aligned_def buddy_consts)
      (simp add: private_is_def busy_zone_def page_private_def)
  have "pcp_ok busy_zone [[], [], [5, 9, 7]]"
    using f[of 5] f[of 7] f[of 9] by (auto simp: pcp_ok_def buddy_consts intro!: exI[of _ 2])
  from free_pcppages_bulk_correct[OF busy_zone_facts(1,2) this, of 2] show ?thesis
    by (auto simp: busy_zone_facts)
qed

end
