(* ===== verification/Group_List.thy ===== *)
theory Group_List
  imports KPrelude "HOL-Library.Multiset"
begin

text \<open>
  Supplementary group lists, \<open>kernel/groups.c\<close>: the two-level array of group ids, its
  allocation, the copies from and to user memory, the Shell sort of a new list and the binary search
  that decides group membership. User memory is a partial function from the index of a group id,
  undefined where the access faults; page allocation, the capability test and the security hook are
  parameters. Reference counts are not modelled.
\<close>

type_synonym gid = "32 word"

definition NGROUPS_SMALL :: nat where "NGROUPS_SMALL = 32"
definition NGROUPS_PER_BLOCK :: nat where "NGROUPS_PER_BLOCK = 4096 div 4"
definition NGROUPS_MAX :: nat where "NGROUPS_MAX = 65536"
definition EPERM :: int where [errno_defs]: "EPERM = 1"

lemmas groups_consts = NGROUPS_SMALL_def NGROUPS_PER_BLOCK_def NGROUPS_MAX_def

record group_info =
  ngroups :: nat
  nblocks :: nat
  blocks :: "gid list list"

record cred =
  fsgid :: gid
  egid :: gid
  cred_groups :: group_info

definition GROUP_AT :: "group_info \<Rightarrow> nat \<Rightarrow> gid option" where
  "GROUP_AT gi i = do { b \<leftarrow> rd (blocks gi) (i div NGROUPS_PER_BLOCK); rd b (i mod NGROUPS_PER_BLOCK) }"

definition set_GROUP_AT :: "nat \<Rightarrow> gid \<Rightarrow> group_info \<Rightarrow> group_info option" where
  "set_GROUP_AT i v gi = do {
     b \<leftarrow> rd (blocks gi) (i div NGROUPS_PER_BLOCK);
     b \<leftarrow> wr b (i mod NGROUPS_PER_BLOCK) v;
     bs \<leftarrow> wr (blocks gi) (i div NGROUPS_PER_BLOCK) b;
     Some (gi\<lparr>blocks := bs\<rparr>) }"

section \<open>Allocation and user copies\<close>

text \<open>
  \<open>kmalloc_ok\<close> and \<open>page_ok i\<close> say whether the allocation of the structure and of its
  \<open>i\<close>-th page succeeds; \<open>junk\<close> is the content of fresh memory. The partial allocation
  that is undone on failure leaves nothing behind, so failure is the value \<open>None\<close> of the inner option.
\<close>

definition groups_alloc :: "bool \<Rightarrow> (nat \<Rightarrow> bool) \<Rightarrow> gid \<Rightarrow> nat \<Rightarrow> group_info option" where
  "groups_alloc kmalloc_ok page_ok junk gidsetsize =
     (let nb = (gidsetsize + NGROUPS_PER_BLOCK - 1) div NGROUPS_PER_BLOCK;
          nb = (if nb \<noteq> 0 then nb else 1)
      in if \<not> kmalloc_ok then None
         else if gidsetsize \<le> NGROUPS_SMALL
         then Some \<lparr>ngroups = gidsetsize, nblocks = nb, blocks = [replicate NGROUPS_SMALL junk]\<rparr>
         else if list_all page_ok [0..<nb]
         then Some \<lparr>ngroups = gidsetsize, nblocks = nb, blocks = replicate nb (replicate NGROUPS_PER_BLOCK junk)\<rparr>
         else None)"

text \<open>
  User memory is a partial map from positions to ids; a position outside it faults. A copy stops at the
  first fault and says so by \<open>False\<close>, with what it has copied until then in place. \<open>None\<close> is an access
  outside a kernel block, which would be a defect of the code.
\<close>

fun copy_from_user :: "gid list \<Rightarrow> (nat \<Rightarrow> gid option) \<Rightarrow> nat \<Rightarrow> nat \<Rightarrow> (bool \<times> gid list) option" where
  "copy_from_user b usr off 0 = Some (True, b)"
| "copy_from_user b usr off (Suc n) = do {
     (ok, b) \<leftarrow> copy_from_user b usr off n;
     case usr (off + n) of
       Some v \<Rightarrow> if ok then do { b \<leftarrow> wr b n v; Some (True, b) } else Some (False, b)
     | None \<Rightarrow> Some (False, b) }"

fun from_user_loop :: "nat list \<Rightarrow> nat \<Rightarrow> (nat \<Rightarrow> gid option) \<Rightarrow> nat \<Rightarrow> gid list list \<Rightarrow> (int \<times> gid list list) option" where
  "from_user_loop [] cnt usr off bs = Some (0, bs)"
| "from_user_loop (i # is) cnt usr off bs = do {
     let cp_count = min NGROUPS_PER_BLOCK cnt;
     b \<leftarrow> rd bs i;
     (ok, b) \<leftarrow> copy_from_user b usr off cp_count;
     if \<not> ok then Some (- EFAULT, bs[i := b])
     else from_user_loop is (cnt - cp_count) usr (off + NGROUPS_PER_BLOCK) (bs[i := b]) }"

definition groups_from_user :: "group_info \<Rightarrow> (nat \<Rightarrow> gid option) \<Rightarrow> (int \<times> group_info) option" where
  "groups_from_user gi usr = do {
     (r, bs) \<leftarrow> from_user_loop [0..<nblocks gi] (ngroups gi) usr 0 (blocks gi);
     Some (r, gi\<lparr>blocks := bs\<rparr>) }"

fun copy_to_user :: "(nat \<Rightarrow> gid option) \<Rightarrow> nat \<Rightarrow> gid list \<Rightarrow> nat \<Rightarrow> (bool \<times> (nat \<Rightarrow> gid option)) option" where
  "copy_to_user usr off b 0 = Some (True, usr)"
| "copy_to_user usr off b (Suc n) = do {
     (ok, usr) \<leftarrow> copy_to_user usr off b n;
     v \<leftarrow> rd b n;
     Some (if ok \<and> usr (off + n) \<noteq> None then (True, usr(off + n \<mapsto> v)) else (False, usr)) }"

fun to_user_loop :: "nat list \<Rightarrow> nat \<Rightarrow> (nat \<Rightarrow> gid option) \<Rightarrow> nat \<Rightarrow> gid list list \<Rightarrow> (int \<times> (nat \<Rightarrow> gid option)) option" where
  "to_user_loop [] cnt usr off bs = Some (0, usr)"
| "to_user_loop (i # is) cnt usr off bs = do {
     let cp_count = min NGROUPS_PER_BLOCK cnt;
     b \<leftarrow> rd bs i;
     (ok, usr) \<leftarrow> copy_to_user usr off b cp_count;
     if \<not> ok then Some (- EFAULT, usr)
     else to_user_loop is (cnt - cp_count) usr (off + NGROUPS_PER_BLOCK) bs }"

definition groups_to_user :: "(nat \<Rightarrow> gid option) \<Rightarrow> group_info \<Rightarrow> (int \<times> (nat \<Rightarrow> gid option)) option" where
  "groups_to_user usr gi = to_user_loop [0..<nblocks gi] (ngroups gi) usr 0 (blocks gi)"

section \<open>Sorting and searching\<close>

function first_stride :: "nat \<Rightarrow> nat \<Rightarrow> nat" where
  "first_stride stride gidsetsize =
     (if stride < gidsetsize then first_stride (3 * stride + 1) gidsetsize else stride)"
  by pat_completeness auto
termination by (relation "measure (\<lambda>(s, n). n - s)") auto
declare first_stride.simps [simp del]

text \<open>The inner loop moves larger elements up by one stride; \<open>left\<close> may become negative.\<close>

partial_function (option) sort_shift :: "gid \<Rightarrow> nat \<Rightarrow> int \<Rightarrow> nat \<Rightarrow> group_info \<Rightarrow> group_info option" where
  "sort_shift tmp stride left right gi =
     (if 0 \<le> left then do {
        v \<leftarrow> GROUP_AT gi (nat left);
        if v > tmp then do {
          gi \<leftarrow> set_GROUP_AT right v gi;
          sort_shift tmp stride (left - int stride) (nat left) gi }
        else set_GROUP_AT right tmp gi }
      else set_GROUP_AT right tmp gi)"
declare sort_shift.simps [code]

definition sort_base :: "nat \<Rightarrow> nat \<Rightarrow> group_info \<Rightarrow> group_info option" where
  "sort_base stride base gi = do {
     tmp \<leftarrow> GROUP_AT gi (base + stride);
     sort_shift tmp stride (int base) (base + stride) gi }"

function sort_strides :: "nat \<Rightarrow> group_info \<Rightarrow> group_info option" where
  "sort_strides stride gi =
     (if stride \<noteq> 0 then do {
        gi \<leftarrow> foldM (sort_base stride) [0..<ngroups gi - stride] gi;
        sort_strides (stride div 3) gi }
      else Some gi)"
  by pat_completeness auto
termination by (relation "measure fst") auto
declare sort_strides.simps [simp del]

definition groups_sort :: "group_info \<Rightarrow> group_info option" where
  "groups_sort gi = sort_strides (first_stride 1 (ngroups gi) div 3) gi"

text \<open>The difference of two group ids is computed modulo \<open>2 ^ 32\<close> and read as a signed number.\<close>

function search_loop :: "group_info \<Rightarrow> gid \<Rightarrow> nat \<Rightarrow> nat \<Rightarrow> int option" where
  "search_loop gi grp left right =
     (if left < right then do {
        let mid = (left + right) div 2;
        g \<leftarrow> GROUP_AT gi mid;
        let cmp = sint (grp - g);
        if cmp > 0 then search_loop gi grp (mid + 1) right
        else if cmp < 0 then search_loop gi grp left mid
        else Some 1 }
      else Some 0)"
  by pat_completeness auto
termination by (relation "measure (\<lambda>(_, _, l, r). r - l)") auto
declare search_loop.simps [simp del]

definition groups_search :: "group_info option \<Rightarrow> gid \<Rightarrow> int option" where
  "groups_search gi grp = (case gi of None \<Rightarrow> Some 0 | Some gi \<Rightarrow> search_loop gi grp 0 (ngroups gi))"

section \<open>Credentials and system calls\<close>

definition set_groups :: "int \<Rightarrow> cred \<Rightarrow> group_info \<Rightarrow> (int \<times> cred) option" where
  "set_groups security_retval new gi =
     (if security_retval \<noteq> 0 then Some (security_retval, new)
      else do { gi \<leftarrow> groups_sort gi; Some (0, new\<lparr>cred_groups := gi\<rparr>) })"

definition set_current_groups :: "bool \<Rightarrow> int \<Rightarrow> group_info \<Rightarrow> cred \<Rightarrow> (int \<times> cred) option" where
  "set_current_groups prepare_ok security_retval gi cur =
     (if \<not> prepare_ok then Some (- ENOMEM, cur)
      else do {
        (ret, new) \<leftarrow> set_groups security_retval cur gi;
        if ret < 0 then Some (ret, cur) else Some (0, new) })"

definition getgroups :: "int \<Rightarrow> (nat \<Rightarrow> gid option) \<Rightarrow> cred \<Rightarrow> (int \<times> (nat \<Rightarrow> gid option)) option" where
  "getgroups gidsetsize usr cur =
     (if gidsetsize < 0 then Some (- EINVAL, usr)
      else let i = int (ngroups (cred_groups cur))
           in if gidsetsize \<noteq> 0
              then if i > gidsetsize then Some (- EINVAL, usr)
                   else do {
                     (r, usr) \<leftarrow> groups_to_user usr (cred_groups cur);
                     Some (if r \<noteq> 0 then - EFAULT else i, usr) }
              else Some (i, usr))"

record groups_env =
  capable_setgid :: bool
  kmalloc_ok :: bool
  page_ok :: "nat \<Rightarrow> bool"
  prepare_ok :: bool
  security_retval :: int
  junk :: gid

definition setgroups :: "groups_env \<Rightarrow> u32 \<Rightarrow> (nat \<Rightarrow> gid option) \<Rightarrow> cred \<Rightarrow> (int \<times> cred) option" where
  "setgroups env gidsetsize usr cur =
     (if \<not> capable_setgid env then Some (- EPERM, cur)
      else if unat gidsetsize > NGROUPS_MAX then Some (- EINVAL, cur)
      else (case groups_alloc (kmalloc_ok env) (page_ok env) (junk env) (unat gidsetsize) of
         None \<Rightarrow> Some (- ENOMEM, cur)
       | Some gi \<Rightarrow> do {
           (retval, gi) \<leftarrow> groups_from_user gi usr;
           if retval \<noteq> 0 then Some (retval, cur)
           else set_current_groups (prepare_ok env) (security_retval env) gi cur }))"

definition in_group_p :: "gid \<Rightarrow> cred \<Rightarrow> int option" where
  "in_group_p grp cur = (if grp \<noteq> fsgid cur then groups_search (Some (cred_groups cur)) grp else Some 1)"

definition in_egroup_p :: "gid \<Rightarrow> cred \<Rightarrow> int option" where
  "in_egroup_p grp cur = (if grp \<noteq> egid cur then groups_search (Some (cred_groups cur)) grp else Some 1)"

section \<open>The flat view of a group list\<close>

definition flat :: "group_info \<Rightarrow> gid list" where
  "flat gi = take (ngroups gi) (concat (blocks gi))"

definition groups_wf :: "group_info \<Rightarrow> bool" where
  "groups_wf gi \<longleftrightarrow> length (blocks gi) = nblocks gi \<and>
     ((ngroups gi \<le> NGROUPS_SMALL \<and> (\<exists>b. blocks gi = [b] \<and> length b = NGROUPS_SMALL)) \<or>
      (NGROUPS_SMALL < ngroups gi \<and> (\<forall>b \<in> set (blocks gi). length b = NGROUPS_PER_BLOCK) \<and>
       ngroups gi \<le> NGROUPS_PER_BLOCK * nblocks gi))"

lemma concat_rows:
  assumes "\<forall>b \<in> set bs. length b = L" "0 < L"
  shows "length (concat bs) = L * length bs"
    "i < L * length bs \<Longrightarrow> concat bs ! i = bs ! (i div L) ! (i mod L)"
    "i < L * length bs \<Longrightarrow> concat (bs[i div L := (bs ! (i div L))[i mod L := v]]) = (concat bs)[i := v]"
  using assms
proof (induction bs arbitrary: i)
  case (Cons b bs)
  { case 1 then show ?case using Cons.IH(1) by simp }
  { case 2
    show ?case
    proof (cases "i < L")
      case False
      then have "i div L = Suc ((i - L) div L)" "i mod L = (i - L) mod L" using 2 by (simp_all add: le_div_geq le_mod_geq)
      then show ?thesis using 2 False Cons.IH(2)[of "i - L"] by (simp add: nth_append algebra_simps)
    qed (use 2 in \<open>simp add: nth_append\<close>) }
  { case 3
    show ?case
    proof (cases "i < L")
      case False
      then have "i div L = Suc ((i - L) div L)" "i mod L = (i - L) mod L" using 3 by (simp_all add: le_div_geq le_mod_geq)
      then show ?thesis using 3 False Cons.IH(3)[of "i - L"] by (simp add: list_update_append algebra_simps)
    qed (use 3 in \<open>simp add: list_update_append\<close>) }
qed simp_all

lemma length_flat: "groups_wf gi \<Longrightarrow> length (flat gi) = ngroups gi"
  by (auto simp: groups_wf_def flat_def groups_consts concat_rows(1)[where L = 1024])

lemma GROUP_AT_flat:
  assumes wf: "groups_wf gi" and i: "i < ngroups gi"
  shows "GROUP_AT gi i = Some (flat gi ! i)"
    "\<exists>gi'. set_GROUP_AT i v gi = Some gi' \<and> groups_wf gi' \<and> flat gi' = (flat gi)[i := v] \<and> ngroups gi' = ngroups gi"
proof -
  have L: "NGROUPS_PER_BLOCK = 1024" by (simp add: groups_consts)
  consider (small) b where "blocks gi = [b]" "length b = NGROUPS_SMALL" "ngroups gi \<le> NGROUPS_SMALL"
    | (big) "\<forall>b \<in> set (blocks gi). length b = 1024" "ngroups gi \<le> 1024 * length (blocks gi)"
    using wf by (auto simp: groups_wf_def L)
  then have "GROUP_AT gi i = Some (flat gi ! i) \<and>
    (\<exists>gi'. set_GROUP_AT i v gi = Some gi' \<and> groups_wf gi' \<and> flat gi' = (flat gi)[i := v] \<and> ngroups gi' = ngroups gi)"
  proof cases
    case small
    then have "i < length b" "i div 1024 = 0" "i mod 1024 = i" using i by (simp_all add: groups_consts)
    then show ?thesis using small i wf by (auto simp: GROUP_AT_def set_GROUP_AT_def flat_def L groups_wf_def take_update_swap)
  next
    case big
    have d: "i div 1024 < length (blocks gi)" "i mod 1024 < 1024" using big(2) i by (auto simp: div_less_iff_less_mult)
    have r: "\<forall>b \<in> set (blocks gi). length b = 1024" "i < 1024 * length (blocks gi)" using big i by auto
    have lb: "length (blocks gi ! (i div 1024)) = 1024" using big(1) d by simp
    have "set ((blocks gi)[i div 1024 := (blocks gi ! (i div 1024))[i mod 1024 := v]]) \<subseteq>
        insert ((blocks gi ! (i div 1024))[i mod 1024 := v]) (set (blocks gi))" by (rule set_update_subset_insert)
    then have "\<forall>b \<in> set ((blocks gi)[i div 1024 := (blocks gi ! (i div 1024))[i mod 1024 := v]]). length b = 1024"
      using big(1) lb by auto
    then have "groups_wf (gi\<lparr>blocks := (blocks gi)[i div 1024 := (blocks gi ! (i div 1024))[i mod 1024 := v]]\<rparr>)"
      using wf big(1) d by (auto simp: groups_wf_def L groups_consts)
    then show ?thesis using concat_rows(2,3)[OF r(1) _ r(2)] d lb i
      by (auto simp: GROUP_AT_def set_GROUP_AT_def flat_def L take_update_swap)
  qed
  then show "GROUP_AT gi i = Some (flat gi ! i)"
    "\<exists>gi'. set_GROUP_AT i v gi = Some gi' \<and> groups_wf gi' \<and> flat gi' = (flat gi)[i := v] \<and> ngroups gi' = ngroups gi"
    by auto
qed

section \<open>The sort\<close>

lemma mset_move:
  assumes "i < length xs" "j < length xs" "i \<noteq> j"
  shows "mset (xs[j := xs ! i, i := t]) = mset (xs[j := t])"
proof -
  have "xs[j := xs ! i, i := t] = (xs[j := t])[i := xs[j := t] ! j, j := xs[j := t] ! i]"
    using assms by (simp add: list_update_swap)
  moreover have "mset ((xs[j := t])[i := xs[j := t] ! j, j := xs[j := t] ! i]) = mset (xs[j := t])"
    by (rule mset_swap) (use assms in simp_all)
  ultimately show ?thesis by simp
qed

lemma sort_shift_perm:
  assumes "groups_wf gi" "right < ngroups gi" "left < int right" "0 < stride"
  shows "\<exists>gi'. sort_shift tmp stride left right gi = Some gi' \<and> groups_wf gi' \<and> ngroups gi' = ngroups gi \<and>
    mset (flat gi') = mset ((flat gi)[right := tmp])"
  using assms
proof (induction "nat (left + 1)" arbitrary: left right gi rule: less_induct)
  case less
  show ?case
  proof (cases "0 \<le> left \<and> flat gi ! nat left > tmp")
    case True
    have l: "nat left < ngroups gi" "nat left \<noteq> right" using less.prems True by auto
    obtain gi1 where g1: "set_GROUP_AT right (flat gi ! nat left) gi = Some gi1" "groups_wf gi1"
      "flat gi1 = (flat gi)[right := flat gi ! nat left]" "ngroups gi1 = ngroups gi"
      using GROUP_AT_flat(2)[OF less.prems(1,2)] by blast
    have step: "sort_shift tmp stride left right gi = sort_shift tmp stride (left - int stride) (nat left) gi1"
      using True l g1(1) GROUP_AT_flat(1)[OF less.prems(1) l(1)] by (subst sort_shift.simps) simp
    have "\<exists>gi'. sort_shift tmp stride (left - int stride) (nat left) gi1 = Some gi' \<and> groups_wf gi' \<and>
        ngroups gi' = ngroups gi1 \<and> mset (flat gi') = mset ((flat gi1)[nat left := tmp])"
      using less.prems True l g1 by (intro less.hyps) auto
    then show ?thesis using step g1 mset_move[of "nat left" "flat gi" right tmp] less.prems l
      by (simp add: length_flat)
  next
    case False
    then have "sort_shift tmp stride left right gi = set_GROUP_AT right tmp gi"
      using less.prems GROUP_AT_flat(1)[OF less.prems(1), of "nat left"] by (subst sort_shift.simps) auto
    then show ?thesis using GROUP_AT_flat(2)[OF less.prems(1,2)] by force
  qed
qed

lemma insort_snoc_greater: "x < y \<Longrightarrow> insort x (ys @ [y]) = insort x ys @ [y :: 'a :: linorder]"
  by (induction ys) auto

text \<open>With stride one the inner loop inserts into the sorted prefix.\<close>

lemma sort_shift_insort:
  assumes "groups_wf gi" "k < ngroups gi" "sorted (take k (flat gi))"
  shows "\<exists>gi'. sort_shift tmp 1 (int k - 1) k gi = Some gi' \<and> groups_wf gi' \<and> ngroups gi' = ngroups gi \<and>
    flat gi' = insort tmp (take k (flat gi)) @ drop (Suc k) (flat gi)"
  using assms
proof (induction k arbitrary: gi)
  case 0
  then show ?case using GROUP_AT_flat(2)[OF 0(1,2), of tmp] length_flat[OF 0(1)]
    by (subst sort_shift.simps) (auto simp: upd_conv_take_nth_drop)
next
  case (Suc k)
  let ?xs = "flat gi"
  have len: "k < length ?xs" "Suc k < length ?xs" "k < ngroups gi" using Suc.prems length_flat[OF Suc.prems(1)] by auto
  have tk: "take (Suc k) ?xs = take k ?xs @ [?xs ! k]" using len by (simp add: take_Suc_conv_app_nth)
  have srt: "sorted (take k ?xs)" "\<forall>x \<in> set (take k ?xs). x \<le> ?xs ! k"
    using Suc.prems(3) unfolding tk by (simp_all add: sorted_append)
  show ?case
  proof (cases "?xs ! k > tmp")
    case True
    obtain gi1 where g1: "set_GROUP_AT (Suc k) (?xs ! k) gi = Some gi1" "groups_wf gi1"
      "flat gi1 = ?xs[Suc k := ?xs ! k]" "ngroups gi1 = ngroups gi"
      using GROUP_AT_flat(2)[OF Suc.prems(1,2)] by blast
    have step: "sort_shift tmp 1 (int (Suc k) - 1) (Suc k) gi = sort_shift tmp 1 (int k - 1) k gi1"
      using True g1(1) GROUP_AT_flat(1)[OF Suc.prems(1) len(3)] by (subst sort_shift.simps) simp
    have s1: "sorted (take k (flat gi1))" "k < ngroups gi1" using srt g1 len by simp_all
    obtain gi' where g': "sort_shift tmp 1 (int k - 1) k gi1 = Some gi'" "groups_wf gi'" "ngroups gi' = ngroups gi1"
      "flat gi' = insort tmp (take k (flat gi1)) @ drop (Suc k) (flat gi1)"
      using Suc.IH[OF g1(2) s1(2,1)] by blast
    have "drop (Suc k) (flat gi1) = ?xs ! k # drop (Suc (Suc k)) ?xs"
      using g1(3) len by (simp add: Cons_nth_drop_Suc[symmetric])
    then have "flat gi' = insort tmp (take (Suc k) ?xs) @ drop (Suc (Suc k)) ?xs"
      using g'(4) g1(3) len insort_snoc_greater[OF True, of "take k ?xs"] unfolding tk by simp
    then show ?thesis using step g' g1(4) by simp
  next
    case False
    then have "sort_shift tmp 1 (int (Suc k) - 1) (Suc k) gi = set_GROUP_AT (Suc k) tmp gi"
      using GROUP_AT_flat(1)[OF Suc.prems(1) len(3)] by (subst sort_shift.simps) simp
    moreover have "insort tmp (take (Suc k) ?xs) = take (Suc k) ?xs @ [tmp]"
      using False Suc.prems(3) srt unfolding tk by (intro sorted_insort_is_snoc) auto
    ultimately show ?thesis using GROUP_AT_flat(2)[OF Suc.prems(1,2), of tmp] len
      by (auto simp: upd_conv_take_nth_drop)
  qed
qed

lemma stride_pass_perm:
  assumes "groups_wf gi" "0 < stride"
  shows "n \<le> ngroups gi - stride \<Longrightarrow> \<exists>gi'. foldM (sort_base stride) [0..<n] gi = Some gi' \<and> groups_wf gi' \<and>
    ngroups gi' = ngroups gi \<and> mset (flat gi') = mset (flat gi)"
proof (induction n)
  case 0
  then show ?case using assms by simp
next
  case (Suc n)
  then obtain g where g: "foldM (sort_base stride) [0..<n] gi = Some g" "groups_wf g" "ngroups g = ngroups gi"
    "mset (flat g) = mset (flat gi)" by auto
  have r: "n + stride < ngroups g" using Suc.prems g by simp
  obtain g' where "sort_shift (flat g ! (n + stride)) stride (int n) (n + stride) g = Some g'" "groups_wf g'"
    "ngroups g' = ngroups g" "mset (flat g') = mset ((flat g)[n + stride := flat g ! (n + stride)])"
    using sort_shift_perm[OF g(2) r, of "int n" stride "flat g ! (n + stride)"] assms(2) by auto
  moreover from this(1) have "sort_base stride n g = Some g'" using GROUP_AT_flat(1)[OF g(2) r] by (simp add: sort_base_def)
  ultimately show ?case using g by (simp add: foldM_append)
qed

lemma stride_one_sorts:
  assumes "groups_wf gi"
  shows "n < ngroups gi \<Longrightarrow> \<exists>gi'. foldM (sort_base 1) [0..<n] gi = Some gi' \<and> groups_wf gi' \<and>
    ngroups gi' = ngroups gi \<and> sorted (take (Suc n) (flat gi'))"
proof (induction n)
  case 0
  then show ?case using assms by (cases "flat gi") auto
next
  case (Suc n)
  then obtain g where g: "foldM (sort_base 1) [0..<n] gi = Some g" "groups_wf g" "ngroups g = ngroups gi"
    "sorted (take (Suc n) (flat g))" by auto
  have r: "Suc n < ngroups g" using Suc.prems g by simp
  obtain g' where g': "sort_shift (flat g ! Suc n) 1 (int (Suc n) - 1) (Suc n) g = Some g'" "groups_wf g'"
    "ngroups g' = ngroups g" "flat g' = insort (flat g ! Suc n) (take (Suc n) (flat g)) @ drop (Suc (Suc n)) (flat g)"
    using sort_shift_insort[OF g(2) r g(4)] by blast
  have "length (insort (flat g ! Suc n) (take (Suc n) (flat g))) = Suc (Suc n)"
    using r length_flat[OF g(2)] by simp
  then have "sorted (take (Suc (Suc n)) (flat g'))" unfolding g'(4) using g(4) by (simp add: sorted_insort)
  moreover have "sort_base 1 n g = Some g'" using g'(1) GROUP_AT_flat(1)[OF g(2) r] by (simp add: sort_base_def)
  ultimately show ?case using g g' by (simp add: foldM_append)
qed

text \<open>The strides are \<open>1, 4, 13, ...\<close>; dividing by three walks back through them to one.\<close>

inductive knuth :: "nat \<Rightarrow> bool" where
  "knuth 1"
| "knuth s \<Longrightarrow> knuth (3 * s + 1)"

lemma first_stride_knuth: "knuth s \<Longrightarrow> knuth (first_stride s n) \<and> n \<le> first_stride s n"
proof (induction s n rule: first_stride.induct)
  case (1 s n)
  then show ?case using knuth.intros(2)[of s] by (simp add: first_stride.simps[of s n])
qed

lemma knuth_div: "knuth s \<Longrightarrow> s = 1 \<or> knuth (s div 3)"
proof (induction rule: knuth.induct)
  case (2 s)
  have "(3 * s + 1) div 3 = s" by simp
  then show ?case using 2 by metis
qed simp

lemma strides_sort:
  assumes "knuth s" "groups_wf gi" "2 \<le> ngroups gi"
  shows "\<exists>gi'. sort_strides s gi = Some gi' \<and> groups_wf gi' \<and> ngroups gi' = ngroups gi \<and>
    mset (flat gi') = mset (flat gi) \<and> sorted (flat gi')"
  using assms
proof (induction s arbitrary: gi rule: less_induct)
  case (less s)
  have s: "0 < s" using less.prems(1) by (cases rule: knuth.cases) auto
  obtain g where g: "foldM (sort_base s) [0..<ngroups gi - s] gi = Some g" "groups_wf g" "ngroups g = ngroups gi"
    "mset (flat g) = mset (flat gi)"
    using stride_pass_perm[OF less.prems(2) s, of "ngroups gi - s"] by auto
  show ?case
  proof (cases "s = 1")
    case True
    have n: "ngroups gi - 1 < ngroups gi" "Suc (ngroups gi - 1) = ngroups gi" using less.prems(3) by auto
    have "sorted (take (ngroups gi) (flat g))" using stride_one_sorts[OF less.prems(2) n(1)] g(1) True n(2) by auto
    then have "sorted (flat g)" using length_flat[OF g(2)] g(3) by simp
    moreover have "sort_strides 0 g = Some g" by (subst sort_strides.simps) simp
    ultimately show ?thesis using g True by (subst sort_strides.simps) auto
  next
    case False
    then have k: "knuth (s div 3)" using knuth_div[OF less.prems(1)] by simp
    obtain g' where "sort_strides (s div 3) g = Some g'" "groups_wf g'" "ngroups g' = ngroups g"
      "mset (flat g') = mset (flat g)" "sorted (flat g')"
      using less.IH[OF _ k g(2)] g(3) less.prems(3) s by auto
    then show ?thesis using g s by (subst sort_strides.simps) auto
  qed
qed

lemma groups_sort_total:
  assumes "groups_wf gi"
  shows "\<exists>gi'. groups_sort gi = Some gi' \<and> groups_wf gi' \<and> ngroups gi' = ngroups gi \<and> flat gi' = sort (flat gi)"
proof (cases "ngroups gi \<le> 1")
  case True
  then have "first_stride 1 (ngroups gi) = 1" by (subst first_stride.simps) simp
  then have "groups_sort gi = Some gi" unfolding groups_sort_def by (subst sort_strides.simps) simp
  moreover have "sorted (flat gi)" using True length_flat[OF assms]
    by (cases "flat gi" rule: list.exhaust) (auto simp: length_Suc_conv le_Suc_eq)
  ultimately show ?thesis using assms by (auto simp: sorted_sort_id)
next
  case False
  have k: "knuth (first_stride 1 (ngroups gi))" "ngroups gi \<le> first_stride 1 (ngroups gi)"
    using first_stride_knuth[OF knuth.intros(1)] by auto
  then have "knuth (first_stride 1 (ngroups gi) div 3)" using knuth_div False by fastforce
  then obtain gi' where g: "groups_sort gi = Some gi'" "groups_wf gi'" "ngroups gi' = ngroups gi"
    "mset (flat gi') = mset (flat gi)" "sorted (flat gi')"
    using strides_sort[OF _ assms] False unfolding groups_sort_def by auto
  then have "flat gi' = sort (flat gi)" by (metis properties_for_sort)
  then show ?thesis using g by blast
qed

section \<open>The search\<close>

definition near :: "gid \<Rightarrow> gid \<Rightarrow> bool" where
  "near a b \<longleftrightarrow> \<bar>uint a - uint b\<bar> < 2 ^ 31"

lemma sint_diff: "near a b \<Longrightarrow> sint (a - b) = uint a - uint b"
proof -
  assume "near a b"
  then have "signed_take_bit 31 (uint a - uint b) = uint a - uint b"
    by (intro signed_take_bit_int_eq_self) (auto simp: near_def)
  moreover have "sint (a - b) = signed_take_bit 31 (uint a - uint b)"
    using signed_take_bit_take_bit[of 31 32 "uint a - uint b"]
    by (simp add: sint_uint uint_word_ariths take_bit_eq_mod)
  ultimately show ?thesis by simp
qed

lemma search_loop_correct:
  assumes wf: "groups_wf gi" and srt: "sorted (flat gi)" and nr: "\<forall>g \<in> set (flat gi). near grp g"
  shows "r \<le> ngroups gi \<Longrightarrow> \<forall>i < l. flat gi ! i < grp \<Longrightarrow> \<forall>i. r \<le> i \<and> i < ngroups gi \<longrightarrow> grp < flat gi ! i \<Longrightarrow>
    search_loop gi grp l r = Some (if grp \<in> set (flat gi) then 1 else 0)"
proof (induction "r - l" arbitrary: l r rule: less_induct)
  case less
  note len = length_flat[OF wf]
  show ?case
  proof (cases "l < r")
    case False
    have "grp \<notin> set (flat gi)"
    proof
      assume "grp \<in> set (flat gi)"
      then obtain i where "i < ngroups gi" "flat gi ! i = grp" using len by (auto simp: in_set_conv_nth)
      then show False using less.prems(2,3) False by (cases "i < l") (fastforce, metis le_trans less_irrefl not_le)
    qed
    then show ?thesis using False by (subst search_loop.simps) simp
  next
    case True
    let ?m = "(l + r) div 2"
    have m: "?m < ngroups gi" "l \<le> ?m" "?m < r" using True less.prems(1) by auto
    let ?g = "flat gi ! ?m"
    have gm: "?g \<in> set (flat gi)" using m(1) len by simp
    have cmp: "sint (grp - ?g) = uint grp - uint ?g" using nr gm sint_diff by blast
    have at: "GROUP_AT gi ?m = Some ?g" by (rule GROUP_AT_flat(1)[OF wf m(1)])
    consider "?g < grp" | "grp < ?g" | "grp = ?g" by fastforce
    then show ?thesis
    proof cases
      case 1
      then have c: "0 < sint (grp - ?g)" using cmp by (simp add: word_less_def)
      have lo: "\<forall>i < Suc ?m. flat gi ! i < grp"
        using 1 m(1) len le_less_trans[OF sorted_nth_mono[OF srt]] by (simp add: less_Suc_eq_le)
      have "search_loop gi grp (Suc ?m) r = Some (if grp \<in> set (flat gi) then 1 else 0)"
        using m by (intro less.hyps[OF _ less.prems(1) lo less.prems(3)]) simp
      then show ?thesis using True at c by (subst search_loop.simps) simp
    next
      case 2
      then have c: "sint (grp - ?g) < 0" using cmp by (simp add: word_less_def)
      have hi: "\<forall>i. ?m \<le> i \<and> i < ngroups gi \<longrightarrow> grp < flat gi ! i"
        using 2 len less_le_trans[OF _ sorted_nth_mono[OF srt]] by simp
      have "search_loop gi grp l ?m = Some (if grp \<in> set (flat gi) then 1 else 0)"
        using m by (intro less.hyps[OF _ _ less.prems(2) hi]) simp_all
      then show ?thesis using True at c by (subst search_loop.simps) simp
    next
      case 3
      then show ?thesis using True at gm by (subst search_loop.simps) simp
    qed
  qed
qed

lemma groups_search_correct:
  assumes "groups_wf gi" "sorted (flat gi)" "\<forall>g \<in> set (flat gi). near grp g"
  shows "groups_search (Some gi) grp = Some (if grp \<in> set (flat gi) then 1 else 0)"
  using search_loop_correct[OF assms, of "ngroups gi" 0] by (simp add: groups_search_def not_less[symmetric])

section \<open>User copies\<close>

lemma copy_from_user_eq:
  "n \<le> length b \<Longrightarrow> if \<forall>j < n. usr (off + j) \<noteq> None
    then copy_from_user b usr off n = Some (True, map (\<lambda>j. the (usr (off + j))) [0..<n] @ drop n b)
    else \<exists>b'. copy_from_user b usr off n = Some (False, b')"
proof (induction n)
  case (Suc n)
  have all: "(\<forall>j < Suc n. usr (off + j) \<noteq> None) \<longleftrightarrow> (\<forall>j < n. usr (off + j) \<noteq> None) \<and> usr (off + n) \<noteq> None"
    using less_Suc_eq by blast
  show ?case
  proof (cases "\<forall>j < n. usr (off + j) \<noteq> None")
    case True
    then have "copy_from_user b usr off n = Some (True, map (\<lambda>j. the (usr (off + j))) [0..<n] @ drop n b)" using Suc by simp
    then show ?thesis unfolding all using True Suc.prems
      by (cases "usr (off + n)") (simp_all add: list_update_append Cons_nth_drop_Suc[symmetric])
  next
    case False
    then have "\<exists>b'. copy_from_user b usr off n = Some (False, b')" using Suc.IH Suc.prems by (simp only: if_False)
    then obtain b' where "copy_from_user b usr off n = Some (False, b')" ..
    then show ?thesis unfolding all using False by (cases "usr (off + n)") simp_all
  qed
qed simp

lemma copy_to_user_eq:
  "n \<le> length b \<Longrightarrow> \<forall>j < n. usr (off + j) \<noteq> None \<Longrightarrow>
    copy_to_user usr off b n = Some (True, \<lambda>k. if off \<le> k \<and> k < off + n then Some (b ! (k - off)) else usr k)"
proof (induction n)
  case (Suc n)
  then obtain v where "usr (off + n) = Some v" by fastforce
  then show ?case using Suc by (auto simp: less_Suc_eq fun_eq_iff)
qed (auto simp: fun_eq_iff)

definition user_list :: "(nat \<Rightarrow> gid option) \<Rightarrow> nat \<Rightarrow> nat \<Rightarrow> gid list" where
  "user_list usr off n = map (\<lambda>j. the (usr (off + j))) [0..<n]"

definition readable :: "(nat \<Rightarrow> gid option) \<Rightarrow> nat \<Rightarrow> nat \<Rightarrow> bool" where
  "readable usr off n \<longleftrightarrow> (\<forall>j < n. usr (off + j) \<noteq> None)"

lemma user_list_split: "k \<le> n \<Longrightarrow> user_list usr off n = user_list usr off k @ user_list usr (off + k) (n - k)"
  by (rule nth_equalityI) (auto simp: user_list_def nth_append)

lemma readable_split: "k \<le> n \<Longrightarrow> readable usr off n \<longleftrightarrow> readable usr off k \<and> readable usr (off + k) (n - k)"
proof -
  assume k: "k \<le> n"
  have "usr (off + j) \<noteq> None" if "readable usr off k" "readable usr (off + k) (n - k)" "j < n" for j
  proof (cases "j < k")
    case False
    then have "off + j = off + k + (j - k)" "j - k < n - k" using that(3) by auto
    then show ?thesis using that(2) unfolding readable_def by metis
  qed (use that in \<open>auto simp: readable_def\<close>)
  then show ?thesis using k by (auto simp: readable_def add.assoc)
qed

lemma from_user_rows:
  assumes "\<forall>b \<in> set bs. length b = 1024" "i \<le> length bs" "cnt \<le> 1024 * (length bs - i)"
  shows "if readable usr (1024 * i) cnt
    then \<exists>bs'. from_user_loop [i..<length bs] cnt usr (1024 * i) bs = Some (0, bs') \<and> length bs' = length bs \<and>
      (\<forall>b \<in> set bs'. length b = 1024) \<and> take i bs' = take i bs \<and>
      concat (drop i bs') = user_list usr (1024 * i) cnt @ drop cnt (concat (drop i bs))
    else \<exists>bs'. from_user_loop [i..<length bs] cnt usr (1024 * i) bs = Some (- EFAULT, bs')"
  using assms
proof (induction "length bs - i" arbitrary: i bs cnt)
  case 0
  then show ?case by (simp add: user_list_def readable_def)
next
  case (Suc d)
  have i: "i < length bs" using Suc.hyps(2) by simp
  have b: "length (bs ! i) = 1024" using Suc.prems(1) i by simp
  let ?c = "min 1024 cnt"
  let ?b = "user_list usr (1024 * i) ?c @ drop ?c (bs ! i)"
  let ?bs = "bs[i := ?b]"
  have sp: "readable usr (1024 * i) cnt \<longleftrightarrow> readable usr (1024 * i) ?c \<and> readable usr (1024 * Suc i) (cnt - ?c)"
  proof (cases "cnt \<le> 1024")
    case False
    then show ?thesis using readable_split[of 1024 cnt usr "1024 * i"] by (simp add: algebra_simps)
  qed (simp add: readable_def)
  have step: "if readable usr (1024 * i) ?c
      then from_user_loop [i..<length bs] cnt usr (1024 * i) bs = from_user_loop [Suc i..<length ?bs] (cnt - ?c) usr (1024 * Suc i) ?bs
      else \<exists>bs'. from_user_loop [i..<length bs] cnt usr (1024 * i) bs = Some (- EFAULT, bs')"
  proof -
    have c: "if readable usr (1024 * i) ?c then copy_from_user (bs ! i) usr (1024 * i) ?c = Some (True, ?b)
        else \<exists>b'. copy_from_user (bs ! i) usr (1024 * i) ?c = Some (False, b')"
      using b copy_from_user_eq[of ?c "bs ! i" usr "1024 * i"] unfolding readable_def user_list_def by simp
    show ?thesis
    proof (cases "readable usr (1024 * i) ?c")
      case True
      then show ?thesis using c i by (simp add: upt_conv_Cons[OF i] Let_def NGROUPS_PER_BLOCK_def add.commute)
    next
      case False
      then obtain b' where "copy_from_user (bs ! i) usr (1024 * i) ?c = Some (False, b')" using c by auto
      then show ?thesis using False i by (simp add: upt_conv_Cons[OF i] Let_def NGROUPS_PER_BLOCK_def)
    qed
  qed
  have lb: "length ?b = 1024" using b by (simp add: user_list_def)
  have P: "\<forall>b \<in> set ?bs. length b = 1024"
    using Suc.prems(1) lb set_update_subset_insert[of bs i ?b] by blast
  have "d = length ?bs - Suc i" "Suc i \<le> length ?bs" "cnt - ?c \<le> 1024 * (length ?bs - Suc i)"
    using Suc.hyps(2) i Suc.prems(3) by auto
  note IH = Suc.hyps(1)[OF this(1) P this(2,3)]
  show ?case
  proof (cases "readable usr (1024 * i) cnt")
    case True
    then obtain bs' where r: "from_user_loop [i..<length bs] cnt usr (1024 * i) bs = Some (0, bs')" "length bs' = length ?bs"
      "\<forall>b \<in> set bs'. length b = 1024" "take (Suc i) bs' = take (Suc i) ?bs"
      "concat (drop (Suc i) bs') = user_list usr (1024 * Suc i) (cnt - ?c) @ drop (cnt - ?c) (concat (drop (Suc i) ?bs))"
      using IH step sp by auto
    have "bs' ! i = take (Suc i) bs' ! i" "take i bs' = take i (take (Suc i) bs')" by (simp_all add: min_def)
    then have bi: "bs' ! i = ?b" "take i bs' = take i bs" using i unfolding r(4) by (simp_all add: min_def)
    have "concat (drop i bs') = ?b @ concat (drop (Suc i) bs')"
      using i r(2) bi(1) by (simp add: Cons_nth_drop_Suc[symmetric])
    also have "\<dots> = user_list usr (1024 * i) cnt @ drop cnt (concat (drop i bs))"
    proof (cases "cnt \<le> 1024")
      case True
      then show ?thesis using i b r(5) by (simp add: Cons_nth_drop_Suc[symmetric] user_list_def min_def)
    next
      case False
      then show ?thesis using i b r(5) user_list_split[of 1024 cnt usr "1024 * i"]
        by (simp add: Cons_nth_drop_Suc[symmetric] min_def algebra_simps)
    qed
    finally show ?thesis using True r bi(2) by auto
  next
    case False
    then show ?thesis using IH step sp by (cases "readable usr (1024 * i) ?c") simp_all
  qed
qed

lemma to_user_rows:
  assumes "\<forall>b \<in> set bs. length b = 1024" "i \<le> length bs" "cnt \<le> 1024 * (length bs - i)"
  shows "readable usr (1024 * i) cnt \<Longrightarrow> to_user_loop [i..<length bs] cnt usr (1024 * i) bs =
    Some (0, \<lambda>k. if 1024 * i \<le> k \<and> k < 1024 * i + cnt then Some (concat bs ! k) else usr k)"
  using assms(2,3)
proof (induction "length bs - i" arbitrary: i cnt usr)
  case 0
  then show ?case by (auto simp: fun_eq_iff)
next
  case (Suc d)
  have i: "i < length bs" using Suc.hyps(2) by simp
  have b: "length (bs ! i) = 1024" using assms(1) i by simp
  let ?c = "min 1024 cnt"
  let ?u = "\<lambda>k. if 1024 * i \<le> k \<and> k < 1024 * i + ?c then Some (bs ! i ! (k - 1024 * i)) else usr k"
  have rd: "readable usr (1024 * i) ?c" using Suc.prems(1) by (simp add: readable_def)
  have ru: "readable ?u (1024 * Suc i) (cnt - ?c)"
    using Suc.prems(1) readable_split[of 1024 cnt usr "1024 * i"] by (cases "cnt \<le> 1024") (auto simp: readable_def algebra_simps)
  have "d = length bs - Suc i" "Suc i \<le> length bs" "cnt - ?c \<le> 1024 * (length bs - Suc i)"
    using Suc.hyps(2) i Suc.prems(3) by auto
  note IH = Suc.hyps(1)[OF this(1) ru this(2,3)]
  have nth: "bs ! i ! (k - 1024 * i) = concat bs ! k" if "1024 * i \<le> k" "k < 1024 * i + 1024" for k
  proof -
    have "k < 1024 * length bs" using that i by linarith
    moreover have "k div 1024 = i" "k mod 1024 = k - 1024 * i" using that
      by (auto simp: div_nat_eqI modulo_nat_def)
    ultimately show ?thesis using concat_rows(2)[OF assms(1)] by simp
  qed
  have "to_user_loop [i..<length bs] cnt usr (1024 * i) bs = to_user_loop [Suc i..<length bs] (cnt - ?c) ?u (1024 * Suc i) bs"
    using i b rd copy_to_user_eq[of ?c "bs ! i" usr "1024 * i"]
    by (simp add: upt_conv_Cons[OF i] Let_def NGROUPS_PER_BLOCK_def readable_def algebra_simps)
  then show ?case unfolding IH using nth by (auto simp: fun_eq_iff)
qed

section \<open>The system calls\<close>

lemma groups_alloc_wf:
  assumes "groups_alloc k pk jk n = Some gi"
  shows "groups_wf gi" "ngroups gi = n"
proof -
  have "n \<le> 1024 * ((n + 1023) div 1024)" by linarith
  moreover have "(n + 1023) div 1024 \<le> 1" if "n \<le> 32" using that by linarith
  ultimately show "groups_wf gi" using assms
    by (auto simp: groups_alloc_def groups_wf_def groups_consts Let_def split: if_splits)
  show "ngroups gi = n" using assms by (auto simp: groups_alloc_def Let_def split: if_splits)
qed

lemma groups_wf_cases:
  assumes "groups_wf gi"
  obtains (small) b where "blocks gi = [b]" "length b = 32" "ngroups gi \<le> 32" "nblocks gi = 1"
  | (big) "32 < ngroups gi" "\<forall>b \<in> set (blocks gi). length b = 1024" "ngroups gi \<le> 1024 * length (blocks gi)"
      "nblocks gi = length (blocks gi)"
proof (cases "ngroups gi \<le> 32")
  case True
  then obtain b where "blocks gi = [b]" "length b = 32" "nblocks gi = 1"
    using assms by (auto simp: groups_wf_def groups_consts)
  then show thesis using True by (intro small)
next
  case False
  then show thesis using assms by (intro big) (simp_all add: groups_wf_def groups_consts)
qed

lemma groups_from_user_correct:
  assumes "groups_wf gi"
  shows "if readable usr 0 (ngroups gi)
    then \<exists>gi'. groups_from_user gi usr = Some (0, gi') \<and> groups_wf gi' \<and> ngroups gi' = ngroups gi \<and>
      flat gi' = user_list usr 0 (ngroups gi)
    else \<exists>gi'. groups_from_user gi usr = Some (- EFAULT, gi')"
  using assms
proof (cases rule: groups_wf_cases)
  case (small b)
  have c: "if readable usr 0 (ngroups gi) then copy_from_user b usr 0 (ngroups gi) = Some (True, user_list usr 0 (ngroups gi) @ drop (ngroups gi) b)
      else \<exists>b'. copy_from_user b usr 0 (ngroups gi) = Some (False, b')"
    using copy_from_user_eq[of "ngroups gi" b usr 0] small unfolding readable_def user_list_def by simp
  show ?thesis
  proof (cases "readable usr 0 (ngroups gi)")
    case True
    then have "groups_from_user gi usr = Some (0, gi\<lparr>blocks := [user_list usr 0 (ngroups gi) @ drop (ngroups gi) b]\<rparr>)"
      using c small by (simp add: groups_from_user_def Let_def groups_consts min_def)
    then show ?thesis using True small by (auto simp: groups_wf_def flat_def groups_consts user_list_def)
  next
    case False
    then obtain b' where "copy_from_user b usr 0 (ngroups gi) = Some (False, b')" using c by auto
    then show ?thesis using False small by (simp add: groups_from_user_def Let_def groups_consts min_def)
  qed
next
  case big
  have n: "ngroups gi \<le> 1024 * (length (blocks gi) - 0)" using big by simp
  note rows = from_user_rows[OF big(2) le0 n, of usr]
  show ?thesis
  proof (cases "readable usr 0 (ngroups gi)")
    case True
    then obtain bs where bs: "from_user_loop [0..<length (blocks gi)] (ngroups gi) usr 0 (blocks gi) = Some (0, bs)"
      "length bs = length (blocks gi)" "\<forall>b \<in> set bs. length b = 1024"
      "concat bs = user_list usr 0 (ngroups gi) @ drop (ngroups gi) (concat (blocks gi))"
      using rows by auto
    then have "groups_from_user gi usr = Some (0, gi\<lparr>blocks := bs\<rparr>)" using big(4) by (simp add: groups_from_user_def)
    moreover have "groups_wf (gi\<lparr>blocks := bs\<rparr>)" using bs big by (simp add: groups_wf_def groups_consts)
    moreover have "flat (gi\<lparr>blocks := bs\<rparr>) = user_list usr 0 (ngroups gi)"
      by (simp add: flat_def bs(4)) (simp add: user_list_def)
    ultimately show ?thesis using True by auto
  next
    case False
    then show ?thesis using rows big(4) by (auto simp: groups_from_user_def)
  qed
qed

lemma groups_to_user_correct:
  assumes "groups_wf gi" "readable usr 0 (ngroups gi)"
  shows "groups_to_user usr gi = Some (0, \<lambda>k. if k < ngroups gi then Some (flat gi ! k) else usr k)"
  using assms(1)
proof (cases rule: groups_wf_cases)
  case (small b)
  then show ?thesis using assms(2) copy_to_user_eq[of "ngroups gi" b usr 0]
    by (auto simp: groups_to_user_def flat_def Let_def groups_consts readable_def min_def fun_eq_iff)
next
  case big
  have n: "ngroups gi \<le> 1024 * (length (blocks gi) - 0)" using big by simp
  have "(\<lambda>k. if 1024 * 0 \<le> k \<and> k < 1024 * 0 + ngroups gi then Some (concat (blocks gi) ! k) else usr k) =
      (\<lambda>k. if k < ngroups gi then Some (flat gi ! k) else usr k)"
    by (auto simp: flat_def)
  then show ?thesis using to_user_rows[OF big(2) le0 n, of usr] assms(2) big(4) by (simp add: groups_to_user_def)
qed

text \<open>
  What \<open>setgroups\<close> needs of the system. Up to 32 ids fit in the structure itself; a longer list takes one
  page for each block of ids that it reaches.
\<close>

definition memory_for :: "groups_env \<Rightarrow> nat \<Rightarrow> bool" where
  "memory_for env n \<longleftrightarrow> kmalloc_ok env \<and> (n \<le> 32 \<or> (\<forall>i. 1024 * i < n \<longrightarrow> page_ok env i))"

definition setgroups_answer :: "groups_env \<Rightarrow> nat \<Rightarrow> (nat \<Rightarrow> gid option) \<Rightarrow> int" where
  "setgroups_answer env n usr =
     (if \<not> capable_setgid env then - EPERM
      else if NGROUPS_MAX < n then - EINVAL
      else if \<not> memory_for env n then - ENOMEM
      else if \<not> readable usr 0 n then - EFAULT
      else if \<not> prepare_ok env then - ENOMEM
      else security_retval env)"

lemma groups_alloc_None: "groups_alloc (kmalloc_ok env) (page_ok env) (junk env) n = None \<longleftrightarrow> \<not> memory_for env n"
proof (cases "n \<le> 32")
  case True
  then show ?thesis by (simp add: groups_alloc_def memory_for_def groups_consts Let_def)
next
  case False
  have "1024 * i < n \<longleftrightarrow> i < (n + 1023) div 1024" for i by linarith
  then have "(\<forall>i. 1024 * i < n \<longrightarrow> page_ok env i) \<longleftrightarrow> list_all (page_ok env) [0..<(n + 1023) div 1024]"
    by (auto simp: list_all_iff)
  moreover have "(n + 1023) div 1024 \<noteq> 0" using False by simp
  ultimately show ?thesis using False by (simp add: groups_alloc_def memory_for_def groups_consts Let_def add.commute)
qed

lemma setgroups_cases:
  assumes "security_retval env \<le> 0"
  obtains (success) gi where "setgroups_answer env (unat sz) usr = 0" "setgroups env sz usr cur = Some (0, cur\<lparr>cred_groups := gi\<rparr>)"
      "groups_wf gi" "ngroups gi = unat sz" "flat gi = sort (user_list usr 0 (unat sz))"
  | (failure) "setgroups_answer env (unat sz) usr < 0" "setgroups env sz usr cur = Some (setgroups_answer env (unat sz) usr, cur)"
proof (cases "\<not> capable_setgid env \<or> NGROUPS_MAX < unat sz \<or> \<not> memory_for env (unat sz)")
  case True
  then show thesis using groups_alloc_None[of env "unat sz"]
    by (intro failure) (auto simp: setgroups_def setgroups_answer_def errno_defs)
next
  case False
  then obtain gi where gi: "groups_alloc (kmalloc_ok env) (page_ok env) (junk env) (unat sz) = Some gi"
    using groups_alloc_None[of env "unat sz"] by auto
  note wf = groups_alloc_wf[OF gi]
  note fu = groups_from_user_correct[OF wf(1), of usr, unfolded wf(2)]
  have run: "setgroups env sz usr cur = do {
      (retval, gi) \<leftarrow> groups_from_user gi usr;
      if retval \<noteq> 0 then Some (retval, cur) else set_current_groups (prepare_ok env) (security_retval env) gi cur }"
    using False gi by (simp add: setgroups_def)
  show thesis
  proof (cases "readable usr 0 (unat sz)")
    case True
    then obtain gi1 where g1: "groups_from_user gi usr = Some (0, gi1)" "groups_wf gi1" "ngroups gi1 = unat sz"
        "flat gi1 = user_list usr 0 (unat sz)" using fu by auto
    obtain gi2 where g2: "groups_sort gi1 = Some gi2" "groups_wf gi2" "ngroups gi2 = ngroups gi1" "flat gi2 = sort (flat gi1)"
      using groups_sort_total[OF g1(2)] by blast
    show thesis
    proof (cases "prepare_ok env \<and> security_retval env = 0")
      case yes: True
      then show thesis using success[of gi2] g1 g2 run False True
        by (simp add: setgroups_answer_def set_current_groups_def set_groups_def)
    next
      case no: False
      then show thesis using failure g1(1) run False True assms
        by (auto simp: setgroups_answer_def set_current_groups_def set_groups_def errno_defs)
    qed
  next
    case unreadable: False
    then show thesis using failure fu run False by (auto simp: setgroups_answer_def errno_defs)
  qed
qed

text \<open>
  C6: \<open>setgroups\<close> is all or nothing, given a security hook that answers 0 or a negative error. It always
  completes. Its answer is, in this order of precedence: \<open>EPERM\<close> without the capability, \<open>EINVAL\<close> for a
  size above the limit, \<open>ENOMEM\<close> when the structure or one of the pages for the list cannot be
  allocated, \<open>EFAULT\<close> when some id of the list cannot be read, \<open>ENOMEM\<close> when the new credentials cannot
  be allocated, else the answer of the hook. When that is 0 the new group list is the sorted list
  of the caller and the rest of the credentials is as before; in every other case the credentials
  are unchanged.
\<close>

theorem setgroups_atomic:
  assumes "security_retval env \<le> 0"
  shows "\<exists>r cur'. setgroups env sz usr cur = Some (r, cur') \<and>
    r = (if \<not> capable_setgid env then - EPERM
      else if NGROUPS_MAX < unat sz then - EINVAL
      else if \<not> (kmalloc_ok env \<and> (unat sz \<le> 32 \<or> (\<forall>i. 1024 * i < unat sz \<longrightarrow> page_ok env i))) then - ENOMEM
      else if \<exists>i < unat sz. usr i = None then - EFAULT
      else if \<not> prepare_ok env then - ENOMEM
      else security_retval env) \<and>
    (if r = 0
     then groups_wf (cred_groups cur') \<and> flat (cred_groups cur') = sort (map (\<lambda>i. the (usr i)) [0..<unat sz]) \<and>
       fsgid cur' = fsgid cur \<and> egid cur' = egid cur
     else cur' = cur)"
proof -
  have e: "(\<exists>i < unat sz. usr i = None) \<longleftrightarrow> \<not> readable usr 0 (unat sz)"
    "map (\<lambda>i. the (usr i)) [0..<unat sz] = user_list usr 0 (unat sz)" by (auto simp: readable_def user_list_def)
  from assms show ?thesis unfolding e memory_for_def[symmetric] setgroups_answer_def[symmetric]
    by (cases rule: setgroups_cases[of env sz usr cur]) auto
qed

text \<open>
  C19: After a successful \<open>setgroups\<close>, \<open>getgroups\<close> with a large enough buffer returns
  the sorted list, and \<open>in_group_p\<close> holds of exactly the file system group and the groups of
  the list, for every group id that differs from the listed ones by less than \<open>2 ^ 31\<close>.
\<close>

theorem setgroups_roundtrip:
  assumes "security_retval env \<le> 0" "setgroups env sz usr cur = Some (0, cur')"
    and "int (unat sz) \<le> len" "0 < len" "readable out 0 (unat sz)" "\<forall>g \<in> set (user_list usr 0 (unat sz)). near grp g"
  shows "\<exists>out'. getgroups len out cur' = Some (int (unat sz), out') \<and>
      user_list out' 0 (unat sz) = sort (user_list usr 0 (unat sz)) \<and>
      in_group_p grp cur' = Some (if grp = fsgid cur \<or> grp \<in> set (user_list usr 0 (unat sz)) then 1 else 0)"
  using assms(1)
proof (cases rule: setgroups_cases[of env sz usr cur])
  case (success gi)
  then have c: "cur' = cur\<lparr>cred_groups := gi\<rparr>" using assms(2) by simp
  let ?out = "\<lambda>k. if k < ngroups gi then Some (flat gi ! k) else out k"
  have "groups_to_user out gi = Some (0, ?out)" using groups_to_user_correct[OF success(3)] assms(5) success(4) by simp
  then have "getgroups len out cur' = Some (int (unat sz), ?out)" using assms(3,4) success(4) by (simp add: getgroups_def c)
  moreover have "user_list ?out 0 (unat sz) = flat gi"
    using length_flat[OF success(3)] success(4) by (auto simp: user_list_def intro!: nth_equalityI)
  moreover have "groups_search (Some gi) grp = Some (if grp \<in> set (flat gi) then 1 else 0)"
    using groups_search_correct[OF success(3)] success(5) assms(6) by simp
  ultimately show ?thesis using success(5) by (auto simp: in_group_p_def c)
qed (use assms(2) in simp)

text \<open>
  The bound cannot be dropped: the search compares by the sign of a 32-bit difference while the sort
  uses the unsigned order, so a member of a sorted list can be missed.
\<close>

definition far_groups :: group_info where
  "far_groups = \<lparr>ngroups = 3, nblocks = 1, blocks = [[0, 1, 0x90000000] @ replicate 29 0]\<rparr>"

lemma groups_search_misses:
  "groups_wf far_groups \<and> sorted (flat far_groups) \<and> 0x90000000 \<in> set (flat far_groups) \<and>
   groups_search (Some far_groups) 0x90000000 = Some 0"
proof -
  have at: "GROUP_AT far_groups 0 = Some 0" "GROUP_AT far_groups 1 = Some 1"
    by (simp_all add: GROUP_AT_def far_groups_def groups_consts)
  have neg: "sint (0x90000000 - 0 :: gid) < 0" "sint (0x90000000 - 1 :: gid) < 0" by simp_all
  have "search_loop far_groups 0x90000000 0 3 = search_loop far_groups 0x90000000 0 1"
    using at neg by (subst search_loop.simps) simp
  also have "\<dots> = search_loop far_groups 0x90000000 0 0"
    using at neg by (subst search_loop.simps) simp
  also have "\<dots> = Some 0" by (subst search_loop.simps) simp
  finally have "groups_search (Some far_groups) 0x90000000 = Some 0" by (simp add: groups_search_def) (simp add: far_groups_def)
  then show ?thesis by (simp add: far_groups_def groups_wf_def flat_def groups_consts)
qed

definition open_env :: groups_env where
  "open_env = \<lparr>capable_setgid = True, kmalloc_ok = True, page_ok = (\<lambda>_. True), prepare_ok = True, security_retval = 0, junk = 0\<rparr>"

definition two_groups :: "nat \<Rightarrow> gid option" where
  "two_groups k = (if k = 0 then Some 9 else if k = 1 then Some 5 else None)"

definition plain_cred :: cred where
  "plain_cred = \<lparr>fsgid = 1, egid = 1, cred_groups = \<lparr>ngroups = 0, nblocks = 1, blocks = [replicate 32 0]\<rparr>\<rparr>"

lemma open_env_facts: "setgroups_answer open_env (unat (2 :: u32)) two_groups = 0" "security_retval open_env \<le> 0"
  "user_list two_groups 0 (unat (2 :: u32)) = [9, 5]" "readable two_groups 0 (unat (2 :: u32))"
proof -
  have two: "unat (2 :: u32) = 2" by simp
  show "user_list two_groups 0 (unat (2 :: u32)) = [9, 5]"
    unfolding two by (simp add: user_list_def two_groups_def upt_rec)
  show r: "readable two_groups 0 (unat (2 :: u32))" unfolding two
    by (auto simp: readable_def two_groups_def less_2_cases_iff)
  show "security_retval open_env \<le> 0" by (simp add: open_env_def)
  show "setgroups_answer open_env (unat (2 :: u32)) two_groups = 0"
    using r by (simp add: setgroups_answer_def memory_for_def open_env_def groups_consts)
qed

theorem setgroups_atomic_witness:
  "(\<exists>cur'. setgroups open_env 2 two_groups plain_cred = Some (0, cur') \<and> flat (cred_groups cur') = [5, 9]) \<and>
   setgroups open_env 3 two_groups plain_cred = Some (- EFAULT, plain_cred)"
proof -
  have s: "sort (map (\<lambda>i. the (two_groups i)) [0..<unat (2 :: u32)]) = [5, 9]" by (simp add: two_groups_def upt_rec)
  have "two_groups 2 = None" "(2 :: nat) < unat (3 :: u32)" by (simp_all add: two_groups_def)
  then have "\<exists>i < unat (3 :: u32). two_groups i = None" by blast
  then show ?thesis
    using setgroups_atomic[OF open_env_facts(2), of 2 two_groups plain_cred] s
      setgroups_atomic[OF open_env_facts(2), of 3 two_groups plain_cred]
    by (auto simp: open_env_def groups_consts errno_defs two_groups_def less_2_cases_iff)
qed

theorem setgroups_roundtrip_witness:
  "\<exists>cur' out'. setgroups open_env 2 two_groups plain_cred = Some (0, cur') \<and> getgroups 2 two_groups cur' = Some (2, out') \<and>
     user_list out' 0 2 = [5, 9] \<and> in_group_p 9 cur' = Some 1"
proof -
  obtain cur' where c: "setgroups open_env 2 two_groups plain_cred = Some (0, cur')"
    using open_env_facts(2)
    by (cases rule: setgroups_cases[of open_env 2 two_groups plain_cred]) (use open_env_facts(1) in auto)
  have s: "sort [9, 5 :: gid] = [5, 9]" by simp
  have n: "\<forall>g \<in> set (user_list two_groups 0 (unat (2 :: u32))). near 9 g" unfolding open_env_facts(3) by (simp add: near_def)
  have two: "unat (2 :: u32) = 2" by simp
  from setgroups_roundtrip[OF open_env_facts(2) c _ _ open_env_facts(4) n, of 2] show ?thesis
    unfolding open_env_facts(3) s unfolding two using c by auto
qed

end
