(* ===== verification/Posix_Acl.thy ===== *)
theory Posix_Acl
  imports Group_List
begin

text \<open>
  POSIX access control lists, \<open>fs/posix_acl.c\<close>: the validity check, the access decision, the
  conversions between lists and file mode bits, and the changes a list undergoes when a file is
  created or its mode is changed. A list is its array of entries; \<open>a_count\<close> is its length.
  Entries keep the widths of the C structure, and the arithmetic on permissions is done at the
  width the C integer promotions give it. The reference count of a list is set by allocation only.
\<close>

section \<open>Data\<close>

named_theorems acl_consts \<open>constants of access control lists\<close>

definition ACL_UNDEFINED_ID :: u32 where [acl_consts]: "ACL_UNDEFINED_ID = - 1"
definition ACL_USER_OBJ :: u16 where [acl_consts]: "ACL_USER_OBJ = 0x01"
definition ACL_USER :: u16 where [acl_consts]: "ACL_USER = 0x02"
definition ACL_GROUP_OBJ :: u16 where [acl_consts]: "ACL_GROUP_OBJ = 0x04"
definition ACL_GROUP :: u16 where [acl_consts]: "ACL_GROUP = 0x08"
definition ACL_MASK :: u16 where [acl_consts]: "ACL_MASK = 0x10"
definition ACL_OTHER :: u16 where [acl_consts]: "ACL_OTHER = 0x20"
definition ACL_READ :: u16 where "ACL_READ = 0x04"
definition ACL_WRITE :: u16 where "ACL_WRITE = 0x02"
definition ACL_EXECUTE :: u16 where "ACL_EXECUTE = 0x01"
definition S_IRWXU :: u32 where "S_IRWXU = 0x1C0"
definition S_IRWXG :: u32 where "S_IRWXG = 0x38"
definition S_IRWXO :: u32 where "S_IRWXO = 0x07"
definition S_IRWXUGO :: u32 where "S_IRWXUGO = S_IRWXU OR S_IRWXG OR S_IRWXO"

definition EIO :: int where [errno_defs]: "EIO = 5"
definition EACCES :: int where [errno_defs]: "EACCES = 13"

record posix_acl_entry =
  e_tag :: u16
  e_perm :: u16
  e_id :: u32

record posix_acl =
  a_refcount :: int
  a_entries :: "posix_acl_entry list"

record inode =
  i_uid :: u32
  i_gid :: gid

section \<open>Allocation and copies\<close>

definition posix_acl_alloc :: "bool \<Rightarrow> posix_acl_entry list \<Rightarrow> posix_acl option" where
  "posix_acl_alloc alloc_ok fresh = (if alloc_ok then Some \<lparr>a_refcount = 1, a_entries = fresh\<rparr> else None)"

definition posix_acl_clone :: "bool \<Rightarrow> posix_acl option \<Rightarrow> posix_acl option" where
  "posix_acl_clone alloc_ok acl =
     (case acl of None \<Rightarrow> None
      | Some a \<Rightarrow> if alloc_ok then Some (a\<lparr>a_refcount := 1\<rparr>) else None)"

section \<open>Validity\<close>

fun valid_loop :: "u16 \<Rightarrow> u32 \<Rightarrow> bool \<Rightarrow> posix_acl_entry list \<Rightarrow> int" where
  "valid_loop state lo needs_mask [] = (if state = 0 then 0 else - EINVAL)"
| "valid_loop state lo needs_mask (pa # rest) =
     (if e_perm pa AND NOT (ACL_READ OR ACL_WRITE OR ACL_EXECUTE) \<noteq> 0 then - EINVAL
      else if e_tag pa = ACL_USER_OBJ then
        if state = ACL_USER_OBJ then valid_loop ACL_USER 0 needs_mask rest else - EINVAL
      else if e_tag pa = ACL_USER then
        if state \<noteq> ACL_USER then - EINVAL
        else if e_id pa = ACL_UNDEFINED_ID \<or> e_id pa < lo then - EINVAL
        else valid_loop state (e_id pa + 1) True rest
      else if e_tag pa = ACL_GROUP_OBJ then
        if state = ACL_USER then valid_loop ACL_GROUP 0 needs_mask rest else - EINVAL
      else if e_tag pa = ACL_GROUP then
        if state \<noteq> ACL_GROUP then - EINVAL
        else if e_id pa = ACL_UNDEFINED_ID \<or> e_id pa < lo then - EINVAL
        else valid_loop state (e_id pa + 1) True rest
      else if e_tag pa = ACL_MASK then
        if state \<noteq> ACL_GROUP then - EINVAL else valid_loop ACL_OTHER lo needs_mask rest
      else if e_tag pa = ACL_OTHER then
        if state = ACL_OTHER \<or> (state = ACL_GROUP \<and> \<not> needs_mask) then valid_loop 0 lo needs_mask rest
        else - EINVAL
      else - EINVAL)"

definition posix_acl_valid :: "posix_acl \<Rightarrow> int" where
  "posix_acl_valid acl = valid_loop ACL_USER_OBJ 0 False (a_entries acl)"

section \<open>Mode bits\<close>

fun equiv_loop :: "u32 \<Rightarrow> int \<Rightarrow> posix_acl_entry list \<Rightarrow> int \<times> u32" where
  "equiv_loop mode not_equiv [] = (not_equiv, mode)"
| "equiv_loop mode not_equiv (pa # rest) =
     (if e_tag pa = ACL_USER_OBJ then
        equiv_loop (mode OR push_bit 6 (ucast (e_perm pa) AND S_IRWXO)) not_equiv rest
      else if e_tag pa = ACL_GROUP_OBJ then
        equiv_loop (mode OR push_bit 3 (ucast (e_perm pa) AND S_IRWXO)) not_equiv rest
      else if e_tag pa = ACL_OTHER then
        equiv_loop (mode OR (ucast (e_perm pa) AND S_IRWXO)) not_equiv rest
      else if e_tag pa = ACL_MASK then
        equiv_loop ((mode AND NOT S_IRWXG) OR push_bit 3 (ucast (e_perm pa) AND S_IRWXO)) 1 rest
      else if e_tag pa = ACL_USER \<or> e_tag pa = ACL_GROUP then equiv_loop mode 1 rest
      else (- EINVAL, mode))"

text \<open>
  The pointer \<open>mode_p\<close> may be \<open>NULL\<close>, here \<open>None\<close>; otherwise it is the file mode it points to. The second
  component is that mode after the call, unchanged on error.
\<close>

definition posix_acl_equiv_mode :: "posix_acl \<Rightarrow> u32 option \<Rightarrow> int \<times> u32 option" where
  "posix_acl_equiv_mode acl mode_p =
     (let (r, mode) = equiv_loop 0 0 (a_entries acl)
      in if r < 0 then (r, mode_p)
         else (r, case mode_p of None \<Rightarrow> None | Some m \<Rightarrow> Some ((m AND NOT S_IRWXUGO) OR mode)))"

definition posix_acl_from_mode :: "bool \<Rightarrow> u32 \<Rightarrow> int + posix_acl" where
  "posix_acl_from_mode alloc_ok mode =
     (case posix_acl_alloc alloc_ok
        [\<lparr>e_tag = ACL_USER_OBJ, e_perm = ucast (drop_bit 6 (mode AND S_IRWXU)), e_id = ACL_UNDEFINED_ID\<rparr>,
         \<lparr>e_tag = ACL_GROUP_OBJ, e_perm = ucast (drop_bit 3 (mode AND S_IRWXG)), e_id = ACL_UNDEFINED_ID\<rparr>,
         \<lparr>e_tag = ACL_OTHER, e_perm = ucast (mode AND S_IRWXO), e_id = ACL_UNDEFINED_ID\<rparr>] of
        None \<Rightarrow> Inl (- ENOMEM) | Some acl \<Rightarrow> Inr acl)"

section \<open>The access decision\<close>

definition check_perm :: "posix_acl_entry \<Rightarrow> u32 \<Rightarrow> int" where
  "check_perm pa want = (if ucast (e_perm pa) AND want = want then 0 else - EACCES)"

fun perm_mask :: "posix_acl_entry \<Rightarrow> u32 \<Rightarrow> posix_acl_entry list \<Rightarrow> int" where
  "perm_mask pa want [] = check_perm pa want"
| "perm_mask pa want (mask_obj # rest) =
     (if e_tag mask_obj = ACL_MASK then
        if ucast (e_perm pa) AND ucast (e_perm mask_obj) AND want = want then 0 else - EACCES
      else perm_mask pa want rest)"

fun perm_loop :: "inode \<Rightarrow> u32 \<Rightarrow> cred \<Rightarrow> u32 \<Rightarrow> bool \<Rightarrow> posix_acl_entry list \<Rightarrow> int option" where
  "perm_loop inode fsuid cur want found [] = Some (- EIO)"
| "perm_loop inode fsuid cur want found (pa # rest) =
     (if e_tag pa = ACL_USER_OBJ then
        if i_uid inode = fsuid then Some (check_perm pa want)
        else perm_loop inode fsuid cur want found rest
      else if e_tag pa = ACL_USER then
        if e_id pa = fsuid then Some (perm_mask pa want rest)
        else perm_loop inode fsuid cur want found rest
      else if e_tag pa = ACL_GROUP_OBJ then do {
        r \<leftarrow> in_group_p (i_gid inode) cur;
        if r \<noteq> 0 then
          if ucast (e_perm pa) AND want = want then Some (perm_mask pa want rest)
          else perm_loop inode fsuid cur want True rest
        else perm_loop inode fsuid cur want found rest }
      else if e_tag pa = ACL_GROUP then do {
        r \<leftarrow> in_group_p (e_id pa) cur;
        if r \<noteq> 0 then
          if ucast (e_perm pa) AND want = want then Some (perm_mask pa want rest)
          else perm_loop inode fsuid cur want True rest
        else perm_loop inode fsuid cur want found rest }
      else if e_tag pa = ACL_MASK then perm_loop inode fsuid cur want found rest
      else if e_tag pa = ACL_OTHER then
        if found then Some (- EACCES) else Some (check_perm pa want)
      else Some (- EIO))"

definition posix_acl_permission :: "inode \<Rightarrow> u32 \<Rightarrow> cred \<Rightarrow> posix_acl \<Rightarrow> u32 \<Rightarrow> int option" where
  "posix_acl_permission inode fsuid cur acl want = perm_loop inode fsuid cur want False (a_entries acl)"

section \<open>Creation and change of mode\<close>

text \<open>
  The loops record the index of the group and mask entries, as the C code records pointers to them,
  and update the array in place. The result is the return value, the list and the mode.
\<close>

definition and_perm :: "u32 \<Rightarrow> posix_acl_entry \<Rightarrow> posix_acl_entry" where
  "and_perm m pa = pa\<lparr>e_perm := ucast (ucast (e_perm pa) AND m)\<rparr>"

fun create_loop :: "nat \<Rightarrow> posix_acl_entry list \<Rightarrow> u32 \<Rightarrow> nat option \<Rightarrow> nat option \<Rightarrow> int \<Rightarrow> posix_acl_entry list \<Rightarrow>
    int \<times> u32 \<times> nat option \<times> nat option \<times> posix_acl_entry list" where
  "create_loop i [] mode group_obj mask_obj not_equiv es = (not_equiv, mode, group_obj, mask_obj, es)"
| "create_loop i (pa # rest) mode group_obj mask_obj not_equiv es =
     (if e_tag pa = ACL_USER_OBJ then
        let pa = and_perm (drop_bit 6 mode OR NOT S_IRWXO) pa;
            mode = mode AND (push_bit 6 (ucast (e_perm pa)) OR NOT S_IRWXU)
        in create_loop (i + 1) rest mode group_obj mask_obj not_equiv (es[i := pa])
      else if e_tag pa = ACL_USER \<or> e_tag pa = ACL_GROUP then
        create_loop (i + 1) rest mode group_obj mask_obj 1 es
      else if e_tag pa = ACL_GROUP_OBJ then
        create_loop (i + 1) rest mode (Some i) mask_obj not_equiv es
      else if e_tag pa = ACL_OTHER then
        let pa = and_perm (mode OR NOT S_IRWXO) pa;
            mode = mode AND (ucast (e_perm pa) OR NOT S_IRWXO)
        in create_loop (i + 1) rest mode group_obj mask_obj not_equiv (es[i := pa])
      else if e_tag pa = ACL_MASK then
        create_loop (i + 1) rest mode group_obj (Some i) 1 es
      else (- EIO, mode, group_obj, mask_obj, es))"

definition posix_acl_create_masq :: "posix_acl \<Rightarrow> u32 \<Rightarrow> int \<times> posix_acl \<times> u32" where
  "posix_acl_create_masq acl mode_p =
     (let (r, mode, group_obj, mask_obj, es) = create_loop 0 (a_entries acl) mode_p None None 0 (a_entries acl)
      in if r < 0 then (r, acl\<lparr>a_entries := es\<rparr>, mode_p)
         else case (case mask_obj of Some m \<Rightarrow> Some m | None \<Rightarrow> group_obj) of
           None \<Rightarrow> (- EIO, acl\<lparr>a_entries := es\<rparr>, mode_p)
         | Some k \<Rightarrow>
             let pa = and_perm (drop_bit 3 mode OR NOT S_IRWXO) (es ! k);
                 mode = mode AND (push_bit 3 (ucast (e_perm pa)) OR NOT S_IRWXG)
             in (r, acl\<lparr>a_entries := es[k := pa]\<rparr>, (mode_p AND NOT S_IRWXUGO) OR mode))"

fun chmod_loop :: "nat \<Rightarrow> posix_acl_entry list \<Rightarrow> u32 \<Rightarrow> nat option \<Rightarrow> nat option \<Rightarrow> posix_acl_entry list \<Rightarrow>
    int \<times> nat option \<times> nat option \<times> posix_acl_entry list" where
  "chmod_loop i [] mode group_obj mask_obj es = (0, group_obj, mask_obj, es)"
| "chmod_loop i (pa # rest) mode group_obj mask_obj es =
     (if e_tag pa = ACL_USER_OBJ then
        chmod_loop (i + 1) rest mode group_obj mask_obj (es[i := pa\<lparr>e_perm := ucast (drop_bit 6 (mode AND S_IRWXU))\<rparr>])
      else if e_tag pa = ACL_USER \<or> e_tag pa = ACL_GROUP then
        chmod_loop (i + 1) rest mode group_obj mask_obj es
      else if e_tag pa = ACL_GROUP_OBJ then chmod_loop (i + 1) rest mode (Some i) mask_obj es
      else if e_tag pa = ACL_MASK then chmod_loop (i + 1) rest mode group_obj (Some i) es
      else if e_tag pa = ACL_OTHER then
        chmod_loop (i + 1) rest mode group_obj mask_obj (es[i := pa\<lparr>e_perm := ucast (mode AND S_IRWXO)\<rparr>])
      else (- EIO, group_obj, mask_obj, es))"

definition posix_acl_chmod_masq :: "posix_acl \<Rightarrow> u32 \<Rightarrow> int \<times> posix_acl" where
  "posix_acl_chmod_masq acl mode =
     (let (r, group_obj, mask_obj, es) = chmod_loop 0 (a_entries acl) mode None None (a_entries acl)
      in if r < 0 then (r, acl\<lparr>a_entries := es\<rparr>)
         else case (case mask_obj of Some m \<Rightarrow> Some m | None \<Rightarrow> group_obj) of
           None \<Rightarrow> (- EIO, acl\<lparr>a_entries := es\<rparr>)
         | Some k \<Rightarrow> (0, acl\<lparr>a_entries := es[k := (es ! k)\<lparr>e_perm := ucast (drop_bit 3 (mode AND S_IRWXG))\<rparr>]\<rparr>))"

section \<open>What a valid list looks like\<close>

definition named :: "u16 \<Rightarrow> posix_acl_entry list \<Rightarrow> bool" where
  "named t es \<longleftrightarrow> (\<forall>e \<in> set es. e_tag e = t \<and> e_id e \<noteq> ACL_UNDEFINED_ID) \<and> sorted_wrt (<) (map e_id es)"

definition perm_ok :: "posix_acl_entry \<Rightarrow> bool" where
  "perm_ok e \<longleftrightarrow> e_perm e AND NOT (ACL_READ OR ACL_WRITE OR ACL_EXECUTE) = 0"

definition mask_list :: "posix_acl_entry option \<Rightarrow> posix_acl_entry list" where
  "mask_list m = (case m of None \<Rightarrow> [] | Some m \<Rightarrow> [m])"

definition acl_shape :: "posix_acl_entry \<Rightarrow> posix_acl_entry list \<Rightarrow> posix_acl_entry \<Rightarrow> posix_acl_entry list \<Rightarrow>
    posix_acl_entry option \<Rightarrow> posix_acl_entry \<Rightarrow> bool" where
  "acl_shape u us g gs m oth \<longleftrightarrow> e_tag u = ACL_USER_OBJ \<and> named ACL_USER us \<and> e_tag g = ACL_GROUP_OBJ \<and>
     named ACL_GROUP gs \<and> (case m of None \<Rightarrow> us = [] \<and> gs = [] | Some m \<Rightarrow> e_tag m = ACL_MASK) \<and>
     e_tag oth = ACL_OTHER \<and> list_all perm_ok (u # us @ g # gs @ mask_list m @ [oth])"

definition entries_of :: "posix_acl_entry \<Rightarrow> posix_acl_entry list \<Rightarrow> posix_acl_entry \<Rightarrow> posix_acl_entry list \<Rightarrow>
    posix_acl_entry option \<Rightarrow> posix_acl_entry \<Rightarrow> posix_acl_entry list" where
  "entries_of u us g gs m oth = u # us @ g # gs @ mask_list m @ [oth]"

definition acl_wf :: "posix_acl_entry list \<Rightarrow> bool" where
  "acl_wf es \<longleftrightarrow> (\<exists>u us g gs m oth. es = entries_of u us g gs m oth \<and> acl_shape u us g gs m oth)"

text \<open>The suffixes that \<open>posix_acl_valid\<close> accepts in its states.\<close>

definition named_from :: "u32 \<Rightarrow> u16 \<Rightarrow> posix_acl_entry list \<Rightarrow> bool" where
  "named_from lo t es \<longleftrightarrow> named t es \<and> (\<forall>e \<in> set es. lo \<le> e_id e)"

definition mask_ok :: "bool \<Rightarrow> posix_acl_entry list \<Rightarrow> posix_acl_entry option \<Rightarrow> bool" where
  "mask_ok nm gs m \<longleftrightarrow> (case m of None \<Rightarrow> gs = [] \<and> \<not> nm | Some m \<Rightarrow> e_tag m = ACL_MASK)"

definition group_tail :: "u32 \<Rightarrow> bool \<Rightarrow> posix_acl_entry list \<Rightarrow> bool" where
  "group_tail lo nm es \<longleftrightarrow> (\<exists>gs m oth. es = gs @ mask_list m @ [oth] \<and> named_from lo ACL_GROUP gs \<and>
     mask_ok nm gs m \<and> e_tag oth = ACL_OTHER)"

definition user_tail :: "u32 \<Rightarrow> bool \<Rightarrow> posix_acl_entry list \<Rightarrow> bool" where
  "user_tail lo nm es \<longleftrightarrow> (\<exists>us g rest. es = us @ g # rest \<and> named_from lo ACL_USER us \<and>
     e_tag g = ACL_GROUP_OBJ \<and> group_tail 0 (nm \<or> us \<noteq> []) rest)"

lemma inc_le: "(a :: u32) \<noteq> - 1 \<Longrightarrow> a + 1 \<le> b \<longleftrightarrow> a < b"
proof -
  assume "a \<noteq> - 1"
  then have "a + 1 \<noteq> 0" by (metis add_eq_0_iff minus_minus)
  then have "unat (a + 1) = unat a + 1" by (metis unatSuc Suc_eq_plus1 add.commute)
  then show ?thesis by (simp add: word_le_nat_alt word_less_nat_alt Suc_le_eq)
qed

lemma named_from_Cons:
  "named_from lo t (e # es) \<longleftrightarrow> e_tag e = t \<and> e_id e \<noteq> ACL_UNDEFINED_ID \<and> lo \<le> e_id e \<and> named_from (e_id e + 1) t es"
  by (auto simp: named_from_def named_def ACL_UNDEFINED_ID_def inc_le intro: order.strict_implies_order order.trans)

lemma named_from_Nil [simp]: "named_from lo t []"
  by (simp add: named_from_def named_def)

lemma group_tail_Nil [simp]: "\<not> group_tail lo nm []"
  by (auto simp: group_tail_def)

lemma user_tail_Nil [simp]: "\<not> user_tail lo nm []"
  by (auto simp: user_tail_def)

lemma ex_list: "(\<exists>xs. P xs) \<longleftrightarrow> P [] \<or> (\<exists>x xs. P (x # xs))"
  by (metis list.exhaust)

lemma ex_opt: "(\<exists>m. P m) \<longleftrightarrow> P None \<or> (\<exists>x. P (Some x))"
  by (metis not_Some_eq)

lemma mask_ok_Cons: "mask_ok nm (e # gs) m = mask_ok True gs m"
  by (simp add: mask_ok_def split: option.split)

lemma group_tail_Cons:
  "group_tail lo nm (e # es) \<longleftrightarrow>
     (if e_tag e = ACL_GROUP then e_id e \<noteq> ACL_UNDEFINED_ID \<and> lo \<le> e_id e \<and> group_tail (e_id e + 1) True es
      else if e_tag e = ACL_MASK then \<exists>oth. es = [oth] \<and> e_tag oth = ACL_OTHER
      else e_tag e = ACL_OTHER \<and> es = [] \<and> \<not> nm)"
proof -
  have d: "ACL_GROUP \<noteq> ACL_MASK" "ACL_GROUP \<noteq> ACL_OTHER" "ACL_MASK \<noteq> ACL_OTHER" by (simp_all add: acl_consts)
  have "group_tail lo nm (e # es) \<longleftrightarrow>
      (\<exists>m oth. e # es = mask_list m @ [oth] \<and> mask_ok nm [] m \<and> e_tag oth = ACL_OTHER) \<or>
      (\<exists>gs m oth. es = gs @ mask_list m @ [oth] \<and> named_from lo ACL_GROUP (e # gs) \<and> mask_ok nm (e # gs) m \<and> e_tag oth = ACL_OTHER)"
    unfolding group_tail_def by (subst ex_list) auto
  moreover have "(\<exists>m oth. e # es = mask_list m @ [oth] \<and> mask_ok nm [] m \<and> e_tag oth = ACL_OTHER) \<longleftrightarrow>
      e_tag e = ACL_OTHER \<and> es = [] \<and> \<not> nm \<or> e_tag e = ACL_MASK \<and> (\<exists>oth. es = [oth] \<and> e_tag oth = ACL_OTHER)"
    unfolding ex_opt by (auto simp: mask_list_def mask_ok_def)
  moreover have "(\<exists>gs m oth. es = gs @ mask_list m @ [oth] \<and> named_from lo ACL_GROUP (e # gs) \<and> mask_ok nm (e # gs) m \<and> e_tag oth = ACL_OTHER)
      \<longleftrightarrow> e_tag e = ACL_GROUP \<and> e_id e \<noteq> ACL_UNDEFINED_ID \<and> lo \<le> e_id e \<and> group_tail (e_id e + 1) True es"
    unfolding group_tail_def named_from_Cons mask_ok_Cons by blast
  ultimately show ?thesis using d by auto
qed

lemma user_tail_Cons:
  "user_tail lo nm (e # es) \<longleftrightarrow>
     (if e_tag e = ACL_USER then e_id e \<noteq> ACL_UNDEFINED_ID \<and> lo \<le> e_id e \<and> user_tail (e_id e + 1) True es
      else e_tag e = ACL_GROUP_OBJ \<and> group_tail 0 nm es)"
proof -
  have d: "ACL_USER \<noteq> ACL_GROUP_OBJ" by (simp add: acl_consts)
  have "user_tail lo nm (e # es) \<longleftrightarrow>
      (\<exists>g rest. e # es = [] @ g # rest \<and> named_from lo ACL_USER [] \<and> e_tag g = ACL_GROUP_OBJ \<and> group_tail 0 (nm \<or> [] \<noteq> ([] :: posix_acl_entry list)) rest) \<or>
      (\<exists>x us g rest. e # es = (x # us) @ g # rest \<and> named_from lo ACL_USER (x # us) \<and> e_tag g = ACL_GROUP_OBJ \<and> group_tail 0 (nm \<or> x # us \<noteq> []) rest)"
    unfolding user_tail_def by (rule ex_list)
  then have "user_tail lo nm (e # es) \<longleftrightarrow>
      e_tag e = ACL_GROUP_OBJ \<and> group_tail 0 nm es \<or>
      (\<exists>us g rest. es = us @ g # rest \<and> named_from lo ACL_USER (e # us) \<and> e_tag g = ACL_GROUP_OBJ \<and> group_tail 0 True rest)"
    by simp
  moreover have "(\<exists>us g rest. es = us @ g # rest \<and> named_from lo ACL_USER (e # us) \<and> e_tag g = ACL_GROUP_OBJ \<and> group_tail 0 True rest)
      \<longleftrightarrow> e_tag e = ACL_USER \<and> e_id e \<noteq> ACL_UNDEFINED_ID \<and> lo \<le> e_id e \<and> user_tail (e_id e + 1) True es"
    unfolding user_tail_def named_from_Cons simp_thms by blast
  ultimately show ?thesis using d by auto
qed

lemma valid_loop_zero: "valid_loop 0 lo nm es = 0 \<longleftrightarrow> es = []"
  by (cases es) (auto simp: acl_consts errno_defs)

lemma valid_loop_other:
  "valid_loop ACL_OTHER lo nm es = 0 \<longleftrightarrow> (\<exists>oth. es = [oth] \<and> e_tag oth = ACL_OTHER \<and> perm_ok oth)"
  by (cases es) (auto simp: acl_consts errno_defs valid_loop_zero perm_ok_def split: if_splits)

lemma valid_loop_group: "valid_loop ACL_GROUP lo nm es = 0 \<longleftrightarrow> group_tail lo nm es \<and> list_all perm_ok es"
proof (induction es arbitrary: lo nm)
  case (Cons e es)
  have d: "ACL_GROUP \<noteq> ACL_USER_OBJ" "ACL_GROUP \<noteq> ACL_USER" "ACL_GROUP \<noteq> ACL_GROUP_OBJ" "ACL_MASK \<noteq> ACL_USER_OBJ"
    "ACL_MASK \<noteq> ACL_USER" "ACL_MASK \<noteq> ACL_GROUP_OBJ" "ACL_MASK \<noteq> ACL_GROUP" "ACL_OTHER \<noteq> ACL_USER_OBJ" "ACL_OTHER \<noteq> ACL_USER"
    "ACL_OTHER \<noteq> ACL_GROUP_OBJ" "ACL_OTHER \<noteq> ACL_GROUP" "ACL_OTHER \<noteq> ACL_MASK" "ACL_GROUP \<noteq> ACL_OTHER"
    by (simp_all add: acl_consts)
  have e: "- EINVAL \<noteq> 0" by (simp add: errno_defs)
  consider "e_tag e = ACL_GROUP" | "e_tag e = ACL_MASK" | "e_tag e = ACL_OTHER"
    | "e_tag e \<noteq> ACL_GROUP" "e_tag e \<noteq> ACL_MASK" "e_tag e \<noteq> ACL_OTHER" by blast
  then show ?case
  proof cases
    case 1
    then show ?thesis using Cons[of "e_id e + 1" True] d e by (auto simp: group_tail_Cons perm_ok_def)
  next
    case 2
    then show ?thesis using valid_loop_other[of lo nm es] d e by (auto simp: group_tail_Cons perm_ok_def)
  next
    case 3
    then show ?thesis using valid_loop_zero[of lo nm es] d e by (auto simp: group_tail_Cons perm_ok_def)
  next
    case 4
    then show ?thesis using d e by (auto simp: group_tail_Cons)
  qed
qed (simp add: errno_defs acl_consts)

lemma valid_loop_user: "valid_loop ACL_USER lo nm es = 0 \<longleftrightarrow> user_tail lo nm es \<and> list_all perm_ok es"
proof (induction es arbitrary: lo nm)
  case (Cons e es)
  have d: "ACL_USER \<noteq> ACL_USER_OBJ" "ACL_GROUP_OBJ \<noteq> ACL_USER" "ACL_GROUP_OBJ \<noteq> ACL_USER_OBJ" "ACL_USER \<noteq> ACL_GROUP" "ACL_USER \<noteq> ACL_OTHER"
    by (simp_all add: acl_consts)
  have e: "- EINVAL \<noteq> 0" by (simp add: errno_defs)
  consider "e_tag e = ACL_USER" | "e_tag e = ACL_GROUP_OBJ" | "e_tag e \<noteq> ACL_USER" "e_tag e \<noteq> ACL_GROUP_OBJ" by blast
  then show ?case
  proof cases
    case 1
    then show ?thesis using Cons[of "e_id e + 1" True] d e by (auto simp: user_tail_Cons perm_ok_def[of e])
  next
    case 2
    then show ?thesis using valid_loop_group[of 0 nm es] d e by (auto simp: user_tail_Cons perm_ok_def[of e])
  next
    case 3
    then show ?thesis using d e by (auto simp: user_tail_Cons)
  qed
qed (simp add: errno_defs acl_consts)

lemma valid_iff: "posix_acl_valid acl = 0 \<longleftrightarrow> acl_wf (a_entries acl)"
proof -
  have z: "named_from 0 t es = named t es" for t es by (simp add: named_from_def)
  have "acl_wf es \<longleftrightarrow> (\<exists>u rest. es = u # rest \<and> e_tag u = ACL_USER_OBJ \<and> user_tail 0 False rest \<and> list_all perm_ok es)" for es
  proof
    assume "acl_wf es"
    then obtain u us g gs m oth where "es = entries_of u us g gs m oth" "acl_shape u us g gs m oth" by (auto simp: acl_wf_def)
    then show "\<exists>u rest. es = u # rest \<and> e_tag u = ACL_USER_OBJ \<and> user_tail 0 False rest \<and> list_all perm_ok es"
      unfolding user_tail_def group_tail_def z entries_of_def acl_shape_def mask_ok_def
      by (auto split: option.splits) blast+
  next
    assume "\<exists>u rest. es = u # rest \<and> e_tag u = ACL_USER_OBJ \<and> user_tail 0 False rest \<and> list_all perm_ok es"
    then obtain u us g gs m oth where "es = entries_of u us g gs m oth" "e_tag u = ACL_USER_OBJ" "named ACL_USER us"
      "e_tag g = ACL_GROUP_OBJ" "named ACL_GROUP gs" "mask_ok (us \<noteq> []) gs m" "e_tag oth = ACL_OTHER" "list_all perm_ok es"
      unfolding user_tail_def group_tail_def z entries_of_def by auto
    then show "acl_wf es" unfolding acl_wf_def acl_shape_def mask_ok_def
      by (intro exI[of _ u] exI[of _ us] exI[of _ g] exI[of _ gs] exI[of _ m] exI[of _ oth])
         (auto simp: entries_of_def split: option.splits)
  qed
  moreover have "valid_loop ACL_USER_OBJ 0 False es = 0 \<longleftrightarrow>
      (\<exists>u rest. es = u # rest \<and> e_tag u = ACL_USER_OBJ \<and> user_tail 0 False rest \<and> list_all perm_ok es)" for es
  proof (cases es)
    case (Cons u rest)
    have d: "ACL_USER_OBJ \<noteq> ACL_USER" "ACL_USER_OBJ \<noteq> ACL_GROUP" "ACL_USER_OBJ \<noteq> ACL_OTHER" by (simp_all add: acl_consts)
    have e: "- EINVAL \<noteq> 0" by (simp add: errno_defs)
    show ?thesis using valid_loop_user[of 0 False rest] d e Cons by (auto simp: perm_ok_def[of u])
  qed (simp add: errno_defs acl_consts)
  ultimately show ?thesis by (simp add: posix_acl_valid_def)
qed

section \<open>The access decision follows the standard\<close>

definition has_perm :: "posix_acl_entry \<Rightarrow> u32 \<Rightarrow> bool" where
  "has_perm e want \<longleftrightarrow> ucast (e_perm e) AND want = want"

definition masked_perm :: "posix_acl_entry option \<Rightarrow> posix_acl_entry \<Rightarrow> u32 \<Rightarrow> bool" where
  "masked_perm m e want \<longleftrightarrow> (case m of None \<Rightarrow> has_perm e want
     | Some k \<Rightarrow> ucast (e_perm e) AND ucast (e_perm k) AND want = want)"

text \<open>
  The access check algorithm of POSIX 1003.1e draft 17: the owner entry decides for the owner; a
  named user entry, limited by the mask, for its user; for a process in the owning or a named group
  some matching entry, limited by the mask, must grant the access; the other entry decides otherwise.
\<close>

definition acl_grants :: "u32 \<Rightarrow> gid \<Rightarrow> u32 \<Rightarrow> (gid \<Rightarrow> bool) \<Rightarrow> posix_acl_entry \<Rightarrow> posix_acl_entry list \<Rightarrow> posix_acl_entry \<Rightarrow>
    posix_acl_entry list \<Rightarrow> posix_acl_entry option \<Rightarrow> posix_acl_entry \<Rightarrow> u32 \<Rightarrow> bool" where
  "acl_grants owner ogrp fsuid member u us g gs m oth want \<longleftrightarrow>
     (if owner = fsuid then has_perm u want
      else if \<exists>e \<in> set us. e_id e = fsuid then \<exists>e \<in> set us. e_id e = fsuid \<and> masked_perm m e want
      else if member ogrp \<or> (\<exists>e \<in> set gs. member (e_id e))
      then member ogrp \<and> masked_perm m g want \<or> (\<exists>e \<in> set gs. member (e_id e) \<and> masked_perm m e want)
      else has_perm oth want)"

lemma masked_imp_has: "masked_perm m e want \<Longrightarrow> has_perm e want"
proof -
  assume a: "masked_perm m e want"
  show ?thesis
  proof (cases m)
    case (Some k)
    then have *: "ucast (e_perm e) AND ucast (e_perm k) AND want = want" using a by (simp add: masked_perm_def)
    have "(ucast (e_perm e) :: u32) AND want = want"
    proof (rule bit_word_eqI)
      fix n assume "n < LENGTH(32)"
      then show "bit (ucast (e_perm e) AND want) n = bit want n" using arg_cong[OF *, of "\<lambda>w. bit w n"] by (auto simp: bit_and_iff)
    qed
    then show ?thesis by (simp add: has_perm_def)
  qed (use a in \<open>simp add: masked_perm_def\<close>)
qed

lemma perm_mask_eq:
  assumes "\<forall>x \<in> set xs. e_tag x \<noteq> ACL_MASK" "e_tag oth = ACL_OTHER" "\<forall>k. m = Some k \<longrightarrow> e_tag k = ACL_MASK"
  shows "perm_mask e want (xs @ mask_list m @ [oth]) = (if masked_perm m e want then 0 else - EACCES)"
proof -
  have d: "ACL_OTHER \<noteq> ACL_MASK" by (simp add: acl_consts)
  show ?thesis using assms(1)
  proof (induction xs)
    case Nil
    show ?case using assms(2,3) d by (cases m) (simp_all add: mask_list_def masked_perm_def has_perm_def check_perm_def)
  qed simp
qed

lemma in_group_p_total:
  assumes "groups_wf (cred_groups cur)"
  shows "in_group_p grp cur = Some 0 \<or> in_group_p grp cur = Some 1"
proof -
  have "r \<le> ngroups gi \<Longrightarrow> search_loop gi grp l r = Some 0 \<or> search_loop gi grp l r = Some 1" if "groups_wf gi" for gi l r
  proof (induction "r - l" arbitrary: l r rule: less_induct)
    case less
    show ?case
    proof (cases "l < r")
      case True
      then have m: "(l + r) div 2 < ngroups gi" "l \<le> (l + r) div 2" "(l + r) div 2 < r" using less.prems by auto
      have "search_loop gi grp (Suc ((l + r) div 2)) r = Some 0 \<or> search_loop gi grp (Suc ((l + r) div 2)) r = Some 1"
        "search_loop gi grp l ((l + r) div 2) = Some 0 \<or> search_loop gi grp l ((l + r) div 2) = Some 1"
        using m less.prems by (intro less.hyps, simp, simp)+
      then show ?thesis using True GROUP_AT_flat(1)[OF that m(1)] by (subst (1 2) search_loop.simps) (auto simp: Let_def)
    qed (subst (1 2) search_loop.simps, simp)
  qed
  then show ?thesis using assms by (simp add: in_group_p_def groups_search_def)
qed

lemma perm_loop_users:
  assumes "named ACL_USER us" "\<forall>x \<in> set xs. e_tag x \<noteq> ACL_MASK" "e_tag oth = ACL_OTHER" "\<forall>k. m = Some k \<longrightarrow> e_tag k = ACL_MASK"
  shows "perm_loop ino fsuid cur want found (us @ xs @ mask_list m @ [oth]) =
    (if \<exists>e \<in> set us. e_id e = fsuid
     then Some (if \<exists>e \<in> set us. e_id e = fsuid \<and> masked_perm m e want then 0 else - EACCES)
     else perm_loop ino fsuid cur want found (xs @ mask_list m @ [oth]))"
  using assms(1)
proof (induction us)
  case (Cons e us)
  have d: "ACL_USER \<noteq> ACL_USER_OBJ" "ACL_USER \<noteq> ACL_MASK" by (simp_all add: acl_consts)
  have e: "e_tag e = ACL_USER" and us: "named ACL_USER us" "\<forall>x \<in> set us. e_id e < e_id x \<and> e_tag x = ACL_USER"
    using Cons.prems by (auto simp: named_def)
  show ?case
  proof (cases "e_id e = fsuid")
    case True
    have "\<forall>x \<in> set (us @ xs). e_tag x \<noteq> ACL_MASK" using us(2) assms(2) d by auto
    from perm_mask_eq[OF this assms(3,4), of e want] show ?thesis using True e d us(2) by auto
  next
    case False
    then show ?thesis using Cons.IH[OF us(1)] e d by auto
  qed
qed simp

lemma perm_loop_groups:
  assumes "named ACL_GROUP gs" "e_tag oth = ACL_OTHER" "\<forall>k. m = Some k \<longrightarrow> e_tag k = ACL_MASK"
    and tot: "\<And>g. in_group_p g cur = Some 0 \<or> in_group_p g cur = Some 1"
  shows "perm_loop ino fsuid cur want found (gs @ mask_list m @ [oth]) =
    Some (if \<exists>e \<in> set gs. in_group_p (e_id e) cur = Some 1 \<and> has_perm e want
      then (if \<exists>e \<in> set gs. in_group_p (e_id e) cur = Some 1 \<and> masked_perm m e want then 0 else - EACCES)
      else if found \<or> (\<exists>e \<in> set gs. in_group_p (e_id e) cur = Some 1) then - EACCES
      else check_perm oth want)"
  using assms(1)
proof (induction gs arbitrary: found)
  case Nil
  have d: "ACL_OTHER \<noteq> ACL_USER_OBJ" "ACL_OTHER \<noteq> ACL_USER" "ACL_OTHER \<noteq> ACL_GROUP_OBJ" "ACL_OTHER \<noteq> ACL_GROUP" "ACL_OTHER \<noteq> ACL_MASK"
    "ACL_MASK \<noteq> ACL_USER_OBJ" "ACL_MASK \<noteq> ACL_USER" "ACL_MASK \<noteq> ACL_GROUP_OBJ" "ACL_MASK \<noteq> ACL_GROUP"
    by (simp_all add: acl_consts)
  show ?case using assms(2,3) d by (cases m) (auto simp: mask_list_def)
next
  case (Cons e gs)
  have d: "ACL_GROUP \<noteq> ACL_USER_OBJ" "ACL_GROUP \<noteq> ACL_USER" "ACL_GROUP \<noteq> ACL_GROUP_OBJ" "ACL_GROUP \<noteq> ACL_MASK" by (simp_all add: acl_consts)
  have e: "e_tag e = ACL_GROUP" and gs: "named ACL_GROUP gs" "\<forall>x \<in> set gs. e_tag x \<noteq> ACL_MASK"
    using Cons.prems d(4) by (auto simp: named_def)
  consider "in_group_p (e_id e) cur = Some 0" | "in_group_p (e_id e) cur = Some 1" "has_perm e want"
    | "in_group_p (e_id e) cur = Some 1" "\<not> has_perm e want" using tot by blast
  then show ?case
  proof cases
    case 1
    then show ?thesis using Cons.IH[OF gs(1), of found] e d by auto
  next
    case 2
    have "has_perm x want \<and> masked_perm m x want \<Longrightarrow> masked_perm m e want" for x
      using 2(2) by (cases m) (auto simp: masked_perm_def has_perm_def word_bw_assocs, metis and.left_commute)
    then show ?thesis using 2 perm_mask_eq[OF gs(2) assms(2,3), of e want] e d masked_imp_has[of m _ want]
      by (auto simp: has_perm_def)
  next
    case 3
    then have "\<not> masked_perm m e want" using masked_imp_has by blast
    then show ?thesis using 3 Cons.IH[OF gs(1), of True] e d by (auto simp: has_perm_def)
  qed
qed

lemma masked_share: "has_perm g want \<Longrightarrow> masked_perm m e want \<Longrightarrow> masked_perm m g want"
proof -
  assume a: "masked_perm m e want" "has_perm g want"
  show ?thesis
  proof (cases m)
    case (Some k)
    then have *: "ucast (e_perm e) AND ucast (e_perm k) AND want = want" "ucast (e_perm g) AND want = want"
      using a by (simp_all add: masked_perm_def has_perm_def)
    have "(ucast (e_perm g) :: u32) AND ucast (e_perm k) AND want = want"
    proof (rule bit_word_eqI)
      fix n assume "n < LENGTH(32)"
      then show "bit (ucast (e_perm g) AND ucast (e_perm k) AND want) n = bit want n"
        using *[THEN arg_cong, of "\<lambda>w. bit w n"] by (auto simp: bit_and_iff)
    qed
    then show ?thesis using Some by (simp add: masked_perm_def)
  qed (use a in \<open>simp add: masked_perm_def\<close>)
qed

lemma shapeD:
  assumes "acl_shape u us g gs m oth"
  shows "e_tag u = ACL_USER_OBJ" "named ACL_USER us" "e_tag g = ACL_GROUP_OBJ" "named ACL_GROUP gs" "e_tag oth = ACL_OTHER"
    "\<forall>k. m = Some k \<longrightarrow> e_tag k = ACL_MASK" "m = None \<Longrightarrow> us = [] \<and> gs = []"
    "perm_ok u" "perm_ok g" "perm_ok oth" "\<forall>k. m = Some k \<longrightarrow> perm_ok k"
  using assms by (auto simp: acl_shape_def mask_list_def split: option.splits)

lemma permission_shape:
  assumes "acl_shape u us g gs m oth" "a_entries acl = entries_of u us g gs m oth" "groups_wf (cred_groups cur)"
  shows "posix_acl_permission ino fsuid cur acl want =
    Some (if acl_grants (i_uid ino) (i_gid ino) fsuid (\<lambda>g. in_group_p g cur = Some 1) u us g gs m oth want
      then 0 else - EACCES)"
proof -
  note s = shapeD[OF assms(1)] and tot = in_group_p_total[OF assms(3)]
  have d: "ACL_GROUP_OBJ \<noteq> ACL_USER_OBJ" "ACL_GROUP_OBJ \<noteq> ACL_USER" "ACL_GROUP_OBJ \<noteq> ACL_MASK" "ACL_GROUP \<noteq> ACL_MASK" by (simp_all add: acl_consts)
  let ?mem = "\<lambda>g. in_group_p g cur = Some 1"
  let ?P = "perm_loop ino fsuid cur want"
  have mh: "\<forall>e. masked_perm m e want \<longrightarrow> has_perm e want" using masked_imp_has by blast
  have gm: "\<forall>x \<in> set gs. e_tag x \<noteq> ACL_MASK" using s(4) d by (simp add: named_def)
  have gm': "\<forall>x \<in> set (g # gs). e_tag x \<noteq> ACL_MASK" using gm s(3) d by simp
  note G = perm_loop_groups[OF s(4,5,6) tot, of ino fsuid want]
  have grp: "?P False (g # gs @ mask_list m @ [oth]) =
      Some (if ?mem (i_gid ino) \<or> (\<exists>e \<in> set gs. ?mem (e_id e))
        then (if ?mem (i_gid ino) \<and> masked_perm m g want \<or> (\<exists>e \<in> set gs. ?mem (e_id e) \<and> masked_perm m e want) then 0 else - EACCES)
        else check_perm oth want)"
  proof -
    consider "in_group_p (i_gid ino) cur = Some 0" | "?mem (i_gid ino)" "has_perm g want" | "?mem (i_gid ino)" "\<not> has_perm g want"
      using tot by blast
    then show ?thesis
    proof cases
      case 1
      then have "?P False (g # gs @ mask_list m @ [oth]) = ?P False (gs @ mask_list m @ [oth])" using s(3) d by simp
      then show ?thesis unfolding G[of False] using 1 mh by auto
    next
      case 2
      then have "?P False (g # gs @ mask_list m @ [oth]) = Some (perm_mask g want (gs @ mask_list m @ [oth]))"
        using s(3) d by (simp add: has_perm_def)
      then show ?thesis unfolding perm_mask_eq[OF gm s(5,6)] using 2(1) masked_share[OF 2(2), of m] by auto
    next
      case 3
      then have "?P False (g # gs @ mask_list m @ [oth]) = ?P True (gs @ mask_list m @ [oth])"
        using s(3) d by (simp add: has_perm_def)
      then show ?thesis unfolding G[of True] using 3 mh by auto
    qed
  qed
  have first: "posix_acl_permission ino fsuid cur acl want =
      (if i_uid ino = fsuid then Some (check_perm u want) else ?P False (us @ (g # gs) @ mask_list m @ [oth]))"
    using s(1) by (simp add: posix_acl_permission_def assms(2) entries_of_def)
  have "(g # gs) @ mask_list m @ [oth] = g # gs @ mask_list m @ [oth]" by simp
  then show ?thesis
    unfolding first perm_loop_users[OF s(2) gm' s(5,6)] acl_grants_def
    using grp by (auto simp: check_perm_def has_perm_def simp del: perm_loop.simps)
qed

section \<open>Lists and file modes\<close>

definition class_obj :: "posix_acl_entry \<Rightarrow> posix_acl_entry option \<Rightarrow> posix_acl_entry" where
  "class_obj g m = (case m of None \<Rightarrow> g | Some k \<Rightarrow> k)"

definition mode9 :: "posix_acl_entry \<Rightarrow> posix_acl_entry \<Rightarrow> posix_acl_entry \<Rightarrow> u32" where
  "mode9 u c oth = push_bit 6 (ucast (e_perm u)) OR push_bit 3 (ucast (e_perm c)) OR ucast (e_perm oth)"

lemma mode_masks: "S_IRWXO = mask 3" "S_IRWXG = push_bit 3 (mask 3)" "S_IRWXU = push_bit 6 (mask 3)" "S_IRWXUGO = mask 9"
  by (simp_all add: S_IRWXO_def S_IRWXG_def S_IRWXU_def S_IRWXUGO_def mask_eq_exp_minus_1)

lemma perm_ok_bit: "perm_ok e \<longleftrightarrow> (\<forall>n. bit (e_perm e) n \<longrightarrow> n < 3)"
proof -
  have "ACL_READ OR ACL_WRITE OR ACL_EXECUTE = mask 3" by (simp add: ACL_READ_def ACL_WRITE_def ACL_EXECUTE_def mask_eq_exp_minus_1)
  then have "perm_ok e \<longleftrightarrow> e_perm e AND NOT (mask 3) = 0" by (simp add: perm_ok_def)
  also have "\<dots> \<longleftrightarrow> (\<forall>n. bit (e_perm e) n \<longrightarrow> n < 3)"
    using bit_imp_le_length[of "e_perm e"] by (auto simp: bit_eq_iff bit_simps)
  finally show ?thesis .
qed

lemma equiv_skip:
  "named t es \<Longrightarrow> t = ACL_USER \<or> t = ACL_GROUP \<Longrightarrow>
   equiv_loop mode ne (es @ rest) = equiv_loop mode (if es = [] then ne else 1) rest"
proof (induction es arbitrary: ne)
  case (Cons e es)
  then have "named t es" "e_tag e = t" by (auto simp: named_def)
  then show ?case using Cons by (auto simp: acl_consts)
qed simp

lemma create_skip:
  "named t es \<Longrightarrow> t = ACL_USER \<or> t = ACL_GROUP \<Longrightarrow>
   create_loop i (es @ rest) mode go mo ne all = create_loop (i + length es) rest mode go mo (if es = [] then ne else 1) all"
proof (induction es arbitrary: i ne)
  case (Cons e es)
  then have "named t es" "e_tag e = t" by (auto simp: named_def)
  then show ?case using Cons by (auto simp: acl_consts)
qed simp

lemma chmod_skip:
  "named t es \<Longrightarrow> t = ACL_USER \<or> t = ACL_GROUP \<Longrightarrow>
   chmod_loop i (es @ rest) mode go mo all = chmod_loop (i + length es) rest mode go mo all"
proof (induction es arbitrary: i)
  case (Cons e es)
  then have "named t es" "e_tag e = t" by (auto simp: named_def)
  then show ?case using Cons by (auto simp: acl_consts)
qed simp

lemma tags_distinct:
  "ACL_USER_OBJ \<noteq> ACL_GROUP_OBJ" "ACL_USER_OBJ \<noteq> ACL_OTHER" "ACL_USER_OBJ \<noteq> ACL_MASK" "ACL_USER_OBJ \<noteq> ACL_USER" "ACL_USER_OBJ \<noteq> ACL_GROUP"
  "ACL_GROUP_OBJ \<noteq> ACL_OTHER" "ACL_GROUP_OBJ \<noteq> ACL_MASK" "ACL_GROUP_OBJ \<noteq> ACL_USER" "ACL_GROUP_OBJ \<noteq> ACL_GROUP"
  "ACL_OTHER \<noteq> ACL_MASK" "ACL_OTHER \<noteq> ACL_USER" "ACL_OTHER \<noteq> ACL_GROUP" "ACL_MASK \<noteq> ACL_USER" "ACL_MASK \<noteq> ACL_GROUP"
  by (simp_all add: acl_consts)

lemma equiv_mode_shape:
  assumes "acl_shape u us g gs m oth" "a_entries acl = entries_of u us g gs m oth"
  shows "posix_acl_equiv_mode acl mode_p = (if m = None then 0 else 1,
    map_option (\<lambda>mode. (mode AND NOT S_IRWXUGO) OR mode9 u (class_obj g m) oth) mode_p)"
proof -
  note s = shapeD[OF assms(1)] and d = tags_distinct tags_distinct[symmetric]
  note b = s(8-11)[unfolded perm_ok_bit]
  have "equiv_loop 0 0 (entries_of u us g gs m oth) = (if m = None then 0 else 1, mode9 u (class_obj g m) oth)"
  proof (cases m)
    case None
    then have "us = []" "gs = []" using s(7) by auto
    moreover have "push_bit 6 (ucast (e_perm u) AND S_IRWXO) OR push_bit 3 (ucast (e_perm g) AND S_IRWXO) OR (ucast (e_perm oth) AND S_IRWXO) = mode9 u g oth"
      using b by (auto simp: mode9_def mode_masks bit_eq_iff bit_simps)
    ultimately show ?thesis using None s(1,3,5) d by (simp add: entries_of_def mask_list_def class_obj_def or.assoc)
  next
    case (Some k)
    have "((push_bit 6 (ucast (e_perm u) AND S_IRWXO) OR push_bit 3 (ucast (e_perm g) AND S_IRWXO)) AND NOT S_IRWXG) OR
        push_bit 3 (ucast (e_perm k) AND S_IRWXO) OR (ucast (e_perm oth) AND S_IRWXO) = mode9 u k oth"
      using b Some by (auto simp: mode9_def mode_masks bit_eq_iff bit_simps)
    then show ?thesis using Some s(1,3,5,6) d
      by (simp add: entries_of_def mask_list_def class_obj_def or.assoc equiv_skip[OF s(2)] equiv_skip[OF s(4)])
  qed
  then show ?thesis by (simp add: posix_acl_equiv_mode_def assms(2) split: option.split)
qed
lemma bit_and_perm: "n < 16 \<Longrightarrow> bit (e_perm (and_perm x e)) n \<longleftrightarrow> bit (e_perm e) n \<and> bit x n"
  by (simp add: and_perm_def bit_simps)

lemma and_perm_cong:
  assumes "\<forall>n. bit (e_perm e) n \<longrightarrow> n < 3" "\<And>n. n < 3 \<Longrightarrow> bit x n = bit y n"
  shows "and_perm x e = and_perm y e"
proof -
  have "(ucast ((ucast (e_perm e) :: u32) AND x) :: u16) = ucast (ucast (e_perm e) AND y)"
    using assms by (auto simp: bit_eq_iff bit_simps)
  then show ?thesis by (simp add: and_perm_def)
qed

lemma masq_mode:
  fixes mode pu pc po :: u32
  assumes "\<forall>n. bit pu n \<longrightarrow> n < 3 \<and> bit mode (n + 6)" "\<forall>n. bit pc n \<longrightarrow> n < 3 \<and> bit mode (n + 3)" "\<forall>n. bit po n \<longrightarrow> n < 3 \<and> bit mode n"
  shows "(mode AND NOT S_IRWXUGO) OR (mode AND (push_bit 6 pu OR NOT S_IRWXU) AND (po OR NOT S_IRWXO) AND (push_bit 3 pc OR NOT S_IRWXG)) =
    (mode AND NOT S_IRWXUGO) OR push_bit 6 pu OR push_bit 3 pc OR po"
proof (rule bit_word_eqI)
  fix n assume n: "n < LENGTH(32)"
  consider "n < 3" | "3 \<le> n" "n < 6" | "6 \<le> n" "n < 9" | "9 \<le> n" by linarith
  then show "bit ((mode AND NOT S_IRWXUGO) OR (mode AND (push_bit 6 pu OR NOT S_IRWXU) AND (po OR NOT S_IRWXO) AND (push_bit 3 pc OR NOT S_IRWXG))) n =
    bit ((mode AND NOT S_IRWXUGO) OR push_bit 6 pu OR push_bit 3 pc OR po) n"
  proof cases
    case 1 then show ?thesis using assms(3) n by (auto simp: mode_masks bit_simps)
  next
    case 2 then show ?thesis using assms(2)[rule_format, of "n - 3"] assms(3)[rule_format, of n] n by (auto simp: mode_masks bit_simps)
  next
    case 3 then show ?thesis using assms(1)[rule_format, of "n - 6"] assms(2)[rule_format, of "n - 3"] assms(3)[rule_format, of n] n
      by (auto simp: mode_masks bit_simps)
  next
    case 4 then show ?thesis using assms(1)[rule_format, of "n - 6"] assms(2)[rule_format, of "n - 3"] assms(3)[rule_format, of n] n
      by (auto simp: mode_masks bit_simps)
  qed
qed

lemma create_masq_shape:
  fixes mode :: u32
  assumes "acl_shape u us g gs m oth" "a_entries acl = entries_of u us g gs m oth"
  defines "u' \<equiv> and_perm (drop_bit 6 mode) u" and "oth' \<equiv> and_perm mode oth" and "lim \<equiv> and_perm (drop_bit 3 mode)"
  defines "g' \<equiv> (if m = None then lim g else g)" and "m' \<equiv> map_option lim m"
  shows "posix_acl_create_masq acl mode = (if m = None then 0 else 1, acl\<lparr>a_entries := entries_of u' us g' gs m' oth'\<rparr>,
    (mode AND NOT S_IRWXUGO) OR mode9 u' (class_obj g' m') oth')"
proof -
  note s = shapeD[OF assms(1)] and d = tags_distinct tags_distinct[symmetric]
  note b = s(8-11)[unfolded perm_ok_bit]
  define c where "c = class_obj g m"
  define m1 where "m1 = mode AND (push_bit 6 (ucast (e_perm u')) OR NOT S_IRWXU)"
  define m2 where "m2 = m1 AND (ucast (e_perm oth') OR NOT S_IRWXO)"
  define m3 where "m3 = m2 AND (push_bit 3 (ucast (e_perm (lim c))) OR NOT S_IRWXG)"
  have bc: "\<forall>n. bit (e_perm c) n \<longrightarrow> n < 3" using b by (cases m) (auto simp: c_def class_obj_def)
  have eu: "and_perm (drop_bit 6 mode OR NOT S_IRWXO) u = u'"
    unfolding u'_def by (rule and_perm_cong[OF b(1)]) (auto simp: mode_masks bit_simps)
  have eo: "and_perm (m1 OR NOT S_IRWXO) oth = oth'"
    unfolding oth'_def by (rule and_perm_cong[OF b(3)]) (auto simp: m1_def mode_masks bit_simps)
  have ec: "and_perm (drop_bit 3 m2 OR NOT S_IRWXO) c = lim c"
    unfolding lim_def by (rule and_perm_cong[OF bc]) (auto simp: m1_def m2_def mode_masks bit_simps)
  have "(mode AND NOT S_IRWXUGO) OR m3 = (mode AND NOT S_IRWXUGO) OR push_bit 6 (ucast (e_perm u')) OR push_bit 3 (ucast (e_perm (lim c))) OR ucast (e_perm oth')"
    unfolding m3_def m2_def m1_def and.assoc
    by (rule masq_mode; use b(1,3) bc in \<open>auto simp: u'_def oth'_def lim_def and_perm_def bit_simps add.commute\<close>)
  then have fin: "(mode AND NOT S_IRWXUGO) OR m3 = (mode AND NOT S_IRWXUGO) OR mode9 u' (lim c) oth'"
    by (simp add: mode9_def or.assoc)
  show ?thesis
  proof (cases m)
    case None
    then have "us = []" "gs = []" "c = g" using s(7) by (auto simp: c_def class_obj_def)
    then show ?thesis using None s(1,3,5) d eu eo ec fin[unfolded m3_def]
      by (simp add: posix_acl_create_masq_def assms(2) entries_of_def mask_list_def class_obj_def Let_def g'_def m'_def
          m1_def[symmetric] m2_def[symmetric])
  next
    case (Some k)
    then have "c = k" by (simp add: c_def class_obj_def)
    then show ?thesis using Some s(1,3,5,6) d eu eo ec fin[unfolded m3_def]
      by (simp add: posix_acl_create_masq_def assms(2) entries_of_def mask_list_def class_obj_def Let_def g'_def m'_def
          create_skip[OF s(2)] create_skip[OF s(4)] list_update_append nth_append
          m1_def[symmetric] m2_def[symmetric])
  qed
qed

lemma chmod_masq_shape:
  fixes mode :: u32
  assumes "acl_shape u us g gs m oth" "a_entries acl = entries_of u us g gs m oth"
  defines "u' \<equiv> u\<lparr>e_perm := ucast (drop_bit 6 (mode AND S_IRWXU))\<rparr>" and "oth' \<equiv> oth\<lparr>e_perm := ucast (mode AND S_IRWXO)\<rparr>"
    and "lim \<equiv> \<lambda>e. e\<lparr>e_perm := ucast (drop_bit 3 (mode AND S_IRWXG))\<rparr>"
  defines "g' \<equiv> (if m = None then lim g else g)" and "m' \<equiv> map_option lim m"
  shows "posix_acl_chmod_masq acl mode = (0, acl\<lparr>a_entries := entries_of u' us g' gs m' oth'\<rparr>)"
proof -
  note s = shapeD[OF assms(1)] and d = tags_distinct tags_distinct[symmetric]
  show ?thesis
  proof (cases m)
    case None
    then have "us = []" "gs = []" using s(7) by auto
    then show ?thesis using None s(1,3,5) d
      by (simp add: posix_acl_chmod_masq_def assms(2) entries_of_def mask_list_def u'_def oth'_def lim_def g'_def m'_def)
  next
    case (Some k)
    then show ?thesis using s(1,3,5,6) d
      by (simp add: posix_acl_chmod_masq_def assms(2) entries_of_def mask_list_def u'_def oth'_def lim_def g'_def m'_def
          chmod_skip[OF s(2)] chmod_skip[OF s(4)] list_update_append nth_append)
  qed
qed


lemma valid_shape: "posix_acl_valid acl = 0 \<longleftrightarrow> (\<exists>u us g gs m oth. a_entries acl = entries_of u us g gs m oth \<and> acl_shape u us g gs m oth)"
  by (simp add: valid_iff acl_wf_def)

lemma valid_shapeI: "acl_shape u us g gs m oth \<Longrightarrow> a_entries acl = entries_of u us g gs m oth \<Longrightarrow> posix_acl_valid acl = 0"
  using valid_shape by blast

lemma shape_update:
  assumes "acl_shape u us g gs m oth" "e_tag u' = e_tag u" "e_tag g' = e_tag g" "e_tag oth' = e_tag oth"
    "perm_ok u'" "perm_ok g'" "perm_ok oth'" "\<forall>e. e_tag (h e) = e_tag e" "\<forall>k. m = Some k \<longrightarrow> perm_ok (h k)"
  shows "acl_shape u' us g' gs (map_option h m) oth'"
  using assms by (cases m) (auto simp: acl_shape_def mask_list_def)

lemma perm_ok_and: "perm_ok e \<Longrightarrow> perm_ok (and_perm x e)"
  by (auto simp: perm_ok_bit and_perm_def bit_simps)

lemma perm_ok_ucast: "(\<forall>n. bit x n \<longrightarrow> n < 3) \<Longrightarrow> perm_ok (e\<lparr>e_perm := ucast (x :: u32)\<rparr>)"
  by (auto simp: perm_ok_bit bit_simps)

lemma mode_triples:
  "\<forall>n. bit (drop_bit 6 (mode AND S_IRWXU)) n \<longrightarrow> n < 3" "\<forall>n. bit (drop_bit 3 (mode AND S_IRWXG)) n \<longrightarrow> n < 3"
  "\<forall>n. bit (mode AND S_IRWXO) n \<longrightarrow> n < 3"
  by (auto simp: mode_masks bit_simps)

lemma create_shape_ok:
  fixes mode :: u32
  assumes "acl_shape u us g gs m oth"
  shows "acl_shape (and_perm (drop_bit 6 mode) u) us (if m = None then and_perm (drop_bit 3 mode) g else g) gs
    (map_option (and_perm (drop_bit 3 mode)) m) (and_perm mode oth)"
  using shapeD(8-11)[OF assms] by (intro shape_update[OF assms]) (auto simp: perm_ok_and, auto simp: and_perm_def)

lemma chmod_shape_ok:
  fixes mode :: u32
  assumes "acl_shape u us g gs m oth"
  shows "acl_shape (u\<lparr>e_perm := ucast (drop_bit 6 (mode AND S_IRWXU))\<rparr>) us
    (if m = None then g\<lparr>e_perm := ucast (drop_bit 3 (mode AND S_IRWXG))\<rparr> else g) gs
    (map_option (\<lambda>e. e\<lparr>e_perm := ucast (drop_bit 3 (mode AND S_IRWXG))\<rparr>) m) (oth\<lparr>e_perm := ucast (mode AND S_IRWXO)\<rparr>)"
  using shapeD(8-11)[OF assms] mode_triples[of mode] by (intro shape_update[OF assms]) (auto simp: perm_ok_ucast)

lemma mode_split:
  fixes mode :: u32
  assumes "e_perm u = ucast (drop_bit 6 (mode AND S_IRWXU))" "e_perm c = ucast (drop_bit 3 (mode AND S_IRWXG))"
    "e_perm oth = ucast (mode AND S_IRWXO)"
  shows "mode9 u c oth = mode AND S_IRWXUGO"
proof (rule bit_word_eqI)
  fix n assume n: "n < LENGTH(32)"
  consider "n < 3" | "3 \<le> n" "n < 6" | "6 \<le> n" "n < 9" | "9 \<le> n" by linarith
  then show "bit (mode9 u c oth) n = bit (mode AND S_IRWXUGO) n"
    using n by cases (auto simp: mode9_def assms mode_masks bit_simps)
qed

lemma from_mode_shape:
  "\<exists>u g oth. acl_shape u [] g [] None oth \<and> mode9 u g oth = mode AND S_IRWXUGO \<and>
     posix_acl_from_mode True mode = Inr \<lparr>a_refcount = 1, a_entries = entries_of u [] g [] None oth\<rparr>"
proof -
  define u g oth where "u = \<lparr>e_tag = ACL_USER_OBJ, e_perm = ucast (drop_bit 6 (mode AND S_IRWXU)), e_id = ACL_UNDEFINED_ID\<rparr>"
    and "g = \<lparr>e_tag = ACL_GROUP_OBJ, e_perm = ucast (drop_bit 3 (mode AND S_IRWXG)), e_id = ACL_UNDEFINED_ID\<rparr>"
    and "oth = \<lparr>e_tag = ACL_OTHER, e_perm = ucast (mode AND S_IRWXO), e_id = ACL_UNDEFINED_ID\<rparr>"
  note ds = u_def g_def oth_def
  have "perm_ok u" "perm_ok g" "perm_ok oth"
    using mode_triples[of mode, THEN perm_ok_ucast, of u] mode_triples[of mode, THEN perm_ok_ucast, of g]
      mode_triples[of mode, THEN perm_ok_ucast, of oth] by (simp_all add: ds)
  moreover have "mode9 u g oth = mode AND S_IRWXUGO" by (rule mode_split) (simp_all add: ds)
  ultimately show ?thesis
    by (intro exI[of _ u] exI[of _ g] exI[of _ oth])
       (simp add: acl_shape_def named_def mask_list_def entries_of_def posix_acl_from_mode_def posix_acl_alloc_def ds)
qed

text \<open>
  C8: Every operation that makes or changes an access control list keeps it well typed: from a list
  that \<open>posix_acl_valid\<close> accepts, \<open>posix_acl_clone\<close>, \<open>posix_acl_create_masq\<close> and
  \<open>posix_acl_chmod_masq\<close> give a list that it accepts, and \<open>posix_acl_from_mode\<close> gives one for
  every mode; without memory the two that allocate fail without a list.
\<close>

theorem acl_operations_typed:
  assumes "posix_acl_valid acl = 0"
  shows "posix_acl_valid (fst (snd (posix_acl_create_masq acl mode))) = 0 \<and> posix_acl_valid (snd (posix_acl_chmod_masq acl mode)) = 0 \<and>
    (\<exists>a. posix_acl_clone True (Some acl) = Some a \<and> posix_acl_valid a = 0) \<and>
    (\<exists>a. posix_acl_from_mode True mode = Inr a \<and> posix_acl_valid a = 0) \<and>
    posix_acl_clone False (Some acl) = None \<and> posix_acl_from_mode False mode = Inl (- ENOMEM)"
proof -
  obtain u us g gs m oth where e: "a_entries acl = entries_of u us g gs m oth" and s: "acl_shape u us g gs m oth"
    using assms valid_shape by auto
  have "posix_acl_valid (fst (snd (posix_acl_create_masq acl mode))) = 0"
    unfolding create_masq_shape[OF s e] by (rule valid_shapeI[OF create_shape_ok[OF s, of mode]]) simp
  moreover have "posix_acl_valid (snd (posix_acl_chmod_masq acl mode)) = 0"
    unfolding chmod_masq_shape[OF s e] by (rule valid_shapeI[OF chmod_shape_ok[OF s, of mode]]) simp
  moreover have "\<exists>a. posix_acl_from_mode True mode = Inr a \<and> posix_acl_valid a = 0"
    using from_mode_shape[of mode] by (metis posix_acl.select_convs(2) valid_shapeI)
  ultimately show ?thesis using assms
    by (simp add: posix_acl_clone_def posix_acl_valid_def posix_acl_from_mode_def posix_acl_alloc_def)
qed


text \<open>
  C18: The mode bits and the list of a file describe the same access after each change of either. A
  list made from a mode is equivalent to that mode. Setting a mode with \<open>posix_acl_chmod_masq\<close>
  gives a list whose equivalent mode is the nine bits of the new mode, with the other bits of the
  file's mode untouched. After \<open>posix_acl_create_masq\<close> the mode it hands back is the equivalent
  mode of the new list, its return value says whether the list needs to be stored, and no bit is
  set that the requested mode had clear.
\<close>

theorem acl_mode_roundtrip:
  assumes "posix_acl_valid acl = 0"
  shows "(\<exists>a. posix_acl_from_mode True mode = Inr a \<and> posix_acl_equiv_mode a (Some old) = (0, Some ((old AND NOT S_IRWXUGO) OR (mode AND S_IRWXUGO)))) \<and>
    fst (posix_acl_chmod_masq acl mode) = 0 \<and>
    posix_acl_equiv_mode (snd (posix_acl_chmod_masq acl mode)) (Some old) =
      (fst (posix_acl_equiv_mode acl (Some old)), Some ((old AND NOT S_IRWXUGO) OR (mode AND S_IRWXUGO))) \<and>
    (let (r, acl', mode') = posix_acl_create_masq acl mode
     in posix_acl_equiv_mode acl' (Some mode) = (r, Some mode') \<and> 0 \<le> r \<and> mode' AND NOT mode = 0)"
proof (intro conjI)
  obtain u us g gs m oth where e: "a_entries acl = entries_of u us g gs m oth" and s: "acl_shape u us g gs m oth"
    using assms valid_shape by auto
  obtain u1 g1 oth1 where 1: "acl_shape u1 [] g1 [] None oth1" "mode9 u1 g1 oth1 = mode AND S_IRWXUGO"
      "posix_acl_from_mode True mode = Inr \<lparr>a_refcount = 1, a_entries = entries_of u1 [] g1 [] None oth1\<rparr>"
    using from_mode_shape by blast
  show "\<exists>a. posix_acl_from_mode True mode = Inr a \<and> posix_acl_equiv_mode a (Some old) = (0, Some ((old AND NOT S_IRWXUGO) OR (mode AND S_IRWXUGO)))"
    using 1 equiv_mode_shape[OF 1(1), of "\<lparr>a_refcount = 1, a_entries = entries_of u1 [] g1 [] None oth1\<rparr>" "Some old"]
    by (simp add: class_obj_def)
  show "fst (posix_acl_chmod_masq acl mode) = 0" by (simp add: chmod_masq_shape[OF s e])
  show "posix_acl_equiv_mode (snd (posix_acl_chmod_masq acl mode)) (Some old) =
      (fst (posix_acl_equiv_mode acl (Some old)), Some ((old AND NOT S_IRWXUGO) OR (mode AND S_IRWXUGO)))"
    unfolding chmod_masq_shape[OF s e] snd_conv equiv_mode_shape[OF s e] fst_conv
    by (subst equiv_mode_shape[OF chmod_shape_ok[OF s]], simp, subst mode_split) (auto simp: class_obj_def split: option.split)
  define c where "c = class_obj (if m = None then and_perm (drop_bit 3 mode) g else g) (map_option (and_perm (drop_bit 3 mode)) m)"
  have c: "c = and_perm (drop_bit 3 mode) (class_obj g m)" by (cases m) (simp_all add: c_def class_obj_def)
  have "mode9 (and_perm (drop_bit 6 mode) u) c (and_perm mode oth) AND NOT mode = 0"
    unfolding c by (rule bit_word_eqI) (auto simp: mode9_def and_perm_def bit_simps)
  then have n: "((mode AND NOT S_IRWXUGO) OR mode9 (and_perm (drop_bit 6 mode) u) c (and_perm mode oth)) AND NOT mode = 0"
    by (auto simp: bit_eq_iff bit_simps)
  have "posix_acl_equiv_mode (acl\<lparr>a_entries := entries_of (and_perm (drop_bit 6 mode) u) us (if m = None then and_perm (drop_bit 3 mode) g else g) gs
      (map_option (and_perm (drop_bit 3 mode)) m) (and_perm mode oth)\<rparr>) (Some mode) =
      (if m = None then 0 else 1, Some ((mode AND NOT S_IRWXUGO) OR mode9 (and_perm (drop_bit 6 mode) u) c (and_perm mode oth)))"
    unfolding c_def by (subst equiv_mode_shape[OF create_shape_ok[OF s]]) simp_all
  then show "let (r, acl', mode') = posix_acl_create_masq acl mode
     in posix_acl_equiv_mode acl' (Some mode) = (r, Some mode') \<and> 0 \<le> r \<and> mode' AND NOT mode = 0"
    using n unfolding create_masq_shape[OF s e] c_def[symmetric] by simp
qed


lemma has_perm_and: "has_perm (and_perm x e) want \<Longrightarrow> has_perm e want"
proof -
  assume a: "has_perm (and_perm x e) want"
  have "(ucast (e_perm e) :: u32) AND want = want"
  proof (rule bit_word_eqI)
    fix n assume "n < LENGTH(32)"
    then show "bit (ucast (e_perm e) AND want) n = bit want n"
      using a[unfolded has_perm_def, THEN arg_cong, of "\<lambda>w. bit w n"] by (auto simp: and_perm_def bit_simps)
  qed
  then show ?thesis by (simp add: has_perm_def)
qed

lemma masked_perm_and: "masked_perm (map_option (and_perm x) m) e want \<Longrightarrow> masked_perm m e want"
proof -
  assume a: "masked_perm (map_option (and_perm x) m) e want"
  show ?thesis
  proof (cases m)
    case (Some k)
    have "(ucast (e_perm e) :: u32) AND ucast (e_perm k) AND want = want"
    proof (rule bit_word_eqI)
      fix n assume "n < LENGTH(32)"
      then show "bit (ucast (e_perm e) AND ucast (e_perm k) AND want) n = bit want n"
        using a[unfolded masked_perm_def Some option.map option.case, THEN arg_cong, of "\<lambda>w. bit w n"]
        by (auto simp: and_perm_def bit_simps)
    qed
    then show ?thesis by (simp add: Some masked_perm_def)
  qed (use a in simp)
qed

text \<open>
  C20: \<open>posix_acl_valid\<close> accepts exactly the lists POSIX 1003.1e allows: one owner entry, named users
  in strictly increasing order of their ids, the owning group, named groups in strictly increasing
  order, a mask that is required as soon as there is a named entry, and one entry for others, with
  permissions of read, write and execute only; every other list is refused with \<open>EINVAL\<close>.
\<close>

theorem posix_acl_valid_correct: "posix_acl_valid acl = (if acl_wf (a_entries acl) then 0 else - EINVAL)"
proof -
  have "valid_loop st lo nm es = 0 \<or> valid_loop st lo nm es = - EINVAL" for st lo nm es
    by (induction es arbitrary: st lo nm) simp_all
  then show ?thesis using valid_iff[of acl] by (auto simp: posix_acl_valid_def)
qed

text \<open>
  C4: On a list that \<open>posix_acl_valid\<close> accepts, the decision of \<open>posix_acl_permission\<close> is the one of
  the access check algorithm of POSIX 1003.1e, for every process and every requested access; in
  particular it never reports the internal error \<open>EIO\<close>.
\<close>

theorem posix_acl_permission_correct:
  assumes "posix_acl_valid acl = 0" "groups_wf (cred_groups cur)"
  shows "\<exists>u us g gs m oth. a_entries acl = entries_of u us g gs m oth \<and> acl_shape u us g gs m oth \<and>
    (\<forall>ino fsuid want. posix_acl_permission ino fsuid cur acl want =
      Some (if acl_grants (i_uid ino) (i_gid ino) fsuid (\<lambda>g. in_group_p g cur = Some 1) u us g gs m oth want
        then 0 else - EACCES))"
  using permission_shape[OF _ _ assms(2)] assms(1) unfolding valid_shape by metis

text \<open>
  C17: Creating a file with \<open>posix_acl_create_masq\<close> never widens access: whatever the requested mode,
  an access that the list of the new file grants to a process was granted by the inherited list.
\<close>

theorem acl_create_never_widens:
  assumes "posix_acl_valid acl = 0" "groups_wf (cred_groups cur)"
    and "posix_acl_permission ino fsuid cur (fst (snd (posix_acl_create_masq acl mode))) want = Some 0"
  shows "posix_acl_permission ino fsuid cur acl want = Some 0"
proof -
  obtain u us g gs m oth where e: "a_entries acl = entries_of u us g gs m oth" and s: "acl_shape u us g gs m oth"
    using assms(1) valid_shape by auto
  let ?A = "\<lambda>u g m oth. acl_grants (i_uid ino) (i_gid ino) fsuid (\<lambda>g. in_group_p g cur = Some 1) u us g gs m oth want"
  let ?g = "if m = None then and_perm (drop_bit 3 mode) g else g" and ?m = "map_option (and_perm (drop_bit 3 mode)) m"
  have g: "masked_perm ?m ?g want \<Longrightarrow> masked_perm m g want"
    using masked_perm_and[of "drop_bit 3 mode" m] has_perm_and[of "drop_bit 3 mode" g want] by (cases m) (auto simp: masked_perm_def)
  have "?A (and_perm (drop_bit 6 mode) u) ?g ?m (and_perm mode oth)"
    using assms(3) unfolding create_masq_shape[OF s e] fst_conv snd_conv
    by (subst (asm) permission_shape[OF create_shape_ok[OF s] _ assms(2)]) (auto simp: errno_defs split: if_splits)
  then have "?A u g m oth"
    using g has_perm_and[of "drop_bit 6 mode" u want] has_perm_and[of mode oth want] masked_perm_and[of "drop_bit 3 mode" m _ want]
    unfolding acl_grants_def by (auto split: if_splits)
  then show ?thesis using permission_shape[OF s e assms(2)] by simp
qed

definition demo_acl :: posix_acl where
  "demo_acl = \<lparr>a_refcount = 1, a_entries =
     [\<lparr>e_tag = ACL_USER_OBJ, e_perm = 7, e_id = ACL_UNDEFINED_ID\<rparr>, \<lparr>e_tag = ACL_USER, e_perm = 6, e_id = 1000\<rparr>,
      \<lparr>e_tag = ACL_GROUP_OBJ, e_perm = 5, e_id = ACL_UNDEFINED_ID\<rparr>, \<lparr>e_tag = ACL_MASK, e_perm = 4, e_id = ACL_UNDEFINED_ID\<rparr>,
      \<lparr>e_tag = ACL_OTHER, e_perm = 0, e_id = ACL_UNDEFINED_ID\<rparr>]\<rparr>"

definition demo_inode :: inode where
  "demo_inode = \<lparr>i_uid = 0, i_gid = 1\<rparr>"

lemma demo_acl_facts: "posix_acl_valid demo_acl = 0" "groups_wf (cred_groups plain_cred)"
  by code_simp (simp add: plain_cred_def groups_wf_def groups_consts)

theorem posix_acl_permission_correct_witness:
  "(\<exists>u us g gs m oth. a_entries demo_acl = entries_of u us g gs m oth \<and> acl_shape u us g gs m oth \<and>
     posix_acl_permission demo_inode 1000 plain_cred demo_acl 2 =
       Some (if acl_grants 0 1 1000 (\<lambda>g. in_group_p g plain_cred = Some 1) u us g gs m oth 2 then 0 else - EACCES)) \<and>
   posix_acl_permission demo_inode 1000 plain_cred demo_acl 2 = Some (- EACCES)"
proof -
  have "i_uid demo_inode = 0" "i_gid demo_inode = 1" by (simp_all add: demo_inode_def)
  moreover have "posix_acl_permission demo_inode 1000 plain_cred demo_acl 2 = Some (- EACCES)" by code_simp
  ultimately show ?thesis using posix_acl_permission_correct[OF demo_acl_facts] by metis
qed

theorem acl_create_never_widens_witness:
  "fst (snd (posix_acl_create_masq demo_acl 0x1A0)) \<noteq> demo_acl \<and> posix_acl_permission demo_inode 1000 plain_cred demo_acl 4 = Some 0"
proof -
  have "posix_acl_permission demo_inode 1000 plain_cred (fst (snd (posix_acl_create_masq demo_acl 0x1A0))) 4 = Some 0" by code_simp
  moreover have "map e_perm (a_entries (fst (snd (posix_acl_create_masq demo_acl 0x1A0)))) \<noteq> map e_perm (a_entries demo_acl)" by code_simp
  ultimately show ?thesis using acl_create_never_widens[OF demo_acl_facts] by metis
qed

theorem acl_operations_typed_witness:
  "posix_acl_valid (fst (snd (posix_acl_create_masq demo_acl 0x1A0))) = 0 \<and> posix_acl_valid (snd (posix_acl_chmod_masq demo_acl 0x1ED)) = 0"
  using acl_operations_typed[OF demo_acl_facts(1), of "0x1A0"] acl_operations_typed[OF demo_acl_facts(1), of "0x1ED"] by blast

theorem acl_mode_roundtrip_witness:
  "posix_acl_equiv_mode (snd (posix_acl_chmod_masq demo_acl 0x1ED)) (Some 0x81A4) = (1, Some 0x81ED)"
proof -
  have "(0x81A4 AND NOT S_IRWXUGO) OR (0x1ED AND S_IRWXUGO) = 0x81ED" "fst (posix_acl_equiv_mode demo_acl (Some 0x81A4)) = 1"
    by code_simp+
  then show ?thesis using acl_mode_roundtrip[OF demo_acl_facts(1), of "0x1ED" "0x81A4"] by simp
qed

end
