(* ===== verification/Spec2Isabelle.thy ===== *)
theory Spec2Isabelle
  imports Bitmap_Region Bitmap_Map Iommu_Area Kfifo_Concurrent Res_Counter Lmb Resource Cipher_Modes Arc4 Semaphore Rwsem
    Page_Alloc Posix_Acl
begin

text \<open>
  A verification library for core data structures, allocators, locks, ciphers and access control of the
  Linux kernel 2.6.32 in its 64-bit big-endian MIPS (Cavium OCTEON) configuration. File names below are relative to
  \<open>src/linux/\<close>.

  \<^bold>\<open>Parts of the program and their theories\<close>

  \<^item> Machine vocabulary. \<open>KPrelude\<close> has the integer types, error numbers, bounds-checked array access,
    block copies, counted loops in the option monad and the lemmas on words and alignment that every
    component uses. \<open>Byteorder\<close> has 32-bit words in byte buffers and \<open>include/linux/swab.h\<close>.
  \<^item> Bits and bitmaps. \<open>Bitops\<close> (\<open>arch/mips/include/asm/bitops.h\<close>, \<open>include/linux/log2.h\<close>,
    \<open>lib/hweight.c\<close>) gives single-word searches; \<open>Find_Bit\<close> (\<open>lib/find_next_bit.c\<close>,
    \<open>lib/find_last_bit.c\<close>) builds the array searches on them; \<open>Bitmap\<close>, \<open>Bitmap_Region\<close> and
    \<open>Bitmap_Map\<close> (\<open>lib/bitmap.c\<close>) the set operations, the region allocator and the remapping
    functions; \<open>Iommu_Area\<close> (\<open>lib/iommu-helper.c\<close>) a second allocator over the same bitmaps.
  \<^item> Queues and accounting. \<open>Kfifo\<close> and \<open>Kfifo_Concurrent\<close> (\<open>kernel/kfifo.c\<close>): the ring buffer and its
    lock-free use by one reader and one writer. \<open>Res_Counter\<close> (\<open>kernel/res_counter.c\<close>): hierarchical
    counters in a store from addresses to records.
  \<^item> Address space. \<open>Lmb\<close> (\<open>lib/lmb.c\<close>): the boot-time allocator over sorted region tables. \<open>Resource\<close>
    (\<open>kernel/resource.c\<close>): the tree of I/O and memory ranges in an explicit heap with the code's three
    pointers.
  \<^item> Pages. \<open>Buddy_Blocks\<close> has the aligned blocks of power-of-two size and their pairing, \<open>Buddy\<close>
    (\<open>mm/page_alloc.c\<close>) the state of a zone (free lists by order and migrate type, the page structures,
    the pageblock types) with the operations under the zone lock and its representation invariant,
    \<open>Buddy_Ops\<close> what each operation does to it, and \<open>Page_Alloc\<close> the bulk transfers between the free
    lists and the per-CPU lists, pageblock isolation, and the properties of runs.
  \<^item> Access control. \<open>Group_List\<close> (\<open>kernel/groups.c\<close>): the supplementary groups of a process in blocks
    of one page, their sorting and search, and the system calls \<open>getgroups\<close> and \<open>setgroups\<close>.
    \<open>Posix_Acl\<close> (\<open>fs/posix_acl.c\<close>): access control lists, which ask \<open>in_group_p\<close> of \<open>Group_List\<close>.
  \<^item> Locks. \<open>Semaphore\<close> (\<open>kernel/semaphore.c\<close>) and \<open>Rwsem\<close> (\<open>lib/rwsem-spinlock.c\<close>): each section under
    the internal spinlock is one step of a transition system over any number of tasks.
  \<^item> Ciphers. \<open>Tea\<close> (\<open>crypto/tea.c\<close>) and \<open>Arc4\<close> (\<open>crypto/arc4.c\<close>); \<open>Algapi\<close> (\<open>crypto/algapi.c\<close>) the byte
    helpers of the modes; \<open>Block_Modes\<close> (\<open>crypto/ecb.c\<close>, \<open>cbc.c\<close>, \<open>pcbc.c\<close>, \<open>ctr.c\<close>) the modes over an
    arbitrary cipher; \<open>Cipher_Modes\<close> their properties with the TEA family as instances.

  \<^bold>\<open>How code becomes definitions\<close>

  A C function is a definition of the same name (two leading underscores become \<open>raw_\<close>, a label or a
  loop gets a definition of its own). A result \<open>None\<close> stands for undefined behaviour: an access outside
  an array, a \<open>BUG_ON\<close>, a panic, or a loop that does not end. So every equation \<open>f x = Some y\<close> in a
  property also says that the code runs to completion inside its arrays. Integers that can wrap are
  words of their C width; sizes whose arithmetic is guarded in the code are naturals. Structures reached
  through pointers live in a map from addresses. Loops that are not structurally recursive are partial
  functions in the option monad and are proved to return; no fuel is used. Memory allocation, the
  address an allocation returns, alignment callbacks, pending signals, the time that passes while a task
  sleeps, the cipher of a block mode, the readable user memory, capabilities and the security hook are
  parameters.

  \<^bold>\<open>Interfaces\<close>

  \<^item> \<open>bit_scan\<close> (\<open>Find_Bit\<close>): what a search from a start position promises, interpreted by the forward
    searches for set and for clear bits.
  \<^item> \<open>bit_allocator\<close> (\<open>Bitmap_Region\<close>): allocation never hands out a cell twice over any sequence of
    calls, interpreted by the region allocator and by the IOMMU area allocator.
  \<^item> \<open>byte_queue\<close> (\<open>Kfifo\<close>): a bounded queue of bytes with put, get and reset, interpreted by the locked
    and by the unlocked FIFO.
  \<^item> \<open>delta_loops\<close> (\<open>Tea\<close>): loops that run until a wrapping sum hits a limit, interpreted by XTEA and XETA.
  \<^item> \<open>block_cipher\<close> (\<open>Block_Modes\<close>): what a mode needs of a cipher, interpreted by TEA, XTEA and XETA.

  \<^item> \<open>block_provider\<close> (\<open>Page_Alloc\<close>): what one allocation and one release of a block promise, from which
    the ledger of every run follows, interpreted by \<open>__rmqueue\<close> and \<open>__free_one_page\<close>.

  \<^bold>\<open>What is shown\<close>

  \<^item> Searches and bitmaps: each search returns the extremal bit; each word-wise operation is the set
    operation on bit numbers; remapping, folding and ordinals are the documented images.
  \<^item> Allocators: region, IOMMU, lmb and resource allocation return the documented block (lowest or
    highest, aligned, within limits) or the documented error exactly when there is none; outstanding
    allocations never overlap; invariants of the tables and of the tree survive every operation.
  \<^item> Page allocator: over every run the outstanding blocks are disjoint and together with the free pages
    are the pages of the start; freeing merges with every free buddy, so the free blocks of a zone are
    determined by its free pages; an allocation fails only when no usable block is large enough; the
    bulk operations end and keep the counters. Every operation is shown to run without tripping a
    \<open>BUG_ON\<close> from a zone that satisfies the invariant.
  \<^item> Access control: \<open>setgroups\<close> is all or nothing and \<open>getgroups\<close> and \<open>in_group_p\<close> see what it installed;
    \<open>posix_acl_valid\<close> accepts exactly the lists of the standard's form, every operation keeps them so, the
    access decision is the standard's algorithm, list and mode bits agree after every change, and
    creating a file never widens access.
  \<^item> Queue: every sequence of puts, gets and resets moves exactly the bytes and reports exactly the counts
    of a bounded queue.
  \<^item> Concurrency: the FIFO is safe for one reader and one writer at the granularity of memory accesses;
    the semaphores keep their counts under every interleaving, writers exclude everybody, wake-ups are
    not lost, and waiters are served in order.
  \<^item> Accounting: a charge succeeds on the whole path to the root or leaves no trace; usage is the sum of
    the outstanding charges of a subtree.
  \<^item> Ciphers: decryption inverts encryption for every key, text and mode, in place and out of place;
    the loops end; counters of CTR mode do not repeat; the ARC4 table stays a permutation.

  Where the code departs from its comments or from what it means to do, a lemma next to the component
  exhibits a concrete case: \<open>lmb_is_reserved_initial\<close>, \<open>lmb_alloc_base_wraps\<close> (the property of the
  allocator describes every such call) and
  \<open>lmb_add_after_last_remove\<close> in \<open>Lmb\<close>, \<open>allocate_single_address\<close> and \<open>allocate_wraps\<close> in \<open>Resource\<close>,
  \<open>groups_search_misses\<close> in \<open>Group_List\<close> (membership is therefore shown for ids whose distance to the
  listed ones is below \<open>2 ^ 31\<close>).

  \<^bold>\<open>Not modelled\<close>

  Spinlocks and memory barriers appear only as the atomicity and order of steps; a charge of a resource
  counter is one step although the code locks the counters of a path one after the other. The text formats of
  \<open>lib/bitmap.c\<close> (parsing and printing of masks and lists), the files under \<open>/proc\<close>, managed device
  resources, the iteration of the crypto core over scatter lists of pages (\<open>crypto/blkcipher.c\<close>) and the
  registration of algorithms are left out: they are string formatting over variable arguments, I/O, or
  plumbing. Of \<open>mm/page_alloc.c\<close> the choice of zones, watermarks, reclaim and the per-CPU fast path are
  left out, as are the reference counts of group and access control lists and the caches of such lists
  in inodes. The rest of the kernel (scheduler, virtual memory, the other file systems, networking,
  drivers, exception entry) depends on hardware state, interrupts, user memory or per-CPU data that a
  shallow embedding at this level would have to invent.
\<close>

end
